(* ===== verification/Shm_Prelude.thy ===== *)
theory Shm_Prelude
  imports Main "HOL-Library.Word" "HOL-Library.Monad_Syntax"
begin

text \<open>
  Shared vocabulary of the development: the machine integers and byte strings of the
  program, the two primitive memory accesses every \<open>memcpy\<close> of the code is made of,
  the circular view of a byte array, little-endian integer layouts, and the generic
  lemmas on lists and words that the component theories use.

  A value of type \<open>'a option\<close> returned by an operation stands for an execution that
  may be undefined: \<open>None\<close> is an out-of-bounds \<open>memcpy\<close> or a failed \<open>assert\<close>.
\<close>

unbundle bit_operations_syntax

type_synonym u8 = "8 word"
type_synonym u16 = "16 word"
type_synonym u32 = "32 word"
type_synonym u64 = "64 word"
type_synonym bytes = "u8 list"

text \<open>How a call that may throw ends.\<close>

datatype 'a outcome = Ret 'a | Throw

lemma ex_bool [simp]: "\<exists>b :: bool. b" "\<exists>b. \<not> b"
  by auto

text \<open>
  \<open>shm_defs\<close> collects the definitions of small accessors, \<open>ring_simps\<close> the rewrite
  rules on circular slices that carry the ring-buffer proofs, \<open>pos_simps\<close> the rules on
  wrapping 64-bit positions.
\<close>

named_theorems shm_defs
named_theorems ring_simps
named_theorems pos_simps

section \<open>Memory\<close>

text \<open>
  \<open>mem_read m off n\<close> is the source side of \<open>memcpy(_, m + off, n)\<close> and
  \<open>mem_write m off src\<close> the destination side of \<open>memcpy(m + off, src, |src|)\<close>;
  both are undefined outside the object.
\<close>

definition mem_read :: "bytes \<Rightarrow> nat \<Rightarrow> nat \<Rightarrow> bytes option" where
  "mem_read m off n = (if off + n \<le> length m then Some (take n (drop off m)) else None)"

definition mem_write :: "bytes \<Rightarrow> nat \<Rightarrow> bytes \<Rightarrow> bytes option" where
  "mem_write m off src =
     (if off + length src \<le> length m
      then Some (take off m @ src @ drop (off + length src) m) else None)"

lemma mem_read_0 [simp]: "n \<le> length m \<Longrightarrow> mem_read m 0 n = Some (take n m)"
  by (simp add: mem_read_def)

lemma mem_read_SomeD: "mem_read m off n = Some x \<Longrightarrow> length x = n \<and> off + n \<le> length m"
  by (auto simp: mem_read_def split: if_splits)

lemma mem_write_length: "mem_write m off src = Some m' \<Longrightarrow> length m' = length m"
  by (auto simp: mem_write_def split: if_splits)

lemma mem_write_append:
  "length xs = n \<Longrightarrow> length zs \<le> length ys \<Longrightarrow> mem_write (xs @ ys) n zs = Some (xs @ zs @ drop (length zs) ys)"
  by (auto simp: mem_write_def)

text \<open>A write that stays inside the object is read back by a read of the same range.\<close>

lemma mem_read_write_same:
  "mem_write m off src = Some m' \<Longrightarrow> mem_read m' off (length src) = Some src"
  by (auto simp: mem_write_def mem_read_def split: if_splits)

section \<open>Circular slices\<close>

text \<open>
  \<open>ring_slice d p n\<close> are the \<open>n\<close> bytes that start at logical position \<open>p\<close> of the
  circular array \<open>d\<close>; \<open>ring_put d p xs\<close> is the reference definition of a circular
  write: slot \<open>j\<close> gets byte number \<open>(j - p) mod |d|\<close> of \<open>xs\<close> if there is one.
\<close>

definition ring_slice :: "bytes \<Rightarrow> nat \<Rightarrow> nat \<Rightarrow> bytes" where
  "ring_slice d p n = map (\<lambda>i. d ! ((p + i) mod length d)) [0..<n]"

definition ring_put :: "bytes \<Rightarrow> nat \<Rightarrow> bytes \<Rightarrow> bytes" where
  "ring_put d p xs =
     map (\<lambda>j. let i = (j + (length d - p mod length d)) mod length d
              in if i < length xs then xs ! i else d ! j) [0..<length d]"

lemma length_ring_slice [simp]: "length (ring_slice d p n) = n"
  by (simp add: ring_slice_def)

lemma length_ring_put [simp]: "length (ring_put d p xs) = length d"
  by (simp add: ring_put_def)

lemma ring_slice_0 [simp]: "ring_slice d p 0 = []"
  by (simp add: ring_slice_def)

lemma nth_ring_slice [simp]: "i < n \<Longrightarrow> ring_slice d p n ! i = d ! ((p + i) mod length d)"
  by (simp add: ring_slice_def)

lemma ring_slice_cong_mod:
  "p mod length d = q mod length d \<Longrightarrow> ring_slice d p n = ring_slice d q n"
  by (simp add: ring_slice_def) (metis mod_add_cong)

lemma ring_slice_mod [ring_simps]: "ring_slice d (p mod length d) n = ring_slice d p n"
  by (rule ring_slice_cong_mod) simp

lemma ring_slice_append: "ring_slice d p (m + n) = ring_slice d p m @ ring_slice d (p + m) n"
  by (rule nth_equalityI) (auto simp: nth_append add.assoc)

lemma take_ring_slice [simp]: "m \<le> n \<Longrightarrow> take m (ring_slice d p n) = ring_slice d p m"
  by (rule nth_equalityI) auto

lemma drop_ring_slice: "m \<le> n \<Longrightarrow> drop m (ring_slice d p n) = ring_slice d (p + m) (n - m)"
  by (rule nth_equalityI) (auto simp: add.assoc)

text \<open>The slice that fits before the end of the array, and the one that wraps around.\<close>

lemma ring_slice_contig:
  "p + n \<le> length d \<Longrightarrow> ring_slice d p n = take n (drop p d)"
  by (rule nth_equalityI) auto

lemma ring_slice_wrap:
  assumes "p < length d" "length d < p + n" "n \<le> length d"
  shows "ring_slice d p n = drop p d @ take (n - (length d - p)) d"
proof -
  have "ring_slice d p (length d - p + (n - (length d - p)))
      = ring_slice d p (length d - p) @ ring_slice d (length d) (n - (length d - p))"
    using assms by (subst ring_slice_append) simp
  moreover have "ring_slice d (length d) (n - (length d - p)) = ring_slice d 0 (n - (length d - p))"
    by (rule ring_slice_cong_mod) simp
  ultimately show ?thesis
    using assms by (simp add: ring_slice_contig)
qed

text \<open>A slot index written as logical position plus offset determines the offset.\<close>

lemma ring_index_offset:
  assumes "i < (c::nat)"
  shows "((p + i) mod c + (c - p mod c)) mod c = i"
proof -
  have pc: "p mod c \<le> c" using assms by simp
  have "((p + i) mod c + (c - p mod c)) mod c = (p + i + (c - p mod c)) mod c"
    by (simp add: mod_add_left_eq)
  also have "\<dots> = (i + (p mod c + (c - p mod c)) + c * (p div c)) mod c"
    by (metis add.assoc add.commute mult_div_mod_eq)
  also have "\<dots> = i" using assms pc by simp
  finally show ?thesis .
qed

lemma ring_offset_index:
  assumes "j < (c::nat)"
  shows "(p + (j + (c - p mod c)) mod c) mod c = j"
proof -
  have pc: "p mod c \<le> c" using assms by simp
  have "(p + (j + (c - p mod c)) mod c) mod c = (p mod c + (j + (c - p mod c))) mod c"
    by (simp add: mod_add_right_eq mod_add_left_eq)
  also have "p mod c + (j + (c - p mod c)) = j + c" using pc by simp
  finally show ?thesis using assms by simp
qed

lemma nth_ring_put:
  assumes "i < length d"
  shows "ring_put d p xs ! ((p + i) mod length d)
       = (if i < length xs then xs ! i else d ! ((p + i) mod length d))"
proof -
  have "(p + i) mod length d < length d" using assms by (intro mod_less_divisor) linarith
  then show ?thesis
    by (simp add: ring_put_def ring_index_offset [OF assms] Let_def del: mod_less_divisor)
qed

text \<open>What was put is what the slice at the same position returns.\<close>

lemma ring_slice_put_same:
  "length xs \<le> length d \<Longrightarrow> ring_slice (ring_put d p xs) p (length xs) = xs"
  by (rule nth_equalityI) (auto simp: nth_ring_put)

text \<open>
  A slice that ends at or before the put position, and that the put does not reach going
  round, is unchanged: this is the free-space argument of the ring.
\<close>

lemma ring_slice_put_other:
  assumes "q + n \<le> p" "p + length xs \<le> q + length d"
  shows "ring_slice (ring_put d p xs) q n = ring_slice d q n"
proof (rule nth_equalityI)
  fix i assume "i < length (ring_slice (ring_put d p xs) q n)"
  then have i: "i < n" by simp
  define k where "k = q + i + length d - p"
  have k: "length xs \<le> k" "k < length d" "p + k = q + i + length d"
    using assms i by (auto simp: k_def)
  have "(p + k) mod length d = (q + i) mod length d"
    using k(3) by simp
  then have "ring_put d p xs ! ((q + i) mod length d) = d ! ((q + i) mod length d)"
    using nth_ring_put [OF k(2), of p xs] k(1) by simp
  then show "ring_slice (ring_put d p xs) q n ! i = ring_slice d q n ! i"
    using i by simp
qed simp

text \<open>The slice across the put position is the old slice followed by the new bytes.\<close>

lemma ring_slice_put_append [ring_simps]:
  assumes "n + length xs \<le> length d"
  shows "ring_slice (ring_put d (q + n) xs) q (n + length xs) = ring_slice d q n @ xs"
  using assms by (simp add: ring_slice_append ring_slice_put_same ring_slice_put_other)

lemma ring_put_cong_mod:
  "p mod length d = q mod length d \<Longrightarrow> ring_put d p xs = ring_put d q xs"
  by (simp add: ring_put_def)

text \<open>Consecutive puts are one put of the concatenation.\<close>

lemma ring_put_put:
  assumes "length xs + length ys \<le> length d"
  shows "ring_put (ring_put d p xs) (p + length xs) ys = ring_put d p (xs @ ys)"
proof (rule nth_equalityI)
  fix j assume "j < length (ring_put (ring_put d p xs) (p + length xs) ys)"
  then have j: "j < length d" by simp
  define i where "i = (j + (length d - p mod length d)) mod length d"
  have i: "i < length d" using j unfolding i_def by (intro mod_less_divisor) linarith
  have ji: "(p + i) mod length d = j"
    unfolding i_def using j by (rule ring_offset_index)
  show "ring_put (ring_put d p xs) (p + length xs) ys ! j = ring_put d p (xs @ ys) ! j"
  proof (cases "i < length xs")
    case True
    define k where "k = i + length d - length xs"
    have k: "k < length d" "length ys \<le> k" "p + length xs + k = p + i + length d"
      using True assms i by (auto simp: k_def)
    have e: "(p + length xs + k) mod length d = j" using ji by (simp only: k(3) mod_add_self2)
    have "ring_put (ring_put d p xs) (p + length xs) ys ! j = ring_put d p xs ! j"
      using nth_ring_put [of k "ring_put d p xs" "p + length xs" ys] k(1,2)
      by (simp only: length_ring_put e) simp
    then show ?thesis
      using nth_ring_put [OF i, of p xs] nth_ring_put [OF i, of p "xs @ ys"] ji True
      by (simp add: nth_append)
  next
    case False
    then have k: "i - length xs < length d" "p + length xs + (i - length xs) = p + i"
      using i by auto
    show ?thesis
      using nth_ring_put [of "i - length xs" "ring_put d p xs" "p + length xs" ys]
        nth_ring_put [OF i, of p xs] nth_ring_put [OF i, of p "xs @ ys"] ji False k
      by (auto simp: nth_append)
  qed
qed simp

section \<open>Wrapping 64-bit positions\<close>

text \<open>
  \<open>write_pos\<close> and \<open>read_pos\<close> are 64-bit counters that may wrap around; what matters is
  their distance \<open>w - r\<close> modulo \<open>2 ^ 64\<close>.
\<close>

definition dist :: "u64 \<Rightarrow> u64 \<Rightarrow> nat" where
  "dist w r = unat (w - r)"

lemma dist_self [simp]: "dist r r = 0"
  by (simp add: dist_def)

lemma dist_eq_0 [simp]: "dist w r = 0 \<longleftrightarrow> w = r"
  by (simp add: dist_def unat_eq_zero)

lemma dist_bound [simp]: "dist w r < 18446744073709551616"
  unfolding dist_def using unsigned_less [of "w - r", where ?'a = nat] by simp

lemma unat_of_nat_u64: "n < 18446744073709551616 \<Longrightarrow> unat (word_of_nat n :: u64) = n"
  by (simp add: unat_of_nat take_bit_eq_mod)

lemma unat_of_nat_u32: "n < 4294967296 \<Longrightarrow> unat (word_of_nat n :: u32) = n"
  by (simp add: unat_of_nat take_bit_eq_mod)

lemma unat_u32_bound [simp]: "unat (x :: u32) < 4294967296"
  using unsigned_less [of x, where ?'a = nat] by simp

lemma unat_u16_bound [simp]: "unat (x :: u16) < 65536"
  using unsigned_less [of x, where ?'a = nat] by simp

lemma unat_ucast_32_64 [simp]: "unat (ucast (x :: u32) :: u64) = unat x"
proof -
  have "unat x < 18446744073709551616" using unat_u32_bound [of x] by linarith
  then show ?thesis by (simp add: unsigned_ucast_eq take_bit_eq_mod)
qed

lemma ucast_u32_eq_0: "(ucast (x :: u32) :: u64) = 0 \<longleftrightarrow> x = 0"
  by (metis unat_0 unat_eq_zero unat_ucast_32_64)

lemma ucast_of_nat_u32:
  assumes "n < 4294967296"
  shows "(ucast (word_of_nat n :: u32) :: u64) = word_of_nat n"
proof -
  have "unat (ucast (word_of_nat n :: u32) :: u64) = unat (word_of_nat n :: u64)"
    using assms by (simp add: unat_of_nat_u32 unat_of_nat_u64)
  then show ?thesis by (rule unsigned_word_eqI)
qed

lemma unat_add_u64:
  "unat (a :: u64) + unat b < 18446744073709551616 \<Longrightarrow> unat (a + b) = unat a + unat b"
  by (subst unat_add_lem [symmetric]) simp

lemma dist_add_left:
  assumes "dist w r + unat n < 18446744073709551616"
  shows "dist (w + n) r = dist w r + unat n"
proof -
  have "w + n - r = (w - r) + n" by simp
  then show ?thesis using assms by (simp only: dist_def unat_add_u64)
qed

lemma dist_add_right:
  assumes "unat n \<le> dist w r"
  shows "dist w (r + n) = dist w r - unat n"
proof -
  have "w - (r + n) = (w - r) - n" by simp
  moreover have "n \<le> w - r" using assms by (simp add: dist_def word_le_nat_alt)
  ultimately show ?thesis by (simp only: dist_def unat_sub)
qed

lemma dist_split:
  assumes "dist c b + dist b a < 18446744073709551616"
  shows "dist c a = dist c b + dist b a"
proof -
  have "c - a = (c - b) + (b - a)" by simp
  then show ?thesis using assms unat_add_u64 [of "c - b" "b - a"] by (simp only: dist_def)
qed

text \<open>
  Reading a position modulo a capacity that divides \<open>2 ^ 64\<close> commutes with the wrapping
  addition: the physical offset of a counter that has wrapped around is still right.
\<close>

lemma unat_add_mod_dvd:
  assumes "c dvd 18446744073709551616"
  shows "unat (a + b :: u64) mod c = (unat a + unat b) mod c"
proof -
  have "unat (a + b) = (unat a + unat b) mod 18446744073709551616"
    by (simp add: unat_word_ariths)
  then show ?thesis using assms by (simp add: mod_mod_cancel)
qed

lemma unat_dist_mod_dvd:
  assumes "c dvd 18446744073709551616"
  shows "(unat r + dist w r) mod c = unat w mod c"
  using unat_add_mod_dvd [OF assms, of r "w - r"] by (simp add: dist_def)

section \<open>Little-endian integers\<close>

text \<open>
  Headers and tags are copied by \<open>memcpy\<close> of the integer object; the layout is the one of
  the x86-64 and AArch64 Linux targets, little-endian.
\<close>

primrec le_bytes :: "nat \<Rightarrow> nat \<Rightarrow> bytes" where
  "le_bytes 0 v = []"
| "le_bytes (Suc n) v = word_of_nat (v mod 256) # le_bytes n (v div 256)"

primrec le_val :: "bytes \<Rightarrow> nat" where
  "le_val [] = 0"
| "le_val (b # bs) = unat b + 256 * le_val bs"

lemma length_le_bytes [simp]: "length (le_bytes n v) = n"
  by (induction n arbitrary: v) auto

lemma unat_u8_of_mod [simp]: "unat (word_of_nat (v mod 256) :: u8) = v mod 256"
  by (simp add: unat_of_nat take_bit_eq_mod)

lemma le_val_le_bytes: "le_val (le_bytes n v) = v mod 256 ^ n"
  by (induction n arbitrary: v) (auto simp: mod_mult2_eq)

lemma le_val_bound: "le_val bs < 256 ^ length bs"
proof (induction bs)
  case (Cons b bs)
  have "unat b < 256" using unsigned_less [of b, where ?'a = nat] by simp
  with Cons show ?case by simp
qed simp

lemma le_bytes_le_val: "le_bytes (length bs) (le_val bs) = bs"
proof (induction bs)
  case (Cons b bs)
  have "unat b < 256" using unsigned_less [of b, where ?'a = nat] by simp
  then show ?case using Cons by simp
qed simp

definition u16_bytes :: "u16 \<Rightarrow> bytes" where "u16_bytes x = le_bytes 2 (unat x)"
definition u32_bytes :: "u32 \<Rightarrow> bytes" where "u32_bytes x = le_bytes 4 (unat x)"
definition bytes_u16 :: "bytes \<Rightarrow> u16" where "bytes_u16 bs = word_of_nat (le_val bs)"
definition bytes_u32 :: "bytes \<Rightarrow> u32" where "bytes_u32 bs = word_of_nat (le_val bs)"

lemma length_u16_bytes [simp]: "length (u16_bytes x) = 2"
  by (simp add: u16_bytes_def)

lemma length_u32_bytes [simp]: "length (u32_bytes x) = 4"
  by (simp add: u32_bytes_def)

lemma bytes_u16_bytes [simp]: "bytes_u16 (u16_bytes x) = x"
  by (simp add: bytes_u16_def u16_bytes_def le_val_le_bytes)

lemma bytes_u32_bytes [simp]: "bytes_u32 (u32_bytes x) = x"
  by (simp add: bytes_u32_def u32_bytes_def le_val_le_bytes)

lemma u32_bytes_bytes: "length bs = 4 \<Longrightarrow> u32_bytes (bytes_u32 bs) = bs"
  using le_val_bound [of bs] le_bytes_le_val [of bs]
  by (simp add: bytes_u32_def u32_bytes_def unat_of_nat_u32)

lemma u16_bytes_bytes:
  assumes "length bs = 2"
  shows "u16_bytes (bytes_u16 bs) = bs"
proof -
  have "le_val bs < 65536" using le_val_bound [of bs] assms by simp
  then have "unat (word_of_nat (le_val bs) :: u16) = le_val bs" by (simp add: unat_of_nat take_bit_eq_mod)
  then show ?thesis using le_bytes_le_val [of bs] assms by (simp add: bytes_u16_def u16_bytes_def)
qed

lemma u32_bytes_inject [simp]: "u32_bytes x = u32_bytes y \<longleftrightarrow> x = y"
  by (metis bytes_u32_bytes)

end
