(* ===== verification/Byte_Fifo.thy ===== *)
theory Byte_Fifo
  imports Shm_Prelude
begin

text \<open>
  The contract a byte transport offers to the layers above it: a bounded first-in
  first-out queue of bytes with an all-or-nothing \<open>put\<close> and a \<open>get\<close> of at most a given
  number of bytes. The contract is the locale \<open>byte_fifo\<close>; its providers are the ring
  buffer (\<open>RingBuf::TryWrite\<close> / \<open>TryRead\<close>) and the channel's batch writer.
\<close>

section \<open>Sessions of puts and gets\<close>

datatype io_op = Put bytes | Get u32

text \<open>
  A session of operations returns the final queue, the bytes of the accepted puts in
  order and the bytes all gets returned in order; it is undefined if an operation is.
\<close>

fun fifo_run :: "('q \<Rightarrow> bytes \<Rightarrow> (bool \<times> 'q) option) \<Rightarrow> ('q \<Rightarrow> u32 \<Rightarrow> (bytes \<times> 'q) option)
    \<Rightarrow> 'q \<Rightarrow> io_op list \<Rightarrow> ('q \<times> bytes \<times> bytes) option" where
  "fifo_run put get q [] = Some (q, [], [])"
| "fifo_run put get q (Put xs # ops) = do {
     (ok, q1) \<leftarrow> put q xs;
     (q2, acc, out) \<leftarrow> fifo_run put get q1 ops;
     Some (q2, (if ok then xs @ acc else acc), out)
   }"
| "fifo_run put get q (Get n # ops) = do {
     (ys, q1) \<leftarrow> get q n;
     (q2, acc, out) \<leftarrow> fifo_run put get q1 ops;
     Some (q2, acc, ys @ out)
   }"

definition short_puts :: "io_op list \<Rightarrow> bool" where
  "short_puts ops \<longleftrightarrow> list_all (\<lambda>x. case x of Put xs \<Rightarrow> length xs < 4294967296 | Get _ \<Rightarrow> True) ops"

lemma short_puts_simps [simp]:
  "short_puts []"
  "short_puts (Put xs # ops) \<longleftrightarrow> length xs < 4294967296 \<and> short_puts ops"
  "short_puts (Get n # ops) \<longleftrightarrow> short_puts ops"
  by (simp_all add: short_puts_def)

section \<open>The contract\<close>

locale byte_fifo =
  fixes invar :: "'q \<Rightarrow> bool"
    and content :: "'q \<Rightarrow> bytes"
    and limit :: nat
    and put :: "'q \<Rightarrow> bytes \<Rightarrow> (bool \<times> 'q) option"
    and get :: "'q \<Rightarrow> u32 \<Rightarrow> (bytes \<times> 'q) option"
  assumes put_total: "invar q \<Longrightarrow> length xs < 4294967296 \<Longrightarrow> \<exists>ok q'. put q xs = Some (ok, q')"
    and put_accept: "invar q \<Longrightarrow> length xs < 4294967296 \<Longrightarrow> put q xs = Some (True, q') \<Longrightarrow>
          invar q' \<and> content q' = content q @ xs"
    and put_reject: "invar q \<Longrightarrow> length xs < 4294967296 \<Longrightarrow> put q xs = Some (False, q') \<Longrightarrow>
          invar q' \<and> content q' = content q"
    and get_front: "invar q \<Longrightarrow> \<exists>q'. get q n = Some (take (unat n) (content q), q') \<and> invar q' \<and>
          content q' = drop (unat n) (content q)"
    and bounded: "invar q \<Longrightarrow> length (content q) \<le> limit"
begin

text \<open>
  Every session is defined, keeps the invariant, and conserves the byte stream: what was
  in the queue followed by what was accepted is what was read followed by what is left.
\<close>

lemma session_stream:
  assumes "invar q" "short_puts ops"
  shows "\<exists>q' acc out. fifo_run put get q ops = Some (q', acc, out) \<and> invar q' \<and>
           content q @ acc = out @ content q'"
  using assms
proof (induction ops arbitrary: q)
  case Nil
  then show ?case by simp
next
  case (Cons x ops)
  show ?case
  proof (cases x)
    case (Put xs)
    with Cons.prems have xs: "length xs < 4294967296" and so: "short_puts ops" by auto
    obtain ok q1 where p: "put q xs = Some (ok, q1)" using put_total [OF Cons.prems(1) xs] by blast
    have q1: "invar q1 \<and> content q1 = content q @ (if ok then xs else [])"
      using put_accept [OF Cons.prems(1) xs] put_reject [OF Cons.prems(1) xs] p by (cases ok) auto
    from Cons.IH [OF conjunct1 [OF q1] so] obtain q' acc out
      where "fifo_run put get q1 ops = Some (q', acc, out)" "invar q'"
        "content q1 @ acc = out @ content q'" by blast
    then show ?thesis using Put p q1 by (auto split: if_splits)
  next
    case (Get n)
    with Cons.prems have so: "short_puts ops" by simp
    from get_front [OF Cons.prems(1), of n] obtain q1
      where g: "get q n = Some (take (unat n) (content q), q1)" and q1: "invar q1"
        and c1: "content q1 = drop (unat n) (content q)" by blast
    from Cons.IH [OF q1 so] obtain q' acc out
      where r: "fifo_run put get q1 ops = Some (q', acc, out)" "invar q'"
        "content q1 @ acc = out @ content q'" by blast
    have "content q @ acc = take (unat n) (content q) @ out @ content q'"
      using r(3) c1 by (metis append_assoc append_take_drop_id)
    then show ?thesis using Get g r by simp
  qed
qed

lemma session_bounded:
  assumes "invar q" "short_puts ops" "fifo_run put get q ops = Some (q', acc, out)"
  shows "length (content q) + length acc \<le> length out + limit"
proof -
  from session_stream [OF assms(1,2)] assms(3)
  have "invar q'" "content q @ acc = out @ content q'" by auto
  then show ?thesis using bounded [of q'] by (metis add_left_mono length_append)
qed

end

end
