(* ===== verification/Ringbuf.thy ===== *)
theory Ringbuf
  imports Byte_Fifo
begin

text \<open>
  The byte ring of \<open>include/shm_ipc/ringbuf.hpp\<close>: the shared-memory header and data
  area (\<open>RingHeader\<close>, \<open>RingBuf<Capacity>\<close>) with every static operation of \<open>RingBuf\<close>.
  The template parameter \<open>Capacity\<close> is the argument \<open>cap\<close>, and the \<open>static_assert\<close>s
  of the class are \<open>cap_ok\<close>. Positions are 64-bit words that may wrap around. A ring
  stands for the byte sequence \<open>contents\<close>; each operation is related to the bounded byte
  queue that it implements, and the interface of that queue is the locale \<open>byte_fifo\<close>.
\<close>

section \<open>The model\<close>

text \<open>
  \<open>RingHeader\<close> and the data area behind it. The padding of the header to two cache
  lines carries no data; \<open>header_size\<close> is its \<open>sizeof\<close>.
\<close>

record ring =
  write_pos :: u64
  read_pos :: u64
  ring_bytes :: bytes

definition header_size :: nat where "header_size = 128"

definition cap_ok :: "nat \<Rightarrow> bool" where
  "cap_ok cap \<longleftrightarrow> cap AND (cap - 1) = 0 \<and> 1024 \<le> cap \<and> cap \<le> 4294967295"

definition shm_size :: "nat \<Rightarrow> nat" where "shm_size cap = header_size + cap"

definition max_write_size :: "nat \<Rightarrow> nat" where "max_write_size cap = cap div 2"

definition RingPhys :: "nat \<Rightarrow> u64 \<Rightarrow> nat" where
  "RingPhys cap pos = unat (pos AND (word_of_nat cap - 1))"

definition RingCopyOut :: "nat \<Rightarrow> bytes \<Rightarrow> nat \<Rightarrow> u32 \<Rightarrow> bytes option" where
  "RingCopyOut cap base phys_r len =
     (let contig = cap - phys_r in
      if unat len \<le> contig then mem_read base phys_r (unat len)
      else do {
        d1 \<leftarrow> mem_read base phys_r contig;
        d2 \<leftarrow> mem_read base 0 (unat len - contig);
        Some (d1 @ d2)
      })"

text \<open>
  The copy into the ring that \<open>BatchWriter::TryWrite\<close> and \<open>RingBuf::TryWrite\<close> share:
  one \<open>memcpy\<close>, or two when the data runs over the end of the data area.
\<close>

definition RingCopyIn :: "nat \<Rightarrow> bytes \<Rightarrow> nat \<Rightarrow> bytes \<Rightarrow> u32 \<Rightarrow> bytes option" where
  "RingCopyIn cap base phys_w src len =
     (let tail = cap - phys_w in
      if unat len \<le> tail then do {
        s \<leftarrow> mem_read src 0 (unat len);
        mem_write base phys_w s
      } else do {
        s1 \<leftarrow> mem_read src 0 tail;
        base1 \<leftarrow> mem_write base phys_w s1;
        s2 \<leftarrow> mem_read src tail (unat len - tail);
        mem_write base1 0 s2
      })"

definition RingBuf_Init :: "nat \<Rightarrow> ring" where
  "RingBuf_Init cap = \<lparr>write_pos = 0, read_pos = 0, ring_bytes = replicate cap 0\<rparr>"

text \<open>A data pointer argument is \<open>None\<close> for \<open>nullptr\<close> or the bytes it points to.\<close>

definition RingBuf_TryWrite :: "nat \<Rightarrow> ring \<Rightarrow> bytes option \<Rightarrow> u32 \<Rightarrow> (int \<times> ring) option" where
  "RingBuf_TryWrite cap rg data len =
     (if len = 0 \<or> unat len > max_write_size cap then Some (-1, rg)
      else case data of
        None \<Rightarrow> Some (-1, rg)
      | Some src \<Rightarrow>
          let w = write_pos rg; r = read_pos rg in
          if (w + ucast len) - r > word_of_nat cap then Some (-1, rg)
          else do {
            base \<leftarrow> RingCopyIn cap (ring_bytes rg) (RingPhys cap w) src len;
            Some (0, rg\<lparr>ring_bytes := base, write_pos := w + ucast len\<rparr>)
          })"

text \<open>
  \<open>TryRead\<close> returns the bytes copied to the output buffer; their number is the return
  value of the code.
\<close>

definition RingBuf_TryRead :: "nat \<Rightarrow> ring \<Rightarrow> u32 \<Rightarrow> (bytes \<times> ring) option" where
  "RingBuf_TryRead cap rg max_len =
     (let r = read_pos rg; w = write_pos rg; avail = w - r in
      if avail = 0 then Some ([], rg)
      else let to_read = (if avail < ucast max_len then ucast avail else max_len) in
        if to_read = 0 then Some ([], rg)
        else do {
          d \<leftarrow> RingCopyOut cap (ring_bytes rg) (RingPhys cap r) to_read;
          Some (d, rg\<lparr>read_pos := r + ucast to_read\<rparr>)
        })"

definition RingBuf_ReadExact :: "nat \<Rightarrow> ring \<Rightarrow> u32 \<Rightarrow> (int \<times> bytes \<times> ring) option" where
  "RingBuf_ReadExact cap rg len =
     (if len = 0 then Some (0, [], rg)
      else let r = read_pos rg; w = write_pos rg; avail = w - r in
        if avail < ucast len then Some (-1, [], rg)
        else do {
          d \<leftarrow> RingCopyOut cap (ring_bytes rg) (RingPhys cap r) len;
          Some (0, d, rg\<lparr>read_pos := r + ucast len\<rparr>)
        })"

text \<open>
  \<open>Peek\<close> returns pointers into the data area, kept here as offsets from its base:
  the first segment's offset and length, the second segment's pointer (\<open>None\<close> for
  \<open>nullptr\<close>) and length.
\<close>

datatype peek_result = PeekEmpty | PeekSegs nat u32 "nat option" u32

definition RingBuf_Peek :: "nat \<Rightarrow> ring \<Rightarrow> peek_result" where
  "RingBuf_Peek cap rg =
     (let r = read_pos rg; w = write_pos rg; avail = w - r in
      if avail = 0 then PeekEmpty
      else let phys_r = RingPhys cap r; contig = cap - phys_r in
        if avail \<le> word_of_nat contig then PeekSegs phys_r (ucast avail) None 0
        else PeekSegs phys_r (word_of_nat contig) (Some 0) (ucast (avail - word_of_nat contig)))"

definition RingBuf_CommitRead :: "ring \<Rightarrow> u32 \<Rightarrow> ring option" where
  "RingBuf_CommitRead rg len =
     (let r = read_pos rg in
      if ucast len \<le> write_pos rg - r then Some (rg\<lparr>read_pos := r + ucast len\<rparr>) else None)"

definition RingBuf_Available :: "ring \<Rightarrow> u64" where
  "RingBuf_Available rg = write_pos rg - read_pos rg"

definition RingBuf_FreeSpace :: "nat \<Rightarrow> ring \<Rightarrow> u64" where
  "RingBuf_FreeSpace cap rg = word_of_nat cap - RingBuf_Available rg"

section \<open>Well-formed rings and their contents\<close>

definition used :: "ring \<Rightarrow> nat" where
  "used rg = dist (write_pos rg) (read_pos rg)"

definition ring_wf :: "nat \<Rightarrow> ring \<Rightarrow> bool" where
  "ring_wf cap rg \<longleftrightarrow> cap_ok cap \<and> length (ring_bytes rg) = cap \<and> used rg \<le> cap"

definition contents :: "ring \<Rightarrow> bytes" where
  "contents rg = ring_slice (ring_bytes rg) (unat (read_pos rg)) (used rg)"

lemma length_contents [simp]: "length (contents rg) = used rg"
  by (simp add: contents_def)

subsection \<open>Capacities are powers of two\<close>

text \<open>The bit test of the \<open>static_assert\<close> accepts exactly the powers of two.\<close>

lemma and_pred_power: "0 < n \<Longrightarrow> n AND (n - 1) = 0 \<Longrightarrow> \<exists>k. n = (2::nat) ^ k"
proof (induction n rule: less_induct)
  case (less n)
  show ?case
  proof (cases "even n")
    case True
    then obtain m where m: "n = 2 * m" by (auto elim: evenE)
    with less.prems have m0: "0 < m" by simp
    have "n - 1 = 2 * (m - 1) + 1" using m m0 by simp
    then have "n AND (n - 1) = 2 * (m AND (m - 1))"
      using m by (simp add: and_rec [of "2 * m"])
    with less.prems have "m AND (m - 1) = 0" by simp
    with less.IH [of m] m m0 obtain k where "m = 2 ^ k" by auto
    then have "n = 2 ^ Suc k" using m by simp
    then show ?thesis by blast
  next
    case False
    then obtain m where m: "n = 2 * m + 1" by (auto elim: oddE)
    have "n AND (n - 1) = 2 * m"
      using m by (simp add: and_rec [of "Suc (2 * m)"])
    with less.prems m have "n = 2 ^ 0" by simp
    then show ?thesis by blast
  qed
qed

lemma cap_ok_power:
  assumes "cap_ok cap"
  obtains k where "cap = 2 ^ k" "k < 32"
proof -
  from assms obtain k where k: "cap = 2 ^ k"
    using and_pred_power [of cap] by (auto simp: cap_ok_def)
  have "(2::nat) ^ k < 2 ^ 32" using assms k by (simp add: cap_ok_def)
  then have "k < 32" by (rule power_less_imp_less_exp [rotated]) simp
  with k show thesis by (rule that)
qed

lemma cap_ok_bounds: "cap_ok cap \<Longrightarrow> 1024 \<le> cap \<and> cap < 4294967296"
  by (simp add: cap_ok_def)

lemma cap_ok_dvd:
  assumes "cap_ok cap"
  shows "cap dvd 18446744073709551616"
proof -
  from assms obtain k where k: "cap = 2 ^ k" "k < 32" by (rule cap_ok_power)
  have "(2::nat) ^ k dvd 2 ^ 64" using k by (intro le_imp_power_dvd) simp
  then show ?thesis using k by simp
qed

text \<open>The mask of \<open>RingPhys\<close> is the remainder by the capacity.\<close>

lemma RingPhys_mod:
  assumes "cap_ok cap"
  shows "RingPhys cap pos = unat pos mod cap"
proof -
  from assms obtain k where k: "cap = 2 ^ k" "k < 32" by (rule cap_ok_power)
  have "(word_of_nat cap - 1 :: u64) = mask k"
    by (simp add: k mask_eq_exp_minus_1)
  then have "RingPhys cap pos = unat (take_bit k pos)"
    by (simp add: RingPhys_def take_bit_eq_mask)
  then show ?thesis
    by (simp add: unsigned_take_bit_eq k flip: take_bit_eq_mod)
qed

lemma RingPhys_less: "cap_ok cap \<Longrightarrow> RingPhys cap pos < cap"
  using cap_ok_bounds [of cap] by (simp add: RingPhys_mod)

lemma unat_word_of_cap:
  "n \<le> cap \<Longrightarrow> cap_ok cap \<Longrightarrow> unat (word_of_nat n :: u64) = n"
  using cap_ok_bounds [of cap] by (intro unat_of_nat_u64) simp

subsection \<open>The split copies are circular slices and puts\<close>

text \<open>
  Both split copies stay inside the data area and agree with the reference definitions
  on circular arrays.
\<close>

lemma RingCopyOut_slice:
  assumes "length base = cap" "phys < cap" "unat len \<le> cap"
  shows "RingCopyOut cap base phys len = Some (ring_slice base phys (unat len))"
proof (cases "unat len \<le> cap - phys")
  case True
  then show ?thesis
    using assms by (simp add: RingCopyOut_def mem_read_def ring_slice_contig)
next
  case False
  then have "ring_slice base phys (unat len) = drop phys base @ take (unat len - (cap - phys)) base"
    using assms by (intro ring_slice_wrap [of phys base, unfolded assms(1)]) auto
  then show ?thesis
    using False assms by (simp add: RingCopyOut_def mem_read_def Let_def)
qed

lemma ring_put_contig:
  assumes "p + length xs \<le> length d" "p < length d"
  shows "ring_put d p xs = take p d @ xs @ drop (p + length xs) d"
proof (rule nth_equalityI)
  fix j assume "j < length (ring_put d p xs)"
  then have j: "j < length d" by simp
  have "(j + (length d - p)) mod length d = (if p \<le> j then j - p else j + (length d - p))"
    using j assms by (auto simp: le_mod_geq)
  then show "ring_put d p xs ! j = (take p d @ xs @ drop (p + length xs) d) ! j"
    using j assms by (auto simp: ring_put_def Let_def nth_append)
qed (use assms in simp)

lemma RingCopyIn_put:
  assumes "length base = cap" "phys < cap" "unat len \<le> cap" "unat len \<le> length src"
  shows "RingCopyIn cap base phys src len = Some (ring_put base phys (take (unat len) src))"
proof (cases "unat len \<le> cap - phys")
  case True
  then show ?thesis
    using assms by (simp add: RingCopyIn_def mem_write_def ring_put_contig)
next
  case False
  let ?tail = "cap - phys"
  let ?s1 = "take ?tail src" and ?s2 = "take (unat len - ?tail) (drop ?tail src)"
  have split: "take (unat len) src = ?s1 @ ?s2"
    using False by (metis le_add_diff_inverse nat_le_linear take_add)
  have ls: "length ?s1 = ?tail" "length ?s2 = unat len - ?tail" using False assms by auto
  have "ring_put base phys (?s1 @ ?s2) = ring_put (ring_put base phys ?s1) (phys + length ?s1) ?s2"
    using assms ls False by (intro ring_put_put [symmetric]) simp
  also have "\<dots> = ring_put (ring_put base phys ?s1) 0 ?s2"
    using assms ls by (intro ring_put_cong_mod) simp
  also have "\<dots> = take 0 (ring_put base phys ?s1) @ ?s2 @ drop (length ?s2) (ring_put base phys ?s1)"
    using assms ls by (subst ring_put_contig) auto
  finally have put: "ring_put base phys (take (unat len) src)
      = ?s2 @ drop (unat len - ?tail) (ring_put base phys ?s1)"
    using ls split by simp
  have put1: "ring_put base phys ?s1 = take phys base @ ?s1"
    using assms ls by (subst ring_put_contig) auto
  show ?thesis
    using False assms ls put put1
    by (simp add: RingCopyIn_def Let_def mem_write_def mem_read_def)
qed

section \<open>Correctness of the operations\<close>

lemma ring_wf_Init: "cap_ok cap \<Longrightarrow> ring_wf cap (RingBuf_Init cap)"
  by (simp add: ring_wf_def RingBuf_Init_def used_def)

lemma contents_Init [simp]: "contents (RingBuf_Init cap) = []"
  by (simp add: contents_def used_def RingBuf_Init_def)

lemma ring_wfD:
  assumes "ring_wf cap rg"
  shows "cap_ok cap" "length (ring_bytes rg) = cap" "used rg \<le> cap" "used rg < 4294967296"
    "cap < 4294967296" "1024 \<le> cap"
  using assms cap_ok_bounds [of cap] by (auto simp: ring_wf_def)

text \<open>The 64-bit space test of \<open>TryWrite\<close> is the test on the number of used bytes.\<close>

lemma space_test:
  assumes "cap_ok cap" "dist w r \<le> cap"
  shows "(w + ucast (len :: u32)) - r > (word_of_nat cap :: u64) \<longleftrightarrow> dist w r + unat len > cap"
proof -
  have "dist w r + unat len < 18446744073709551616"
    using assms cap_ok_bounds [of cap] unat_u32_bound [of len] by linarith
  then have "dist (w + ucast len) r = dist w r + unat len"
    by (subst dist_add_left) simp_all
  then show ?thesis
    using unat_word_of_cap [OF order_refl assms(1)]
    by (simp add: word_less_nat_alt dist_def)
qed

text \<open>Publishing bytes put behind the used ones appends them to the contents.\<close>

lemma contents_publish:
  assumes wf: "ring_wf cap rg" and fit: "used rg + length xs \<le> cap"
    and n: "unat n = length xs"
  shows "ring_wf cap (rg\<lparr>ring_bytes := ring_put (ring_bytes rg) (unat (write_pos rg)) xs,
             write_pos := write_pos rg + n\<rparr>)" (is "ring_wf cap ?rg'")
    and "contents (rg\<lparr>ring_bytes := ring_put (ring_bytes rg) (unat (write_pos rg)) xs,
             write_pos := write_pos rg + n\<rparr>) = contents rg @ xs"
proof -
  note wfD = ring_wfD [OF wf]
  have u: "used ?rg' = used rg + length xs"
    using wfD fit n by (simp add: used_def dist_add_left)
  show "ring_wf cap ?rg'"
    using wf fit u by (simp add: ring_wf_def used_def)
  have "ring_put (ring_bytes rg) (unat (write_pos rg)) xs
      = ring_put (ring_bytes rg) (unat (read_pos rg) + used rg) xs"
    using unat_dist_mod_dvd [OF cap_ok_dvd [OF wfD(1)], of "read_pos rg" "write_pos rg"] wfD(2)
    by (intro ring_put_cong_mod) (simp add: used_def)
  then show "contents ?rg' = contents rg @ xs"
    using ring_slice_put_append [of "used rg" xs "ring_bytes rg" "unat (read_pos rg)"] u fit wfD(2)
    by (simp add: contents_def)
qed

lemma RingBuf_TryWrite_reject:
  assumes "ring_wf cap rg"
    and "data = None \<or> len = 0 \<or> unat len > max_write_size cap \<or> used rg + unat len > cap"
  shows "RingBuf_TryWrite cap rg data len = Some (-1, rg)"
  using assms(2) ring_wfD [OF assms(1)]
    space_test [of cap "write_pos rg" "read_pos rg" len]
  by (auto simp: RingBuf_TryWrite_def Let_def used_def split: option.splits)

lemma RingBuf_TryWrite_result:
  assumes wf: "ring_wf cap rg" and len: "len \<noteq> 0" "unat len \<le> max_write_size cap"
    and fit: "used rg + unat len \<le> cap" and src: "unat len \<le> length src"
  shows "RingBuf_TryWrite cap rg (Some src) len
    = Some (0, rg\<lparr>ring_bytes := ring_put (ring_bytes rg) (unat (write_pos rg)) (take (unat len) src),
                  write_pos := write_pos rg + ucast len\<rparr>)"
proof -
  note wfD = ring_wfD [OF wf]
  let ?xs = "take (unat len) src"
  let ?d = "ring_put (ring_bytes rg) (unat (write_pos rg)) ?xs"
  have "ring_put (ring_bytes rg) (RingPhys cap (write_pos rg)) ?xs = ?d"
    using wfD(1,2) by (intro ring_put_cong_mod) (simp add: RingPhys_mod)
  then have "RingCopyIn cap (ring_bytes rg) (RingPhys cap (write_pos rg)) src len = Some ?d"
    using RingCopyIn_put [of "ring_bytes rg" cap "RingPhys cap (write_pos rg)" len src]
      wfD fit src by (simp add: RingPhys_less)
  moreover have "\<not> (write_pos rg + ucast len) - read_pos rg > word_of_nat cap"
    using space_test [of cap "write_pos rg" "read_pos rg" len] wfD fit by (simp add: used_def)
  ultimately show ?thesis
    using len by (simp add: RingBuf_TryWrite_def Let_def)
qed

lemma RingBuf_TryWrite_accept:
  assumes wf: "ring_wf cap rg" and len: "len \<noteq> 0" "unat len \<le> max_write_size cap"
    and fit: "used rg + unat len \<le> cap" and src: "unat len \<le> length src"
  shows "\<exists>rg'. RingBuf_TryWrite cap rg (Some src) len = Some (0, rg') \<and> ring_wf cap rg' \<and>
               contents rg' = contents rg @ take (unat len) src \<and> read_pos rg' = read_pos rg"
  using RingBuf_TryWrite_result [OF assms] contents_publish [OF wf, of "take (unat len) src" "ucast len"] fit src
  by simp

lemma RingBuf_TryWrite_cases:
  assumes "ring_wf cap rg" "\<And>src. data = Some src \<Longrightarrow> unat len \<le> length src"
  shows "\<exists>rc rg'. RingBuf_TryWrite cap rg data len = Some (rc, rg') \<and> ring_wf cap rg' \<and>
    (if data = None \<or> len = 0 \<or> unat len > max_write_size cap \<or> used rg + unat len > cap
     then rc = -1 \<and> rg' = rg
     else rc = 0 \<and> contents rg' = contents rg @ take (unat len) (the data) \<and> read_pos rg' = read_pos rg)"
proof (cases "data = None \<or> len = 0 \<or> unat len > max_write_size cap \<or> used rg + unat len > cap")
  case True
  then show ?thesis using RingBuf_TryWrite_reject [OF assms(1) True] assms(1) by auto
next
  case False
  then obtain src where d: "data = Some src" by auto
  have "\<exists>rg'. RingBuf_TryWrite cap rg (Some src) len = Some (0, rg') \<and> ring_wf cap rg' \<and>
      contents rg' = contents rg @ take (unat len) src \<and> read_pos rg' = read_pos rg"
    using False assms(2) [OF d] by (intro RingBuf_TryWrite_accept [OF assms(1)]) auto
  with False d show ?thesis by auto
qed

text \<open>Consuming \<open>n\<close> bytes drops them from the contents.\<close>

lemma contents_consume:
  assumes wf: "ring_wf cap rg" and n: "unat n \<le> used rg"
  shows "ring_wf cap (rg\<lparr>read_pos := read_pos rg + n\<rparr>)" (is "ring_wf cap ?rg'")
    and "contents (rg\<lparr>read_pos := read_pos rg + n\<rparr>) = drop (unat n) (contents rg)"
    and "used (rg\<lparr>read_pos := read_pos rg + n\<rparr>) = used rg - unat n"
proof -
  note wfD = ring_wfD [OF wf]
  show u: "used ?rg' = used rg - unat n"
    using n by (simp add: used_def dist_add_right)
  then show "ring_wf cap ?rg'"
    using wfD by (simp add: ring_wf_def)
  have "unat (read_pos rg + n) mod length (ring_bytes rg)
      = (unat (read_pos rg) + unat n) mod length (ring_bytes rg)"
    using unat_add_mod_dvd [OF cap_ok_dvd [OF wfD(1)]] wfD(2) by simp
  then show "contents ?rg' = drop (unat n) (contents rg)"
    using u n by (simp add: contents_def drop_ring_slice) (rule ring_slice_cong_mod)
qed

lemma RingCopyOut_contents:
  assumes wf: "ring_wf cap rg" and len: "unat len \<le> used rg"
  shows "RingCopyOut cap (ring_bytes rg) (RingPhys cap (read_pos rg)) len
       = Some (take (unat len) (contents rg))"
proof -
  note wfD = ring_wfD [OF wf]
  have "RingCopyOut cap (ring_bytes rg) (RingPhys cap (read_pos rg)) len
      = Some (ring_slice (ring_bytes rg) (RingPhys cap (read_pos rg)) (unat len))"
    using wfD len by (intro RingCopyOut_slice) (auto simp: RingPhys_less)
  also have "ring_slice (ring_bytes rg) (RingPhys cap (read_pos rg)) (unat len)
      = take (unat len) (contents rg)"
    using wfD(1,2) len by (simp add: contents_def RingPhys_mod)
      (intro ring_slice_cong_mod, simp)
  finally show ?thesis .
qed

lemma used_eq_0: "used rg = 0 \<longleftrightarrow> write_pos rg = read_pos rg"
  by (simp add: used_def)

lemma used_gr_0: "0 < used rg \<longleftrightarrow> write_pos rg \<noteq> read_pos rg"
  using used_eq_0 [of rg] by linarith

lemma contents_eq_Nil [simp]: "contents rg = [] \<longleftrightarrow> used rg = 0"
  using length_contents [of rg] by (metis length_0_conv)

lemma used_less: "write_pos rg - read_pos rg < ucast (n :: u32) \<longleftrightarrow> used rg < unat n"
  by (simp add: used_def dist_def word_less_nat_alt)

lemma unat_ucast_used: "used rg < 4294967296 \<Longrightarrow> unat (ucast (write_pos rg - read_pos rg) :: u32) = used rg"
  by (simp add: used_def dist_def unsigned_ucast_eq take_bit_eq_mod)

lemma RingBuf_TryRead_contents:
  assumes wf: "ring_wf cap rg"
  shows "\<exists>rg'. RingBuf_TryRead cap rg m = Some (take (unat m) (contents rg), rg') \<and>
               ring_wf cap rg' \<and> contents rg' = drop (unat m) (contents rg) \<and>
               write_pos rg' = write_pos rg"
proof -
  note wfD = ring_wfD [OF wf]
  define n :: u32 where "n = (if write_pos rg - read_pos rg < ucast m then ucast (write_pos rg - read_pos rg) else m)"
  have n: "unat n = min (used rg) (unat m)"
    using wfD by (auto simp: n_def used_less unat_ucast_used)
  then have tk: "take (unat n) (contents rg) = take (unat m) (contents rg)"
    "drop (unat n) (contents rg) = drop (unat m) (contents rg)"
    by (auto simp: min_def)
  show ?thesis
  proof (cases "used rg = 0 \<or> n = 0")
    case True
    then have "take (unat m) (contents rg) = [] \<and> drop (unat m) (contents rg) = contents rg"
      using n tk by auto
    moreover have "RingBuf_TryRead cap rg m = Some ([], rg)"
      using True by (auto simp: RingBuf_TryRead_def Let_def used_eq_0 simp flip: n_def)
    ultimately show ?thesis using wf by simp
  next
    case False
    then have "RingBuf_TryRead cap rg m = Some (take (unat n) (contents rg), rg\<lparr>read_pos := read_pos rg + ucast n\<rparr>)"
      using RingCopyOut_contents [OF wf, of n] n
      by (simp add: RingBuf_TryRead_def Let_def used_eq_0 flip: n_def)
    then show ?thesis
      using contents_consume [OF wf, of "ucast n"] n tk by simp
  qed
qed

lemma RingBuf_ReadExact_contents:
  assumes wf: "ring_wf cap rg" and len: "unat len \<le> used rg"
  shows "\<exists>rg'. RingBuf_ReadExact cap rg len = Some (0, take (unat len) (contents rg), rg') \<and>
               ring_wf cap rg' \<and> contents rg' = drop (unat len) (contents rg) \<and>
               write_pos rg' = write_pos rg"
proof (cases "len = 0")
  case True
  then show ?thesis using wf by (simp add: RingBuf_ReadExact_def)
next
  case False
  then have "RingBuf_ReadExact cap rg len
      = Some (0, take (unat len) (contents rg), rg\<lparr>read_pos := read_pos rg + ucast len\<rparr>)"
    using RingCopyOut_contents [OF wf len] len
    by (simp add: RingBuf_ReadExact_def Let_def used_less)
  then show ?thesis using contents_consume [OF wf, of "ucast len"] len by simp
qed

lemma RingBuf_ReadExact_short:
  "used rg < unat len \<Longrightarrow> RingBuf_ReadExact cap rg len = Some (-1, [], rg)"
  by (auto simp: RingBuf_ReadExact_def Let_def used_less)

lemma RingBuf_CommitRead_contents:
  assumes wf: "ring_wf cap rg" and len: "unat len \<le> used rg"
  shows "RingBuf_CommitRead rg len = Some (rg\<lparr>read_pos := read_pos rg + ucast len\<rparr>)"
    and "ring_wf cap (rg\<lparr>read_pos := read_pos rg + ucast len\<rparr>)"
    and "contents (rg\<lparr>read_pos := read_pos rg + ucast len\<rparr>) = drop (unat len) (contents rg)"
  using contents_consume [OF wf, of "ucast len"] len
  by (simp_all add: RingBuf_CommitRead_def Let_def used_def dist_def word_le_nat_alt)

lemma RingBuf_Available_used: "unat (RingBuf_Available rg) = used rg"
  by (simp add: RingBuf_Available_def used_def dist_def)

lemma RingBuf_FreeSpace_used:
  assumes "ring_wf cap rg"
  shows "unat (RingBuf_FreeSpace cap rg) = cap - used rg"
proof -
  note wfD = ring_wfD [OF assms]
  have "RingBuf_Available rg \<le> word_of_nat cap"
    using wfD unat_word_of_cap [OF order_refl wfD(1)]
    by (simp add: word_le_nat_alt RingBuf_Available_used)
  then show ?thesis
    using unat_word_of_cap [OF order_refl wfD(1)]
    by (simp add: RingBuf_FreeSpace_def unat_sub RingBuf_Available_used)
qed

subsection \<open>Peek\<close>

text \<open>The bytes the segment pointers of a \<open>Peek\<close> refer to.\<close>

definition peek_bytes :: "ring \<Rightarrow> peek_result \<Rightarrow> bytes option" where
  "peek_bytes rg res = (case res of PeekEmpty \<Rightarrow> Some []
     | PeekSegs o1 l1 s2 l2 \<Rightarrow> do {
         a \<leftarrow> mem_read (ring_bytes rg) o1 (unat l1);
         b \<leftarrow> (case s2 of None \<Rightarrow> Some [] | Some o2 \<Rightarrow> mem_read (ring_bytes rg) o2 (unat l2));
         Some (a @ b)
       })"

lemma RingBuf_Peek_empty: "RingBuf_Peek cap rg = PeekEmpty \<longleftrightarrow> used rg = 0"
  by (simp add: RingBuf_Peek_def Let_def used_eq_0 used_gr_0)

text \<open>
  On a well-formed ring with data, \<open>Peek\<close> returns the contents as one segment, or as the
  tail of the data area followed by its head.
\<close>

lemma RingBuf_Peek_segs:
  assumes wf: "ring_wf cap rg" and ne: "used rg > 0"
  obtains
    (one) o1 l1 where "RingBuf_Peek cap rg = PeekSegs o1 l1 None 0"
      "unat l1 = used rg" "mem_read (ring_bytes rg) o1 (unat l1) = Some (contents rg)"
      "o1 = RingPhys cap (read_pos rg)"
  | (two) o1 l1 l2 where "RingBuf_Peek cap rg = PeekSegs o1 l1 (Some 0) l2"
      "unat l1 + unat l2 = used rg" "0 < unat l2"
      "mem_read (ring_bytes rg) o1 (unat l1) = Some (take (unat l1) (contents rg))"
      "mem_read (ring_bytes rg) 0 (unat l2) = Some (drop (unat l1) (contents rg))"
      "o1 = RingPhys cap (read_pos rg)" "unat l1 = cap - o1"
proof -
  note wfD = ring_wfD [OF wf]
  define p where "p = RingPhys cap (read_pos rg)"
  define ct where "ct = cap - p"
  define av where "av = write_pos rg - read_pos rg"
  have p: "p < cap" using wfD by (simp add: RingPhys_less p_def)
  have c: "unat (word_of_nat ct :: u64) = ct" "unat (word_of_nat ct :: u32) = ct"
    using unat_word_of_cap [of ct cap] wfD by (auto simp: unat_of_nat_u32 ct_def)
  have av: "unat av = used rg" by (simp add: used_def dist_def av_def)
  have pk: "RingBuf_Peek cap rg = (if av \<le> word_of_nat ct then PeekSegs p (ucast av) None 0
      else PeekSegs p (word_of_nat ct) (Some 0) (ucast (av - word_of_nat ct)))"
    using ne by (simp add: RingBuf_Peek_def Let_def used_gr_0 p_def ct_def av_def del: of_nat_diff)
  have sl: "contents rg = ring_slice (ring_bytes rg) p (used rg)"
    unfolding contents_def p_def using wfD(1,2) by (intro ring_slice_cong_mod) (simp add: RingPhys_mod)
  show thesis
  proof (cases "used rg \<le> ct")
    case True
    then have "RingBuf_Peek cap rg = PeekSegs p (ucast av) None 0"
      using c av pk by (simp add: word_le_nat_alt)
    moreover have "mem_read (ring_bytes rg) p (used rg) = Some (contents rg)"
      using True p wfD(2) by (simp add: mem_read_def sl ring_slice_contig ct_def)
    ultimately show thesis
      using one [of p "ucast av"] wfD unat_ucast_used [of rg] by (simp add: av_def p_def)
  next
    case False
    define l1 :: u32 where "l1 = word_of_nat ct"
    define l2 :: u32 where "l2 = ucast (av - word_of_nat ct)"
    have "word_of_nat ct \<le> av" using False c av by (simp add: word_le_nat_alt)
    then have l2: "unat l2 = used rg - ct"
      unfolding l2_def using c av wfD by (simp add: unsigned_ucast_eq take_bit_eq_mod unat_sub)
    have l1: "unat l1 = ct" using c by (simp add: l1_def)
    have pk2: "RingBuf_Peek cap rg = PeekSegs p l1 (Some 0) l2"
      using False c av pk by (simp add: word_le_nat_alt l1_def l2_def)
    have cont: "contents rg = drop p (ring_bytes rg) @ take (used rg - ct) (ring_bytes rg)"
      unfolding sl using False p wfD ring_slice_wrap [of p "ring_bytes rg" "used rg"]
      by (simp add: ct_def)
    have len: "length (drop p (ring_bytes rg)) = ct" using wfD(2) by (simp add: ct_def)
    show thesis
    proof (rule two [OF pk2])
      show "unat l1 + unat l2 = used rg" "0 < unat l2" using l1 l2 False by auto
      show "mem_read (ring_bytes rg) p (unat l1) = Some (take (unat l1) (contents rg))"
        using l1 cont len p wfD(2) by (simp add: mem_read_def ct_def)
      show "mem_read (ring_bytes rg) 0 (unat l2) = Some (drop (unat l1) (contents rg))"
        using l1 l2 cont len wfD(2,3) by simp
      show "p = RingPhys cap (read_pos rg)" "unat l1 = cap - p" using l1 by (auto simp: p_def ct_def)
    qed
  qed
qed

lemma RingBuf_Peek_contents:
  assumes wf: "ring_wf cap rg"
  shows "peek_bytes rg (RingBuf_Peek cap rg) = Some (contents rg)"
proof (cases "used rg = 0")
  case True
  then show ?thesis
    using RingBuf_Peek_empty [of cap rg] contents_eq_Nil [of rg] by (metis peek_bytes_def peek_result.simps(4))
next
  case False
  then have "used rg > 0" by simp
  with wf show ?thesis by (rule RingBuf_Peek_segs) (auto simp: peek_bytes_def)
qed

section \<open>The ring is a byte queue\<close>

definition ring_put_op :: "nat \<Rightarrow> ring \<Rightarrow> bytes \<Rightarrow> (bool \<times> ring) option" where
  "ring_put_op cap rg xs =
     map_option (\<lambda>(rc, rg'). (rc = 0, rg')) (RingBuf_TryWrite cap rg (Some xs) (word_of_nat (length xs)))"

lemma ring_put_op_cases:
  assumes wf: "ring_wf cap rg" and xs: "length xs < 4294967296"
  shows "(ring_put_op cap rg xs = Some (False, rg) \<and>
            (xs = [] \<or> length xs > max_write_size cap \<or> used rg + length xs > cap)) \<or>
         (\<exists>rg'. ring_put_op cap rg xs = Some (True, rg') \<and> ring_wf cap rg' \<and>
            contents rg' = contents rg @ xs)"
proof -
  let ?n = "word_of_nat (length xs) :: u32"
  have n: "unat ?n = length xs" using xs by (rule unat_of_nat_u32)
  then have n0: "?n = 0 \<longleftrightarrow> xs = []" by (metis length_0_conv unat_eq_zero)
  show ?thesis
  proof (cases "xs = [] \<or> length xs > max_write_size cap \<or> used rg + length xs > cap")
    case True
    then have "RingBuf_TryWrite cap rg (Some xs) ?n = Some (-1, rg)"
      using n n0 by (intro RingBuf_TryWrite_reject [OF wf]) auto
    with True show ?thesis by (auto simp: ring_put_op_def)
  next
    case False
    with RingBuf_TryWrite_accept [OF wf, of ?n xs] n n0 show ?thesis
      by (auto simp: ring_put_op_def)
  qed
qed

interpretation ringq: byte_fifo "ring_wf cap" contents cap "ring_put_op cap" "RingBuf_TryRead cap"
  for cap :: nat
proof unfold_locales
  fix cap :: nat and rg :: ring and xs :: bytes and q' n
  assume wf: "ring_wf cap rg"
  show "length (contents rg) \<le> cap" using ring_wfD [OF wf] by simp
  show "\<exists>q'. RingBuf_TryRead cap rg n = Some (take (unat n) (contents rg), q') \<and> ring_wf cap q' \<and>
      contents q' = drop (unat n) (contents rg)"
    using RingBuf_TryRead_contents [OF wf, of n] by blast
  assume xs: "length xs < 4294967296"
  note c = ring_put_op_cases [OF wf xs]
  show "\<exists>ok q'. ring_put_op cap rg xs = Some (ok, q')" using c by blast
  show "ring_put_op cap rg xs = Some (True, q') \<Longrightarrow> ring_wf cap q' \<and> contents q' = contents rg @ xs"
    using c by auto
  show "ring_put_op cap rg xs = Some (False, q') \<Longrightarrow> ring_wf cap q' \<and> contents q' = contents rg"
    using c wf by auto
qed

section \<open>Properties\<close>

text \<open>
  C1: from any well-formed ring, whatever its two 64-bit positions are (close to their
  wrap-around too), every sequence of writes and reads is defined (no access outside the
  data area), keeps the ring well formed, and conserves the byte stream: the bytes in the
  ring followed by those of the accepted writes are the bytes read followed by the bytes
  still in the ring.
\<close>

theorem ring_session_stream:
  assumes "ring_wf cap rg" "short_puts ops"
  shows "\<exists>rg' acc out. fifo_run (ring_put_op cap) (RingBuf_TryRead cap) rg ops = Some (rg', acc, out) \<and>
           ring_wf cap rg' \<and> contents rg @ acc = out @ contents rg'"
  using assms by (rule ringq.session_stream)

text \<open>A well-formed ring with both positions about to wrap around.\<close>

definition ring_near_wrap :: ring where
  "ring_near_wrap = \<lparr>write_pos = - 3, read_pos = - 5, ring_bytes = replicate 1024 7\<rparr>"

lemma ring_near_wrap_wf: "ring_wf 1024 ring_near_wrap" "used ring_near_wrap = 2"
  by (simp_all add: ring_wf_def ring_near_wrap_def cap_ok_def used_def dist_def)

lemma cap_ok_1024: "cap_ok 1024"
  by (simp add: cap_ok_def)

lemma ring_near_wrap_contents: "contents ring_near_wrap = [7, 7]"
  by (simp add: contents_def ring_near_wrap_wf(2) ring_slice_def upt_rec)
    (simp add: ring_near_wrap_def)

theorem ring_session_stream_witness:
  "\<exists>rg' acc out. fifo_run (ring_put_op 1024) (RingBuf_TryRead 1024) ring_near_wrap
      [Put [1, 2, 3, 4], Get 3, Put [5]] = Some (rg', acc, out) \<and> ring_wf 1024 rg' \<and>
     [7, 7] @ acc = out @ contents rg'"
  using ring_session_stream [OF ring_near_wrap_wf(1), of "[Put [1, 2, 3, 4], Get 3, Put [5]]"]
  unfolding ring_near_wrap_contents by simp

text \<open>
  C2: \<open>RingBuf::TryWrite\<close> on every branch. A null pointer, a zero length, a length above
  \<open>max_write_size\<close> or one that does not fit into the free space is refused with -1 and an
  unchanged ring; every other write returns 0, appends exactly its bytes to the contents
  and leaves \<open>read_pos\<close> to the consumer.
\<close>

theorem RingBuf_TryWrite_correct:
  assumes "ring_wf cap rg" "\<And>src. data = Some src \<Longrightarrow> unat len \<le> length src"
  shows "\<exists>rc rg'. RingBuf_TryWrite cap rg data len = Some (rc, rg') \<and> ring_wf cap rg' \<and>
    (if data = None \<or> len = 0 \<or> unat len > max_write_size cap \<or> used rg + unat len > cap
     then rc = -1 \<and> rg' = rg
     else rc = 0 \<and> contents rg' = contents rg @ take (unat len) (the data) \<and> read_pos rg' = read_pos rg)"
  using assms by (rule RingBuf_TryWrite_cases)

theorem RingBuf_TryWrite_correct_witness:
  "\<exists>rc rg'. RingBuf_TryWrite 1024 ring_near_wrap (Some [9, 8, 6, 5]) 4 = Some (rc, rg') \<and>
     ring_wf 1024 rg' \<and> rc = 0 \<and> contents rg' = [7, 7, 9, 8, 6, 5] \<and> read_pos rg' = - 5"
proof -
  have "\<exists>rc rg'. RingBuf_TryWrite 1024 ring_near_wrap (Some [9, 8, 6, 5]) 4 = Some (rc, rg') \<and>
      ring_wf 1024 rg' \<and>
     (if Some [9, 8, 6, 5] = (None :: bytes option) \<or> 4 = (0 :: u32) \<or> unat (4 :: u32) > max_write_size 1024 \<or>
        used ring_near_wrap + unat (4 :: u32) > 1024
      then rc = -1 \<and> rg' = ring_near_wrap
      else rc = 0 \<and> contents rg' = contents ring_near_wrap @ take (unat (4 :: u32)) (the (Some [9, 8, 6, 5])) \<and>
        read_pos rg' = read_pos ring_near_wrap)"
    by (rule RingBuf_TryWrite_correct [OF ring_near_wrap_wf(1)]) auto
  moreover have "read_pos ring_near_wrap = - 5" by (simp add: ring_near_wrap_def)
  ultimately show ?thesis by (simp add: ring_near_wrap_wf ring_near_wrap_contents max_write_size_def)
qed

text \<open>
  \<open>RingBuf::ReadExact\<close> is all or nothing. With at least \<open>len\<close> bytes in the ring it
  returns 0 and exactly the first \<open>len\<close> bytes, which it removes; with fewer it returns -1
  and the ring is unchanged.
\<close>

theorem RingBuf_ReadExact_correct:
  assumes "ring_wf cap rg"
  shows "\<exists>rc d rg'. RingBuf_ReadExact cap rg len = Some (rc, d, rg') \<and> ring_wf cap rg' \<and>
     write_pos rg' = write_pos rg \<and>
     (if unat len \<le> used rg
      then rc = 0 \<and> d = take (unat len) (contents rg) \<and> contents rg' = drop (unat len) (contents rg)
      else rc = -1 \<and> d = [] \<and> rg' = rg)"
  using RingBuf_ReadExact_contents [OF assms, of len] RingBuf_ReadExact_short [of rg len cap] assms
  by (cases "unat len \<le> used rg") auto

theorem RingBuf_ReadExact_correct_witness:
  "\<exists>rc d rg'. RingBuf_ReadExact 1024 ring_near_wrap 3 = Some (rc, d, rg') \<and> rc = -1 \<and> rg' = ring_near_wrap"
  using RingBuf_ReadExact_correct [OF ring_near_wrap_wf(1), of 3]
  by (auto simp: ring_near_wrap_wf(2))

text \<open>
  C3: zero-copy reading. The segments \<open>Peek\<close> returns lie inside the data area and hold
  the whole contents in order, and committing \<open>len\<close> available bytes after it leaves
  exactly the ring that \<open>ReadExact\<close> of \<open>len\<close> bytes leaves, whose bytes are the first
  \<open>len\<close> bytes of the segments.
\<close>

theorem Peek_CommitRead_eq_ReadExact:
  assumes "ring_wf cap rg" "unat len \<le> used rg"
  shows "\<exists>seg rg'. peek_bytes rg (RingBuf_Peek cap rg) = Some seg \<and> seg = contents rg \<and>
     RingBuf_CommitRead rg len = Some rg' \<and>
     RingBuf_ReadExact cap rg len = Some (0, take (unat len) seg, rg')"
proof -
  have "RingBuf_ReadExact cap rg len
      = Some (0, take (unat len) (contents rg), rg\<lparr>read_pos := read_pos rg + ucast len\<rparr>)"
    using RingCopyOut_contents [OF assms] assms(2)
    by (cases "len = 0") (auto simp: RingBuf_ReadExact_def Let_def used_less)
  then show ?thesis
    using RingBuf_Peek_contents [OF assms(1)] RingBuf_CommitRead_contents(1) [OF assms] by blast
qed

theorem Peek_CommitRead_eq_ReadExact_witness:
  "\<exists>seg rg'. peek_bytes ring_near_wrap (RingBuf_Peek 1024 ring_near_wrap) = Some seg \<and> seg = [7, 7] \<and>
     RingBuf_CommitRead ring_near_wrap 1 = Some rg' \<and>
     RingBuf_ReadExact 1024 ring_near_wrap 1 = Some (0, take (unat (1 :: u32)) seg, rg')"
  using Peek_CommitRead_eq_ReadExact [OF ring_near_wrap_wf(1), of 1] ring_near_wrap_wf(2)
  unfolding ring_near_wrap_contents by simp

text \<open>
  \<open>FreeSpace\<close> and \<open>Available\<close> are exact 64-bit counts that add up to the capacity,
  and a write of admissible length succeeds precisely when it is at most \<open>FreeSpace\<close>.
\<close>

theorem RingBuf_FreeSpace_exact:
  assumes "ring_wf cap rg" "len \<noteq> 0" "unat len \<le> max_write_size cap" "unat len \<le> length src"
  shows "unat (RingBuf_Available rg) + unat (RingBuf_FreeSpace cap rg) = cap \<and>
     ((\<exists>rg'. RingBuf_TryWrite cap rg (Some src) len = Some (0, rg')) \<longleftrightarrow>
        ucast len \<le> RingBuf_FreeSpace cap rg)"
proof -
  note wfD = ring_wfD [OF assms(1)]
  have "(\<exists>rg'. RingBuf_TryWrite cap rg (Some src) len = Some (0, rg')) \<longleftrightarrow> used rg + unat len \<le> cap"
    using RingBuf_TryWrite_accept [OF assms(1-3)] RingBuf_TryWrite_reject [OF assms(1), of "Some src" len] assms(4)
    by (cases "used rg + unat len \<le> cap") auto
  then show ?thesis
    using wfD(3) RingBuf_FreeSpace_used [OF assms(1)] RingBuf_Available_used [of rg]
    by (auto simp: word_le_nat_alt)
qed

theorem RingBuf_FreeSpace_exact_witness:
  "unat (RingBuf_Available ring_near_wrap) + unat (RingBuf_FreeSpace 1024 ring_near_wrap) = 1024 \<and>
   ((\<exists>rg'. RingBuf_TryWrite 1024 ring_near_wrap (Some [1]) 1 = Some (0, rg')) \<longleftrightarrow>
      ucast (1 :: u32) \<le> RingBuf_FreeSpace 1024 ring_near_wrap)"
  using RingBuf_FreeSpace_exact [OF ring_near_wrap_wf(1), of 1 "[1]"] by (simp add: max_write_size_def)

end
