(* ===== verification/Spsc.thy ===== *)
theory Spsc
  imports Ringbuf
begin

text \<open>
  The lock-free use of the ring by one producer and one consumer process, byte by byte.
  \<open>Ringbuf\<close> gives each operation as one step; here \<open>TryWrite\<close> is split into its load of
  \<open>read_pos\<close>, the single byte copies of its \<open>memcpy\<close>s (in any order) and the release
  store of \<open>write_pos\<close>, and \<open>TryRead\<close> into its load of \<open>write_pos\<close>, single byte reads
  (in any order) and the release store of \<open>read_pos\<close>; the two sides interleave freely.
  The interleaving is sequentially consistent. That no byte is ever accessed by both
  sides (\<open>spsc_no_race\<close>) is what makes the acquire/release pairs of the code enough.
\<close>

section \<open>The model\<close>

text \<open>
  The slot of byte \<open>i\<close> of an access at position \<open>pos\<close>: before the end of the data area
  in the first \<open>memcpy\<close>, from its start in the second.
\<close>

definition slot :: "nat \<Rightarrow> u64 \<Rightarrow> nat \<Rightarrow> nat" where
  "slot cap pos i =
     (let phys = RingPhys cap pos; tail = cap - phys in if i < tail then phys + i else i - tail)"

text \<open>
  The producer inside \<open>TryWrite\<close> holds the data and which bytes it has copied; the
  consumer inside \<open>TryRead\<close> holds its partly filled output buffer.
\<close>

datatype prod = PIdle | PCopy bytes "bool list"
datatype cons = CIdle | CCopy "u8 option list"

text \<open>\<open>sp_produced\<close> and \<open>sp_consumed\<close> record the bytes published and returned so far.\<close>

record spsc =
  sp_ring :: ring
  sp_prod :: prod
  sp_cons :: cons
  sp_produced :: bytes
  sp_consumed :: bytes

definition spsc_init :: "nat \<Rightarrow> spsc" where
  "spsc_init cap = \<lparr>sp_ring = RingBuf_Init cap, sp_prod = PIdle, sp_cons = CIdle,
     sp_produced = [], sp_consumed = []\<rparr>"

inductive spsc_step :: "nat \<Rightarrow> spsc \<Rightarrow> spsc \<Rightarrow> bool" for cap :: nat where
  p_start: "\<lbrakk>sp_prod s = PIdle; xs \<noteq> []; length xs \<le> max_write_size cap;
      \<not> (write_pos (sp_ring s) + word_of_nat (length xs)) - read_pos (sp_ring s) > word_of_nat cap\<rbrakk>
    \<Longrightarrow> spsc_step cap s (s\<lparr>sp_prod := PCopy xs (replicate (length xs) False)\<rparr>)"
| p_copy: "\<lbrakk>sp_prod s = PCopy xs d; i < length xs; \<not> d ! i\<rbrakk>
    \<Longrightarrow> spsc_step cap s (s\<lparr>sp_ring := (sp_ring s)\<lparr>ring_bytes :=
          (ring_bytes (sp_ring s))[slot cap (write_pos (sp_ring s)) i := xs ! i]\<rparr>,
        sp_prod := PCopy xs (d[i := True])\<rparr>)"
| p_publish: "\<lbrakk>sp_prod s = PCopy xs d; list_all id d\<rbrakk>
    \<Longrightarrow> spsc_step cap s (s\<lparr>sp_ring := (sp_ring s)\<lparr>write_pos :=
          write_pos (sp_ring s) + word_of_nat (length xs)\<rparr>,
        sp_prod := PIdle, sp_produced := sp_produced s @ xs\<rparr>)"
| c_start: "\<lbrakk>sp_cons s = CIdle; avail = write_pos (sp_ring s) - read_pos (sp_ring s); avail \<noteq> 0;
      m \<noteq> (0 :: u32); n = (if avail < ucast m then unat avail else unat m)\<rbrakk>
    \<Longrightarrow> spsc_step cap s (s\<lparr>sp_cons := CCopy (replicate n None)\<rparr>)"
| c_copy: "\<lbrakk>sp_cons s = CCopy buf; j < length buf; buf ! j = None\<rbrakk>
    \<Longrightarrow> spsc_step cap s (s\<lparr>sp_cons := CCopy (buf[j :=
          Some (ring_bytes (sp_ring s) ! slot cap (read_pos (sp_ring s)) j)])\<rparr>)"
| c_commit: "\<lbrakk>sp_cons s = CCopy buf; None \<notin> set buf\<rbrakk>
    \<Longrightarrow> spsc_step cap s (s\<lparr>sp_ring := (sp_ring s)\<lparr>read_pos :=
          read_pos (sp_ring s) + word_of_nat (length buf)\<rparr>,
        sp_cons := CIdle, sp_consumed := sp_consumed s @ map the buf\<rparr>)"

inductive spsc_reach :: "nat \<Rightarrow> spsc \<Rightarrow> bool" for cap :: nat where
  init: "spsc_reach cap (spsc_init cap)"
| step: "spsc_reach cap s \<Longrightarrow> spsc_step cap s t \<Longrightarrow> spsc_reach cap t"

text \<open>The slots each side may still write or read.\<close>

definition write_slots :: "nat \<Rightarrow> spsc \<Rightarrow> nat set" where
  "write_slots cap s = (case sp_prod s of PIdle \<Rightarrow> {}
     | PCopy xs d \<Rightarrow> slot cap (write_pos (sp_ring s)) ` {..<length xs})"

definition read_slots :: "nat \<Rightarrow> spsc \<Rightarrow> nat set" where
  "read_slots cap s = (case sp_cons s of CIdle \<Rightarrow> {}
     | CCopy buf \<Rightarrow> slot cap (read_pos (sp_ring s)) ` {..<length buf})"

section \<open>Slots\<close>

lemma slot_mod:
  assumes "cap_ok cap" "i \<le> cap"
  shows "slot cap pos i = (unat pos + i) mod cap"
proof -
  have c: "1024 \<le> cap" using cap_ok_bounds [OF assms(1)] by simp
  define p where "p = unat pos mod cap"
  have p: "p < cap" using c by (simp add: p_def)
  have "(unat pos + i) mod cap = (p + i) mod cap" by (simp add: p_def mod_add_left_eq)
  also have "\<dots> = (if i < cap - p then p + i else i - (cap - p))"
    using p assms(2) by (auto simp: le_mod_geq)
  finally show ?thesis
    unfolding slot_def Let_def RingPhys_mod [OF assms(1)] p_def [symmetric] by (rule sym)
qed

lemma ring_index_inj:
  assumes "(p + i) mod c = (p + k) mod (c::nat)" "i < c" "k < c"
  shows "i = k"
  using ring_index_offset [OF assms(2), of p] ring_index_offset [OF assms(3), of p] assms(1) by metis

text \<open>Consumer byte \<open>j\<close> is ring byte \<open>j\<close>; producer byte \<open>i\<close> is ring byte \<open>used + i\<close>.\<close>

lemma slot_write_offset:
  assumes "ring_wf cap rg" "i \<le> cap"
  shows "slot cap (write_pos rg) i = (unat (read_pos rg) + (used rg + i)) mod cap"
proof -
  note wfD = ring_wfD [OF assms(1)]
  have "(unat (write_pos rg) + i) mod cap = (unat (read_pos rg) + used rg + i) mod cap"
    using unat_dist_mod_dvd [OF cap_ok_dvd [OF wfD(1)], of "read_pos rg" "write_pos rg"]
    by (metis mod_add_left_eq used_def)
  then show ?thesis using slot_mod [OF wfD(1) assms(2)] by (simp add: add.assoc)
qed

lemma slots_apart:
  assumes "ring_wf cap rg" "used rg + i < cap" "j < used rg"
  shows "slot cap (write_pos rg) i \<noteq> slot cap (read_pos rg) j"
proof
  assume eq: "slot cap (write_pos rg) i = slot cap (read_pos rg) j"
  have "slot cap (write_pos rg) i = (unat (read_pos rg) + (used rg + i)) mod cap"
    using assms by (intro slot_write_offset) auto
  moreover have "slot cap (read_pos rg) j = (unat (read_pos rg) + j) mod cap"
    using assms by (intro slot_mod) (auto dest: ring_wfD)
  ultimately have "(unat (read_pos rg) + (used rg + i)) mod cap = (unat (read_pos rg) + j) mod cap"
    using eq by metis
  then have "used rg + i = j"
    by (rule ring_index_inj) (use assms in linarith)+
  then show False using assms(3) by simp
qed

lemma slot_less: "cap_ok cap \<Longrightarrow> i \<le> cap \<Longrightarrow> slot cap pos i < cap"
  using cap_ok_bounds [of cap] by (simp add: slot_mod)

lemma contents_nth:
  "ring_wf cap rg \<Longrightarrow> j < used rg \<Longrightarrow> contents rg ! j = ring_bytes rg ! slot cap (read_pos rg) j"
  using ring_wfD [of cap rg] by (simp add: contents_def slot_mod)

text \<open>A producer byte copy does not touch the contents.\<close>

lemma contents_update_free:
  assumes wf: "ring_wf cap rg" and i: "used rg + i < cap"
  shows "contents (rg\<lparr>ring_bytes := (ring_bytes rg)[slot cap (write_pos rg) i := x]\<rparr>) = contents rg"
    (is "contents ?rg = _")
proof (rule nth_equalityI)
  have wf': "ring_wf cap ?rg" using wf by (simp add: ring_wf_def used_def)
  show "length (contents ?rg) = length (contents rg)" by (simp add: used_def)
  fix j assume "j < length (contents ?rg)"
  then have j: "j < used rg" by (simp add: used_def)
  then show "contents ?rg ! j = contents rg ! j"
    using slots_apart [OF wf i j] contents_nth [OF wf j] contents_nth [OF wf', of j]
    by (simp add: used_def)
qed

section \<open>The invariant\<close>

definition prod_inv :: "nat \<Rightarrow> ring \<Rightarrow> prod \<Rightarrow> bool" where
  "prod_inv cap rg p = (case p of PIdle \<Rightarrow> True
     | PCopy xs d \<Rightarrow> length d = length xs \<and> used rg + length xs \<le> cap \<and>
         (\<forall>i < length xs. d ! i \<longrightarrow> ring_bytes rg ! slot cap (write_pos rg) i = xs ! i))"

definition cons_inv :: "ring \<Rightarrow> cons \<Rightarrow> bool" where
  "cons_inv rg c = (case c of CIdle \<Rightarrow> True
     | CCopy buf \<Rightarrow> length buf \<le> used rg \<and>
         (\<forall>j < length buf. buf ! j \<noteq> None \<longrightarrow> buf ! j = Some (contents rg ! j)))"

definition spsc_inv :: "nat \<Rightarrow> spsc \<Rightarrow> bool" where
  "spsc_inv cap s \<longleftrightarrow> ring_wf cap (sp_ring s) \<and>
     sp_produced s = sp_consumed s @ contents (sp_ring s) \<and>
     prod_inv cap (sp_ring s) (sp_prod s) \<and> cons_inv (sp_ring s) (sp_cons s)"

lemmas spsc_inv_defs = spsc_inv_def prod_inv_def cons_inv_def

lemma spsc_inv_init: "cap_ok cap \<Longrightarrow> spsc_inv cap (spsc_init cap)"
  by (simp add: spsc_inv_defs spsc_init_def ring_wf_Init)

lemma inv_p_copy:
  assumes inv: "spsc_inv cap s" and p: "sp_prod s = PCopy xs d" and i: "i < length xs"
  shows "spsc_inv cap (s\<lparr>sp_ring := (sp_ring s)\<lparr>ring_bytes :=
          (ring_bytes (sp_ring s))[slot cap (write_pos (sp_ring s)) i := xs ! i]\<rparr>,
        sp_prod := PCopy xs (d[i := True])\<rparr>)" (is "spsc_inv cap (s\<lparr>sp_ring := ?rg, sp_prod := ?p\<rparr>)")
proof -
  let ?old = "sp_ring s"
  from inv p have wf: "ring_wf cap ?old" and pi: "prod_inv cap ?old (PCopy xs d)"
    by (auto simp: spsc_inv_def)
  note wfD = ring_wfD [OF wf]
  have fit: "used ?old + length xs \<le> cap" using pi by (simp add: prod_inv_def)
  have u: "used ?rg = used ?old" by (simp add: used_def)
  have c: "contents ?rg = contents ?old" using contents_update_free [OF wf, of i "xs ! i"] fit i by simp
  have "ring_bytes ?rg ! slot cap (write_pos ?rg) k = xs ! k"
    if k: "k < length xs" "(d[i := True]) ! k" for k
  proof (cases "k = i")
    case True
    then show ?thesis using wfD slot_less [OF wfD(1), of i] fit i by simp
  next
    case False
    have "slot cap (write_pos ?old) i \<noteq> slot cap (write_pos ?old) k"
      using False ring_index_inj [of "unat (read_pos ?old)" "used ?old + i" cap "used ?old + k"]
        slot_write_offset [OF wf] fit i k by auto
    then show ?thesis using False k pi by (simp add: prod_inv_def)
  qed
  then have "prod_inv cap ?rg ?p" using pi u by (auto simp: prod_inv_def)
  then show ?thesis
    using inv c u by (auto simp: spsc_inv_defs ring_wf_def used_def split: cons.splits)
qed

lemma inv_p_publish:
  assumes inv: "spsc_inv cap s" and p: "sp_prod s = PCopy xs d" and all: "list_all id d"
  shows "spsc_inv cap (s\<lparr>sp_ring := (sp_ring s)\<lparr>write_pos :=
          write_pos (sp_ring s) + word_of_nat (length xs)\<rparr>,
        sp_prod := PIdle, sp_produced := sp_produced s @ xs\<rparr>)" (is "spsc_inv cap (s\<lparr>sp_ring := ?rg, sp_prod := _, sp_produced := _\<rparr>)")
proof -
  let ?old = "sp_ring s"
  from inv p have wf: "ring_wf cap ?old" and pi: "prod_inv cap ?old (PCopy xs d)"
    and ci: "cons_inv ?old (sp_cons s)" by (auto simp: spsc_inv_def)
  note wfD = ring_wfD [OF wf]
  have fit: "used ?old + length xs \<le> cap" using pi by (simp add: prod_inv_def)
  have n: "unat (word_of_nat (length xs) :: u64) = length xs"
    using fit wfD by (intro unat_of_nat_u64) simp
  have u: "used ?rg = used ?old + length xs"
    using n fit wfD by (simp add: used_def dist_add_left)
  then have wf': "ring_wf cap ?rg" using wfD fit by (simp add: ring_wf_def)
  have "contents ?rg = contents ?old @ xs"
  proof (rule nth_equalityI)
    fix j assume "j < length (contents ?rg)"
    then have j: "j < used ?old + length xs" using u by simp
    show "contents ?rg ! j = (contents ?old @ xs) ! j"
    proof (cases "j < used ?old")
      case True
      then show ?thesis using contents_nth [OF wf True] contents_nth [OF wf', of j] u by (simp add: nth_append)
    next
      case False
      then have jx: "j - used ?old < length xs" using j by simp
      have "slot cap (read_pos ?old) j = slot cap (write_pos ?old) (j - used ?old)"
        using slot_write_offset [OF wf, of "j - used ?old"] slot_mod [OF wfD(1), of j] False j fit by simp
      moreover have "d ! (j - used ?old)" using all pi jx by (simp add: list_all_length prod_inv_def)
      ultimately have "ring_bytes ?old ! slot cap (read_pos ?old) j = xs ! (j - used ?old)"
        using pi jx by (simp add: prod_inv_def)
      then show ?thesis using contents_nth [OF wf', of j] u j False by (simp add: nth_append)
    qed
  qed (simp add: u)
  moreover have "cons_inv ?rg (sp_cons s)"
    using ci u calculation by (auto simp: cons_inv_def nth_append split: cons.splits)
  ultimately show ?thesis using inv wf' by (simp add: spsc_inv_def prod_inv_def)
qed

lemma inv_c_commit:
  assumes inv: "spsc_inv cap s" and c: "sp_cons s = CCopy buf" and full: "None \<notin> set buf"
  shows "spsc_inv cap (s\<lparr>sp_ring := (sp_ring s)\<lparr>read_pos :=
          read_pos (sp_ring s) + word_of_nat (length buf)\<rparr>,
        sp_cons := CIdle, sp_consumed := sp_consumed s @ map the buf\<rparr>)" (is "spsc_inv cap (s\<lparr>sp_ring := ?rg, sp_cons := _, sp_consumed := _\<rparr>)")
proof -
  let ?old = "sp_ring s"
  from inv c have wf: "ring_wf cap ?old" and ci: "cons_inv ?old (CCopy buf)"
    and pi: "prod_inv cap ?old (sp_prod s)" by (auto simp: spsc_inv_def)
  note wfD = ring_wfD [OF wf]
  have len: "length buf \<le> used ?old" using ci by (simp add: cons_inv_def)
  have n: "unat (word_of_nat (length buf) :: u64) = length buf"
    using len wfD by (intro unat_of_nat_u64) simp
  have "map the buf = take (length buf) (contents ?old)"
  proof (rule nth_equalityI)
    fix j assume "j < length (map the buf)"
    then have j: "j < length buf" by simp
    then have "buf ! j \<noteq> None" using full by (metis nth_mem)
    then have "buf ! j = Some (contents ?old ! j)" using ci j by (simp add: cons_inv_def)
    then show "map the buf ! j = take (length buf) (contents ?old) ! j" using j by simp
  qed (use len in simp)
  moreover have "ring_wf cap ?rg" "contents ?rg = drop (length buf) (contents ?old)"
    "used ?rg = used ?old - length buf"
    using contents_consume [OF wf, of "word_of_nat (length buf)"] len n by simp_all
  moreover have "prod_inv cap ?rg (sp_prod s)"
    using pi calculation(4) by (auto simp: prod_inv_def split: prod.splits)
  ultimately show ?thesis using inv by (simp add: spsc_inv_def cons_inv_def)
qed

lemma inv_c_copy:
  assumes inv: "spsc_inv cap s" and c: "sp_cons s = CCopy buf" and j: "j < length buf"
  shows "spsc_inv cap (s\<lparr>sp_cons := CCopy (buf[j :=
          Some (ring_bytes (sp_ring s) ! slot cap (read_pos (sp_ring s)) j)])\<rparr>)"
proof -
  from inv c have wf: "ring_wf cap (sp_ring s)" and ci: "cons_inv (sp_ring s) (CCopy buf)"
    by (auto simp: spsc_inv_def)
  have "contents (sp_ring s) ! j = ring_bytes (sp_ring s) ! slot cap (read_pos (sp_ring s)) j"
    using ci j by (intro contents_nth [OF wf]) (simp add: cons_inv_def)
  then show ?thesis
    using inv ci j by (auto simp: spsc_inv_def cons_inv_def nth_list_update)
qed

lemma spsc_step_inv: "spsc_step cap s t \<Longrightarrow> spsc_inv cap s \<Longrightarrow> spsc_inv cap t"
proof (induction rule: spsc_step.induct)
  case (p_start s xs)
  then have wf: "ring_wf cap (sp_ring s)" by (simp add: spsc_inv_def)
  note wfD = ring_wfD [OF wf]
  have l: "length xs \<le> cap" using p_start by (simp add: max_write_size_def)
  let ?len = "word_of_nat (length xs) :: u32"
  have n: "unat ?len = length xs" using l wfD by (intro unat_of_nat_u32) simp
  have "(ucast ?len :: u64) = word_of_nat (length xs)"
    using l wfD by (intro ucast_of_nat_u32) simp
  then have "used (sp_ring s) + length xs \<le> cap"
    using space_test [of cap "write_pos (sp_ring s)" "read_pos (sp_ring s)" ?len] wfD p_start(4) n
    by (simp add: used_def)
  then show ?case using p_start by (simp add: spsc_inv_defs)
next
  case (p_copy s xs d i)
  then show ?case by (intro inv_p_copy)
next
  case (p_publish s xs d)
  then show ?case by (intro inv_p_publish)
next
  case (c_start s avail m n)
  then have "n \<le> used (sp_ring s)"
    by (auto simp: used_def dist_def word_less_nat_alt)
  then show ?case using c_start by (simp add: spsc_inv_defs)
next
  case (c_copy s buf j)
  then show ?case by (intro inv_c_copy)
next
  case (c_commit s buf)
  then show ?case by (intro inv_c_commit)
qed

lemma spsc_reach_inv: "spsc_reach cap s \<Longrightarrow> cap_ok cap \<Longrightarrow> spsc_inv cap s"
  by (induction rule: spsc_reach.induct) (auto intro: spsc_inv_init spsc_step_inv)

lemma slots_disjoint:
  assumes "spsc_inv cap s"
  shows "write_slots cap s \<inter> read_slots cap s = {}"
proof -
  have wf: "ring_wf cap (sp_ring s)" using assms by (simp add: spsc_inv_def)
  have "slot cap (write_pos (sp_ring s)) i \<noteq> slot cap (read_pos (sp_ring s)) j"
    if "sp_prod s = PCopy xs d" "i < length xs" "sp_cons s = CCopy buf" "j < length buf"
    for xs d i buf j
    using assms that by (intro slots_apart [OF wf]) (auto simp: spsc_inv_defs)
  then show ?thesis
    by (auto simp: write_slots_def read_slots_def split: prod.splits cons.splits)
qed

section \<open>The steps are those of the operations\<close>

text \<open>Writing one byte into the reference put is a list update.\<close>

lemma ring_put_snoc:
  assumes "length xs < length d"
  shows "ring_put d p (xs @ [x]) = (ring_put d p xs)[(p + length xs) mod length d := x]"
proof (rule nth_equalityI)
  fix j assume "j < length (ring_put d p (xs @ [x]))"
  then have j: "j < length d" by simp
  define i where "i = (j + (length d - p mod length d)) mod length d"
  have i: "i < length d" using j unfolding i_def by (intro mod_less_divisor) linarith
  have ji: "(p + i) mod length d = j" unfolding i_def using j by (rule ring_offset_index)
  have "(p + length xs) mod length d = j \<longleftrightarrow> i = length xs"
    using ji i assms ring_index_inj [of p "length xs" "length d" i] by metis
  then show "ring_put d p (xs @ [x]) ! j = (ring_put d p xs)[(p + length xs) mod length d := x] ! j"
    using nth_ring_put [OF i, of p "xs @ [x]"] nth_ring_put [OF i, of p xs] ji j
    by (auto simp: nth_append nth_list_update)
qed simp

lemma replicate_mark:
  assumes "k < n"
  shows "(replicate k True @ replicate (n - k) False)[k := True]
       = replicate (Suc k) True @ replicate (n - Suc k) False"
proof -
  have "n - k = Suc (n - Suc k)" using assms by simp
  then have "replicate (n - k) False = False # replicate (n - Suc k) False" by (simp only: replicate_Suc)
  then show ?thesis by (simp add: list_update_append replicate_app_Cons_same)
qed

text \<open>The copy loop of an uninterrupted producer, up to byte \<open>k\<close>.\<close>

lemma p_copies:
  assumes wf: "ring_wf cap rg" and fit: "used rg + length xs \<le> cap" and k: "k \<le> length xs"
    and rg: "sp_ring s = rg" and p: "sp_prod s = PCopy xs (replicate (length xs) False)"
  shows "(spsc_step cap)\<^sup>*\<^sup>* s (s\<lparr>sp_ring := rg\<lparr>ring_bytes :=
            ring_put (ring_bytes rg) (unat (write_pos rg)) (take k xs)\<rparr>,
          sp_prod := PCopy xs (replicate k True @ replicate (length xs - k) False)\<rparr>)"
  using k
proof (induction k)
  case 0
  have "ring_put (ring_bytes rg) (unat (write_pos rg)) [] = ring_bytes rg"
    by (rule nth_equalityI) (auto simp: ring_put_def Let_def)
  then show ?case using rg p by (cases s) simp
next
  case (Suc k)
  note wfD = ring_wfD [OF wf]
  let ?s = "\<lambda>k. s\<lparr>sp_ring := rg\<lparr>ring_bytes := ring_put (ring_bytes rg) (unat (write_pos rg)) (take k xs)\<rparr>,
          sp_prod := PCopy xs (replicate k True @ replicate (length xs - k) False)\<rparr>"
  have sl: "slot cap (write_pos rg) k = (unat (write_pos rg) + k) mod cap"
    using Suc.prems fit by (intro slot_mod [OF wfD(1)]) simp
  have put: "ring_put (ring_bytes rg) (unat (write_pos rg)) (take (Suc k) xs)
      = (ring_put (ring_bytes rg) (unat (write_pos rg)) (take k xs))[slot cap (write_pos rg) k := xs ! k]"
    using ring_put_snoc [of "take k xs" "ring_bytes rg" "unat (write_pos rg)" "xs ! k"] Suc.prems fit wfD(2) sl
    by (simp add: take_Suc_conv_app_nth min_def)
  have d: "(replicate k True @ replicate (length xs - k) False)[k := True]
      = replicate (Suc k) True @ replicate (length xs - Suc k) False"
    using Suc.prems by (intro replicate_mark) simp
  have "spsc_step cap (?s k) (?s (Suc k))"
    using spsc_step.p_copy [of "?s k" xs "replicate k True @ replicate (length xs - k) False" k cap] Suc.prems
    by (simp add: nth_append put d)
  then show ?case using Suc by (meson Suc_leD rtranclp.rtrancl_into_rtrancl)
qed

lemma TryWrite_run:
  assumes wf: "ring_wf cap (sp_ring s)" and idle: "sp_prod s = PIdle" and xs: "length xs < 4294967296"
    and tw: "RingBuf_TryWrite cap (sp_ring s) (Some xs) (word_of_nat (length xs)) = Some (0, rg')"
  shows "(spsc_step cap)\<^sup>*\<^sup>* s (s\<lparr>sp_ring := rg', sp_produced := sp_produced s @ xs\<rparr>)"
proof -
  let ?rg = "sp_ring s" and ?n = "word_of_nat (length xs) :: u32"
  note wfD = ring_wfD [OF wf]
  have n: "unat ?n = length xs" "(ucast ?n :: u64) = word_of_nat (length xs)"
    using xs by (simp_all add: unat_of_nat_u32 ucast_of_nat_u32)
  have acc: "\<not> (?n = 0 \<or> unat ?n > max_write_size cap \<or> used ?rg + unat ?n > cap)"
    using tw RingBuf_TryWrite_reject [OF wf, of "Some xs" ?n] by auto
  then have fit: "used ?rg + length xs \<le> cap" and ne: "xs \<noteq> []" and mx: "length xs \<le> max_write_size cap"
    using n by auto
  have sp: "\<not> (write_pos ?rg + word_of_nat (length xs)) - read_pos ?rg > word_of_nat cap"
    using space_test [of cap "write_pos ?rg" "read_pos ?rg" ?n] wfD fit n by (simp add: used_def)
  have rg': "rg' = ?rg\<lparr>ring_bytes := ring_put (ring_bytes ?rg) (unat (write_pos ?rg)) xs,
      write_pos := write_pos ?rg + word_of_nat (length xs)\<rparr>"
    using RingBuf_TryWrite_result [OF wf, of ?n xs] acc n tw by auto
  let ?s1 = "s\<lparr>sp_prod := PCopy xs (replicate (length xs) False)\<rparr>"
  let ?s2 = "s\<lparr>sp_ring := ?rg\<lparr>ring_bytes := ring_put (ring_bytes ?rg) (unat (write_pos ?rg)) xs\<rparr>,
      sp_prod := PCopy xs (replicate (length xs) True)\<rparr>"
  have "spsc_step cap s ?s1" using idle ne mx sp by (rule spsc_step.p_start)
  moreover have "(spsc_step cap)\<^sup>*\<^sup>* ?s1 ?s2"
    using p_copies [OF wf fit order_refl, of ?s1] by simp
  moreover have "spsc_step cap ?s2 (s\<lparr>sp_ring := rg', sp_produced := sp_produced s @ xs\<rparr>)"
    using spsc_step.p_publish [of ?s2 xs "replicate (length xs) True" cap] idle
    by (cases s) (simp add: rg' list_all_length)
  ultimately show ?thesis by (meson converse_rtranclp_into_rtranclp rtranclp.rtrancl_into_rtrancl)
qed

text \<open>The same for the consumer: its copy loop and an uninterrupted \<open>TryRead\<close>.\<close>

lemma c_copies:
  assumes rg: "sp_ring s = rg" and c: "sp_cons s = CCopy (replicate n None)" and k: "k \<le> n"
  shows "(spsc_step cap)\<^sup>*\<^sup>* s (s\<lparr>sp_cons := CCopy (map (\<lambda>j. if j < k
      then Some (ring_bytes rg ! slot cap (read_pos rg) j) else None) [0..<n])\<rparr>)"
  using k
proof (induction k)
  case 0
  have "s\<lparr>sp_cons := CCopy (replicate n None)\<rparr> = s" using c by (cases s) simp
  then show ?case by (simp add: map_replicate_const)
next
  case (Suc k)
  let ?buf = "\<lambda>k. map (\<lambda>j. if j < k
      then Some (ring_bytes rg ! slot cap (read_pos rg) j) else None) [0..<n]"
  have "?buf (Suc k) = (?buf k)[k := Some (ring_bytes rg ! slot cap (read_pos rg) k)]"
    by (rule nth_equalityI) (auto simp: nth_list_update less_Suc_eq)
  then have "spsc_step cap (s\<lparr>sp_cons := CCopy (?buf k)\<rparr>) (s\<lparr>sp_cons := CCopy (?buf (Suc k))\<rparr>)"
    using spsc_step.c_copy [of "s\<lparr>sp_cons := CCopy (?buf k)\<rparr>" "?buf k" k cap] Suc.prems rg by simp
  then show ?case using Suc by (meson Suc_leD rtranclp.rtrancl_into_rtrancl)
qed

lemma TryRead_run:
  assumes wf: "ring_wf cap (sp_ring s)" and idle: "sp_cons s = CIdle" and ne: "ys \<noteq> []"
    and tr: "RingBuf_TryRead cap (sp_ring s) m = Some (ys, rg')"
  shows "(spsc_step cap)\<^sup>*\<^sup>* s (s\<lparr>sp_ring := rg', sp_consumed := sp_consumed s @ ys\<rparr>)"
proof -
  let ?rg = "sp_ring s"
  let ?av = "write_pos ?rg - read_pos ?rg"
  define n where "n = (if ?av < ucast m then unat ?av else unat m)"
  note wfD = ring_wfD [OF wf]
  have ys: "ys = take (unat m) (contents ?rg)" using RingBuf_TryRead_contents [OF wf, of m] tr by auto
  have u: "unat ?av = used ?rg" by (simp add: used_def dist_def)
  have nn: "n = min (used ?rg) (unat m)" unfolding n_def used_less u by auto
  have m0: "m \<noteq> 0" and av0: "?av \<noteq> 0" using ne ys u by auto
  have ysl: "length ys = n" and ysn: "ys = take n (contents ?rg)"
    using ys nn by (auto simp: min_def)
  have rg': "rg' = ?rg\<lparr>read_pos := read_pos ?rg + word_of_nat n\<rparr>"
  proof -
    define k :: u32 where "k = (if ?av < ucast m then ucast ?av else m)"
    have k: "unat k = n" using wfD unat_ucast_used [of ?rg] u by (auto simp: k_def n_def)
    have "n < 4294967296" using unat_u32_bound [of k] k by simp
    then have "unat (ucast k :: u64) = unat (word_of_nat n :: u64)"
      using k by (simp add: unat_of_nat_u64)
    then have "(ucast k :: u64) = word_of_nat n" by (rule unsigned_word_eqI)
    moreover have "k \<noteq> 0" using k nn m0 av0 u by (metis min_def unat_0 unat_eq_zero)
    ultimately show ?thesis
      using tr av0 by (auto simp: RingBuf_TryRead_def Let_def bind_eq_Some_conv simp flip: k_def)
  qed
  let ?buf = "map (\<lambda>j. Some (ring_bytes ?rg ! slot cap (read_pos ?rg) j)) [0..<n]"
  have the: "map the ?buf = ys"
    unfolding ysn by (rule nth_equalityI) (use nn contents_nth [OF wf] in auto)
  have "spsc_step cap s (s\<lparr>sp_cons := CCopy (replicate n None)\<rparr>)"
    using idle refl av0 m0 n_def by (rule spsc_step.c_start)
  moreover have buf: "?buf = map (\<lambda>j. if j < n
      then Some (ring_bytes ?rg ! slot cap (read_pos ?rg) j) else None) [0..<n]" by simp
  have "(spsc_step cap)\<^sup>*\<^sup>* (s\<lparr>sp_cons := CCopy (replicate n None)\<rparr>) (s\<lparr>sp_cons := CCopy ?buf\<rparr>)"
    unfolding buf using c_copies [of "s\<lparr>sp_cons := CCopy (replicate n None)\<rparr>" ?rg n n cap] by simp
  moreover have "spsc_step cap (s\<lparr>sp_cons := CCopy ?buf\<rparr>) (s\<lparr>sp_ring := rg', sp_consumed := sp_consumed s @ ys\<rparr>)"
    using spsc_step.c_commit [of "s\<lparr>sp_cons := CCopy ?buf\<rparr>" ?buf cap] idle the
    by (cases s) (auto simp: rg')
  ultimately show ?thesis by (meson converse_rtranclp_into_rtranclp rtranclp.rtrancl_into_rtrancl)
qed

section \<open>Properties\<close>

text \<open>
  C5: in every reachable state of one producer and one consumer interleaved byte by byte,
  no slot of the data area is both in a running write and in a running read.
\<close>

theorem spsc_no_race:
  assumes "cap_ok cap" "spsc_reach cap s"
  shows "write_slots cap s \<inter> read_slots cap s = {}"
  using slots_disjoint [OF spsc_reach_inv [OF assms(2,1)]] .

text \<open>A reachable state in which the producer is inside \<open>TryWrite\<close>.\<close>

definition spsc_writing :: spsc where
  "spsc_writing = (spsc_init 1024)\<lparr>sp_prod := PCopy [1, 2] (replicate 2 False)\<rparr>"

lemma spsc_reach_writing: "spsc_reach 1024 spsc_writing"
proof -
  have "spsc_step 1024 (spsc_init 1024) ((spsc_init 1024)\<lparr>sp_prod := PCopy [1, 2] (replicate (length [1, 2 :: u8]) False)\<rparr>)"
    by (rule spsc_step.p_start)
      (simp_all add: spsc_init_def max_write_size_def RingBuf_Init_def word_less_nat_alt)
  then show ?thesis using spsc_reach.step [OF spsc_reach.init] by (simp add: spsc_writing_def eval_nat_numeral)
qed

theorem spsc_no_race_witness: "write_slots 1024 spsc_writing \<inter> read_slots 1024 spsc_writing = {}"
  by (rule spsc_no_race [OF cap_ok_1024 spsc_reach_writing])

text \<open>
  C6: in every reachable interleaving the ring is well formed and the bytes published so
  far are the bytes returned to the consumer so far followed by the contents of the ring:
  nothing is lost, duplicated, reordered or torn.
\<close>

theorem spsc_stream:
  assumes "cap_ok cap" "spsc_reach cap s"
  shows "ring_wf cap (sp_ring s) \<and> sp_produced s = sp_consumed s @ contents (sp_ring s)"
  using spsc_reach_inv [OF assms(2,1)] by (simp add: spsc_inv_def)

theorem spsc_stream_witness:
  "ring_wf 1024 (sp_ring spsc_writing) \<and>
   sp_produced spsc_writing = sp_consumed spsc_writing @ contents (sp_ring spsc_writing)"
  by (rule spsc_stream [OF cap_ok_1024 spsc_reach_writing])

text \<open>
  C7: the byte-wise steps refine the operations: an accepted \<open>RingBuf::TryWrite\<close> followed
  by a \<open>RingBuf::TryRead\<close> that returns data is a run of the interleaved machine with the
  same final ring, the written bytes published and the read bytes consumed.
\<close>

theorem spsc_runs_operations:
  assumes "ring_wf cap (sp_ring s)" "sp_prod s = PIdle" "sp_cons s = CIdle" "length xs < 4294967296"
    and "RingBuf_TryWrite cap (sp_ring s) (Some xs) (word_of_nat (length xs)) = Some (0, rg1)"
    and "RingBuf_TryRead cap rg1 m = Some (ys, rg2)" "ys \<noteq> []"
  shows "(spsc_step cap)\<^sup>*\<^sup>* s
     (s\<lparr>sp_ring := rg2, sp_produced := sp_produced s @ xs, sp_consumed := sp_consumed s @ ys\<rparr>)"
proof -
  let ?s1 = "s\<lparr>sp_ring := rg1, sp_produced := sp_produced s @ xs\<rparr>"
  have w: "(spsc_step cap)\<^sup>*\<^sup>* s ?s1" using assms(1,2,4,5) by (rule TryWrite_run)
  have "ring_wf cap rg1"
    using ring_put_op_cases [OF assms(1,4)] assms(5) by (auto simp: ring_put_op_def)
  then have "(spsc_step cap)\<^sup>*\<^sup>* ?s1 (?s1\<lparr>sp_ring := rg2, sp_consumed := sp_consumed ?s1 @ ys\<rparr>)"
    using assms(3,6,7) by (intro TryRead_run) simp_all
  from rtranclp_trans [OF w this] show ?thesis by (cases s) simp
qed

theorem spsc_runs_operations_witness:
  "\<exists>rg1 rg2. RingBuf_TryWrite 1024 (RingBuf_Init 1024) (Some [5, 6]) 2 = Some (0, rg1) \<and>
     RingBuf_TryRead 1024 rg1 9 = Some ([5, 6], rg2) \<and>
     (spsc_step 1024)\<^sup>*\<^sup>* (spsc_init 1024)
       ((spsc_init 1024)\<lparr>sp_ring := rg2, sp_produced := [5, 6], sp_consumed := [5, 6]\<rparr>)"
proof -
  note wf = ring_wf_Init [OF cap_ok_1024]
  have u0: "used (RingBuf_Init 1024) = 0" by (simp add: RingBuf_Init_def used_def)
  obtain rg1 where w: "RingBuf_TryWrite 1024 (RingBuf_Init 1024) (Some [5, 6]) 2 = Some (0, rg1)"
      "ring_wf 1024 rg1" "contents rg1 = [5, 6]"
    using RingBuf_TryWrite_accept [OF wf, of 2 "[5, 6]"] u0 by (auto simp: max_write_size_def)
  obtain rg2 where r: "RingBuf_TryRead 1024 rg1 9 = Some ([5, 6], rg2)"
    using RingBuf_TryRead_contents [OF w(2), of 9] w(3) by auto
  show ?thesis
    using spsc_runs_operations [of 1024 "spsc_init 1024" "[5, 6]" rg1 9 "[5, 6]" rg2] w r wf
    by (auto simp: spsc_init_def)
qed

end
