(* ===== verification/Batch_Writer.thy ===== *)
theory Batch_Writer
  imports Ringbuf
begin

text \<open>
  \<open>detail::BatchWriter\<close> of \<open>include/shm_ipc/ringbuf.hpp\<close>: a writer that snapshots
  \<open>read_pos\<close> once, tracks the write position locally, and publishes everything with one
  store of \<open>write_pos\<close>. The writer shares the ring's data area, so its operations take
  and return the ring beside the writer's own fields. The consumer may advance
  \<open>read_pos\<close> while a writer is active; \<open>batch_wf\<close> allows that.
\<close>

section \<open>The model\<close>

text \<open>
  \<open>bw_hdr\<close> is whether \<open>hdr_\<close> is non-null (a moved-from writer has a null one). \<open>count_\<close> is an \<open>int\<close>
  of 32 bits in the code; it is unbounded here, which differs only from 2147483648 counted
  writes of one batch on.
\<close>

record batch =
  bw_hdr :: bool
  bw_w :: u64
  bw_r :: u64
  bw_w_start :: u64
  bw_count :: int

definition BatchWriter_new :: "ring \<Rightarrow> batch" where
  "BatchWriter_new rg = \<lparr>bw_hdr = True, bw_w = write_pos rg, bw_r = read_pos rg,
     bw_w_start = write_pos rg, bw_count = 0\<rparr>"

text \<open>The move constructor: the new writer and the moved-from one.\<close>

definition BatchWriter_move :: "batch \<Rightarrow> batch \<times> batch" where
  "BatchWriter_move b = (b, b\<lparr>bw_hdr := False\<rparr>)"

definition BatchWriter_TryWrite ::
    "nat \<Rightarrow> ring \<times> batch \<Rightarrow> bytes option \<Rightarrow> u32 \<Rightarrow> (int \<times> ring \<times> batch) option" where
  "BatchWriter_TryWrite cap s data len = (case s of (rg, b) \<Rightarrow>
     (if len = 0 \<or> unat len > max_write_size cap then Some (-1, rg, b)
      else case data of
        None \<Rightarrow> Some (-1, rg, b)
      | Some src \<Rightarrow>
          if (bw_w b + ucast len) - bw_r b > word_of_nat cap then Some (-1, rg, b)
          else do {
            base \<leftarrow> RingCopyIn cap (ring_bytes rg) (RingPhys cap (bw_w b)) src len;
            Some (0, rg\<lparr>ring_bytes := base\<rparr>,
                  b\<lparr>bw_w := bw_w b + ucast len, bw_count := bw_count b + 1\<rparr>)
          }))"

definition BatchWriter_Flush :: "ring \<times> batch \<Rightarrow> int \<times> ring \<times> batch" where
  "BatchWriter_Flush s = (case s of (rg, b) \<Rightarrow>
     if \<not> bw_hdr b then (0, rg, b)
     else if bw_w b \<noteq> bw_w_start b
       then (bw_count b, rg\<lparr>write_pos := bw_w b\<rparr>, b\<lparr>bw_w_start := bw_w b, bw_count := 0\<rparr>)
       else (bw_count b, rg, b\<lparr>bw_count := 0\<rparr>))"

definition BatchWriter_Count :: "batch \<Rightarrow> int" where
  "BatchWriter_Count b = bw_count b"

definition BatchWriter_PendingBytes :: "batch \<Rightarrow> u64" where
  "BatchWriter_PendingBytes b = bw_w b - bw_w_start b"

definition BatchWriter_Cancel :: "batch \<Rightarrow> batch" where
  "BatchWriter_Cancel b = b\<lparr>bw_w := bw_w_start b, bw_count := 0\<rparr>"

definition BatchWriter_RewindTo :: "batch \<Rightarrow> u64 \<Rightarrow> int \<Rightarrow> batch option" where
  "BatchWriter_RewindTo b pending count =
     (if pending \<le> BatchWriter_PendingBytes b
      then Some (b\<lparr>bw_w := bw_w_start b + pending, bw_count := count\<rparr>) else None)"

definition BatchWriter_FreeBytes :: "nat \<Rightarrow> batch \<Rightarrow> u64" where
  "BatchWriter_FreeBytes cap b = word_of_nat cap - (bw_w b - bw_r b)"

text \<open>\<open>Reserve\<close> returns the write pointer as an offset into the data area.\<close>

definition BatchWriter_Reserve :: "nat \<Rightarrow> batch \<Rightarrow> u32 \<Rightarrow> nat option" where
  "BatchWriter_Reserve cap b len =
     (if len = 0 \<or> unat len > max_write_size cap then None
      else if (bw_w b + ucast len) - bw_r b > word_of_nat cap then None
      else let phys_w = RingPhys cap (bw_w b); tail = cap - phys_w in
        if unat len > tail then None else Some phys_w)"

definition BatchWriter_CommitReserve :: "nat \<Rightarrow> batch \<Rightarrow> u32 \<Rightarrow> batch option" where
  "BatchWriter_CommitReserve cap b len =
     (if len > 0 \<and> unat len \<le> max_write_size cap
      then Some (b\<lparr>bw_w := bw_w b + ucast len, bw_count := bw_count b + 1\<rparr>) else None)"

section \<open>Invariant and pending bytes\<close>

text \<open>
  The positions are ordered \<open>bw_r \<le> read_pos \<le> write_pos = bw_w_start \<le> bw_w\<close> within one
  capacity of each other, counted in wrapping distances.
\<close>

definition pending_len :: "batch \<Rightarrow> nat" where
  "pending_len b = dist (bw_w b) (bw_w_start b)"

definition batch_wf :: "nat \<Rightarrow> ring \<times> batch \<Rightarrow> bool" where
  "batch_wf cap s \<longleftrightarrow> (case s of (rg, b) \<Rightarrow>
     cap_ok cap \<and> length (ring_bytes rg) = cap \<and> bw_hdr b \<and> bw_w_start b = write_pos rg \<and>
     dist (read_pos rg) (bw_r b) + used rg + pending_len b = dist (bw_w b) (bw_r b) \<and>
     dist (bw_w b) (bw_r b) \<le> cap)"

definition pending :: "ring \<times> batch \<Rightarrow> bytes" where
  "pending s = (case s of (rg, b) \<Rightarrow>
     ring_slice (ring_bytes rg) (unat (bw_w_start b)) (pending_len b))"

lemma length_pending [simp]: "length (pending (rg, b)) = pending_len b"
  by (simp add: pending_def)

lemma batch_wfD:
  assumes "batch_wf cap (rg, b)"
  shows "cap_ok cap" "length (ring_bytes rg) = cap" "bw_hdr b" "bw_w_start b = write_pos rg"
    "used rg + pending_len b \<le> dist (bw_w b) (bw_r b)" "dist (bw_w b) (bw_r b) \<le> cap"
    "cap < 4294967296" "1024 \<le> cap"
  using assms cap_ok_bounds [of cap] by (auto simp: batch_wf_def)

lemma batch_wf_ring: "batch_wf cap (rg, b) \<Longrightarrow> ring_wf cap rg"
  by (auto simp: batch_wf_def ring_wf_def)

lemma batch_wf_new: "ring_wf cap rg \<Longrightarrow> batch_wf cap (rg, BatchWriter_new rg)"
  by (simp add: batch_wf_def ring_wf_def BatchWriter_new_def used_def pending_len_def)

lemma pending_new [simp]: "pending (rg, BatchWriter_new rg) = []"
  by (simp add: pending_def pending_len_def BatchWriter_new_def)

lemma count_new [simp]: "bw_count (BatchWriter_new rg) = 0"
  by (simp add: BatchWriter_new_def)

section \<open>Correctness of the operations\<close>

lemma BatchWriter_TryWrite_reject:
  assumes "batch_wf cap (rg, b)"
    and "data = None \<or> len = 0 \<or> unat len > max_write_size cap \<or> dist (bw_w b) (bw_r b) + unat len > cap"
  shows "BatchWriter_TryWrite cap (rg, b) data len = Some (-1, rg, b)"
  using assms(2) batch_wfD [OF assms(1)] space_test [of cap "bw_w b" "bw_r b" len]
  by (auto simp: BatchWriter_TryWrite_def split: option.splits)

text \<open>
  Advancing the local write position over bytes put at it keeps the invariant, appends
  them to the pending bytes and leaves the published contents alone.
\<close>

lemma batch_advance:
  fixes n :: u64
  assumes wf: "batch_wf cap (rg, b)" and fit: "dist (bw_w b) (bw_r b) + length xs \<le> cap"
    and n: "unat n = length xs"
    and rg': "rg' = rg\<lparr>ring_bytes := ring_put (ring_bytes rg) (unat (bw_w b)) xs\<rparr>"
    and b': "b' = b\<lparr>bw_w := bw_w b + n, bw_count := c\<rparr>"
  shows "batch_wf cap (rg', b')" "pending (rg', b') = pending (rg, b) @ xs"
    "contents rg' = contents rg"
proof -
  note wfD = batch_wfD [OF wf]
  note dvd = cap_ok_dvd [OF wfD(1)]
  have p': "pending_len b' = pending_len b + length xs"
    using wfD fit n by (simp add: b' pending_len_def dist_add_left)
  have d': "dist (bw_w b') (bw_r b') = dist (bw_w b) (bw_r b) + length xs"
    using wfD fit n by (simp add: b' dist_add_left)
  show "batch_wf cap (rg', b')"
    using wf p' d' fit by (auto simp: batch_wf_def rg' b' used_def)
  have e1: "ring_put (ring_bytes rg) (unat (bw_w b)) xs
      = ring_put (ring_bytes rg) (unat (bw_w_start b) + pending_len b) xs"
    using unat_dist_mod_dvd [OF dvd, of "bw_w_start b" "bw_w b"] wfD(2)
    by (intro ring_put_cong_mod) (simp add: pending_len_def)
  then show "pending (rg', b') = pending (rg, b) @ xs"
    using ring_slice_put_append [of "pending_len b" xs "ring_bytes rg" "unat (bw_w_start b)"]
      p' fit wfD by (simp add: pending_def rg' b')
  have "(unat (bw_w_start b) + pending_len b) mod cap
      = (unat (read_pos rg) + used rg + pending_len b) mod cap"
    using unat_dist_mod_dvd [OF dvd, of "read_pos rg" "write_pos rg"] wfD(4)
    by (metis mod_add_left_eq used_def)
  with e1 have e2: "ring_put (ring_bytes rg) (unat (bw_w b)) xs
      = ring_put (ring_bytes rg) (unat (read_pos rg) + used rg + pending_len b) xs"
    using wfD(2) by (simp add: ring_put_cong_mod [of "unat (bw_w_start b) + pending_len b"])
  show "contents rg' = contents rg"
    using wfD fit by (simp add: rg' contents_def used_def e2 ring_slice_put_other [folded used_def])
qed

lemma BatchWriter_TryWrite_accept:
  assumes wf: "batch_wf cap (rg, b)" and len: "len \<noteq> 0" "unat len \<le> max_write_size cap"
    and fit: "dist (bw_w b) (bw_r b) + unat len \<le> cap" and src: "unat len \<le> length src"
  shows "\<exists>rg' b'. BatchWriter_TryWrite cap (rg, b) (Some src) len = Some (0, rg', b') \<and>
     batch_wf cap (rg', b') \<and> pending (rg', b') = pending (rg, b) @ take (unat len) src \<and>
     contents rg' = contents rg \<and> write_pos rg' = write_pos rg \<and> read_pos rg' = read_pos rg \<and>
     bw_r b' = bw_r b \<and> bw_w b' = bw_w b + ucast len \<and> bw_w_start b' = bw_w_start b \<and>
     bw_count b' = bw_count b + 1"
proof -
  note wfD = batch_wfD [OF wf]
  let ?xs = "take (unat len) src"
  let ?rg = "rg\<lparr>ring_bytes := ring_put (ring_bytes rg) (unat (bw_w b)) ?xs\<rparr>"
  let ?b = "b\<lparr>bw_w := bw_w b + ucast len, bw_count := bw_count b + 1\<rparr>"
  have "ring_put (ring_bytes rg) (RingPhys cap (bw_w b)) ?xs
      = ring_put (ring_bytes rg) (unat (bw_w b)) ?xs"
    using wfD(1,2) by (intro ring_put_cong_mod) (simp add: RingPhys_mod)
  then have cp: "RingCopyIn cap (ring_bytes rg) (RingPhys cap (bw_w b)) src len
      = Some (ring_put (ring_bytes rg) (unat (bw_w b)) ?xs)"
    using RingCopyIn_put [of "ring_bytes rg" cap "RingPhys cap (bw_w b)" len src] wfD fit src
    by (simp add: RingPhys_less)
  have "\<not> (bw_w b + ucast len) - bw_r b > word_of_nat cap"
    using space_test [of cap "bw_w b" "bw_r b" len] wfD fit by simp
  then have "BatchWriter_TryWrite cap (rg, b) (Some src) len = Some (0, ?rg, ?b)"
    using len cp by (simp add: BatchWriter_TryWrite_def)
  moreover have "batch_wf cap (?rg, ?b)" "pending (?rg, ?b) = pending (rg, b) @ ?xs"
    "contents ?rg = contents rg"
    using batch_advance [OF wf, of ?xs "ucast len" ?rg ?b "bw_count b + 1"] fit src by simp_all
  ultimately show ?thesis by simp
qed

lemma BatchWriter_Flush_publish:
  assumes wf: "batch_wf cap (rg, b)" and fl: "BatchWriter_Flush (rg, b) = (n, rg', b')"
  shows "n = bw_count b" "batch_wf cap (rg', b')" "contents rg' = contents rg @ pending (rg, b)"
    "pending (rg', b') = []" "bw_count b' = 0" "read_pos rg' = read_pos rg"
proof -
  note wfD = batch_wfD [OF wf]
  have rg': "rg' = rg\<lparr>write_pos := bw_w b\<rparr>" and b': "b' = b\<lparr>bw_w_start := bw_w b, bw_count := 0\<rparr>"
    and n: "n = bw_count b"
    using fl wfD by (auto simp: BatchWriter_Flush_def split: if_splits)
  have "dist (bw_w b) (read_pos rg) = pending_len b + used rg"
    using wfD dist_split [of "bw_w b" "write_pos rg" "read_pos rg"]
    by (simp add: used_def pending_len_def)
  then have u': "used rg' = used rg + pending_len b" by (simp add: rg' used_def)
  show "batch_wf cap (rg', b')"
    using wf u' by (auto simp: batch_wf_def rg' b' pending_len_def)
  have "ring_slice (ring_bytes rg) (unat (bw_w_start b)) (pending_len b)
      = ring_slice (ring_bytes rg) (unat (read_pos rg) + used rg) (pending_len b)"
    using unat_dist_mod_dvd [OF cap_ok_dvd [OF wfD(1)], of "read_pos rg" "write_pos rg"] wfD(2,4)
    by (intro ring_slice_cong_mod) (simp add: used_def)
  then show "contents rg' = contents rg @ pending (rg, b)"
    using u' ring_slice_append [of "ring_bytes rg" "unat (read_pos rg)" "used rg" "pending_len b"]
    by (simp add: contents_def pending_def rg' used_def)
  show "n = bw_count b" by (rule n)
  show "pending (rg', b') = []" "bw_count b' = 0" "read_pos rg' = read_pos rg"
    by (simp_all add: rg' b' pending_def pending_len_def)
qed

text \<open>Giving back pending bytes from the end: \<open>Cancel\<close> and \<open>RewindTo\<close>.\<close>

lemma batch_rewind:
  fixes p :: u64
  assumes wf: "batch_wf cap (rg, b)" and p: "unat p \<le> pending_len b"
  shows "batch_wf cap (rg, b\<lparr>bw_w := bw_w_start b + p, bw_count := c\<rparr>)" (is "batch_wf cap (rg, ?b)")
    and "pending (rg, b\<lparr>bw_w := bw_w_start b + p, bw_count := c\<rparr>) = take (unat p) (pending (rg, b))"
proof -
  note wfD = batch_wfD [OF wf]
  have p': "pending_len ?b = unat p" by (simp add: pending_len_def dist_def)
  have "dist (bw_w b) (bw_r b) = dist (read_pos rg) (bw_r b) + used rg + pending_len b"
    using wf by (auto simp: batch_wf_def)
  then have lt: "unat p + (used rg + dist (read_pos rg) (bw_r b)) < 4294967296"
    using p wfD(6,7) by linarith
  have "dist (write_pos rg) (bw_r b) = used rg + dist (read_pos rg) (bw_r b)"
    unfolding used_def using lt by (intro dist_split) (simp add: used_def)
  moreover have "dist (bw_w_start b + p) (bw_w_start b) = unat p" by (simp add: dist_def)
  ultimately have "dist (bw_w ?b) (bw_r ?b) = unat p + (used rg + dist (read_pos rg) (bw_r b))"
    using lt wfD(4) dist_split [of "bw_w_start b + p" "bw_w_start b" "bw_r b"] by simp
  then show "batch_wf cap (rg, ?b)"
    using wf p p' by (auto simp: batch_wf_def)
  show "pending (rg, ?b) = take (unat p) (pending (rg, b))"
    using p p' by (simp add: pending_def)
qed

lemma BatchWriter_Cancel_discard:
  assumes wf: "batch_wf cap (rg, b)"
  shows "batch_wf cap (rg, BatchWriter_Cancel b)" "pending (rg, BatchWriter_Cancel b) = []"
    "bw_count (BatchWriter_Cancel b) = 0"
  using batch_rewind [OF wf, of 0 0] by (simp_all add: BatchWriter_Cancel_def)

lemma unat_PendingBytes: "unat (BatchWriter_PendingBytes b) = pending_len b"
  by (simp add: BatchWriter_PendingBytes_def pending_len_def dist_def)

lemma BatchWriter_RewindTo_undo:
  assumes wf: "batch_wf cap (rg, b)" and p: "unat p \<le> pending_len b"
  shows "\<exists>b'. BatchWriter_RewindTo b p c = Some b' \<and> batch_wf cap (rg, b') \<and>
     pending (rg, b') = take (unat p) (pending (rg, b)) \<and> bw_count b' = c \<and>
     bw_w_start b' = bw_w_start b \<and> bw_r b' = bw_r b"
  using batch_rewind [OF wf p, of c] p
  by (simp add: BatchWriter_RewindTo_def word_le_nat_alt unat_PendingBytes)

lemma BatchWriter_FreeBytes_dist:
  assumes wf: "batch_wf cap (rg, b)"
  shows "unat (BatchWriter_FreeBytes cap b) = cap - dist (bw_w b) (bw_r b)"
proof -
  note wfD = batch_wfD [OF wf]
  have c: "unat (word_of_nat cap :: u64) = cap" using unat_word_of_cap [OF order_refl wfD(1)] .
  then have "bw_w b - bw_r b \<le> word_of_nat cap" using wfD(6) by (simp add: word_le_nat_alt dist_def)
  then show ?thesis using c by (simp add: BatchWriter_FreeBytes_def unat_sub dist_def)
qed

text \<open>
  A reserved region lies inside the data area; filling it through the pointer and
  committing is the same as writing the bytes.
\<close>

lemma BatchWriter_Reserve_commit:
  assumes wf: "batch_wf cap (rg, b)" and rs: "BatchWriter_Reserve cap b len = Some off"
    and src: "length src = unat len"
  shows "\<exists>base b'. mem_write (ring_bytes rg) off src = Some base \<and>
     BatchWriter_CommitReserve cap b len = Some b' \<and> batch_wf cap (rg\<lparr>ring_bytes := base\<rparr>, b') \<and>
     pending (rg\<lparr>ring_bytes := base\<rparr>, b') = pending (rg, b) @ src \<and>
     contents (rg\<lparr>ring_bytes := base\<rparr>) = contents rg \<and> bw_r b' = bw_r b \<and>
     bw_w b' = bw_w b + ucast len \<and> bw_w_start b' = bw_w_start b \<and> bw_count b' = bw_count b + 1"
proof -
  note wfD = batch_wfD [OF wf]
  have len: "len \<noteq> 0" "unat len \<le> max_write_size cap" and off: "off = RingPhys cap (bw_w b)"
    and tail: "unat len \<le> cap - off" and sp: "\<not> (bw_w b + ucast len) - bw_r b > word_of_nat cap"
    using rs by (auto simp: BatchWriter_Reserve_def Let_def split: if_splits)
  have fit: "dist (bw_w b) (bw_r b) + unat len \<le> cap"
    using sp space_test [of cap "bw_w b" "bw_r b" len] wfD by simp
  have ol: "off < cap" using wfD off by (simp add: RingPhys_less)
  let ?base = "ring_put (ring_bytes rg) (unat (bw_w b)) src"
  let ?b = "b\<lparr>bw_w := bw_w b + ucast len, bw_count := bw_count b + 1\<rparr>"
  have "ring_put (ring_bytes rg) off src = ?base"
    using wfD(1,2) off by (intro ring_put_cong_mod) (simp add: RingPhys_mod)
  then have "mem_write (ring_bytes rg) off src = Some ?base"
    using tail ol src wfD(2) ring_put_contig [of off src "ring_bytes rg"] by (simp add: mem_write_def)
  moreover have "BatchWriter_CommitReserve cap b len = Some ?b"
    using len by (simp add: BatchWriter_CommitReserve_def word_gt_0)
  ultimately show ?thesis
    using batch_advance [OF wf, of src "ucast len" "rg\<lparr>ring_bytes := ?base\<rparr>" ?b "bw_count b + 1"] fit src
    by simp
qed

lemma BatchWriter_Reserve_iff:
  assumes wf: "batch_wf cap (rg, b)"
  shows "BatchWriter_Reserve cap b len \<noteq> None \<longleftrightarrow>
     len \<noteq> 0 \<and> unat len \<le> max_write_size cap \<and> dist (bw_w b) (bw_r b) + unat len \<le> cap \<and>
     RingPhys cap (bw_w b) + unat len \<le> cap"
proof -
  have "RingPhys cap (bw_w b) < cap" using batch_wfD [OF wf] by (simp add: RingPhys_less)
  then show ?thesis
    using batch_wfD [OF wf] space_test [of cap "bw_w b" "bw_r b" len]
    by (auto simp: BatchWriter_Reserve_def Let_def)
qed

text \<open>
  The consumer may take bytes out while a batch is being built: the batch stays
  well formed against its old snapshot and its pending bytes are untouched.
\<close>

lemma batch_wf_consume:
  fixes n :: u64
  assumes wf: "batch_wf cap (rg, b)" and n: "unat n \<le> used rg"
  shows "batch_wf cap (rg\<lparr>read_pos := read_pos rg + n\<rparr>, b)"
    and "pending (rg\<lparr>read_pos := read_pos rg + n\<rparr>, b) = pending (rg, b)"
proof -
  note wfD = batch_wfD [OF wf]
  have u: "used (rg\<lparr>read_pos := read_pos rg + n\<rparr>) = used rg - unat n"
    using n by (simp add: used_def dist_add_right)
  have e: "dist (read_pos rg) (bw_r b) + used rg + pending_len b = dist (bw_w b) (bw_r b)"
    using wf by (auto simp: batch_wf_def)
  have "dist (read_pos rg + n) (bw_r b) = dist (read_pos rg) (bw_r b) + unat n"
    using e n wfD(6,7) by (intro dist_add_left) linarith
  then show "batch_wf cap (rg\<lparr>read_pos := read_pos rg + n\<rparr>, b)"
    using wf u n by (auto simp: batch_wf_def)
  show "pending (rg\<lparr>read_pos := read_pos rg + n\<rparr>, b) = pending (rg, b)"
    by (simp add: pending_def)
qed

section \<open>A one-write batch is a byte queue\<close>

text \<open>Construct a batch, write once, destroy it (the destructor flushes).\<close>

definition batch_put_op :: "nat \<Rightarrow> ring \<Rightarrow> bytes \<Rightarrow> (bool \<times> ring) option" where
  "batch_put_op cap rg xs = do {
     (rc, s) \<leftarrow> BatchWriter_TryWrite cap (rg, BatchWriter_new rg) (Some xs) (word_of_nat (length xs));
     let (n, rg', b') = BatchWriter_Flush s in Some (rc = 0, rg')
   }"

text \<open>It has the same effect as the direct write of the ring.\<close>

lemma batch_put_op_eq_ring: "batch_put_op cap rg xs = ring_put_op cap rg xs"
  by (auto simp: batch_put_op_def ring_put_op_def BatchWriter_TryWrite_def RingBuf_TryWrite_def
        BatchWriter_new_def BatchWriter_Flush_def Let_def ucast_u32_eq_0 split: option.splits if_splits)
    (auto simp: Option.bind_eq_None_conv split: bind_splits)

interpretation batchq: byte_fifo "ring_wf cap" contents cap "batch_put_op cap" "RingBuf_TryRead cap"
  for cap :: nat
  unfolding batch_put_op_eq_ring by (rule ringq.byte_fifo_axioms)

section \<open>Properties\<close>

text \<open>A batch of writes: the accepted ones in order, and the state after them.\<close>

fun batch_writes :: "nat \<Rightarrow> ring \<times> batch \<Rightarrow> bytes list \<Rightarrow> (bytes list \<times> ring \<times> batch) option" where
  "batch_writes cap s [] = Some ([], s)"
| "batch_writes cap s (xs # xss) = do {
     (rc, s1) \<leftarrow> BatchWriter_TryWrite cap s (Some xs) (word_of_nat (length xs));
     (acc, s2) \<leftarrow> batch_writes cap s1 xss;
     Some ((if rc = 0 then xs # acc else acc), s2)
   }"

lemma batch_writes_pending:
  assumes "batch_wf cap s" "list_all (\<lambda>xs. length xs < 4294967296) xss"
  shows "\<exists>acc s'. batch_writes cap s xss = Some (acc, s') \<and> batch_wf cap s' \<and>
     contents (fst s') = contents (fst s) \<and> pending s' = pending s @ concat acc \<and>
     bw_count (snd s') = bw_count (snd s) + int (length acc) \<and> bw_w_start (snd s') = bw_w_start (snd s)"
  using assms
proof (induction xss arbitrary: s)
  case Nil
  then show ?case by simp
next
  case (Cons xs xss)
  obtain rg b where s: "s = (rg, b)" by (cases s)
  have wf: "batch_wf cap (rg, b)" using Cons.prems s by simp
  let ?n = "word_of_nat (length xs) :: u32"
  have n: "unat ?n = length xs" using Cons.prems by (intro unat_of_nat_u32) simp
  have "\<exists>rc rg1 b1. BatchWriter_TryWrite cap (rg, b) (Some xs) ?n = Some (rc, rg1, b1) \<and>
      batch_wf cap (rg1, b1) \<and> contents rg1 = contents rg \<and>
      pending (rg1, b1) = pending (rg, b) @ (if rc = 0 then xs else []) \<and>
      bw_count b1 = bw_count b + (if rc = 0 then 1 else 0) \<and> bw_w_start b1 = bw_w_start b"
  proof (cases "?n = 0 \<or> unat ?n > max_write_size cap \<or> dist (bw_w b) (bw_r b) + unat ?n > cap")
    case True
    then show ?thesis using BatchWriter_TryWrite_reject [OF wf, of "Some xs" ?n] wf by auto
  next
    case False
    then show ?thesis using BatchWriter_TryWrite_accept [OF wf, of ?n xs] n by auto
  qed
  then obtain rc rg1 b1 where tw: "BatchWriter_TryWrite cap (rg, b) (Some xs) ?n = Some (rc, rg1, b1)"
    and wf1: "batch_wf cap (rg1, b1)" and st: "contents rg1 = contents rg"
      "pending (rg1, b1) = pending (rg, b) @ (if rc = 0 then xs else [])"
      "bw_count b1 = bw_count b + (if rc = 0 then 1 else 0)" "bw_w_start b1 = bw_w_start b" by blast
  from Cons.IH [OF wf1] Cons.prems(2) obtain acc s' where
    "batch_writes cap (rg1, b1) xss = Some (acc, s')" "batch_wf cap s'" "contents (fst s') = contents rg1"
    "pending s' = pending (rg1, b1) @ concat acc" "bw_count (snd s') = bw_count b1 + int (length acc)"
    "bw_w_start (snd s') = bw_w_start b1" by auto
  with tw st s show ?case by auto
qed

text \<open>
  C4: a batch is published all at once. Whatever sequence of writes is made in a new
  batch, the consumer sees the old contents until \<open>Flush\<close>, which appends the bytes of all
  accepted writes in order and returns their number; \<open>Cancel\<close> instead of \<open>Flush\<close> leaves
  the ring with its old contents for good.
\<close>

theorem batch_all_at_once:
  assumes "ring_wf cap rg" "list_all (\<lambda>xs. length xs < 4294967296) xss"
  shows "\<exists>acc rg1 b1. batch_writes cap (rg, BatchWriter_new rg) xss = Some (acc, rg1, b1) \<and>
     contents rg1 = contents rg \<and>
     (case BatchWriter_Flush (rg1, b1) of (n, rg2, b2) \<Rightarrow>
        n = int (length acc) \<and> ring_wf cap rg2 \<and> contents rg2 = contents rg @ concat acc) \<and>
     (case BatchWriter_Flush (rg1, BatchWriter_Cancel b1) of (n, rg2, b2) \<Rightarrow>
        n = 0 \<and> ring_wf cap rg2 \<and> contents rg2 = contents rg)"
proof -
  from batch_writes_pending [OF batch_wf_new [OF assms(1)] assms(2)] obtain acc rg1 b1 where
    bw: "batch_writes cap (rg, BatchWriter_new rg) xss = Some (acc, rg1, b1)" and wf: "batch_wf cap (rg1, b1)"
    and c: "contents rg1 = contents rg" and p: "pending (rg1, b1) = concat acc"
    and n: "bw_count b1 = int (length acc)"
    by (fastforce simp: count_new)
  note cn = BatchWriter_Cancel_discard [OF wf]
  have "case BatchWriter_Flush (rg1, b1) of (n, rg2, b2) \<Rightarrow>
        n = int (length acc) \<and> ring_wf cap rg2 \<and> contents rg2 = contents rg @ concat acc"
    using BatchWriter_Flush_publish [OF wf] c p n by (auto dest: batch_wf_ring)
  moreover have "case BatchWriter_Flush (rg1, BatchWriter_Cancel b1) of (n, rg2, b2) \<Rightarrow>
        n = 0 \<and> ring_wf cap rg2 \<and> contents rg2 = contents rg"
    using BatchWriter_Flush_publish [OF cn(1)] cn c by (auto dest: batch_wf_ring)
  ultimately show ?thesis using bw c by (intro exI conjI)
qed

theorem batch_all_at_once_witness:
  "\<exists>acc rg1 b1. batch_writes 1024 (ring_near_wrap, BatchWriter_new ring_near_wrap) [[1], [], [2, 3]]
       = Some (acc, rg1, b1) \<and> contents rg1 = [7, 7] \<and>
     (case BatchWriter_Flush (rg1, b1) of (n, rg2, b2) \<Rightarrow>
        n = int (length acc) \<and> ring_wf 1024 rg2 \<and> contents rg2 = [7, 7] @ concat acc) \<and>
     (case BatchWriter_Flush (rg1, BatchWriter_Cancel b1) of (n, rg2, b2) \<Rightarrow>
        n = 0 \<and> ring_wf 1024 rg2 \<and> contents rg2 = [7, 7])"
  using batch_all_at_once [OF ring_near_wrap_wf(1), of "[[1], [], [2, 3]]"]
  unfolding ring_near_wrap_contents by simp

text \<open>
  \<open>RewindTo\<close> undoes a partial write. After saving \<open>PendingBytes\<close> and \<open>Count\<close> of a
  batch and making further writes, rewinding to the saved values succeeds (its assertion
  holds), restores the count and the pending bytes, and keeps the batch well formed.
\<close>

theorem RewindTo_undoes_writes:
  assumes "batch_wf cap (rg, b)" "list_all (\<lambda>xs. length xs < 4294967296) xss"
  shows "\<exists>acc rg1 b1 b2. batch_writes cap (rg, b) xss = Some (acc, rg1, b1) \<and>
     pending (rg1, b1) = pending (rg, b) @ concat acc \<and>
     BatchWriter_RewindTo b1 (BatchWriter_PendingBytes b) (BatchWriter_Count b) = Some b2 \<and>
     batch_wf cap (rg1, b2) \<and> pending (rg1, b2) = pending (rg, b) \<and>
     BatchWriter_Count b2 = BatchWriter_Count b"
proof -
  from batch_writes_pending [OF assms] obtain acc rg1 b1 where
    bw: "batch_writes cap (rg, b) xss = Some (acc, rg1, b1)" and wf1: "batch_wf cap (rg1, b1)"
    and p1: "pending (rg1, b1) = pending (rg, b) @ concat acc" by auto
  have len: "unat (BatchWriter_PendingBytes b) \<le> pending_len b1"
    using arg_cong [OF p1, of length] by (simp add: unat_PendingBytes)
  from BatchWriter_RewindTo_undo [OF wf1 len, of "BatchWriter_Count b"] obtain b2 where
    "BatchWriter_RewindTo b1 (BatchWriter_PendingBytes b) (BatchWriter_Count b) = Some b2"
    "batch_wf cap (rg1, b2)" "pending (rg1, b2) = take (pending_len b) (pending (rg1, b1))"
    "bw_count b2 = BatchWriter_Count b" unfolding unat_PendingBytes by blast
  with bw p1 show ?thesis by (auto simp: BatchWriter_Count_def)
qed

theorem RewindTo_undoes_writes_witness:
  "\<exists>acc rg1 b1 b2. batch_writes 1024 (ring_near_wrap, BatchWriter_new ring_near_wrap) [[1], [2, 3]]
       = Some (acc, rg1, b1) \<and> pending (rg1, b1) = concat acc \<and>
     BatchWriter_RewindTo b1 (BatchWriter_PendingBytes (BatchWriter_new ring_near_wrap))
       (BatchWriter_Count (BatchWriter_new ring_near_wrap)) = Some b2 \<and>
     batch_wf 1024 (rg1, b2) \<and> pending (rg1, b2) = [] \<and>
     BatchWriter_Count b2 = BatchWriter_Count (BatchWriter_new ring_near_wrap)"
  using RewindTo_undoes_writes [OF batch_wf_new [OF ring_near_wrap_wf(1)], of "[[1], [2, 3]]"] by simp

text \<open>
  Zero-copy writing. If \<open>Reserve\<close> returns a pointer, the whole region behind it lies
  inside the data area, and filling it and calling \<open>CommitReserve\<close> gives exactly the ring
  and the batch that \<open>TryWrite\<close> of the same bytes gives.
\<close>

theorem Reserve_eq_TryWrite:
  assumes "batch_wf cap (rg, b)" "BatchWriter_Reserve cap b len = Some off" "length src = unat len"
  shows "\<exists>base b'. mem_write (ring_bytes rg) off src = Some base \<and>
     BatchWriter_CommitReserve cap b len = Some b' \<and>
     BatchWriter_TryWrite cap (rg, b) (Some src) len = Some (0, rg\<lparr>ring_bytes := base\<rparr>, b')"
proof -
  have len: "len \<noteq> 0" "unat len \<le> max_write_size cap" and off: "off = RingPhys cap (bw_w b)"
    and tail: "unat len \<le> cap - off" and sp: "\<not> (bw_w b + ucast len) - bw_r b > word_of_nat cap"
    using assms(2) by (auto simp: BatchWriter_Reserve_def Let_def split: if_splits)
  from BatchWriter_Reserve_commit [OF assms] obtain base b' where
    mw: "mem_write (ring_bytes rg) off src = Some base" and cr: "BatchWriter_CommitReserve cap b len = Some b'"
    by blast
  have "RingCopyIn cap (ring_bytes rg) off src len = Some base"
    using tail assms(3) mw by (simp add: RingCopyIn_def)
  then show ?thesis
    using mw cr len sp off by (auto simp: BatchWriter_TryWrite_def BatchWriter_CommitReserve_def split: if_splits)
qed

theorem Reserve_eq_TryWrite_witness:
  "BatchWriter_Reserve 1024 (BatchWriter_new ring_near_wrap) 2 = Some 1021 \<and>
   (\<exists>base b'. mem_write (ring_bytes ring_near_wrap) 1021 [8, 9] = Some base \<and>
     BatchWriter_CommitReserve 1024 (BatchWriter_new ring_near_wrap) 2 = Some b' \<and>
     BatchWriter_TryWrite 1024 (ring_near_wrap, BatchWriter_new ring_near_wrap) (Some [8, 9]) 2
       = Some (0, ring_near_wrap\<lparr>ring_bytes := base\<rparr>, b'))"
proof -
  have "BatchWriter_Reserve 1024 (BatchWriter_new ring_near_wrap) 2 = Some 1021"
    by (simp add: BatchWriter_Reserve_def BatchWriter_new_def ring_near_wrap_def max_write_size_def
        RingPhys_mod [OF cap_ok_1024] word_less_nat_alt)
  then show ?thesis
    using Reserve_eq_TryWrite [OF batch_wf_new [OF ring_near_wrap_wf(1)], of 2 1021 "[8, 9]"] by simp
qed

text \<open>
  Opening a batch, writing once and letting its destructor flush has exactly the same
  outcome as \<open>RingBuf::TryWrite\<close>, on every ring, well formed or not.
\<close>

theorem single_write_batch_eq_TryWrite: "batch_put_op cap rg xs = ring_put_op cap rg xs"
  by (rule batch_put_op_eq_ring)

end
