(* ===== verification/Ring_Channel.thy ===== *)
theory Ring_Channel
  imports Batch_Writer
begin

text \<open>
  The data operations of \<open>include/shm_ipc/ring_channel.hpp\<close>: \<open>RingChannel\<close>, one ring
  written and one ring read by this endpoint, each direction with an eventfd, and
  \<open>detail::ChannelBatchWriter\<close>, the batch writer that notifies the peer when it
  publishes. The handshake that creates a channel is in \<open>Handshake\<close>.
\<close>

section \<open>Event counters\<close>

text \<open>
  An eventfd is the 64-bit counter of the kernel object (created with \<open>EFD_NONBLOCK\<close>):
  a write that would exceed the maximum \<open>2 ^ 64 - 2\<close> fails with \<open>EAGAIN\<close> and a read
  of zero does too; a successful read returns the counter and resets it. A call
  interrupted by a signal has no effect and is retried by the loops of the code, so the
  loops have the effect of their last call.
\<close>

definition eventfd_write :: "u64 \<Rightarrow> u64 \<Rightarrow> u64" where
  "eventfd_write c v = (if v \<le> - 2 - c \<and> c \<le> - 2 then c + v else c)"

definition eventfd_read :: "u64 \<Rightarrow> u64 \<times> u64" where
  "eventfd_read c = (c, 0)"

section \<open>The channel\<close>

text \<open>
  \<open>ch_wr\<close> and \<open>ch_rd\<close> are the rings behind \<open>write_region_\<close> and \<open>read_region_\<close>,
  \<open>ch_peer_evt\<close> and \<open>ch_own_evt\<close> the counters behind \<open>notify_write_efd_\<close> and
  \<open>notify_read_efd_\<close>.
\<close>

record channel =
  ch_wr :: ring
  ch_rd :: ring
  ch_peer_evt :: u64
  ch_own_evt :: u64

definition RingChannel_TryWrite :: "nat \<Rightarrow> channel \<Rightarrow> bytes option \<Rightarrow> u32 \<Rightarrow> (int \<times> channel) option" where
  "RingChannel_TryWrite cap ch data len = do {
     (rc, rg) \<leftarrow> RingBuf_TryWrite cap (ch_wr ch) data len;
     Some (rc, ch\<lparr>ch_wr := rg\<rparr>)
   }"

definition RingChannel_TryRead :: "nat \<Rightarrow> channel \<Rightarrow> u32 \<Rightarrow> (bytes \<times> channel) option" where
  "RingChannel_TryRead cap ch max_len = do {
     (d, rg) \<leftarrow> RingBuf_TryRead cap (ch_rd ch) max_len;
     Some (d, ch\<lparr>ch_rd := rg\<rparr>)
   }"

definition RingChannel_ReadExact :: "nat \<Rightarrow> channel \<Rightarrow> u32 \<Rightarrow> (int \<times> bytes \<times> channel) option" where
  "RingChannel_ReadExact cap ch len = do {
     (rc, d, rg) \<leftarrow> RingBuf_ReadExact cap (ch_rd ch) len;
     Some (rc, d, ch\<lparr>ch_rd := rg\<rparr>)
   }"

definition RingChannel_Peek :: "nat \<Rightarrow> channel \<Rightarrow> peek_result" where
  "RingChannel_Peek cap ch = RingBuf_Peek cap (ch_rd ch)"

definition RingChannel_CommitRead :: "channel \<Rightarrow> u32 \<Rightarrow> channel option" where
  "RingChannel_CommitRead ch len = do {
     rg \<leftarrow> RingBuf_CommitRead (ch_rd ch) len;
     Some (ch\<lparr>ch_rd := rg\<rparr>)
   }"

definition RingChannel_Readable :: "channel \<Rightarrow> u64" where
  "RingChannel_Readable ch = RingBuf_Available (ch_rd ch)"

definition RingChannel_WritableBytes :: "nat \<Rightarrow> channel \<Rightarrow> u64" where
  "RingChannel_WritableBytes cap ch = RingBuf_FreeSpace cap (ch_wr ch)"

definition NotifyPeer :: "channel \<Rightarrow> channel" where
  "NotifyPeer ch = ch\<lparr>ch_peer_evt := eventfd_write (ch_peer_evt ch) 1\<rparr>"

definition DrainNotify :: "channel \<Rightarrow> u64 \<times> channel" where
  "DrainNotify ch = (let (v, c) = eventfd_read (ch_own_evt ch) in (v, ch\<lparr>ch_own_evt := c\<rparr>))"

section \<open>The channel's batch writer\<close>

text \<open>\<open>cb_channel\<close> is whether \<open>channel_\<close> is non-null.\<close>

record cbw =
  cb_batch :: batch
  cb_channel :: bool

type_synonym chan_batch = "channel \<times> cbw"

definition StartBatch :: "channel \<Rightarrow> cbw" where
  "StartBatch ch = \<lparr>cb_batch = fst (BatchWriter_move (BatchWriter_new (ch_wr ch))), cb_channel = True\<rparr>"

text \<open>The move constructor: the new writer and the moved-from one.\<close>

definition ChannelBatchWriter_move :: "cbw \<Rightarrow> cbw \<times> cbw" where
  "ChannelBatchWriter_move w = (let (b, b') = BatchWriter_move (cb_batch w) in
     (w\<lparr>cb_batch := b\<rparr>, \<lparr>cb_batch = b', cb_channel = False\<rparr>))"

definition ChannelBatchWriter_TryWrite ::
    "nat \<Rightarrow> chan_batch \<Rightarrow> bytes option \<Rightarrow> u32 \<Rightarrow> (int \<times> chan_batch) option" where
  "ChannelBatchWriter_TryWrite cap s data len = (case s of (ch, w) \<Rightarrow> do {
     (rc, rg, b) \<leftarrow> BatchWriter_TryWrite cap (ch_wr ch, cb_batch w) data len;
     Some (rc, ch\<lparr>ch_wr := rg\<rparr>, w\<lparr>cb_batch := b\<rparr>)
   })"

definition ChannelBatchWriter_Flush :: "chan_batch \<Rightarrow> int \<times> chan_batch" where
  "ChannelBatchWriter_Flush s = (case s of (ch, w) \<Rightarrow>
     let (n, rg, b) = BatchWriter_Flush (ch_wr ch, cb_batch w);
         ch1 = ch\<lparr>ch_wr := rg\<rparr>
     in (n, (if n > 0 \<and> cb_channel w then NotifyPeer ch1 else ch1), w\<lparr>cb_batch := b\<rparr>))"

definition ChannelBatchWriter_Count :: "cbw \<Rightarrow> int" where
  "ChannelBatchWriter_Count w = BatchWriter_Count (cb_batch w)"

definition ChannelBatchWriter_PendingBytes :: "cbw \<Rightarrow> u64" where
  "ChannelBatchWriter_PendingBytes w = BatchWriter_PendingBytes (cb_batch w)"

definition ChannelBatchWriter_Cancel :: "cbw \<Rightarrow> cbw" where
  "ChannelBatchWriter_Cancel w = w\<lparr>cb_batch := BatchWriter_Cancel (cb_batch w)\<rparr>"

definition ChannelBatchWriter_RewindTo :: "cbw \<Rightarrow> u64 \<Rightarrow> int \<Rightarrow> cbw option" where
  "ChannelBatchWriter_RewindTo w p c = do {
     b \<leftarrow> BatchWriter_RewindTo (cb_batch w) p c;
     Some (w\<lparr>cb_batch := b\<rparr>)
   }"

definition ChannelBatchWriter_FreeBytes :: "nat \<Rightarrow> cbw \<Rightarrow> u64" where
  "ChannelBatchWriter_FreeBytes cap w = BatchWriter_FreeBytes cap (cb_batch w)"

definition ChannelBatchWriter_Reserve :: "nat \<Rightarrow> cbw \<Rightarrow> u32 \<Rightarrow> nat option" where
  "ChannelBatchWriter_Reserve cap w len = BatchWriter_Reserve cap (cb_batch w) len"

definition ChannelBatchWriter_CommitReserve :: "nat \<Rightarrow> cbw \<Rightarrow> u32 \<Rightarrow> cbw option" where
  "ChannelBatchWriter_CommitReserve cap w len = do {
     b \<leftarrow> BatchWriter_CommitReserve cap (cb_batch w) len;
     Some (w\<lparr>cb_batch := b\<rparr>)
   }"

text \<open>
  The caller's \<open>memcpy\<close> through the pointer \<open>Reserve\<close> returned, an offset into the data
  area of the write ring.
\<close>

definition write_reserved :: "channel \<Rightarrow> nat \<Rightarrow> bytes \<Rightarrow> channel option" where
  "write_reserved ch off src = do {
     base \<leftarrow> mem_write (ring_bytes (ch_wr ch)) off src;
     Some (ch\<lparr>ch_wr := (ch_wr ch)\<lparr>ring_bytes := base\<rparr>\<rparr>)
   }"

lemmas cbw_defs = ChannelBatchWriter_TryWrite_def ChannelBatchWriter_Count_def
  ChannelBatchWriter_PendingBytes_def ChannelBatchWriter_Cancel_def ChannelBatchWriter_RewindTo_def
  ChannelBatchWriter_FreeBytes_def ChannelBatchWriter_Reserve_def ChannelBatchWriter_CommitReserve_def
  write_reserved_def

lemma eventfd_write_signalled: "eventfd_write c 1 \<noteq> 0"
proof
  assume 0: "eventfd_write c 1 = 0"
  show False
  proof (cases "1 \<le> - 2 - c \<and> c \<le> - 2")
    case True
    then have "c = - 1" using 0 by (simp add: eventfd_write_def eq_neg_iff_add_eq_0)
    then show False using True by (simp add: word_le_nat_alt unsigned_minus_1_eq_mask mask_eq_exp_minus_1)
  next
    case False
    then have "c = 0" using 0 by (simp add: eventfd_write_def split: if_splits)
    then show False using False by (simp add: word_le_nat_alt)
  qed
qed

section \<open>Invariant\<close>

definition channel_wf :: "nat \<Rightarrow> channel \<Rightarrow> bool" where
  "channel_wf cap ch \<longleftrightarrow> ring_wf cap (ch_wr ch) \<and> ring_wf cap (ch_rd ch)"

text \<open>
  An active batch: well formed on the write ring, its counter between zero and the number
  of pending bytes, and zero only if nothing is pending (so that \<open>Flush\<close> notifies exactly
  when it publishes).
\<close>

definition cbw_wf :: "nat \<Rightarrow> chan_batch \<Rightarrow> bool" where
  "cbw_wf cap s \<longleftrightarrow> (case s of (ch, w) \<Rightarrow>
     batch_wf cap (ch_wr ch, cb_batch w) \<and> cb_channel w \<and>
     0 \<le> bw_count (cb_batch w) \<and> bw_count (cb_batch w) \<le> int (pending_len (cb_batch w)) \<and>
     (bw_count (cb_batch w) = 0 \<longrightarrow> pending_len (cb_batch w) = 0))"

definition cb_pending :: "chan_batch \<Rightarrow> bytes" where
  "cb_pending s = (case s of (ch, w) \<Rightarrow> pending (ch_wr ch, cb_batch w))"

lemma length_cb_pending [simp]: "length (cb_pending (ch, w)) = pending_len (cb_batch w)"
  by (simp add: cb_pending_def)

lemma cbw_wf_batch: "cbw_wf cap (ch, w) \<Longrightarrow> batch_wf cap (ch_wr ch, cb_batch w)"
  by (simp add: cbw_wf_def)

lemma cbw_wf_ring: "cbw_wf cap (ch, w) \<Longrightarrow> ring_wf cap (ch_wr ch)"
  by (auto intro: batch_wf_ring cbw_wf_batch)

lemma StartBatch_wf:
  assumes "ring_wf cap (ch_wr ch)"
  shows "cbw_wf cap (ch, StartBatch ch)" "cb_pending (ch, StartBatch ch) = []"
    "cb_batch (StartBatch ch) = BatchWriter_new (ch_wr ch)"
proof -
  show b: "cb_batch (StartBatch ch) = BatchWriter_new (ch_wr ch)"
    by (simp add: StartBatch_def BatchWriter_move_def)
  show "cbw_wf cap (ch, StartBatch ch)" "cb_pending (ch, StartBatch ch) = []"
    using batch_wf_new [OF assms] b
    by (simp_all add: cbw_wf_def cb_pending_def) (simp_all add: StartBatch_def BatchWriter_new_def pending_len_def)
qed

section \<open>What a batch operation may do\<close>

text \<open>
  \<open>cbw_appends cap s xs s'\<close>: between \<open>s\<close> and \<open>s'\<close> the batch appended \<open>xs\<close> to its
  pending bytes in at most that many counted writes and touched nothing the peer can see.
\<close>

definition cbw_appends :: "nat \<Rightarrow> chan_batch \<Rightarrow> bytes \<Rightarrow> chan_batch \<Rightarrow> bool" where
  "cbw_appends cap s xs s' \<longleftrightarrow> (case s of (ch, w) \<Rightarrow> case s' of (ch', w') \<Rightarrow>
     cbw_wf cap s' \<and> cb_pending s' = cb_pending s @ xs \<and> contents (ch_wr ch') = contents (ch_wr ch) \<and>
     write_pos (ch_wr ch') = write_pos (ch_wr ch) \<and> read_pos (ch_wr ch') = read_pos (ch_wr ch) \<and>
     ch_rd ch' = ch_rd ch \<and> ch_peer_evt ch' = ch_peer_evt ch \<and> ch_own_evt ch' = ch_own_evt ch \<and>
     bw_r (cb_batch w') = bw_r (cb_batch w) \<and> bw_w_start (cb_batch w') = bw_w_start (cb_batch w))"

lemma cbw_appends_refl: "cbw_wf cap s \<Longrightarrow> cbw_appends cap s [] s"
  by (cases s) (simp add: cbw_appends_def)

lemma cbw_appends_trans:
  "cbw_appends cap s xs t \<Longrightarrow> cbw_appends cap t ys u \<Longrightarrow> cbw_appends cap s (xs @ ys) u"
  by (cases s; cases t; cases u) (simp add: cbw_appends_def)

lemma cbw_appends_wf: "cbw_appends cap s xs t \<Longrightarrow> cbw_wf cap t"
  by (cases s; cases t) (simp add: cbw_appends_def)

text \<open>The room left in a batch, against its snapshot of \<open>read_pos\<close>.\<close>

definition cb_used :: "cbw \<Rightarrow> nat" where
  "cb_used w = dist (bw_w (cb_batch w)) (bw_r (cb_batch w))"

lemma cbw_FreeBytes: "cbw_wf cap (ch, w) \<Longrightarrow> unat (ChannelBatchWriter_FreeBytes cap w) = cap - cb_used w"
  using BatchWriter_FreeBytes_dist [of cap "ch_wr ch" "cb_batch w"]
  by (simp add: cbw_wf_def ChannelBatchWriter_FreeBytes_def cb_used_def)

lemma cbw_used_le: "cbw_wf cap (ch, w) \<Longrightarrow> cb_used w \<le> cap"
  using batch_wfD(6) [of cap "ch_wr ch" "cb_batch w"] by (simp add: cbw_wf_def cb_used_def)

lemma cbw_used_split:
  "cbw_wf cap (ch, w) \<Longrightarrow>
     dist (read_pos (ch_wr ch)) (bw_r (cb_batch w)) + used (ch_wr ch) + pending_len (cb_batch w) = cb_used w"
  by (simp add: cbw_wf_def batch_wf_def cb_used_def)

lemma cbw_appends_used:
  assumes "cbw_wf cap (ch, w)" "cbw_appends cap (ch, w) xs (ch', w')"
  shows "cb_used w' = cb_used w + length xs"
proof -
  have "pending_len (cb_batch w') = pending_len (cb_batch w) + length xs"
  proof -
    have "cb_pending (ch', w') = cb_pending (ch, w) @ xs" using assms(2) by (simp add: cbw_appends_def)
    from arg_cong [OF this, of length] show ?thesis by simp
  qed
  then show ?thesis
    using cbw_used_split [OF assms(1)] cbw_used_split [OF cbw_appends_wf [OF assms(2)]] assms(2)
    by (simp add: cbw_appends_def used_def)
qed

lemma cbw_wf_grow:
  assumes "cbw_wf cap (ch, w)" "batch_wf cap (rg, b)" "0 < k"
    and "pending_len b = pending_len (cb_batch w) + k" "bw_count b = bw_count (cb_batch w) + 1"
  shows "cbw_wf cap (ch\<lparr>ch_wr := rg\<rparr>, w\<lparr>cb_batch := b\<rparr>)"
proof -
  have "bw_count (cb_batch w) + 1 \<le> int (pending_len (cb_batch w) + k)" "0 \<le> bw_count (cb_batch w)"
    using assms(1,3) by (auto simp: cbw_wf_def)
  then show ?thesis using assms by (simp add: cbw_wf_def)
qed

lemma cbw_TryWrite_cases:
  assumes wf: "cbw_wf cap (ch, w)" and src: "\<And>d. data = Some d \<Longrightarrow> unat len \<le> length d"
  shows "if data = None \<or> len = 0 \<or> unat len > max_write_size cap \<or> cb_used w + unat len > cap
    then ChannelBatchWriter_TryWrite cap (ch, w) data len = Some (-1, ch, w)
    else \<exists>s'. ChannelBatchWriter_TryWrite cap (ch, w) data len = Some (0, s') \<and>
           cbw_appends cap (ch, w) (take (unat len) (the data)) s'"
proof (cases "data = None \<or> len = 0 \<or> unat len > max_write_size cap \<or> cb_used w + unat len > cap")
  case True
  then show ?thesis
    using BatchWriter_TryWrite_reject [OF cbw_wf_batch [OF wf], of data len]
    by (auto simp: ChannelBatchWriter_TryWrite_def cb_used_def)
next
  case False
  then obtain d where d: "data = Some d" by auto
  from BatchWriter_TryWrite_accept [OF cbw_wf_batch [OF wf], of len d] False src [OF d] obtain rg b where
    tw: "BatchWriter_TryWrite cap (ch_wr ch, cb_batch w) (Some d) len = Some (0, rg, b)"
    and b: "batch_wf cap (rg, b)" "pending (rg, b) = pending (ch_wr ch, cb_batch w) @ take (unat len) d"
      "contents rg = contents (ch_wr ch)" "write_pos rg = write_pos (ch_wr ch)"
      "read_pos rg = read_pos (ch_wr ch)" "bw_r b = bw_r (cb_batch w)"
      "bw_w_start b = bw_w_start (cb_batch w)" "bw_count b = bw_count (cb_batch w) + 1"
    by (auto simp: cb_used_def d)
  have "pending_len b = pending_len (cb_batch w) + unat len"
    using arg_cong [OF b(2), of length] src [OF d] by simp
  moreover have "0 < unat len" using False by (simp add: unat_gt_0)
  ultimately have "cbw_wf cap (ch\<lparr>ch_wr := rg\<rparr>, w\<lparr>cb_batch := b\<rparr>)"
    using b by (intro cbw_wf_grow [OF wf])
  with b have "cbw_appends cap (ch, w) (take (unat len) d) (ch\<lparr>ch_wr := rg\<rparr>, w\<lparr>cb_batch := b\<rparr>)"
    by (simp add: cbw_appends_def cb_pending_def)
  with tw d False show ?thesis by (auto simp: ChannelBatchWriter_TryWrite_def)
qed

text \<open>A write that ignores its return value appends its bytes if they fit, else nothing.\<close>

lemma cbw_TryWrite_maybe:
  assumes wf: "cbw_wf cap s" and le: "unat n \<le> length d"
  shows "\<exists>rc s' xs. ChannelBatchWriter_TryWrite cap s (Some d) n = Some (rc, s') \<and> cbw_appends cap s xs s' \<and>
     (unat n \<le> max_write_size cap \<longrightarrow> cb_used (snd s) + unat n \<le> cap \<longrightarrow> xs = take (unat n) d)"
proof -
  obtain ch w where s: "s = (ch, w)" by (cases s)
  show ?thesis
  proof (cases "n = 0 \<or> unat n > max_write_size cap \<or> cb_used w + unat n > cap")
    case True
    then have "ChannelBatchWriter_TryWrite cap s (Some d) n = Some (-1, s)"
      using cbw_TryWrite_cases [OF wf [unfolded s], of "Some d" n] le s by (auto split: if_splits)
    then show ?thesis using True s cbw_appends_refl [OF wf] by auto
  next
    case False
    then show ?thesis using cbw_TryWrite_cases [OF wf [unfolded s], of "Some d" n] le s by auto
  qed
qed

text \<open>Filling a reserved region and committing it appends the bytes.\<close>

lemma cbw_Reserve_appends:
  assumes wf: "cbw_wf cap (ch, w)" and rs: "ChannelBatchWriter_Reserve cap w len = Some off"
    and src: "length src = unat len"
  shows "\<exists>ch' w'. write_reserved ch off src = Some ch' \<and>
     ChannelBatchWriter_CommitReserve cap w len = Some w' \<and> cbw_appends cap (ch, w) src (ch', w')"
proof -
  from BatchWriter_Reserve_commit [OF cbw_wf_batch [OF wf], of len off src] rs src obtain base b where
    m: "mem_write (ring_bytes (ch_wr ch)) off src = Some base"
      "BatchWriter_CommitReserve cap (cb_batch w) len = Some b"
    and b: "batch_wf cap ((ch_wr ch)\<lparr>ring_bytes := base\<rparr>, b)"
      "pending ((ch_wr ch)\<lparr>ring_bytes := base\<rparr>, b) = pending (ch_wr ch, cb_batch w) @ src"
      "contents ((ch_wr ch)\<lparr>ring_bytes := base\<rparr>) = contents (ch_wr ch)"
      "bw_r b = bw_r (cb_batch w)" "bw_w_start b = bw_w_start (cb_batch w)"
      "bw_count b = bw_count (cb_batch w) + 1"
    by (auto simp: cbw_defs)
  have "pending_len b = pending_len (cb_batch w) + length src"
    using arg_cong [OF b(2), of length] by simp
  moreover have "0 < length src"
    using rs src by (auto simp: cbw_defs BatchWriter_Reserve_def unat_gt_0 split: if_splits)
  ultimately have "cbw_wf cap (ch\<lparr>ch_wr := (ch_wr ch)\<lparr>ring_bytes := base\<rparr>\<rparr>, w\<lparr>cb_batch := b\<rparr>)"
    using b by (intro cbw_wf_grow [OF wf])
  with m b show ?thesis by (simp add: cbw_defs cbw_appends_def cb_pending_def)
qed

section \<open>Flush, Cancel and RewindTo\<close>

lemma cbw_Flush:
  assumes wf: "cbw_wf cap (ch, w)" and fl: "ChannelBatchWriter_Flush (ch, w) = (n, ch', w')"
  shows "n = bw_count (cb_batch w)" "cbw_wf cap (ch', w')" "cb_pending (ch', w') = []"
    "contents (ch_wr ch') = contents (ch_wr ch) @ cb_pending (ch, w)" "ch_rd ch' = ch_rd ch"
    "ch_own_evt ch' = ch_own_evt ch"
    "ch_peer_evt ch' = (if cb_pending (ch, w) = [] then ch_peer_evt ch else eventfd_write (ch_peer_evt ch) 1)"
    "bw_count (cb_batch w') = 0" "read_pos (ch_wr ch') = read_pos (ch_wr ch)"
proof -
  obtain m rg b where f: "BatchWriter_Flush (ch_wr ch, cb_batch w) = (m, rg, b)" by (metis prod_cases3)
  note p = BatchWriter_Flush_publish [OF cbw_wf_batch [OF wf] f]
  have e: "n = m" "w' = w\<lparr>cb_batch := b\<rparr>"
    "ch' = (if m > 0 \<and> cb_channel w then NotifyPeer (ch\<lparr>ch_wr := rg\<rparr>) else ch\<lparr>ch_wr := rg\<rparr>)"
    using fl f by (auto simp: ChannelBatchWriter_Flush_def Let_def)
  have "pending_len b = 0" using arg_cong [OF p(4), of length] by simp
  then show "n = bw_count (cb_batch w)" "cbw_wf cap (ch', w')" "cb_pending (ch', w') = []"
    "contents (ch_wr ch') = contents (ch_wr ch) @ cb_pending (ch, w)" "ch_rd ch' = ch_rd ch"
    "ch_own_evt ch' = ch_own_evt ch" "bw_count (cb_batch w') = 0" "read_pos (ch_wr ch') = read_pos (ch_wr ch)"
    using p wf e by (auto simp: cbw_wf_def cb_pending_def NotifyPeer_def)
  have "m > 0 \<longleftrightarrow> cb_pending (ch, w) \<noteq> []"
    using p(1) wf length_cb_pending [of ch w] by (auto simp: cbw_wf_def simp del: length_cb_pending)
  then show "ch_peer_evt ch' = (if cb_pending (ch, w) = [] then ch_peer_evt ch else eventfd_write (ch_peer_evt ch) 1)"
    using wf e by (auto simp: cbw_wf_def NotifyPeer_def)
qed

lemma cbw_Cancel:
  assumes "cbw_wf cap (ch, w)"
  shows "cbw_wf cap (ch, ChannelBatchWriter_Cancel w)" "cb_pending (ch, ChannelBatchWriter_Cancel w) = []"
proof -
  note c = BatchWriter_Cancel_discard [OF cbw_wf_batch [OF assms]]
  have "pending_len (BatchWriter_Cancel (cb_batch w)) = 0" using arg_cong [OF c(2), of length] by simp
  then show "cbw_wf cap (ch, ChannelBatchWriter_Cancel w)" "cb_pending (ch, ChannelBatchWriter_Cancel w) = []"
    using c assms by (auto simp: cbw_defs cbw_wf_def cb_pending_def)
qed

text \<open>After a cancelled batch the destructor's \<open>Flush\<close> changes nothing the peer can see.\<close>

lemma cbw_Cancel_Flush:
  assumes wf: "cbw_wf cap (ch, w)" and fl: "ChannelBatchWriter_Flush (ch, ChannelBatchWriter_Cancel w) = (n, ch', w')"
  shows "n = 0" "ch' = ch"
proof -
  have b: "batch_wf cap (ch_wr ch, BatchWriter_Cancel (cb_batch w))"
    using BatchWriter_Cancel_discard(1) [OF cbw_wf_batch [OF wf]] .
  then show "n = 0" "ch' = ch"
    using fl by (auto simp: ChannelBatchWriter_Flush_def ChannelBatchWriter_Cancel_def BatchWriter_Flush_def
        BatchWriter_Cancel_def Let_def split: if_splits)
qed

lemma cbw_RewindTo:
  assumes wf: "cbw_wf cap (ch, w)" and ap: "cbw_appends cap (ch, w) xs (ch', w')"
  shows "\<exists>w''. ChannelBatchWriter_RewindTo w' (ChannelBatchWriter_PendingBytes w) (ChannelBatchWriter_Count w) = Some w'' \<and>
     cbw_appends cap (ch, w) [] (ch', w'') \<and> bw_count (cb_batch w'') = bw_count (cb_batch w)"
proof -
  have wf': "cbw_wf cap (ch', w')" and p: "cb_pending (ch', w') = cb_pending (ch, w) @ xs"
    using ap by (auto simp: cbw_appends_def)
  have "pending_len (cb_batch w) \<le> pending_len (cb_batch w')"
    using arg_cong [OF p, of length] by simp
  then obtain b where b: "BatchWriter_RewindTo (cb_batch w') (BatchWriter_PendingBytes (cb_batch w)) (BatchWriter_Count (cb_batch w)) = Some b"
    "batch_wf cap (ch_wr ch', b)" "pending (ch_wr ch', b) = take (pending_len (cb_batch w)) (cb_pending (ch', w'))"
    "bw_count b = bw_count (cb_batch w)" "bw_w_start b = bw_w_start (cb_batch w')" "bw_r b = bw_r (cb_batch w')"
    using BatchWriter_RewindTo_undo [OF cbw_wf_batch [OF wf'], of "BatchWriter_PendingBytes (cb_batch w)" "BatchWriter_Count (cb_batch w)"]
    by (auto simp: unat_PendingBytes cb_pending_def BatchWriter_Count_def)
  have pp: "pending (ch_wr ch', b) = cb_pending (ch, w)" using b(3) p by simp
  have "pending_len b = pending_len (cb_batch w)"
    using arg_cong [OF pp, of length] unfolding length_pending length_cb_pending .
  with pp have "cbw_appends cap (ch, w) [] (ch', w'\<lparr>cb_batch := b\<rparr>)"
    using wf wf' ap b pp by (auto simp: cbw_appends_def cbw_wf_def cb_pending_def)
  then show ?thesis using b by (simp add: cbw_defs)
qed

text \<open>A channel whose write ring is about to wrap around.\<close>

definition chan_near_wrap :: channel where
  "chan_near_wrap = \<lparr>ch_wr = ring_near_wrap, ch_rd = RingBuf_Init 1024, ch_peer_evt = 0, ch_own_evt = 0\<rparr>"

lemma chan_near_wrap_wf: "channel_wf 1024 chan_near_wrap"
  by (simp add: channel_wf_def chan_near_wrap_def ring_near_wrap_wf ring_wf_Init cap_ok_1024)

lemma chan_near_wrap_sel:
  "ch_wr chan_near_wrap = ring_near_wrap" "ch_rd chan_near_wrap = RingBuf_Init 1024"
  "ch_peer_evt chan_near_wrap = 0" "ch_own_evt chan_near_wrap = 0"
  by (simp_all add: chan_near_wrap_def)

end
