(* ===== verification/Frame_Codec.thy ===== *)
theory Frame_Codec
  imports Ring_Channel
begin

text \<open>
  The frame layer of \<open>include/shm_ipc/codec.hpp\<close>: the 8-byte \<open>MsgHeader\<close>, encoding and
  decoding of \<open>[MsgHeader][payload]\<close> frames in memory, and sending frames through a
  channel or into a batch. The payload callback of \<open>SendFrame\<close> is a function on the
  channel and its batch writer that may return or throw; what the code requires of it is
  the locale \<open>payload_writer\<close>.
\<close>

section \<open>Headers\<close>

record msg_header =
  mh_len :: u32
  mh_seq :: u32

definition kMsgHeaderSize :: u32 where "kMsgHeaderSize = 8"

lemma unat_kMsgHeaderSize [simp]: "unat kMsgHeaderSize = 8"
  by (simp add: kMsgHeaderSize_def)

text \<open>The object representation that \<open>memcpy\<close> copies: both fields, no padding.\<close>

definition MsgHeader_bytes :: "msg_header \<Rightarrow> bytes" where
  "MsgHeader_bytes h = u32_bytes (mh_len h) @ u32_bytes (mh_seq h)"

definition MsgHeader_read :: "bytes \<Rightarrow> msg_header" where
  "MsgHeader_read bs = \<lparr>mh_len = bytes_u32 (take 4 bs), mh_seq = bytes_u32 (take 4 (drop 4 bs))\<rparr>"

lemma length_MsgHeader_bytes [simp]: "length (MsgHeader_bytes h) = 8"
  by (simp add: MsgHeader_bytes_def)

lemma MsgHeader_bytes_not_Nil [simp]: "MsgHeader_bytes h \<noteq> []"
  using length_MsgHeader_bytes [of h] by (metis list.size(3) zero_neq_numeral)

lemma MsgHeader_read_bytes: "MsgHeader_read (MsgHeader_bytes h @ xs) = h"
  by (cases h) (simp add: MsgHeader_read_def MsgHeader_bytes_def)

lemma MsgHeader_read_take: "8 \<le> n \<Longrightarrow> MsgHeader_read (take n bs) = MsgHeader_read bs"
  by (simp add: MsgHeader_read_def drop_take min_def)

section \<open>Frames in memory\<close>

text \<open>
  Output buffers are the memory object behind \<open>buf\<close> beside the size the caller claims.
  \<open>EncodeFrame\<close> returns the payload pointer as an offset (\<open>None\<close> for \<open>nullptr\<close>).
\<close>

definition EncodeFrame :: "bytes \<Rightarrow> u32 \<Rightarrow> u32 \<Rightarrow> u32 \<Rightarrow> (nat option \<times> bytes) option" where
  "EncodeFrame buf buf_size payload_len seq =
     (let frame_size = kMsgHeaderSize + payload_len in
      if buf_size < frame_size then Some (None, buf)
      else do {
        buf' \<leftarrow> mem_write buf 0 (MsgHeader_bytes \<lparr>mh_len = payload_len, mh_seq = seq\<rparr>);
        Some (Some (unat kMsgHeaderSize), buf')
      })"

definition Encode :: "bytes \<Rightarrow> u32 \<Rightarrow> bytes \<Rightarrow> u32 \<Rightarrow> u32 \<Rightarrow> (u32 \<times> bytes) option" where
  "Encode payload payload_len buf buf_size seq = do {
     (p, buf1) \<leftarrow> EncodeFrame buf buf_size payload_len seq;
     (case p of
        None \<Rightarrow> Some (0, buf1)
      | Some off \<Rightarrow>
          if payload_len > 0 then do {
            src \<leftarrow> mem_read payload 0 (unat payload_len);
            buf2 \<leftarrow> mem_write buf1 off src;
            Some (kMsgHeaderSize + payload_len, buf2)
          } else Some (kMsgHeaderSize + payload_len, buf1))
   }"

text \<open>
  \<open>Decode\<close> returns \<open>None\<close> inside the outer \<open>Some\<close> for \<open>false\<close>, or the payload
  pointer as an offset, its length and the sequence number.
\<close>

definition Decode :: "bytes \<Rightarrow> u32 \<Rightarrow> (nat \<times> u32 \<times> u32) option option" where
  "Decode buf buf_len =
     (if buf_len < kMsgHeaderSize then Some None
      else do {
        h \<leftarrow> mem_read buf 0 (unat kMsgHeaderSize);
        let hdr = MsgHeader_read h in
        if mh_len hdr > buf_len - kMsgHeaderSize then Some None
        else Some (Some (unat kMsgHeaderSize, mh_len hdr, mh_seq hdr))
      })"

section \<open>Sending frames\<close>

text \<open>A callback returns normally (\<open>True\<close>) or throws (\<open>False\<close>).\<close>

type_synonym payload_fn = "chan_batch \<Rightarrow> (bool \<times> chan_batch) option"

definition SendFrame :: "nat \<Rightarrow> channel \<Rightarrow> u32 \<Rightarrow> u32 \<Rightarrow> payload_fn \<Rightarrow> (int outcome \<times> channel) option" where
  "SendFrame cap ch payload_len seq write_payload =
     (let frame_size = kMsgHeaderSize + payload_len in
      if RingChannel_WritableBytes cap ch < ucast frame_size then Some (Ret (-1), ch)
      else let hdr = \<lparr>mh_len = payload_len, mh_seq = seq\<rparr> in do {
        (_, s1) \<leftarrow> ChannelBatchWriter_TryWrite cap (ch, StartBatch ch) (Some (MsgHeader_bytes hdr)) kMsgHeaderSize;
        (ok, ch2, w2) \<leftarrow> write_payload s1;
        if \<not> ok then
          let (_, ch3, _) = ChannelBatchWriter_Flush (ch2, ChannelBatchWriter_Cancel w2)
          in Some (Throw, ch3)
        else if ChannelBatchWriter_PendingBytes w2 \<noteq> ucast frame_size then
          let (_, ch3, _) = ChannelBatchWriter_Flush (ch2, ChannelBatchWriter_Cancel w2)
          in Some (Ret (-1), ch3)
        else
          let (_, s3) = ChannelBatchWriter_Flush (ch2, w2);
              (_, ch4, _) = ChannelBatchWriter_Flush s3
          in Some (Ret 0, ch4)
      })"

definition SendFrameBatch ::
    "nat \<Rightarrow> chan_batch \<Rightarrow> u32 \<Rightarrow> u32 \<Rightarrow> payload_fn \<Rightarrow> (int outcome \<times> chan_batch) option" where
  "SendFrameBatch cap s payload_len seq write_payload = (case s of (ch, w) \<Rightarrow>
     let frame_size = kMsgHeaderSize + payload_len in
     if ChannelBatchWriter_FreeBytes cap w < ucast frame_size then Some (Ret (-1), ch, w)
     else
       let before = ChannelBatchWriter_PendingBytes w;
           before_count = ChannelBatchWriter_Count w;
           hdr = \<lparr>mh_len = payload_len, mh_seq = seq\<rparr>
       in do {
         (_, s1) \<leftarrow> ChannelBatchWriter_TryWrite cap (ch, w) (Some (MsgHeader_bytes hdr)) kMsgHeaderSize;
         (ok, ch2, w2) \<leftarrow> write_payload s1;
         if \<not> ok then do {
           w3 \<leftarrow> ChannelBatchWriter_RewindTo w2 before before_count;
           Some (Throw, ch2, w3)
         } else if ChannelBatchWriter_PendingBytes w2 - before \<noteq> ucast frame_size then do {
           w3 \<leftarrow> ChannelBatchWriter_RewindTo w2 before before_count;
           Some (Ret (-1), ch2, w3)
         } else Some (Ret 0, ch2, w2)
       })"

text \<open>The lambda that \<open>Send\<close> passes: one \<open>TryWrite\<close> of a non-empty payload.\<close>

definition Send_payload :: "nat \<Rightarrow> bytes option \<Rightarrow> u32 \<Rightarrow> payload_fn" where
  "Send_payload cap payload payload_len s =
     (if payload_len > 0
      then map_option (\<lambda>(_, s'). (True, s')) (ChannelBatchWriter_TryWrite cap s payload payload_len)
      else Some (True, s))"

definition Send :: "nat \<Rightarrow> channel \<Rightarrow> bytes option \<Rightarrow> u32 \<Rightarrow> u32 \<Rightarrow> (int outcome \<times> channel) option" where
  "Send cap ch payload payload_len seq =
     (if unat payload_len > max_write_size cap then Some (Ret (-1), ch)
      else SendFrame cap ch payload_len seq (Send_payload cap payload payload_len))"

definition Send_batch ::
    "nat \<Rightarrow> chan_batch \<Rightarrow> bytes option \<Rightarrow> u32 \<Rightarrow> u32 \<Rightarrow> (int outcome \<times> chan_batch) option" where
  "Send_batch cap s payload payload_len seq =
     (if unat payload_len > max_write_size cap then Some (Ret (-1), s)
      else SendFrameBatch cap s payload_len seq (Send_payload cap payload payload_len))"

section \<open>Round trip in memory\<close>

text \<open>The bytes of a frame.\<close>

definition frame :: "bytes \<Rightarrow> u32 \<Rightarrow> bytes" where
  "frame payload seq = MsgHeader_bytes \<lparr>mh_len = word_of_nat (length payload), mh_seq = seq\<rparr> @ payload"

lemma length_frame [simp]: "length (frame payload seq) = 8 + length payload"
  by (simp add: frame_def)

lemma unat_frame_size:
  "unat n + 8 < 4294967296 \<Longrightarrow> unat (kMsgHeaderSize + n) = 8 + unat n"
  by (simp add: kMsgHeaderSize_def unat_word_ariths)

lemma Encode_frame:
  assumes "unat n + 8 \<le> unat buf_size" "unat buf_size \<le> length buf" "length payload = unat n"
  shows "Encode payload n buf buf_size seq
    = Some (kMsgHeaderSize + n, frame payload seq @ drop (8 + unat n) buf)"
proof -
  have lt: "unat n + 8 < 4294967296" using assms(1) unat_u32_bound [of buf_size] by linarith
  then have fs: "\<not> buf_size < kMsgHeaderSize + n"
    using assms(1) unat_frame_size [OF lt] by (simp add: word_less_nat_alt)
  have w: "(word_of_nat (length payload) :: u32) = n" using assms(3) by simp
  show ?thesis
  proof (cases "n = 0")
    case True
    then show ?thesis
      using assms fs w by (simp add: Encode_def EncodeFrame_def mem_write_def frame_def)
  next
    case False
    then show ?thesis
      using assms fs w by (simp add: Encode_def EncodeFrame_def mem_write_def frame_def
          word_gt_0) (simp add: add.commute)
  qed
qed

lemma Encode_small:
  "unat n + 8 < 4294967296 \<Longrightarrow> unat buf_size < unat n + 8 \<Longrightarrow> Encode payload n buf buf_size seq = Some (0, buf)"
  using unat_frame_size [of n] by (simp add: Encode_def EncodeFrame_def word_less_nat_alt)

lemma Decode_frame:
  assumes "length payload + 8 \<le> unat buf_len" "unat buf_len \<le> length (frame payload seq @ rest)"
  shows "Decode (frame payload seq @ rest) buf_len = Some (Some (8, word_of_nat (length payload), seq))"
proof -
  have bl: "unat (buf_len - 8) = unat buf_len - 8"
    using assms(1) by (subst unat_sub) (simp_all add: word_le_nat_alt)
  have lp: "unat (word_of_nat (length payload) :: u32) = length payload"
    using assms(1) unat_u32_bound [of buf_len] by (intro unat_of_nat_u32) linarith
  have h: "mem_read (frame payload seq @ rest) 0 8
      = Some (MsgHeader_bytes \<lparr>mh_len = word_of_nat (length payload), mh_seq = seq\<rparr>)"
    by (simp add: frame_def)
  have "\<not> buf_len < 8" "\<not> word_of_nat (length payload) > buf_len - 8"
    using assms(1) bl lp by (simp_all add: word_less_nat_alt)
  then show ?thesis
    using h MsgHeader_read_bytes [of _ "[]"] by (simp add: Decode_def kMsgHeaderSize_def)
qed

section \<open>The contract of a payload callback\<close>

text \<open>
  A callback may only write through the batch it is given: it is defined on every active
  batch and appends some bytes, whether it returns or throws.
\<close>

locale payload_writer =
  fixes cap :: nat and cb :: payload_fn
  assumes appends: "cbw_wf cap s \<Longrightarrow> \<exists>ok s' xs. cb s = Some (ok, s') \<and> cbw_appends cap s xs s'"
begin

text \<open>The first write of the header succeeds when the frame fits.\<close>

lemma header_written:
  assumes wf: "cbw_wf cap (ch, w)" and sp: "cb_used w + 8 \<le> cap"
  shows "\<exists>s1. ChannelBatchWriter_TryWrite cap (ch, w) (Some (MsgHeader_bytes h)) kMsgHeaderSize = Some (0, s1) \<and>
     cbw_appends cap (ch, w) (MsgHeader_bytes h) s1"
proof -
  have "8 \<le> max_write_size cap" using batch_wfD(8) [OF cbw_wf_batch [OF wf]] by (simp add: max_write_size_def)
  then show ?thesis
    using cbw_TryWrite_cases [OF wf, of "Some (MsgHeader_bytes h)" kMsgHeaderSize] sp
    by (auto simp: kMsgHeaderSize_def split: if_splits)
qed

text \<open>
  \<open>SendFrame\<close> publishes the header with exactly \<open>payload_len\<close> bytes of payload, or
  nothing at all.
\<close>

lemma SendFrame_run:
  assumes wf: "ring_wf cap (ch_wr ch)" and n: "unat n + 8 < 4294967296"
    and fit: "used (ch_wr ch) + 8 + unat n \<le> cap"
  shows "\<exists>s1 ok s2 xs ch'. cbw_appends cap (ch, StartBatch ch) (MsgHeader_bytes \<lparr>mh_len = n, mh_seq = seq\<rparr>) s1 \<and>
     cb s1 = Some (ok, s2) \<and> cbw_appends cap s1 xs s2 \<and>
     SendFrame cap ch n seq cb
       = Some (if ok then if length xs = unat n then Ret 0 else Ret (-1) else Throw, ch') \<and>
     ring_wf cap (ch_wr ch') \<and> ch_rd ch' = ch_rd ch \<and> ch_own_evt ch' = ch_own_evt ch \<and>
     read_pos (ch_wr ch') = read_pos (ch_wr ch) \<and>
     (if ok \<and> length xs = unat n
      then contents (ch_wr ch') = contents (ch_wr ch) @ MsgHeader_bytes \<lparr>mh_len = n, mh_seq = seq\<rparr> @ xs \<and>
           ch_peer_evt ch' = eventfd_write (ch_peer_evt ch) 1
      else contents (ch_wr ch') = contents (ch_wr ch) \<and> ch_peer_evt ch' = ch_peer_evt ch)"
proof -
  let ?h = "\<lparr>mh_len = n, mh_seq = seq\<rparr>" and ?w0 = "StartBatch ch"
  note sb = StartBatch_wf [OF wf]
  have sp: "\<not> RingChannel_WritableBytes cap ch < ucast (kMsgHeaderSize + n)"
    using fit RingBuf_FreeSpace_used [OF wf] unat_frame_size [OF n]
    by (simp add: RingChannel_WritableBytes_def word_less_nat_alt)
  have "cb_used ?w0 = used (ch_wr ch)" by (simp add: cb_used_def sb(3) used_def BatchWriter_new_def)
  then have "cb_used ?w0 + 8 \<le> cap" using fit by linarith
  from header_written [OF sb(1) this, of ?h] obtain s1 where
    s1: "ChannelBatchWriter_TryWrite cap (ch, ?w0) (Some (MsgHeader_bytes ?h)) kMsgHeaderSize = Some (0, s1)"
      "cbw_appends cap (ch, ?w0) (MsgHeader_bytes ?h) s1" by blast
  from appends [OF cbw_appends_wf [OF s1(2)]] obtain ok ch2 w2 xs where
    cb: "cb s1 = Some (ok, ch2, w2)" "cbw_appends cap s1 xs (ch2, w2)" by (metis surj_pair)
  note ap = cbw_appends_trans [OF s1(2) cb(2)]
  have wf2: "cbw_wf cap (ch2, w2)" using cbw_appends_wf [OF ap] .
  have p2: "cb_pending (ch2, w2) = MsgHeader_bytes ?h @ xs" and c2: "contents (ch_wr ch2) = contents (ch_wr ch)"
    and r2: "ch_rd ch2 = ch_rd ch" "read_pos (ch_wr ch2) = read_pos (ch_wr ch)" "ch_own_evt ch2 = ch_own_evt ch" "ch_peer_evt ch2 = ch_peer_evt ch"
    using ap sb(2) by (auto simp: cbw_appends_def)
  have pb: "ChannelBatchWriter_PendingBytes w2 = ucast (kMsgHeaderSize + n) \<longleftrightarrow> length xs = unat n"
  proof -
    have "unat (ChannelBatchWriter_PendingBytes w2) = 8 + length xs"
      using arg_cong [OF p2, of length] by (simp add: cbw_defs unat_PendingBytes)
    then show ?thesis
      using unat_frame_size [OF n] unat_ucast_32_64 [of "kMsgHeaderSize + n"]
      by (metis add_left_cancel unsigned_word_eqI)
  qed
  obtain k chc wc where fc: "ChannelBatchWriter_Flush (ch2, ChannelBatchWriter_Cancel w2) = (k, chc, wc)"
    by (metis prod_cases3)
  have cc: "chc = ch2" using cbw_Cancel_Flush [OF wf2 fc] by simp
  show ?thesis
  proof (cases "ok \<and> length xs = unat n")
    case True
    obtain k3 ch3 w3 where f3: "ChannelBatchWriter_Flush (ch2, w2) = (k3, ch3, w3)" by (metis prod_cases3)
    obtain k4 ch4 w4 where f4: "ChannelBatchWriter_Flush (ch3, w3) = (k4, ch4, w4)" by (metis prod_cases3)
    note F3 = cbw_Flush [OF wf2 f3]
    note F4 = cbw_Flush [OF F3(2) f4]
    have "SendFrame cap ch n seq cb = Some (Ret 0, ch4)"
      using sp s1 cb True pb f3 f4 by (simp add: SendFrame_def Let_def)
    moreover have "cb_pending (ch2, w2) \<noteq> []" using p2 by simp
    ultimately have "SendFrame cap ch n seq cb = Some (Ret 0, ch4)" "ring_wf cap (ch_wr ch4)"
      "ch_rd ch4 = ch_rd ch" "ch_own_evt ch4 = ch_own_evt ch" "read_pos (ch_wr ch4) = read_pos (ch_wr ch)"
      "contents (ch_wr ch4) = contents (ch_wr ch) @ MsgHeader_bytes ?h @ xs"
      "ch_peer_evt ch4 = eventfd_write (ch_peer_evt ch) 1"
      using F3 F4 p2 c2 r2 cbw_wf_ring [OF F4(2)] by auto
    then show ?thesis using True s1(2) cb
      by (intro exI [of _ s1] exI [of _ ok] exI [of _ "(ch2, w2)"] exI [of _ xs] exI [of _ ch4]) simp
  next
    case nok: False
    have "SendFrame cap ch n seq cb = Some (if ok then Ret (-1) else Throw, ch2)"
      using sp s1 cb nok pb fc cc by (auto simp: SendFrame_def Let_def)
    then show ?thesis using c2 r2 cbw_wf_ring [OF wf2] s1(2) cb nok
      by (intro exI [of _ s1] exI [of _ ok] exI [of _ "(ch2, w2)"] exI [of _ xs] exI [of _ ch2]) auto
  qed
qed

lemma SendFrame_full:
  assumes wf: "ring_wf cap (ch_wr ch)" and n: "unat n + 8 < 4294967296"
    and full: "used (ch_wr ch) + 8 + unat n > cap"
  shows "SendFrame cap ch n seq cb = Some (Ret (-1), ch)"
proof -
  have "RingChannel_WritableBytes cap ch < ucast (kMsgHeaderSize + n)"
    using full RingBuf_FreeSpace_used [OF wf] unat_frame_size [OF n] ring_wfD(3) [OF wf]
    by (simp add: RingChannel_WritableBytes_def word_less_nat_alt less_diff_conv2)
  then show ?thesis by (simp add: SendFrame_def Let_def)
qed

lemma SendFrame_cases:
  assumes wf: "ring_wf cap (ch_wr ch)" and n: "unat n + 8 < 4294967296"
  shows "\<exists>out ch'. SendFrame cap ch n seq cb = Some (out, ch') \<and> ring_wf cap (ch_wr ch') \<and>
     ch_rd ch' = ch_rd ch \<and> ch_own_evt ch' = ch_own_evt ch \<and> read_pos (ch_wr ch') = read_pos (ch_wr ch) \<and>
     (if out = Ret 0
      then (\<exists>xs. length xs = unat n \<and>
             contents (ch_wr ch') = contents (ch_wr ch) @ MsgHeader_bytes \<lparr>mh_len = n, mh_seq = seq\<rparr> @ xs) \<and>
           ch_peer_evt ch' = eventfd_write (ch_peer_evt ch) 1
      else contents (ch_wr ch') = contents (ch_wr ch) \<and> ch_peer_evt ch' = ch_peer_evt ch)"
proof (cases "used (ch_wr ch) + 8 + unat n > cap")
  case True
  then show ?thesis using SendFrame_full [OF wf n True, of seq] wf by auto
next
  case False
  then have "used (ch_wr ch) + 8 + unat n \<le> cap" by simp
  from SendFrame_run [OF wf n this, of seq] obtain ok xs ch' where
    "SendFrame cap ch n seq cb = Some (if ok then if length xs = unat n then Ret 0 else Ret (-1) else Throw, ch')"
    "ring_wf cap (ch_wr ch')" "ch_rd ch' = ch_rd ch" "ch_own_evt ch' = ch_own_evt ch"
      "read_pos (ch_wr ch') = read_pos (ch_wr ch)"
    "if ok \<and> length xs = unat n
      then contents (ch_wr ch') = contents (ch_wr ch) @ MsgHeader_bytes \<lparr>mh_len = n, mh_seq = seq\<rparr> @ xs \<and>
           ch_peer_evt ch' = eventfd_write (ch_peer_evt ch) 1
      else contents (ch_wr ch') = contents (ch_wr ch) \<and> ch_peer_evt ch' = ch_peer_evt ch"
    by blast
  then show ?thesis by (cases ok; cases "length xs = unat n") auto
qed

text \<open>\<open>SendFrameBatch\<close> appends a whole frame to the batch, or restores its bytes and its count.\<close>

lemma SendFrameBatch_run:
  assumes wf: "cbw_wf cap (ch, w)" and n: "unat n + 8 < 4294967296" and fit: "cb_used w + 8 + unat n \<le> cap"
  shows "\<exists>s1 ok s2 xs ch' w'. cbw_appends cap (ch, w) (MsgHeader_bytes \<lparr>mh_len = n, mh_seq = seq\<rparr>) s1 \<and>
     cb s1 = Some (ok, s2) \<and> cbw_appends cap s1 xs s2 \<and>
     SendFrameBatch cap (ch, w) n seq cb
       = Some (if ok then if length xs = unat n then Ret 0 else Ret (-1) else Throw, ch', w') \<and>
     (if ok \<and> length xs = unat n
      then cbw_appends cap (ch, w) (MsgHeader_bytes \<lparr>mh_len = n, mh_seq = seq\<rparr> @ xs) (ch', w')
      else cbw_appends cap (ch, w) [] (ch', w') \<and> bw_count (cb_batch w') = bw_count (cb_batch w))"
proof -
  let ?h = "\<lparr>mh_len = n, mh_seq = seq\<rparr>"
  have sp: "\<not> ChannelBatchWriter_FreeBytes cap w < ucast (kMsgHeaderSize + n)"
    using fit cbw_FreeBytes [OF wf] unat_frame_size [OF n] by (simp add: word_less_nat_alt)
  have "cb_used w + 8 \<le> cap" using fit by linarith
  from header_written [OF wf this, of ?h] obtain s1 where
    s1: "ChannelBatchWriter_TryWrite cap (ch, w) (Some (MsgHeader_bytes ?h)) kMsgHeaderSize = Some (0, s1)"
      "cbw_appends cap (ch, w) (MsgHeader_bytes ?h) s1" by blast
  from appends [OF cbw_appends_wf [OF s1(2)]] obtain ok ch2 w2 xs where
    cb: "cb s1 = Some (ok, ch2, w2)" "cbw_appends cap s1 xs (ch2, w2)" by (metis surj_pair)
  note ap = cbw_appends_trans [OF s1(2) cb(2)]
  have p2: "cb_pending (ch2, w2) = cb_pending (ch, w) @ MsgHeader_bytes ?h @ xs"
    using ap by (simp add: cbw_appends_def)
  have pb: "ChannelBatchWriter_PendingBytes w2 - ChannelBatchWriter_PendingBytes w = ucast (kMsgHeaderSize + n)
      \<longleftrightarrow> length xs = unat n"
  proof -
    have "pending_len (cb_batch w2) = pending_len (cb_batch w) + (8 + length xs)"
      using arg_cong [OF p2, of length] by simp
    then have "unat (ChannelBatchWriter_PendingBytes w2 - ChannelBatchWriter_PendingBytes w) = 8 + length xs"
      by (subst unat_sub) (simp_all add: cbw_defs unat_PendingBytes word_le_nat_alt)
    then show ?thesis
      using unat_frame_size [OF n] unat_ucast_32_64 [of "kMsgHeaderSize + n"]
      by (metis add_left_cancel unsigned_word_eqI)
  qed
  from cbw_RewindTo [OF wf ap] obtain w3 where
    rw: "ChannelBatchWriter_RewindTo w2 (ChannelBatchWriter_PendingBytes w) (ChannelBatchWriter_Count w) = Some w3"
      "cbw_appends cap (ch, w) [] (ch2, w3)" "bw_count (cb_batch w3) = bw_count (cb_batch w)" by blast
  show ?thesis
  proof (cases "ok \<and> length xs = unat n")
    case True
    then have "SendFrameBatch cap (ch, w) n seq cb = Some (Ret 0, ch2, w2)"
      using sp s1 cb pb by (simp add: SendFrameBatch_def Let_def)
    then show ?thesis using True ap s1(2) cb
      by (intro exI [of _ s1] exI [of _ ok] exI [of _ "(ch2, w2)"] exI [of _ xs] exI [of _ ch2] exI [of _ w2]) simp
  next
    case nok: False
    have "SendFrameBatch cap (ch, w) n seq cb = Some (if ok then Ret (-1) else Throw, ch2, w3)"
      using sp s1 cb nok pb rw by (auto simp: SendFrameBatch_def Let_def)
    then show ?thesis using rw s1(2) cb nok
      by (intro exI [of _ s1] exI [of _ ok] exI [of _ "(ch2, w2)"] exI [of _ xs] exI [of _ ch2] exI [of _ w3]) auto
  qed
qed

lemma SendFrameBatch_full:
  assumes wf: "cbw_wf cap (ch, w)" and n: "unat n + 8 < 4294967296" and full: "cb_used w + 8 + unat n > cap"
  shows "SendFrameBatch cap (ch, w) n seq cb = Some (Ret (-1), ch, w)"
proof -
  have "ChannelBatchWriter_FreeBytes cap w < ucast (kMsgHeaderSize + n)"
    using full cbw_FreeBytes [OF wf] unat_frame_size [OF n] cbw_used_le [OF wf]
    by (simp add: word_less_nat_alt less_diff_conv2)
  then show ?thesis by (simp add: SendFrameBatch_def Let_def)
qed

lemma SendFrameBatch_cases:
  assumes wf: "cbw_wf cap (ch, w)" and n: "unat n + 8 < 4294967296"
  shows "\<exists>out ch' w'. SendFrameBatch cap (ch, w) n seq cb = Some (out, ch', w') \<and>
     (if out = Ret 0
      then \<exists>xs. length xs = unat n \<and>
             cbw_appends cap (ch, w) (MsgHeader_bytes \<lparr>mh_len = n, mh_seq = seq\<rparr> @ xs) (ch', w')
      else cbw_appends cap (ch, w) [] (ch', w') \<and> bw_count (cb_batch w') = bw_count (cb_batch w))"
proof (cases "cb_used w + 8 + unat n > cap")
  case True
  then show ?thesis using SendFrameBatch_full [OF wf n True, of seq] cbw_appends_refl [OF wf] by auto
next
  case False
  then have "cb_used w + 8 + unat n \<le> cap" by simp
  from SendFrameBatch_run [OF wf n this, of seq] obtain ok xs ch' w' where
    "SendFrameBatch cap (ch, w) n seq cb
       = Some (if ok then if length xs = unat n then Ret 0 else Ret (-1) else Throw, ch', w')"
    "if ok \<and> length xs = unat n
      then cbw_appends cap (ch, w) (MsgHeader_bytes \<lparr>mh_len = n, mh_seq = seq\<rparr> @ xs) (ch', w')
      else cbw_appends cap (ch, w) [] (ch', w') \<and> bw_count (cb_batch w') = bw_count (cb_batch w)"
    by blast
  then show ?thesis by (cases ok; cases "length xs = unat n") auto
qed

end

text \<open>
  A callback that writes a fixed payload, of length at most \<open>lim\<close>, whenever there is
  room for it: then a frame is sent exactly when it fits.
\<close>

locale exact_payload_writer = payload_writer +
  fixes payload :: bytes and lim :: nat
  assumes exact: "length payload \<le> lim \<Longrightarrow> cbw_wf cap s \<Longrightarrow> cb_used (snd s) + length payload \<le> cap \<Longrightarrow>
      \<exists>s'. cb s = Some (True, s') \<and> cbw_appends cap s payload s'"
begin

lemma SendFrame_exact:
  assumes wf: "ring_wf cap (ch_wr ch)" and lim: "length payload \<le> lim"
    and n: "length payload + 8 < 4294967296"
  shows "\<exists>ch'. SendFrame cap ch (word_of_nat (length payload)) seq cb
      = Some (if used (ch_wr ch) + 8 + length payload \<le> cap then Ret 0 else Ret (-1), ch') \<and>
     ring_wf cap (ch_wr ch') \<and> ch_rd ch' = ch_rd ch \<and> ch_own_evt ch' = ch_own_evt ch \<and>
     read_pos (ch_wr ch') = read_pos (ch_wr ch) \<and>
     (if used (ch_wr ch) + 8 + length payload \<le> cap
      then contents (ch_wr ch') = contents (ch_wr ch) @ frame payload seq \<and>
           ch_peer_evt ch' = eventfd_write (ch_peer_evt ch) 1
      else ch' = ch)"
proof (cases "used (ch_wr ch) + 8 + length payload \<le> cap")
  case True
  let ?n = "word_of_nat (length payload) :: u32"
  have n': "unat ?n = length payload" using n by (intro unat_of_nat_u32) linarith
  have "unat ?n + 8 < 4294967296" "used (ch_wr ch) + 8 + unat ?n \<le> cap" using n True n' by auto
  from SendFrame_run [OF wf this, of seq] obtain s1 ok s2 xs ch' where
    h: "cbw_appends cap (ch, StartBatch ch) (MsgHeader_bytes \<lparr>mh_len = ?n, mh_seq = seq\<rparr>) s1"
    and c: "cb s1 = Some (ok, s2)" "cbw_appends cap s1 xs s2"
    and r: "SendFrame cap ch ?n seq cb = Some (if ok then if length xs = unat ?n then Ret 0 else Ret (-1) else Throw, ch')"
      "ring_wf cap (ch_wr ch')" "ch_rd ch' = ch_rd ch" "ch_own_evt ch' = ch_own_evt ch"
      "read_pos (ch_wr ch') = read_pos (ch_wr ch)"
      "if ok \<and> length xs = unat ?n
       then contents (ch_wr ch') = contents (ch_wr ch) @ MsgHeader_bytes \<lparr>mh_len = ?n, mh_seq = seq\<rparr> @ xs \<and>
            ch_peer_evt ch' = eventfd_write (ch_peer_evt ch) 1
       else contents (ch_wr ch') = contents (ch_wr ch) \<and> ch_peer_evt ch' = ch_peer_evt ch"
    by blast
  obtain ch1 w1 where s1: "s1 = (ch1, w1)" by (cases s1)
  have "cb_used w1 = cb_used (StartBatch ch) + 8"
    using cbw_appends_used [OF StartBatch_wf(1) [OF wf] h [unfolded s1]] by simp
  then have "cb_used (snd s1) + length payload \<le> cap"
    using True s1 StartBatch_wf(3) [OF wf] by (simp add: cb_used_def used_def BatchWriter_new_def)
  from exact [OF lim cbw_appends_wf [OF h] this] c have "ok" "cbw_appends cap s1 payload s2" by auto
  with c(2) have "xs = payload" by (cases s1; cases s2) (simp add: cbw_appends_def)
  with r \<open>ok\<close> n' True show ?thesis by (auto simp: frame_def)
next
  case False
  have n': "unat (word_of_nat (length payload) :: u32) = length payload" using n by (intro unat_of_nat_u32) linarith
  then have "SendFrame cap ch (word_of_nat (length payload)) seq cb = Some (Ret (-1), ch)"
    using False n by (intro SendFrame_full [OF wf]) simp_all
  then show ?thesis using False wf by simp
qed

lemma SendFrameBatch_exact:
  assumes wf: "cbw_wf cap (ch, w)" and lim: "length payload \<le> lim"
    and n: "length payload + 8 < 4294967296"
  shows "\<exists>ch' w'. SendFrameBatch cap (ch, w) (word_of_nat (length payload)) seq cb
      = Some (if cb_used w + 8 + length payload \<le> cap then Ret 0 else Ret (-1), ch', w') \<and>
     (if cb_used w + 8 + length payload \<le> cap
      then cbw_appends cap (ch, w) (frame payload seq) (ch', w')
      else ch' = ch \<and> w' = w)"
proof (cases "cb_used w + 8 + length payload \<le> cap")
  case True
  let ?n = "word_of_nat (length payload) :: u32"
  have n': "unat ?n = length payload" using n by (intro unat_of_nat_u32) linarith
  have "unat ?n + 8 < 4294967296" "cb_used w + 8 + unat ?n \<le> cap" using n True n' by auto
  from SendFrameBatch_run [OF wf this, of seq] obtain s1 ok s2 xs ch' w' where
    h: "cbw_appends cap (ch, w) (MsgHeader_bytes \<lparr>mh_len = ?n, mh_seq = seq\<rparr>) s1"
    and c: "cb s1 = Some (ok, s2)" "cbw_appends cap s1 xs s2"
    and r: "SendFrameBatch cap (ch, w) ?n seq cb
        = Some (if ok then if length xs = unat ?n then Ret 0 else Ret (-1) else Throw, ch', w')"
      "if ok \<and> length xs = unat ?n
       then cbw_appends cap (ch, w) (MsgHeader_bytes \<lparr>mh_len = ?n, mh_seq = seq\<rparr> @ xs) (ch', w')
       else cbw_appends cap (ch, w) [] (ch', w') \<and> bw_count (cb_batch w') = bw_count (cb_batch w)"
    by blast
  obtain ch1 w1 where s1: "s1 = (ch1, w1)" by (cases s1)
  have "cb_used w1 = cb_used w + 8" using cbw_appends_used [OF wf h [unfolded s1]] by simp
  then have "cb_used (snd s1) + length payload \<le> cap" using True s1 by simp
  from exact [OF lim cbw_appends_wf [OF h] this] c have "ok" "cbw_appends cap s1 payload s2" by auto
  with c(2) have "xs = payload" by (cases s1; cases s2) (simp add: cbw_appends_def)
  with r \<open>ok\<close> n' True show ?thesis by (auto simp: frame_def)
next
  case False
  have n': "unat (word_of_nat (length payload) :: u32) = length payload" using n by (intro unat_of_nat_u32) linarith
  then have "SendFrameBatch cap (ch, w) (word_of_nat (length payload)) seq cb = Some (Ret (-1), ch, w)"
    using False n by (intro SendFrameBatch_full [OF wf]) simp_all
  then show ?thesis using False by simp
qed

end

text \<open>The lambda of \<open>Send\<close> meets the contract, with \<open>max_write_size\<close> as its limit.\<close>

lemma Send_payload_appends:
  assumes "cbw_wf cap s" "\<And>d. data = Some d \<Longrightarrow> unat len \<le> length d"
  shows "\<exists>ok s' xs. Send_payload cap data len s = Some (ok, s') \<and> cbw_appends cap s xs s'"
proof -
  obtain ch w where s: "s = (ch, w)" by (cases s)
  show ?thesis
    using cbw_TryWrite_cases [of cap ch w data len] assms s cbw_appends_refl [OF assms(1)]
    by (auto simp: Send_payload_def split: if_splits)
qed

lemma unat_word_length_le: "unat (word_of_nat (length xs) :: u32) \<le> length xs"
  by (simp add: unat_of_nat take_bit_eq_mod)

interpretation sendp: exact_payload_writer cap "Send_payload cap (Some payload) (word_of_nat (length payload))"
  payload "max_write_size cap" for cap :: nat and payload :: bytes
proof unfold_locales
  fix cap :: nat and payload :: bytes and s :: chan_batch
  assume wf: "cbw_wf cap s"
  show "\<exists>ok s' xs. Send_payload cap (Some payload) (word_of_nat (length payload)) s = Some (ok, s') \<and> cbw_appends cap s xs s'"
    using wf by (rule Send_payload_appends) (simp add: unat_word_length_le)
  assume lim: "length payload \<le> max_write_size cap" and fit: "cb_used (snd s) + length payload \<le> cap"
  obtain ch w where s: "s = (ch, w)" by (cases s)
  let ?n = "word_of_nat (length payload) :: u32"
  have "cap < 4294967296" using wf s batch_wfD(7) [OF cbw_wf_batch] by blast
  then have n: "unat ?n = length payload" using fit by (intro unat_of_nat_u32) linarith
  then have n0: "?n = 0 \<longleftrightarrow> payload = []" by (metis length_0_conv unat_0 unat_eq_zero)
  show "\<exists>s'. Send_payload cap (Some payload) ?n s = Some (True, s') \<and> cbw_appends cap s payload s'"
  proof (cases "payload = []")
    case True
    then show ?thesis using cbw_appends_refl [OF wf] by (simp add: Send_payload_def)
  next
    case False
    have "?n > 0" using False n0 by (simp add: word_gt_0)
    then show ?thesis
      using cbw_TryWrite_cases [of cap ch w "Some payload" ?n] wf s lim fit n n0 False
      by (auto simp: Send_payload_def)
  qed
qed

lemma Send_cases:
  assumes "ring_wf cap (ch_wr ch)" "length payload + 8 < 4294967296"
  shows "\<exists>ch'. Send cap ch (Some payload) (word_of_nat (length payload)) seq
      = Some (if length payload \<le> max_write_size cap \<and> used (ch_wr ch) + 8 + length payload \<le> cap
              then Ret 0 else Ret (-1), ch') \<and> ring_wf cap (ch_wr ch') \<and> ch_rd ch' = ch_rd ch \<and>
     read_pos (ch_wr ch') = read_pos (ch_wr ch) \<and>
     (if length payload \<le> max_write_size cap \<and> used (ch_wr ch) + 8 + length payload \<le> cap
      then contents (ch_wr ch') = contents (ch_wr ch) @ frame payload seq \<and> ch_peer_evt ch' \<noteq> 0
      else ch' = ch)"
proof -
  have n: "unat (word_of_nat (length payload) :: u32) = length payload"
    using assms(2) by (intro unat_of_nat_u32) linarith
  show ?thesis
    using sendp.SendFrame_exact [OF assms(1) _ assms(2), of seq] n assms(1)
    by (auto simp: Send_def eventfd_write_signalled)
qed

section \<open>Properties\<close>

text \<open>
  C8: for payloads of less than \<open>2^32 - 8\<close> bytes, a frame written by \<open>Encode\<close> into a large
  enough buffer is decoded by \<open>Decode\<close> to the same payload and sequence number, and \<open>Encode\<close>
  returns the frame's size; a buffer that is too small is reported with 0 and left unchanged.
  (For longer payloads the 32-bit frame size wraps around and the check of the buffer's size is
  void: \<open>EncodeFrame_size_wraps\<close>.)
\<close>

theorem Encode_Decode_roundtrip:
  assumes "length payload = unat n" "unat n + 8 < 4294967296" "unat buf_size \<le> length buf"
  shows "if unat n + 8 \<le> unat buf_size
    then \<exists>buf'. Encode payload n buf buf_size seq = Some (8 + n, buf') \<and> length buf' = length buf \<and>
           Decode buf' (8 + n) = Some (Some (8, n, seq)) \<and> mem_read buf' 8 (unat n) = Some payload
    else Encode payload n buf buf_size seq = Some (0, buf)"
proof (cases "unat n + 8 \<le> unat buf_size")
  case True
  let ?buf = "frame payload seq @ drop (8 + unat n) buf"
  have "unat (8 + n) = 8 + unat n" using unat_frame_size [OF assms(2)] by (simp add: kMsgHeaderSize_def)
  then have "Decode ?buf (8 + n) = Some (Some (8, n, seq))"
    using Decode_frame [of payload "8 + n" seq "drop (8 + unat n) buf"] assms(1) by simp
  moreover have "mem_read ?buf 8 (unat n) = Some payload"
    using assms(1) by (simp add: mem_read_def frame_def)
  moreover have "length ?buf = length buf" using True assms by simp
  ultimately show ?thesis
    using Encode_frame [of n buf_size buf payload seq] True assms by (simp add: kMsgHeaderSize_def)
next
  case False
  then show ?thesis using Encode_small [OF assms(2)] by simp
qed

theorem Encode_Decode_roundtrip_witness:
  "\<exists>buf'. Encode [10, 20, 30] 3 (replicate 16 0) 16 5 = Some (8 + 3, buf') \<and> length buf' = 16 \<and>
     Decode buf' (8 + 3) = Some (Some (8, 3, 5)) \<and> mem_read buf' 8 3 = Some [10, 20, 30]"
  using Encode_Decode_roundtrip [of "[10, 20, 30]" 3 16 "replicate 16 0" 5] by simp

text \<open>
  \<open>Send\<close> on a channel. A payload of at most \<open>max_write_size\<close> bytes whose frame fits
  into the free space is sent: 0 is returned, exactly one frame is appended to the stream
  of the write ring and the peer's eventfd is left signalled. Otherwise -1 is returned
  and the channel is unchanged.
\<close>

theorem Send_correct:
  assumes "ring_wf cap (ch_wr ch)" "length payload + 8 < 4294967296"
  shows "\<exists>ch'. Send cap ch (Some payload) (word_of_nat (length payload)) seq
      = Some (if length payload \<le> max_write_size cap \<and> used (ch_wr ch) + 8 + length payload \<le> cap
              then Ret 0 else Ret (-1), ch') \<and> ring_wf cap (ch_wr ch') \<and> ch_rd ch' = ch_rd ch \<and>
     read_pos (ch_wr ch') = read_pos (ch_wr ch) \<and>
     (if length payload \<le> max_write_size cap \<and> used (ch_wr ch) + 8 + length payload \<le> cap
      then contents (ch_wr ch') = contents (ch_wr ch) @ frame payload seq \<and> ch_peer_evt ch' \<noteq> 0
      else ch' = ch)"
  using assms by (rule Send_cases)

theorem Send_correct_witness:
  "\<exists>ch'. Send 1024 chan_near_wrap (Some [1, 2]) 2 9 = Some (Ret 0, ch') \<and> ring_wf 1024 (ch_wr ch') \<and>
     contents (ch_wr ch') = [7, 7] @ frame [1, 2] 9 \<and> ch_peer_evt ch' \<noteq> 0"
  using Send_correct [of 1024 chan_near_wrap "[1, 2]" 9] ring_near_wrap_wf
  by (auto simp: max_write_size_def ring_near_wrap_contents chan_near_wrap_sel)

text \<open>
  C9: \<open>SendFrame\<close> with an announced payload length of less than \<open>2^32 - 8\<close> and any callback that
  only writes through its batch, including one that throws or writes too little or too much,
  publishes a complete frame with exactly the announced number of payload bytes and returns 0,
  or publishes nothing and does not notify. (For greater lengths the 32-bit frame size wraps
  around; then a header without its payload can be published: \<open>SendFrame_size_wraps\<close>.)
\<close>

theorem SendFrame_all_or_nothing:
  assumes "payload_writer cap cb" "ring_wf cap (ch_wr ch)" "unat n + 8 < 4294967296"
  shows "\<exists>out ch'. SendFrame cap ch n seq cb = Some (out, ch') \<and> ring_wf cap (ch_wr ch') \<and>
     ch_rd ch' = ch_rd ch \<and> ch_own_evt ch' = ch_own_evt ch \<and>
     (if out = Ret 0
      then (\<exists>xs. length xs = unat n \<and> contents (ch_wr ch') = contents (ch_wr ch) @ frame xs seq) \<and>
           ch_peer_evt ch' = eventfd_write (ch_peer_evt ch) 1
      else contents (ch_wr ch') = contents (ch_wr ch) \<and> ch_peer_evt ch' = ch_peer_evt ch)"
  using payload_writer.SendFrame_cases [OF assms, of seq] by (force simp: frame_def)

text \<open>A callback that writes two bytes and throws.\<close>

definition throwing_payload :: "nat \<Rightarrow> payload_fn" where
  "throwing_payload cap s = map_option (\<lambda>(_, s'). (False, s')) (ChannelBatchWriter_TryWrite cap s (Some [1, 2]) 2)"

lemma throwing_payload_writer: "payload_writer cap (throwing_payload cap)"
proof
  fix s assume wf: "cbw_wf cap s"
  obtain ch w where s: "s = (ch, w)" by (cases s)
  show "\<exists>ok s' xs. throwing_payload cap s = Some (ok, s') \<and> cbw_appends cap s xs s'"
    using cbw_TryWrite_cases [of cap ch w "Some [1, 2]" 2] wf s cbw_appends_refl [OF wf]
    by (auto simp: throwing_payload_def split: if_splits)
qed

theorem SendFrame_all_or_nothing_witness:
  "\<exists>out ch'. SendFrame 1024 chan_near_wrap 2 9 (throwing_payload 1024) = Some (out, ch') \<and>
     ring_wf 1024 (ch_wr ch') \<and> ch_rd ch' = ch_rd chan_near_wrap \<and> ch_own_evt ch' = ch_own_evt chan_near_wrap \<and>
     (if out = Ret 0
      then (\<exists>xs. length xs = unat (2 :: u32) \<and>
              contents (ch_wr ch') = contents (ch_wr chan_near_wrap) @ frame xs 9) \<and>
           ch_peer_evt ch' = eventfd_write (ch_peer_evt chan_near_wrap) 1
      else contents (ch_wr ch') = contents (ch_wr chan_near_wrap) \<and> ch_peer_evt ch' = ch_peer_evt chan_near_wrap)"
  by (rule SendFrame_all_or_nothing [OF throwing_payload_writer])
    (simp_all add: chan_near_wrap_sel ring_near_wrap_wf)

text \<open>
  \<open>SendFrameBatch\<close> adds one complete frame to the batch, or leaves the frames written
  before it, the batch's byte count and its write count exactly as they were; in no case
  does the peer see anything before the batch is flushed.
\<close>

theorem SendFrameBatch_all_or_nothing:
  assumes "payload_writer cap cb" "cbw_wf cap (ch, w)" "unat n + 8 < 4294967296"
  shows "\<exists>out ch' w'. SendFrameBatch cap (ch, w) n seq cb = Some (out, ch', w') \<and> cbw_wf cap (ch', w') \<and>
     contents (ch_wr ch') = contents (ch_wr ch) \<and> ch_peer_evt ch' = ch_peer_evt ch \<and>
     (if out = Ret 0
      then \<exists>xs. length xs = unat n \<and> cb_pending (ch', w') = cb_pending (ch, w) @ frame xs seq
      else cb_pending (ch', w') = cb_pending (ch, w) \<and>
           ChannelBatchWriter_PendingBytes w' = ChannelBatchWriter_PendingBytes w \<and>
           ChannelBatchWriter_Count w' = ChannelBatchWriter_Count w)"
proof -
  from payload_writer.SendFrameBatch_cases [OF assms, of seq] obtain out ch' w' where
    r: "SendFrameBatch cap (ch, w) n seq cb = Some (out, ch', w')"
    and c: "if out = Ret 0
      then \<exists>xs. length xs = unat n \<and>
             cbw_appends cap (ch, w) (MsgHeader_bytes \<lparr>mh_len = n, mh_seq = seq\<rparr> @ xs) (ch', w')
      else cbw_appends cap (ch, w) [] (ch', w') \<and> bw_count (cb_batch w') = bw_count (cb_batch w)" by blast
  have "ChannelBatchWriter_PendingBytes w' = ChannelBatchWriter_PendingBytes w"
    if "cbw_appends cap (ch, w) [] (ch', w')"
  proof -
    have "cb_pending (ch', w') = cb_pending (ch, w)" using that by (simp add: cbw_appends_def)
    from arg_cong [OF this, of length]
    have "unat (ChannelBatchWriter_PendingBytes w') = unat (ChannelBatchWriter_PendingBytes w)"
      by (simp add: cbw_defs unat_PendingBytes)
    then show ?thesis by (rule unsigned_word_eqI)
  qed
  then show ?thesis
    using r c by (cases "out = Ret 0") (force simp: cbw_appends_def frame_def cbw_defs BatchWriter_Count_def)+
qed

theorem SendFrameBatch_all_or_nothing_witness:
  "\<exists>out ch' w'. SendFrameBatch 1024 (chan_near_wrap, StartBatch chan_near_wrap) 2 9 (throwing_payload 1024)
       = Some (out, ch', w') \<and> cbw_wf 1024 (ch', w') \<and>
     contents (ch_wr ch') = contents (ch_wr chan_near_wrap) \<and> ch_peer_evt ch' = ch_peer_evt chan_near_wrap \<and>
     (if out = Ret 0
      then \<exists>xs. length xs = unat (2 :: u32) \<and>
             cb_pending (ch', w') = cb_pending (chan_near_wrap, StartBatch chan_near_wrap) @ frame xs 9
      else cb_pending (ch', w') = cb_pending (chan_near_wrap, StartBatch chan_near_wrap) \<and>
           ChannelBatchWriter_PendingBytes w' = ChannelBatchWriter_PendingBytes (StartBatch chan_near_wrap) \<and>
           ChannelBatchWriter_Count w' = ChannelBatchWriter_Count (StartBatch chan_near_wrap))"
  by (rule SendFrameBatch_all_or_nothing [OF throwing_payload_writer StartBatch_wf(1)])
    (simp_all add: chan_near_wrap_sel ring_near_wrap_wf)

text \<open>
  The frame size of \<open>EncodeFrame\<close> is computed in 32 bits and wraps around for
  payload lengths of at least \<open>2 ^ 32 - 8\<close>: the size check passes for an empty buffer and
  the header is written outside it. (\<open>Decode\<close> and the frame reader subtract instead and
  do not wrap.)
\<close>

theorem EncodeFrame_size_wraps:
  "EncodeFrame [] 0 (- 8) seq = None"
  by (simp add: EncodeFrame_def kMsgHeaderSize_def mem_write_def)

text \<open>
  Likewise in \<open>SendFrame\<close>: with the length \<open>2^32 - 7\<close> the frame size is 1. When one byte of the
  ring is free, the check of the space passes, the header does not fit and is not written, and a
  callback that writes one byte makes the byte count match: a fragment without a header is
  published and 0 returned.
\<close>

lemma SendFrame_size_wraps:
  assumes wf: "ring_wf cap (ch_wr ch)" and full: "used (ch_wr ch) + 1 = cap"
  shows "\<exists>ch'. SendFrame cap ch (- 7) seq (Send_payload cap (Some [x]) 1) = Some (Ret 0, ch') \<and>
     contents (ch_wr ch') = contents (ch_wr ch) @ [x]"
proof -
  let ?w = "StartBatch ch"
  note sb = StartBatch_wf [OF wf]
  have u: "cb_used ?w = used (ch_wr ch)" by (simp add: cb_used_def sb(3) used_def BatchWriter_new_def)
  have cap: "1024 \<le> cap" using batch_wfD(8) [OF cbw_wf_batch [OF sb(1)]] .
  have sp: "\<not> RingChannel_WritableBytes cap ch < 1"
    using full RingBuf_FreeSpace_used [OF wf] by (simp add: RingChannel_WritableBytes_def word_less_nat_alt)
  have 1: "ChannelBatchWriter_TryWrite cap (ch, ?w) (Some d) kMsgHeaderSize = Some (-1, ch, ?w)" if "length d = 8" for d
    using cbw_TryWrite_cases [OF sb(1), of "Some d" kMsgHeaderSize] that u full by simp
  have "\<not> max_write_size cap < 1" using cap by (simp add: max_write_size_def div_eq_0_iff)
  then obtain ch2 w2 where 2: "ChannelBatchWriter_TryWrite cap (ch, ?w) (Some [x]) 1 = Some (0, ch2, w2)"
      "cbw_appends cap (ch, ?w) [x] (ch2, w2)"
    using cbw_TryWrite_cases [OF sb(1), of "Some [x]" 1] u full by auto
  have wf2: "cbw_wf cap (ch2, w2)" and p2: "cb_pending (ch2, w2) = [x]" "contents (ch_wr ch2) = contents (ch_wr ch)"
    using 2(2) sb(2) by (auto simp: cbw_appends_def)
  have "unat (ChannelBatchWriter_PendingBytes w2) = 1"
    using arg_cong [OF p2(1), of length] by (simp add: cbw_defs unat_PendingBytes)
  then have pb: "ChannelBatchWriter_PendingBytes w2 = 1" by (metis unat_1 unsigned_word_eqI)
  obtain k3 ch3 w3 where f3: "ChannelBatchWriter_Flush (ch2, w2) = (k3, ch3, w3)" by (metis prod_cases3)
  obtain k4 ch4 w4 where f4: "ChannelBatchWriter_Flush (ch3, w3) = (k4, ch4, w4)" by (metis prod_cases3)
  note F3 = cbw_Flush [OF wf2 f3]
  note F4 = cbw_Flush [OF F3(2) f4]
  have "SendFrame cap ch (- 7) seq (Send_payload cap (Some [x]) 1) = Some (Ret 0, ch4)"
    using sp 1 2(1) pb f3 f4 by (simp add: SendFrame_def Send_payload_def kMsgHeaderSize_def Let_def)
  then show ?thesis using F3 F4 p2 by simp
qed

end
