(* ===== verification/Frame_Reader.thy ===== *)
theory Frame_Reader
  imports Frame_Codec
begin

text \<open>
  The zero-copy frame reader of \<open>include/shm_ipc/frame_reader.hpp\<close>. The template
  parameter \<open>BufSize\<close> is the length of the fallback buffer \<open>fr_buf\<close>. A payload pointer
  is null, an offset into the data area of the read ring, or the fallback buffer.
\<close>

section \<open>The model\<close>

record frame_reader =
  fr_hdr :: msg_header
  fr_pending_commit :: u32
  fr_buf :: bytes

datatype pay_ptr = PNull | PRing nat | PBuf

datatype recv_result = RecvOk pay_ptr u32 | RecvErr int

definition FrameReader_new :: "nat \<Rightarrow> frame_reader" where
  "FrameReader_new buf_size =
     \<lparr>fr_hdr = \<lparr>mh_len = 0, mh_seq = 0\<rparr>, fr_pending_commit = 0, fr_buf = replicate buf_size 0\<rparr>"

definition FrameReader_Commit :: "channel \<times> frame_reader \<Rightarrow> (channel \<times> frame_reader) option" where
  "FrameReader_Commit s = (case s of (ch, fr) \<Rightarrow>
     if fr_pending_commit fr > 0 then do {
       ch' \<leftarrow> RingChannel_CommitRead ch (fr_pending_commit fr);
       Some (ch', fr\<lparr>fr_pending_commit := 0\<rparr>)
     } else Some (ch, fr))"

text \<open>A read through a segment pointer; reading zero bytes needs no valid pointer.\<close>

definition seg_read :: "bytes \<Rightarrow> nat option \<Rightarrow> nat \<Rightarrow> nat \<Rightarrow> bytes option" where
  "seg_read m ptr off n = (if n = 0 then Some [] else case ptr of None \<Rightarrow> None | Some p \<Rightarrow> mem_read m (p + off) n)"

definition CopyFromSegments ::
    "bytes \<Rightarrow> nat \<Rightarrow> u32 \<Rightarrow> nat option \<Rightarrow> u32 \<Rightarrow> bytes \<Rightarrow> u32 \<Rightarrow> bytes option" where
  "CopyFromSegments m s1 s1_len s2 off dst len = do {
     (copied, dst1) \<leftarrow>
       (if off < s1_len then
          let avail = s1_len - off; n = (if avail < len then avail else len) in do {
            d \<leftarrow> mem_read m (s1 + unat off) (unat n);
            dst1 \<leftarrow> mem_write dst 0 d;
            Some (n, dst1)
          }
        else Some (0, dst));
     (if copied < len then
        let s2_offset = (if off > s1_len then off - s1_len else 0) in do {
          d \<leftarrow> seg_read m s2 (unat s2_offset) (unat (len - copied));
          mem_write dst1 (unat copied) d
        }
      else Some dst1)
   }"

text \<open>The header of the next frame, which may lie in both segments.\<close>

definition TryRecv_header :: "bytes \<Rightarrow> nat \<Rightarrow> u32 \<Rightarrow> nat option \<Rightarrow> msg_header option" where
  "TryRecv_header m s1 seg1_len seg2 =
     (if seg1_len \<ge> kMsgHeaderSize then map_option MsgHeader_read (mem_read m s1 (unat kMsgHeaderSize))
      else do {
        a \<leftarrow> mem_read m s1 (unat seg1_len);
        b \<leftarrow> seg_read m seg2 0 (unat (kMsgHeaderSize - seg1_len));
        Some (MsgHeader_read (a @ b))
      })"

text \<open>The last part of \<open>TryRecv\<close>: a complete frame with header \<open>hdr\<close> lies in the segments.\<close>

definition TryRecv_body ::
    "bytes \<Rightarrow> nat \<Rightarrow> u32 \<Rightarrow> nat option \<Rightarrow> msg_header \<Rightarrow> channel \<Rightarrow> frame_reader
      \<Rightarrow> (recv_result \<times> channel \<times> frame_reader) option" where
  "TryRecv_body m s1 seg1_len seg2 hdr ch fr =
     (let frame_size = kMsgHeaderSize + mh_len hdr;
          body_offset = kMsgHeaderSize;
          body_len = mh_len hdr
      in
      if body_len = 0 then
        Some (RecvOk PNull 0, ch, fr\<lparr>fr_hdr := hdr, fr_pending_commit := frame_size\<rparr>)
      else if body_offset + body_len \<le> seg1_len then
        Some (RecvOk (PRing (s1 + unat body_offset)) body_len, ch,
              fr\<lparr>fr_hdr := hdr, fr_pending_commit := frame_size\<rparr>)
      else if unat body_len > length (fr_buf fr) then
        Some (RecvErr (-2), ch, fr\<lparr>fr_pending_commit := frame_size\<rparr>)
      else do {
        buf \<leftarrow> CopyFromSegments m s1 seg1_len seg2 body_offset (fr_buf fr) body_len;
        Some (RecvOk PBuf body_len, ch,
              fr\<lparr>fr_hdr := hdr, fr_pending_commit := frame_size, fr_buf := buf\<rparr>)
      })"

definition FrameReader_TryRecv ::
    "nat \<Rightarrow> channel \<times> frame_reader \<Rightarrow> (recv_result \<times> channel \<times> frame_reader) option" where
  "FrameReader_TryRecv cap s = do {
     (ch, fr) \<leftarrow> FrameReader_Commit s;
     (case RingChannel_Peek cap ch of
        PeekEmpty \<Rightarrow> Some (RecvErr (-1), ch, fr)
      | PeekSegs s1 seg1_len seg2 seg2_len \<Rightarrow>
          let m = ring_bytes (ch_rd ch); total_avail = seg1_len + seg2_len in
          if total_avail < kMsgHeaderSize then Some (RecvErr (-1), ch, fr)
          else do {
            hdr \<leftarrow> TryRecv_header m s1 seg1_len seg2;
            if unat (mh_len hdr) > cap - unat kMsgHeaderSize then Some (RecvErr (-3), ch, fr)
            else if mh_len hdr > total_avail - kMsgHeaderSize then Some (RecvErr (-1), ch, fr)
            else TryRecv_body m s1 seg1_len seg2 hdr ch fr
          })
   }"

definition FrameReader_LastSeq :: "frame_reader \<Rightarrow> u32" where
  "FrameReader_LastSeq fr = mh_seq (fr_hdr fr)"

text \<open>What a client reads through the payload pointer of a successful \<open>TryRecv\<close>.\<close>

definition payload_at :: "channel \<Rightarrow> frame_reader \<Rightarrow> pay_ptr \<Rightarrow> u32 \<Rightarrow> bytes option" where
  "payload_at ch fr p n = (case p of
     PNull \<Rightarrow> if n = 0 then Some [] else None
   | PRing off \<Rightarrow> mem_read (ring_bytes (ch_rd ch)) off (unat n)
   | PBuf \<Rightarrow> mem_read (fr_buf fr) 0 (unat n))"

section \<open>Reference: the next frame of a byte stream\<close>

datatype next_frame = Incomplete | BadLength | Frame msg_header bytes

definition parse_frame :: "nat \<Rightarrow> bytes \<Rightarrow> next_frame" where
  "parse_frame cap bs =
     (if length bs < 8 then Incomplete
      else let h = MsgHeader_read bs; n = unat (mh_len h) in
        if n > cap - 8 then BadLength
        else if n > length bs - 8 then Incomplete
        else Frame h (take n (drop 8 bs)))"

lemma parse_frame_frame:
  assumes "length payload + 8 \<le> cap" "cap < 4294967296"
  shows "parse_frame cap (frame payload seq @ rest)
       = Frame \<lparr>mh_len = word_of_nat (length payload), mh_seq = seq\<rparr> payload"
proof -
  have n: "unat (word_of_nat (length payload) :: u32) = length payload"
    using assms by (intro unat_of_nat_u32) linarith
  have "MsgHeader_read (frame payload seq @ rest) = \<lparr>mh_len = word_of_nat (length payload), mh_seq = seq\<rparr>"
    by (simp add: frame_def MsgHeader_read_bytes)
  then show ?thesis using n assms by (simp add: parse_frame_def frame_def Let_def)
qed

text \<open>
  Where the next frame lies: a frame with \<open>n\<close> payload bytes at position \<open>pos\<close> is in one
  piece when it ends before the end of the data area. It can be received when it is in one
  piece, whatever its size, or when its payload fits into the fallback buffer. The payload
  pointer is then determined: into the ring for a frame in one piece, else the buffer.
\<close>

definition in_one_piece :: "nat \<Rightarrow> u64 \<Rightarrow> nat \<Rightarrow> bool" where
  "in_one_piece cap pos n \<longleftrightarrow> RingPhys cap pos + 8 + n \<le> cap"

definition receivable :: "nat \<Rightarrow> u64 \<Rightarrow> nat \<Rightarrow> nat \<Rightarrow> bool" where
  "receivable cap pos buf_size n \<longleftrightarrow> in_one_piece cap pos n \<or> n \<le> buf_size"

definition payload_ptr :: "nat \<Rightarrow> u64 \<Rightarrow> nat \<Rightarrow> pay_ptr" where
  "payload_ptr cap pos n =
     (if n = 0 then PNull else if in_one_piece cap pos n then PRing (RingPhys cap pos + 8) else PBuf)"

lemma receivable_small: "n \<le> buf_size \<Longrightarrow> receivable cap pos buf_size n"
  by (simp add: receivable_def)

section \<open>Invariant\<close>

definition reader_wf :: "nat \<Rightarrow> channel \<times> frame_reader \<Rightarrow> bool" where
  "reader_wf cap s \<longleftrightarrow> (case s of (ch, fr) \<Rightarrow>
     ring_wf cap (ch_rd ch) \<and> unat (fr_pending_commit fr) \<le> used (ch_rd ch))"

text \<open>The bytes a reader has still to look at: those after the frame it is about to release.\<close>

definition unread :: "channel \<times> frame_reader \<Rightarrow> bytes" where
  "unread s = (case s of (ch, fr) \<Rightarrow> drop (unat (fr_pending_commit fr)) (contents (ch_rd ch)))"

text \<open>The position of the first of them.\<close>

definition next_pos :: "channel \<times> frame_reader \<Rightarrow> u64" where
  "next_pos s = (case s of (ch, fr) \<Rightarrow> read_pos (ch_rd ch) + ucast (fr_pending_commit fr))"

lemma reader_wf_next_pos:
  assumes "reader_wf cap (ch, fr)"
  shows "write_pos (ch_rd ch) = next_pos (ch, fr) + word_of_nat (length (unread (ch, fr)))"
proof -
  have "unat (fr_pending_commit fr) \<le> used (ch_rd ch)" using assms by (simp add: reader_wf_def)
  then have "unat (fr_pending_commit fr) + length (unread (ch, fr)) = used (ch_rd ch)" by (simp add: unread_def)
  from arg_cong [OF this, of "word_of_nat :: nat \<Rightarrow> u64"]
  have "ucast (fr_pending_commit fr) + word_of_nat (length (unread (ch, fr))) = write_pos (ch_rd ch) - read_pos (ch_rd ch)"
    by (simp add: used_def dist_def)
  then show ?thesis by (simp add: next_pos_def algebra_simps)
qed

lemma FrameReader_Commit_unread:
  assumes "reader_wf cap (ch, fr)"
  shows "\<exists>ch'. FrameReader_Commit (ch, fr) = Some (ch', fr\<lparr>fr_pending_commit := 0\<rparr>) \<and>
     ring_wf cap (ch_rd ch') \<and> contents (ch_rd ch') = unread (ch, fr) \<and>
     ch' = ch\<lparr>ch_rd := (ch_rd ch)\<lparr>read_pos := read_pos (ch_rd ch) + ucast (fr_pending_commit fr)\<rparr>\<rparr>"
proof (cases "fr_pending_commit fr = 0")
  case True
  have "ch\<lparr>ch_rd := (ch_rd ch)\<lparr>read_pos := read_pos (ch_rd ch)\<rparr>\<rparr> = ch" by simp
  then show ?thesis
    using assms True by (cases fr) (simp add: FrameReader_Commit_def unread_def reader_wf_def)
next
  case False
  then have "fr_pending_commit fr > 0" by (simp add: word_gt_0)
  then show ?thesis
    using RingBuf_CommitRead_contents [of cap "ch_rd ch" "fr_pending_commit fr"] assms
    by (simp add: FrameReader_Commit_def RingChannel_CommitRead_def reader_wf_def unread_def)
qed

section \<open>Reading through the segments\<close>

lemma mem_read_sub:
  "mem_read m p k = Some x \<Longrightarrow> off + n \<le> k \<Longrightarrow> mem_read m (p + off) n = Some (take n (drop off x))"
  by (auto simp: mem_read_def take_drop min_def add.commute add.left_commute split: if_splits)

text \<open>The two segments hold the bytes \<open>c\<close>.\<close>

definition segs_hold :: "bytes \<Rightarrow> nat \<Rightarrow> u32 \<Rightarrow> nat option \<Rightarrow> u32 \<Rightarrow> bytes \<Rightarrow> bool" where
  "segs_hold m s1 l1 s2 l2 c \<longleftrightarrow>
     mem_read m s1 (unat l1) = Some (take (unat l1) c) \<and> unat l1 + unat l2 = length c \<and>
     length c < 4294967296 \<and>
     (\<forall>off n. off + n \<le> unat l2 \<longrightarrow> seg_read m s2 off n = Some (take n (drop (unat l1 + off) c)))"

lemma segs_hold_Peek:
  assumes wf: "ring_wf cap rg" and pk: "RingBuf_Peek cap rg = PeekSegs s1 l1 s2 l2"
  shows "segs_hold (ring_bytes rg) s1 l1 s2 l2 (contents rg)"
proof -
  have ne: "0 < used rg" using pk RingBuf_Peek_empty [of cap rg] by auto
  have u: "used rg < 4294967296" using ring_wfD [OF wf] by simp
  from wf ne show ?thesis
  proof (cases rule: RingBuf_Peek_segs)
    case (one o1 k1)
    then show ?thesis using pk u by (auto simp: segs_hold_def seg_read_def)
  next
    case (two o1 k1 k2)
    have "seg_read (ring_bytes rg) (Some 0) off n = Some (take n (drop (unat k1 + off) (contents rg)))"
      if "off + n \<le> unat k2" for off n
      using mem_read_sub [OF two(5) that] by (simp add: seg_read_def add.commute)
    then show ?thesis using two pk u by (auto simp: segs_hold_def)
  qed
qed

text \<open>The first segment ends with the data or with the data area.\<close>

lemma Peek_seg1:
  assumes wf: "ring_wf cap rg" and pk: "RingBuf_Peek cap rg = PeekSegs s1 l1 s2 l2"
  shows "s1 = RingPhys cap (read_pos rg) \<and> unat l1 = min (used rg) (cap - s1) \<and> s1 \<le> cap"
proof -
  have ne: "0 < used rg" using pk RingBuf_Peek_empty [of cap rg] by auto
  have lt: "RingPhys cap (read_pos rg) < cap" using RingPhys_less ring_wfD(1) [OF wf] by blast
  from wf ne show ?thesis
  proof (cases rule: RingBuf_Peek_segs)
    case (one o1 k1)
    then show ?thesis using pk ring_wfD(2) [OF wf] mem_read_SomeD [OF one(3)] lt by auto
  next
    case (two o1 k1 k2)
    then show ?thesis using pk lt by auto
  qed
qed

lemma segs_hold_total: "segs_hold m s1 l1 s2 l2 c \<Longrightarrow> unat (l1 + l2) = length c"
  by (simp add: segs_hold_def unat_word_ariths)

lemma segs_hold_seg1:
  "segs_hold m s1 l1 s2 l2 c \<Longrightarrow> off + n \<le> unat l1 \<Longrightarrow> mem_read m (s1 + off) n = Some (take n (drop off c))"
  using mem_read_sub [of m s1 "unat l1" "take (unat l1) c" off n]
  by (simp add: segs_hold_def drop_take min_def)

lemma take_take_drop: "take a (drop p xs) @ take b (drop (p + a) xs) = take (a + b) (drop p xs)"
  by (simp add: take_add add.commute)

lemma CopyFromSegments_correct:
  assumes sg: "segs_hold m s1 l1 s2 l2 c" and l: "unat off + unat len \<le> length c"
    and d: "unat len \<le> length dst"
  shows "\<exists>dst'. CopyFromSegments m s1 l1 s2 off dst len = Some dst' \<and>
     take (unat len) dst' = take (unat len) (drop (unat off) c) \<and> length dst' = length dst"
proof -
  define a where "a = (if off < l1 then min (unat l1 - unat off) (unat len) else 0)"
  define n :: u32 where "n = (if off < l1 then if l1 - off < len then l1 - off else len else 0)"
  have sub: "unat (l1 - off) = unat l1 - unat off" if "off < l1"
    using that by (simp add: unat_sub)
  have n: "unat n = a" using sub by (auto simp: a_def n_def word_less_nat_alt)
  have al: "a \<le> unat len" by (simp add: a_def)
  let ?A = "take a (drop (unat off) c)"
  let ?dst1 = "?A @ drop a dst"
  have lA: "length ?A = a" using l al by simp
  have first: "(if off < l1 then
          let avail = l1 - off; n = (if avail < len then avail else len) in do {
            d \<leftarrow> mem_read m (s1 + unat off) (unat n);
            dst1 \<leftarrow> mem_write dst 0 d;
            Some (n, dst1)
          }
        else Some (0, dst)) = Some (n, ?dst1)"
  proof (cases "off < l1")
    case True
    then have "mem_read m (s1 + unat off) a = Some ?A"
      by (intro segs_hold_seg1 [OF sg]) (auto simp: a_def word_less_nat_alt)
    moreover have "mem_write dst 0 ?A = Some ?dst1" using lA al d by (simp add: mem_write_def)
    ultimately show ?thesis using True n by (auto simp: Let_def n_def split: if_splits)
  next
    case False
    then show ?thesis by (simp add: n_def a_def)
  qed
  show ?thesis
  proof (cases "n < len")
    case True
    define k where "k = unat len - a"
    let ?s2 = "if off > l1 then off - l1 else 0"
    have k: "unat (len - n) = k" using True n by (simp add: k_def unat_sub)
    have lt: "a < unat len" using True n by (simp add: word_less_nat_alt)
    have o2: "unat l1 + unat ?s2 = unat off + a"
    proof -
      have "unat (off - l1) = unat off - unat l1" if "unat l1 < unat off"
        using that by (simp add: unat_sub word_le_nat_alt)
      then show ?thesis using lt by (auto simp: a_def word_less_nat_alt)
    qed
    have "seg_read m s2 (unat ?s2) k = Some (take k (drop (unat off + a) c))"
    proof -
      have "unat l1 + unat l2 = length c" using sg by (simp add: segs_hold_def)
      then have "unat ?s2 + k \<le> unat l2" using o2 l lt by (simp add: k_def)
      then have "seg_read m s2 (unat ?s2) k = Some (take k (drop (unat l1 + unat ?s2) c))"
        using sg unfolding segs_hold_def by blast
      then show ?thesis unfolding o2 .
    qed
    moreover have "mem_write ?dst1 a (take k (drop (unat off + a) c))
        = Some (?A @ take k (drop (unat off + a) c) @ drop (a + k) dst)"
      using lA l d lt by (simp add: mem_write_def k_def)
    ultimately have "CopyFromSegments m s1 l1 s2 off dst len
        = Some (?A @ take k (drop (unat off + a) c) @ drop (a + k) dst)"
      using first True n k by (simp add: CopyFromSegments_def Let_def)
    moreover have "?A @ take k (drop (unat off + a) c) = take (unat len) (drop (unat off) c)"
      using take_take_drop [of a "unat off" c k] lt by (simp add: k_def)
    ultimately show ?thesis using l d lt
      by (intro exI conjI) (assumption, simp_all add: k_def append_assoc [symmetric] del: append_assoc)
  next
    case False
    then have "a = unat len" using n al by (simp add: word_less_nat_alt)
    then show ?thesis using first False n l d by (simp add: CopyFromSegments_def)
  qed
qed

section \<open>Correctness of TryRecv\<close>

text \<open>The header is read whole, whichever segments it lies in.\<close>

lemma header_read:
  assumes sg: "segs_hold m s1 l1 s2 l2 c" and c: "8 \<le> length c"
  shows "TryRecv_header m s1 l1 s2 = Some (MsgHeader_read c)"
proof (cases "l1 \<ge> kMsgHeaderSize")
  case True
  then show ?thesis
    using segs_hold_seg1 [OF sg, of 0 8] by (simp add: TryRecv_header_def MsgHeader_read_take word_le_nat_alt)
next
  case False
  then have l1: "unat l1 < 8" by (simp add: word_le_nat_alt)
  then have k: "unat (kMsgHeaderSize - l1) = 8 - unat l1"
    by (subst unat_sub) (simp_all add: word_le_nat_alt)
  have "seg_read m s2 0 (8 - unat l1) = Some (take (8 - unat l1) (drop (unat l1) c))"
    using sg c by (auto simp: segs_hold_def)
  then show ?thesis
    using False sg k l1 take_take_drop [of "unat l1" 0 c "8 - unat l1"]
    by (simp add: segs_hold_def TryRecv_header_def MsgHeader_read_take)
qed

text \<open>The outcome of a \<open>TryRecv\<close> that found the stream \<open>c\<close> after releasing the last frame.\<close>

definition recv_outcome ::
    "nat \<Rightarrow> bytes \<Rightarrow> channel \<Rightarrow> frame_reader \<Rightarrow> recv_result \<Rightarrow> frame_reader \<Rightarrow> bool" where
  "recv_outcome cap c ch fr res fr' \<longleftrightarrow> length (fr_buf fr') = length (fr_buf fr) \<and>
     (case parse_frame cap c of
        Incomplete \<Rightarrow> res = RecvErr (-1) \<and> fr' = fr
      | BadLength \<Rightarrow> res = RecvErr (-3) \<and> fr' = fr
      | Frame h p \<Rightarrow> unat (fr_pending_commit fr') = 8 + length p \<and> unat (mh_len h) = length p \<and>
          (if receivable cap (read_pos (ch_rd ch)) (length (fr_buf fr)) (length p)
           then res = RecvOk (payload_ptr cap (read_pos (ch_rd ch)) (length p)) (mh_len h) \<and>
                payload_at ch fr' (payload_ptr cap (read_pos (ch_rd ch)) (length p)) (mh_len h) = Some p \<and> fr_hdr fr' = h
           else res = RecvErr (-2) \<and> fr_hdr fr' = fr_hdr fr))"

lemma TryRecv_body_outcome:
  assumes sg: "segs_hold (ring_bytes (ch_rd ch)) s1 l1 s2 l2 c" and cap: "cap < 4294967296" "8 \<le> cap"
    and pf: "parse_frame cap c = Frame h p" and lp: "length p = unat (mh_len h)"
    and p: "p = take (unat (mh_len h)) (drop 8 c)" and fits: "unat (mh_len h) \<le> cap - 8" "8 + unat (mh_len h) \<le> length c"
    and s1: "s1 = RingPhys cap (read_pos (ch_rd ch))" "unat l1 = min (length c) (cap - s1)" "s1 \<le> cap"
  shows "\<exists>res fr'. TryRecv_body (ring_bytes (ch_rd ch)) s1 l1 s2 h ch fr = Some (res, ch, fr') \<and>
     recv_outcome cap c ch fr res fr'"
proof -
  let ?m = "ring_bytes (ch_rd ch)"
  have "unat (mh_len h) + 8 < 4294967296" using fits cap by linarith
  then have fs: "unat (kMsgHeaderSize + mh_len h) = 8 + unat (mh_len h)" by (rule unat_frame_size)
  have piece: "kMsgHeaderSize + mh_len h \<le> l1 \<longleftrightarrow> in_one_piece cap (read_pos (ch_rd ch)) (length p)"
    using fs lp fits(2) s1 by (auto simp: word_le_nat_alt in_one_piece_def)
  have zero: "mh_len h = 0 \<longleftrightarrow> length p = 0" using lp by (simp add: unat_eq_zero)
  note outcome = TryRecv_body_def recv_outcome_def payload_at_def receivable_def payload_ptr_def
  consider (empty) "mh_len h = 0" | (fast) "mh_len h \<noteq> 0" "kMsgHeaderSize + mh_len h \<le> l1"
    | (big) "mh_len h \<noteq> 0" "\<not> kMsgHeaderSize + mh_len h \<le> l1" "unat (mh_len h) > length (fr_buf fr)"
    | (slow) "mh_len h \<noteq> 0" "\<not> kMsgHeaderSize + mh_len h \<le> l1" "unat (mh_len h) \<le> length (fr_buf fr)"
    by linarith
  then show ?thesis
  proof cases
    case empty
    then show ?thesis using pf fs lp zero by (simp add: outcome)
  next
    case fast
    have "mem_read ?m (s1 + 8) (unat (mh_len h)) = Some p"
      using segs_hold_seg1 [OF sg, of 8 "unat (mh_len h)"] fast fs p by (simp add: word_le_nat_alt)
    then show ?thesis using fast pf fs lp piece zero s1(1) by (simp add: outcome)
  next
    case big
    then show ?thesis using pf fs lp piece by (simp add: outcome)
  next
    case slow
    from CopyFromSegments_correct [OF sg, of kMsgHeaderSize "mh_len h" "fr_buf fr"] slow fits(2) p obtain buf
      where b: "CopyFromSegments ?m s1 l1 s2 kMsgHeaderSize (fr_buf fr) (mh_len h) = Some buf"
        "take (unat (mh_len h)) buf = p" "length buf = length (fr_buf fr)" by auto
    then have "mem_read buf 0 (unat (mh_len h)) = Some p" using slow by simp
    then show ?thesis using slow pf fs lp b piece zero by (simp add: outcome)
  qed
qed

lemma TryRecv_after_commit:
  assumes wf: "ring_wf cap (ch_rd ch)" and cm: "FrameReader_Commit s = Some (ch, fr)"
    and c: "c = contents (ch_rd ch)"
  shows "\<exists>res fr'. FrameReader_TryRecv cap s = Some (res, ch, fr') \<and> recv_outcome cap c ch fr res fr'"
proof (cases "RingChannel_Peek cap ch")
  case PeekEmpty
  then have "c = []" using c RingBuf_Peek_empty by (simp add: RingChannel_Peek_def)
  then show ?thesis using PeekEmpty cm by (simp add: FrameReader_TryRecv_def parse_frame_def recv_outcome_def)
next
  case (PeekSegs s1 l1 s2 l2)
  have sg: "segs_hold (ring_bytes (ch_rd ch)) s1 l1 s2 l2 c"
    using PeekSegs segs_hold_Peek [OF wf] c by (simp add: RingChannel_Peek_def)
  note tot = segs_hold_total [OF sg]
  have s1: "s1 = RingPhys cap (read_pos (ch_rd ch))" "unat l1 = min (length c) (cap - s1)" "s1 \<le> cap"
    using Peek_seg1 [OF wf] PeekSegs c by (auto simp: RingChannel_Peek_def)
  show ?thesis
  proof (cases "length c < 8")
    case True
    then have "l1 + l2 < kMsgHeaderSize" using tot by (simp add: word_less_nat_alt)
    then show ?thesis
      using True cm PeekSegs by (simp add: FrameReader_TryRecv_def parse_frame_def recv_outcome_def)
  next
    case False
    then have c8: "8 \<le> length c" and ntot: "\<not> l1 + l2 < kMsgHeaderSize" using tot by (auto simp: word_less_nat_alt)
    define h where "h = MsgHeader_read c"
    have av: "unat (l1 + l2 - kMsgHeaderSize) = length c - 8"
      using c8 tot by (subst unat_sub) (simp_all add: word_le_nat_alt)
    show ?thesis
    proof (cases "unat (mh_len h) > cap - 8 \<or> unat (mh_len h) > length c - 8")
      case True
      then show ?thesis
        using cm PeekSegs ntot header_read [OF sg c8, folded h_def] av False
        by (auto simp: FrameReader_TryRecv_def parse_frame_def recv_outcome_def Let_def word_less_nat_alt simp flip: h_def)
    next
      case fits: False
      let ?p = "take (unat (mh_len h)) (drop 8 c)"
      have "FrameReader_TryRecv cap s = TryRecv_body (ring_bytes (ch_rd ch)) s1 l1 s2 h ch fr"
        using cm PeekSegs ntot header_read [OF sg c8, folded h_def] av fits
        by (simp add: FrameReader_TryRecv_def Let_def word_less_nat_alt)
      moreover have "parse_frame cap c = Frame h ?p"
        using fits False by (simp add: parse_frame_def Let_def flip: h_def)
      moreover have "length ?p = unat (mh_len h)" "8 + unat (mh_len h) \<le> length c" using fits c8 by auto
      ultimately show ?thesis
        using TryRecv_body_outcome [OF sg, of cap h ?p fr] ring_wfD(5,6) [OF wf] fits s1 by simp
    qed
  qed
qed

lemma TryRecv_outcome:
  assumes "reader_wf cap (ch, fr)"
  shows "\<exists>res ch' fr'. FrameReader_TryRecv cap (ch, fr) = Some (res, ch', fr') \<and> reader_wf cap (ch', fr') \<and>
     contents (ch_rd ch') = unread (ch, fr) \<and>
     ch' = ch\<lparr>ch_rd := (ch_rd ch)\<lparr>read_pos := next_pos (ch, fr)\<rparr>\<rparr> \<and>
     recv_outcome cap (unread (ch, fr)) ch' (fr\<lparr>fr_pending_commit := 0\<rparr>) res fr'"
proof -
  from FrameReader_Commit_unread [OF assms] obtain ch' where
    cm: "FrameReader_Commit (ch, fr) = Some (ch', fr\<lparr>fr_pending_commit := 0\<rparr>)" and wf: "ring_wf cap (ch_rd ch')"
    and c: "contents (ch_rd ch') = unread (ch, fr)"
    and ch': "ch' = ch\<lparr>ch_rd := (ch_rd ch)\<lparr>read_pos := read_pos (ch_rd ch) + ucast (fr_pending_commit fr)\<rparr>\<rparr>"
    by blast
  from TryRecv_after_commit [OF wf cm c [symmetric]] obtain res fr' where
    r: "FrameReader_TryRecv cap (ch, fr) = Some (res, ch', fr')"
      "recv_outcome cap (unread (ch, fr)) ch' (fr\<lparr>fr_pending_commit := 0\<rparr>) res fr'" by blast
  have "unat (fr_pending_commit fr') \<le> length (unread (ch, fr))"
    using r(2) by (auto simp: recv_outcome_def parse_frame_def Let_def split: if_splits)
  then have "reader_wf cap (ch', fr')" using wf c length_contents [of "ch_rd ch'"] by (simp add: reader_wf_def)
  with r c ch' show ?thesis by (auto simp: next_pos_def)
qed

section \<open>Consequences\<close>

lemma TryRecv_frame_cases:
  assumes wf: "reader_wf cap (ch, fr)" and u: "unread (ch, fr) = frame payload seq @ rest"
  shows "\<exists>res ch' fr'. FrameReader_TryRecv cap (ch, fr) = Some (res, ch', fr') \<and>
     reader_wf cap (ch', fr') \<and> unread (ch', fr') = rest \<and> length (fr_buf fr') = length (fr_buf fr) \<and>
     (if receivable cap (next_pos (ch, fr)) (length (fr_buf fr)) (length payload)
      then \<exists>ptr. ptr = payload_ptr cap (next_pos (ch, fr)) (length payload) \<and>
             res = RecvOk ptr (word_of_nat (length payload)) \<and>
             payload_at ch' fr' ptr (word_of_nat (length payload)) = Some payload \<and> FrameReader_LastSeq fr' = seq
      else res = RecvErr (-2) \<and> FrameReader_LastSeq fr' = FrameReader_LastSeq fr)"
proof -
  have "used (ch_rd ch) \<le> cap" using wf ring_wfD(3) by (auto simp: reader_wf_def)
  then have "length (unread (ch, fr)) \<le> cap" by (simp add: unread_def)
  then have "length payload + 8 \<le> cap" using u by simp
  moreover have "cap < 4294967296" using wf ring_wfD(5) by (auto simp: reader_wf_def)
  ultimately have pf: "parse_frame cap (unread (ch, fr))
      = Frame \<lparr>mh_len = word_of_nat (length payload), mh_seq = seq\<rparr> payload"
    unfolding u by (rule parse_frame_frame)
  from TryRecv_outcome [OF wf] obtain res ch' fr' where
    r: "FrameReader_TryRecv cap (ch, fr) = Some (res, ch', fr')" "reader_wf cap (ch', fr')"
      "contents (ch_rd ch') = unread (ch, fr)" "read_pos (ch_rd ch') = next_pos (ch, fr)"
    and o: "recv_outcome cap (unread (ch, fr)) ch' (fr\<lparr>fr_pending_commit := 0\<rparr>) res fr'" by auto
  have "unat (fr_pending_commit fr') = 8 + length payload" "length (fr_buf fr') = length (fr_buf fr)"
    using o pf by (auto simp: recv_outcome_def)
  moreover from this have "unread (ch', fr') = rest" using r(3) u by (simp add: unread_def)
  ultimately show ?thesis using r o
    by (intro exI [of _ res] exI [of _ ch'] exI [of _ fr']) (auto simp: recv_outcome_def pf FrameReader_LastSeq_def)
qed

lemma TryRecv_frame:
  assumes "reader_wf cap (ch, fr)" "unread (ch, fr) = frame payload seq @ rest" "length payload \<le> length (fr_buf fr)"
  shows "\<exists>ptr ch' fr'. FrameReader_TryRecv cap (ch, fr) = Some (RecvOk ptr (word_of_nat (length payload)), ch', fr') \<and>
     reader_wf cap (ch', fr') \<and> payload_at ch' fr' ptr (word_of_nat (length payload)) = Some payload \<and>
     FrameReader_LastSeq fr' = seq \<and> unread (ch', fr') = rest \<and> length (fr_buf fr') = length (fr_buf fr)"
  using TryRecv_frame_cases [OF assms(1,2)] receivable_small [OF assms(3)] by auto

text \<open>The first bytes of the contents at their physical place.\<close>

lemma contents_contig:
  assumes wf: "ring_wf cap rg" and k: "off + n \<le> used rg" "RingPhys cap (read_pos rg) + off + n \<le> cap"
  shows "mem_read (ring_bytes rg) (RingPhys cap (read_pos rg) + off) n = Some (take n (drop off (contents rg)))"
proof -
  note wfD = ring_wfD [OF wf]
  have "contents rg = ring_slice (ring_bytes rg) (RingPhys cap (read_pos rg)) (used rg)"
    unfolding contents_def using wfD(1,2) by (intro ring_slice_cong_mod) (simp add: RingPhys_mod)
  then have "take n (drop off (contents rg)) = ring_slice (ring_bytes rg) (RingPhys cap (read_pos rg) + off) n"
    using k(1) by (simp add: drop_ring_slice)
  also have "\<dots> = take n (drop (RingPhys cap (read_pos rg) + off) (ring_bytes rg))"
    using k(2) wfD(2) by (intro ring_slice_contig) (simp add: add.assoc)
  finally show ?thesis using k(2) wfD(2) by (simp add: mem_read_def)
qed

lemma TryRecv_OkD:
  assumes "FrameReader_TryRecv cap s = Some (RecvOk ptr n, ch', fr')"
  shows "\<exists>s1 l1 s2 l2 h fr. RingChannel_Peek cap ch' = PeekSegs s1 l1 s2 l2 \<and> unat (mh_len h) \<le> cap - 8 \<and>
     TryRecv_body (ring_bytes (ch_rd ch')) s1 l1 s2 h ch' fr = Some (RecvOk ptr n, ch', fr')"
proof -
  have ch: "TryRecv_body m s1 l1 s2 h ch fr = Some (r, ch', fr') \<Longrightarrow> ch = ch'" for m s1 l1 s2 h ch fr r
    by (auto simp: TryRecv_body_def Let_def bind_eq_Some_conv split: if_splits)
  from assms obtain ch fr where cm: "FrameReader_Commit s = Some (ch, fr)"
    by (cases "FrameReader_Commit s") (auto simp: FrameReader_TryRecv_def)
  then obtain s1 l1 s2 l2 where pk: "RingChannel_Peek cap ch = PeekSegs s1 l1 s2 l2"
    using assms by (cases "RingChannel_Peek cap ch") (auto simp: FrameReader_TryRecv_def)
  obtain h where "unat (mh_len h) \<le> cap - 8"
    and b: "TryRecv_body (ring_bytes (ch_rd ch)) s1 l1 s2 h ch fr = Some (RecvOk ptr n, ch', fr')"
    using assms cm pk
    by (auto simp: FrameReader_TryRecv_def Let_def bind_eq_Some_conv not_less split: if_splits)
  with pk ch [OF b] show ?thesis by blast
qed

lemma TryRecv_PRing:
  assumes "FrameReader_TryRecv cap s = Some (RecvOk (PRing off) n, ch', fr')"
  shows "\<exists>s1 l1 s2 l2. RingChannel_Peek cap ch' = PeekSegs s1 l1 s2 l2 \<and> off = s1 + 8 \<and> kMsgHeaderSize + n \<le> l1 \<and>
     unat n \<le> cap - 8"
proof -
  from TryRecv_OkD [OF assms] obtain s1 l1 s2 l2 h fr where
    pk: "RingChannel_Peek cap ch' = PeekSegs s1 l1 s2 l2" "unat (mh_len h) \<le> cap - 8"
    and b: "TryRecv_body (ring_bytes (ch_rd ch')) s1 l1 s2 h ch' fr = Some (RecvOk (PRing off) n, ch', fr')" by blast
  have "off = s1 + 8 \<and> kMsgHeaderSize + n \<le> l1 \<and> n = mh_len h"
    using b by (auto simp: TryRecv_body_def Let_def bind_eq_Some_conv split: if_splits)
  with pk show ?thesis by blast
qed

text \<open>
  A change of the read ring that keeps \<open>read_pos\<close> and the contents as a prefix (what a
  producer does) keeps the payload of the frame that is not yet released.
\<close>

lemma payload_stable:
  assumes wf: "ring_wf cap (ch_rd ch')" and tr: "FrameReader_TryRecv cap s = Some (RecvOk ptr n, ch', fr')"
    and wf2: "ring_wf cap rg" and rp: "read_pos rg = read_pos (ch_rd ch')"
    and pre: "contents rg = contents (ch_rd ch') @ xs"
  shows "payload_at (ch'\<lparr>ch_rd := rg\<rparr>) fr' ptr n = payload_at ch' fr' ptr n"
proof (cases ptr)
  case (PRing off)
  from TryRecv_PRing [OF tr [unfolded PRing]] obtain s1 l1 s2 l2 where
    pk: "RingBuf_Peek cap (ch_rd ch') = PeekSegs s1 l1 s2 l2" and off: "off = s1 + 8"
    and l1: "kMsgHeaderSize + n \<le> l1" and nc: "unat n \<le> cap - 8" by (auto simp: RingChannel_Peek_def)
  have "unat n + 8 < 4294967296" using nc ring_wfD(5,6) [OF wf] by linarith
  then have l1': "8 + unat n \<le> unat l1" using l1 unat_frame_size [of n] by (simp add: word_le_nat_alt)
  have s1: "s1 = RingPhys cap (read_pos (ch_rd ch'))" "unat l1 \<le> used (ch_rd ch')" "s1 + unat l1 \<le> cap"
    using Peek_seg1 [OF wf pk] by auto
  have u: "used rg = used (ch_rd ch') + length xs" using arg_cong [OF pre, of length] by simp
  have "mem_read (ring_bytes rg) off (unat n) = Some (take (unat n) (drop 8 (contents rg)))"
    using contents_contig [OF wf2, of 8 "unat n"] s1 l1' u rp off by simp
  moreover have "mem_read (ring_bytes (ch_rd ch')) off (unat n) = Some (take (unat n) (drop 8 (contents (ch_rd ch'))))"
    using contents_contig [OF wf, of 8 "unat n"] s1 l1' off by simp
  moreover have "take (unat n) (drop 8 (contents rg)) = take (unat n) (drop 8 (contents (ch_rd ch')))"
    using pre l1' s1 by simp
  ultimately show ?thesis using PRing by (simp add: payload_at_def)
qed (simp_all add: payload_at_def)

section \<open>Memory safety against a corrupted header\<close>

text \<open>
  The two positions lie in memory the peer can write. For arbitrary values of them, not
  only those of a well-formed ring, the segments of \<open>Peek\<close> start inside the data area and
  the first one ends inside it.
\<close>

lemma Peek_arbitrary:
  assumes "cap_ok cap" "RingBuf_Peek cap rg = PeekSegs s1 l1 s2 l2"
  shows "s1 + unat l1 \<le> cap \<and> (s2 = None \<and> l2 = 0 \<or> s2 = Some 0)"
proof -
  define p where "p = RingPhys cap (read_pos rg)"
  define ct where "ct = cap - p"
  define av where "av = write_pos rg - read_pos rg"
  have p: "p < cap" "ct \<le> cap" using RingPhys_less [OF assms(1)] by (auto simp: p_def ct_def)
  have c: "unat (word_of_nat ct :: u64) = ct" "unat (word_of_nat ct :: u32) = ct"
    using unat_word_of_cap [OF p(2) assms(1)] p cap_ok_bounds [OF assms(1)] by (auto simp: unat_of_nat_u32)
  have pk: "(if av \<le> word_of_nat ct then PeekSegs p (ucast av) None 0
      else PeekSegs p (word_of_nat ct) (Some 0) (ucast (av - word_of_nat ct))) = PeekSegs s1 l1 s2 l2"
    using assms(2) by (auto simp: RingBuf_Peek_def Let_def p_def ct_def av_def simp del: of_nat_diff split: if_splits)
  have "unat (ucast av :: u32) \<le> ct" if "av \<le> word_of_nat ct"
  proof -
    have "unat av \<le> ct" using that c by (simp add: word_le_nat_alt)
    moreover have "unat (ucast av :: u32) \<le> unat av" by (simp add: unsigned_ucast_eq take_bit_eq_mod)
    ultimately show ?thesis by linarith
  qed
  then show ?thesis using pk c p by (auto simp: ct_def split: if_splits)
qed

lemma seg_read_some: "off + n \<le> length m \<Longrightarrow> \<exists>d. seg_read m (Some 0) off n = Some d \<and> length d = n"
  by (auto simp: seg_read_def mem_read_def)

lemma CopyFromSegments_defined:
  assumes "s1 + unat l1 \<le> length m" "unat off + unat len \<le> length m" "unat len \<le> length dst"
  shows "\<exists>dst'. CopyFromSegments m s1 l1 (Some 0) off dst len = Some dst' \<and> length dst' = length dst"
proof -
  define n :: u32 where "n = (if off < l1 then if l1 - off < len then l1 - off else len else 0)"
  have sub: "unat (l1 - off) = unat l1 - unat off" if "off < l1" using that by (simp add: unat_sub)
  have n: "unat n \<le> unat len" "off < l1 \<Longrightarrow> unat off + unat n \<le> unat l1"
    using sub by (auto simp: n_def word_less_nat_alt)
  obtain dst1 where first: "(if off < l1 then
          let avail = l1 - off; n = (if avail < len then avail else len) in do {
            d \<leftarrow> mem_read m (s1 + unat off) (unat n);
            dst1 \<leftarrow> mem_write dst 0 d;
            Some (n, dst1)
          }
        else Some (0, dst)) = Some (n, dst1)" "length dst1 = length dst"
    using n assms by (cases "off < l1") (auto simp: n_def Let_def mem_read_def mem_write_def)
  let ?s2 = "if off > l1 then off - l1 else 0"
  have "unat ?s2 \<le> unat off"
    by (auto simp: unat_sub)
  then have "unat ?s2 + unat (len - n) \<le> length m"
    using assms(2) n(1) by (subst unat_sub) (auto simp: word_le_nat_alt)
  then obtain d where d: "seg_read m (Some 0) (unat ?s2) (unat (len - n)) = Some d" "length d = unat (len - n)"
    using seg_read_some by blast
  have "unat n + unat (len - n) = unat len" using n(1) by (subst unat_sub) (auto simp: word_le_nat_alt)
  then obtain x where x: "mem_write dst1 (unat n) d = Some x"
    using d first(2) assms(3) by (simp add: mem_write_def)
  show ?thesis
    using first d x mem_write_length [OF x] by (auto simp: CopyFromSegments_def Let_def)
qed

lemma TryRecv_header_defined:
  assumes "s1 + unat l1 \<le> length m" "8 \<le> length m" "kMsgHeaderSize \<le> l1 \<or> s2 = Some 0"
  shows "\<exists>h. TryRecv_header m s1 l1 s2 = Some h"
proof (cases "kMsgHeaderSize \<le> l1")
  case True
  then show ?thesis using assms by (simp add: TryRecv_header_def mem_read_def word_le_nat_alt)
next
  case False
  then have "unat (kMsgHeaderSize - l1) \<le> 8"
    by (subst unat_sub) (auto simp: word_le_nat_alt)
  then have "\<exists>d. seg_read m s2 0 (unat (kMsgHeaderSize - l1)) = Some d"
    using False assms seg_read_some [of 0 "unat (kMsgHeaderSize - l1)" m] by auto
  moreover have "\<exists>d. mem_read m s1 (unat l1) = Some d" using assms(1) by (simp add: mem_read_def)
  ultimately show ?thesis using False by (auto simp: TryRecv_header_def)
qed

lemma TryRecv_body_defined:
  assumes m: "length m = cap" "m = ring_bytes (ch_rd ch)" and s: "s1 + unat l1 \<le> cap" and cap: "8 \<le> cap" "cap < 4294967296"
    and h: "unat (mh_len h) \<le> cap - 8" and s2: "kMsgHeaderSize + mh_len h \<le> l1 \<or> s2 = Some 0"
  shows "\<exists>res fr'. TryRecv_body m s1 l1 s2 h ch fr = Some (res, ch, fr') \<and>
     (\<forall>ptr n. res = RecvOk ptr n \<longrightarrow> (\<exists>p. payload_at ch fr' ptr n = Some p \<and> length p = unat n))"
proof -
  have "unat (mh_len h) + 8 < 4294967296" using h cap by linarith
  then have fs: "unat (kMsgHeaderSize + mh_len h) = 8 + unat (mh_len h)" by (rule unat_frame_size)
  show ?thesis
  proof (cases "kMsgHeaderSize + mh_len h \<le> l1 \<or> mh_len h = 0 \<or> unat (mh_len h) > length (fr_buf fr)")
    case True
    have "s1 + 8 + unat (mh_len h) \<le> length m" if "kMsgHeaderSize + mh_len h \<le> l1"
      using that fs s m by (simp add: word_le_nat_alt)
    then show ?thesis
      using True m by (auto simp: TryRecv_body_def Let_def payload_at_def mem_read_def)
  next
    case False
    then have s2': "s2 = Some 0" using s2 by blast
    have "unat kMsgHeaderSize + unat (mh_len h) \<le> length m" using h cap(1) m(1) by simp
    with CopyFromSegments_defined [of s1 l1 m kMsgHeaderSize "mh_len h" "fr_buf fr"] s m False obtain buf where
      "CopyFromSegments m s1 l1 (Some 0) kMsgHeaderSize (fr_buf fr) (mh_len h) = Some buf" "length buf = length (fr_buf fr)"
      by (auto simp: not_less)
    then show ?thesis
      using False s2' by (auto simp: TryRecv_body_def Let_def payload_at_def)
  qed
qed

lemma TryRecv_defined:
  assumes cap: "cap_ok cap" and m: "length (ring_bytes (ch_rd ch)) = cap" and p0: "fr_pending_commit fr = 0"
  shows "\<exists>res fr'. FrameReader_TryRecv cap (ch, fr) = Some (res, ch, fr') \<and>
     (\<forall>ptr n. res = RecvOk ptr n \<longrightarrow> (\<exists>p. payload_at ch fr' ptr n = Some p \<and> length p = unat n))"
proof (cases "RingChannel_Peek cap ch")
  case PeekEmpty
  then show ?thesis using p0 by (simp add: FrameReader_TryRecv_def FrameReader_Commit_def)
next
  case (PeekSegs s1 l1 s2 l2)
  let ?m = "ring_bytes (ch_rd ch)"
  have b: "1024 \<le> cap" "cap < 4294967296" using cap_ok_bounds [OF cap] by auto
  have pk: "s1 + unat l1 \<le> cap" "s2 = None \<and> l2 = 0 \<or> s2 = Some 0"
    using Peek_arbitrary [OF cap] PeekSegs by (auto simp: RingChannel_Peek_def)
  show ?thesis
  proof (cases "l1 + l2 < kMsgHeaderSize")
    case True
    then show ?thesis using PeekSegs p0 by (simp add: FrameReader_TryRecv_def FrameReader_Commit_def)
  next
    case False
    have "\<exists>h. TryRecv_header ?m s1 l1 s2 = Some h"
      using pk m b False by (intro TryRecv_header_defined) auto
    then obtain h where h: "TryRecv_header ?m s1 l1 s2 = Some h" by blast
    show ?thesis
    proof (cases "unat (mh_len h) > cap - 8 \<or> mh_len h > l1 + l2 - kMsgHeaderSize")
      case True
      then show ?thesis
        using PeekSegs p0 False h by (auto simp: FrameReader_TryRecv_def FrameReader_Commit_def Let_def)
    next
      case ok: False
      have "kMsgHeaderSize + mh_len h \<le> l1" if "s2 = None"
      proof -
        have l: "mh_len h \<le> l1 - kMsgHeaderSize" "kMsgHeaderSize \<le> l1"
          using that pk False ok by auto
        then have "unat (mh_len h) + 8 \<le> unat l1" by (simp add: word_le_nat_alt unat_sub)
        then show ?thesis
          using unat_frame_size [of "mh_len h"] unat_u32_bound [of l1] by (simp add: word_le_nat_alt)
      qed
      then have "\<exists>res fr'. TryRecv_body ?m s1 l1 s2 h ch fr = Some (res, ch, fr') \<and>
          (\<forall>ptr n. res = RecvOk ptr n \<longrightarrow> (\<exists>p. payload_at ch fr' ptr n = Some p \<and> length p = unat n))"
        using pk m b ok by (intro TryRecv_body_defined) auto
      then show ?thesis
        using PeekSegs p0 False h ok by (simp add: FrameReader_TryRecv_def FrameReader_Commit_def Let_def)
    qed
  qed
qed

section \<open>What a producer does meanwhile\<close>

text \<open>
  One operation of the peer on its write ring, with the batch it has open, if any: a raw
  write, a frame with or without a callback, the operations of a batch writer, and the end
  of the batch with the destructor's \<open>Flush\<close>.
\<close>

inductive producer_step :: "nat \<Rightarrow> channel \<times> cbw option \<Rightarrow> channel \<times> cbw option \<Rightarrow> bool" for cap where
  raw_write: "(\<And>d. data = Some d \<Longrightarrow> unat len \<le> length d) \<Longrightarrow> RingChannel_TryWrite cap ch data len = Some (rc, ch') \<Longrightarrow>
    producer_step cap (ch, None) (ch', None)"
| send: "length payload + 8 < 4294967296 \<Longrightarrow>
    Send cap ch (Some payload) (word_of_nat (length payload)) seq = Some (out, ch') \<Longrightarrow>
    producer_step cap (ch, None) (ch', None)"
| send_frame: "payload_writer cap cb \<Longrightarrow> unat n + 8 < 4294967296 \<Longrightarrow> SendFrame cap ch n seq cb = Some (out, ch') \<Longrightarrow>
    producer_step cap (ch, None) (ch', None)"
| notify: "producer_step cap (ch, b) (NotifyPeer ch, b)"
| start: "producer_step cap (ch, None) (ch, Some (StartBatch ch))"
| batch_write: "(\<And>d. data = Some d \<Longrightarrow> unat len \<le> length d) \<Longrightarrow>
    ChannelBatchWriter_TryWrite cap (ch, w) data len = Some (rc, ch', w') \<Longrightarrow>
    producer_step cap (ch, Some w) (ch', Some w')"
| batch_reserve: "ChannelBatchWriter_Reserve cap w len = Some off \<Longrightarrow> length src = unat len \<Longrightarrow>
    write_reserved ch off src = Some ch' \<Longrightarrow> ChannelBatchWriter_CommitReserve cap w len = Some w' \<Longrightarrow>
    producer_step cap (ch, Some w) (ch', Some w')"
| batch_frame: "payload_writer cap cb \<Longrightarrow> unat n + 8 < 4294967296 \<Longrightarrow>
    SendFrameBatch cap (ch, w) n seq cb = Some (out, ch', w') \<Longrightarrow>
    producer_step cap (ch, Some w) (ch', Some w')"
| batch_flush: "ChannelBatchWriter_Flush (ch, w) = (n, ch', w') \<Longrightarrow> producer_step cap (ch, Some w) (ch', Some w')"
| batch_cancel: "producer_step cap (ch, Some w) (ch, Some (ChannelBatchWriter_Cancel w))"
| batch_end: "ChannelBatchWriter_Flush (ch, w) = (n, ch', w') \<Longrightarrow> producer_step cap (ch, Some w) (ch', None)"

definition producer_ok :: "nat \<Rightarrow> channel \<times> cbw option \<Rightarrow> bool" where
  "producer_ok cap s \<longleftrightarrow> (case s of (ch, b) \<Rightarrow>
     ring_wf cap (ch_wr ch) \<and> (case b of None \<Rightarrow> True | Some w \<Rightarrow> cbw_wf cap (ch, w)))"

text \<open>The published bytes only grow, behind an unchanged \<open>read_pos\<close>.\<close>

definition ring_grows :: "nat \<Rightarrow> ring \<Rightarrow> ring \<Rightarrow> bool" where
  "ring_grows cap rg rg' \<longleftrightarrow> ring_wf cap rg' \<and> read_pos rg' = read_pos rg \<and> (\<exists>xs. contents rg' = contents rg @ xs)"

lemma ring_grows_refl: "ring_wf cap rg \<Longrightarrow> ring_grows cap rg rg"
  by (simp add: ring_grows_def)

lemma ring_grows_trans: "ring_grows cap r s \<Longrightarrow> ring_grows cap s t \<Longrightarrow> ring_grows cap r t"
  by (auto simp: ring_grows_def)

lemma cbw_appends_grows:
  "cbw_appends cap (ch, w) xs (ch', w') \<Longrightarrow> producer_ok cap (ch', Some w') \<and> ring_grows cap (ch_wr ch) (ch_wr ch')"
  using cbw_wf_ring [of cap ch' w'] by (simp add: cbw_appends_def producer_ok_def ring_grows_def)

lemma cbw_Flush_grows:
  "cbw_wf cap (ch, w) \<Longrightarrow> ChannelBatchWriter_Flush (ch, w) = (n, ch', w') \<Longrightarrow>
     producer_ok cap (ch', Some w') \<and> ring_grows cap (ch_wr ch) (ch_wr ch')"
  using cbw_Flush [of cap ch w n ch' w'] cbw_wf_ring [of cap ch' w'] by (simp add: producer_ok_def ring_grows_def)

lemma producer_step_grows:
  assumes "producer_step cap s s'" "producer_ok cap s"
  shows "producer_ok cap s' \<and> ring_grows cap (ch_wr (fst s)) (ch_wr (fst s'))"
  using assms
proof cases
  case (raw_write data len ch rc ch')
  then have wf: "ring_wf cap (ch_wr ch)" using assms(2) by (simp add: producer_ok_def)
  from raw_write obtain rg where "RingBuf_TryWrite cap (ch_wr ch) data len = Some (rc, rg)" "ch' = ch\<lparr>ch_wr := rg\<rparr>"
    by (auto simp: RingChannel_TryWrite_def split: Option.bind_splits)
  with RingBuf_TryWrite_cases [OF wf, of data len] raw_write(3) have "ring_grows cap (ch_wr ch) (ch_wr ch')"
    using wf by (auto simp: ring_grows_def split: if_splits)
  then show ?thesis using raw_write by (simp add: producer_ok_def ring_grows_def)
next
  case (send payload ch seq out ch')
  then have wf: "ring_wf cap (ch_wr ch)" using assms(2) by (simp add: producer_ok_def)
  from Send_cases [OF wf send(3), of seq] send(4) have "ring_grows cap (ch_wr ch) (ch_wr ch')"
    by (auto simp: ring_grows_def split: if_splits)
  then show ?thesis using send by (simp add: producer_ok_def ring_grows_def)
next
  case (send_frame cb n ch seq out ch')
  then have wf: "ring_wf cap (ch_wr ch)" using assms(2) by (simp add: producer_ok_def)
  from payload_writer.SendFrame_cases [OF send_frame(3) wf send_frame(4), of seq] send_frame(5)
  have "ring_grows cap (ch_wr ch) (ch_wr ch')" by (auto simp: ring_grows_def split: if_splits)
  then show ?thesis using send_frame by (simp add: producer_ok_def ring_grows_def)
next
  case (notify ch b)
  then show ?thesis using assms(2)
    by (auto simp: producer_ok_def ring_grows_def NotifyPeer_def cbw_wf_def split: option.splits)
next
  case (start ch)
  then show ?thesis using assms(2) StartBatch_wf(1) by (simp add: producer_ok_def ring_grows_def)
next
  case (batch_write data len ch w rc ch' w')
  then have wf: "cbw_wf cap (ch, w)" using assms(2) by (simp add: producer_ok_def)
  from cbw_TryWrite_cases [OF wf, of data len] batch_write(3,4) have "\<exists>xs. cbw_appends cap (ch, w) xs (ch', w')"
    using cbw_appends_refl [OF wf] by (auto split: if_splits)
  then show ?thesis using batch_write cbw_appends_grows by auto
next
  case (batch_reserve w len off src ch ch' w')
  then have wf: "cbw_wf cap (ch, w)" using assms(2) by (simp add: producer_ok_def)
  from cbw_Reserve_appends [OF wf batch_reserve(3,4)] show ?thesis using batch_reserve cbw_appends_grows by auto
next
  case (batch_frame cb n ch w seq out ch' w')
  then have wf: "cbw_wf cap (ch, w)" using assms(2) by (simp add: producer_ok_def)
  from payload_writer.SendFrameBatch_cases [OF batch_frame(3) wf batch_frame(4), of seq] batch_frame(5)
  have "\<exists>xs. cbw_appends cap (ch, w) xs (ch', w')" by (auto split: if_splits)
  then show ?thesis using batch_frame cbw_appends_grows by auto
next
  case (batch_flush ch w n ch' w')
  then show ?thesis using assms(2) cbw_Flush_grows by (auto simp: producer_ok_def)
next
  case (batch_cancel ch w)
  then show ?thesis using assms(2) cbw_Cancel(1) by (simp add: producer_ok_def ring_grows_def)
next
  case (batch_end ch w n ch' w')
  then show ?thesis using assms(2) cbw_Flush_grows [of cap ch w] by (auto simp: producer_ok_def)
qed

lemma producer_steps_grow:
  assumes "(producer_step cap)\<^sup>*\<^sup>* s s'" "producer_ok cap s"
  shows "producer_ok cap s' \<and> ring_grows cap (ch_wr (fst s)) (ch_wr (fst s'))"
  using assms
proof (induction rule: rtranclp_induct)
  case base
  then show ?case using ring_grows_refl by (cases s) (simp add: producer_ok_def)
next
  case (step t u)
  then show ?case using producer_step_grows ring_grows_trans by blast
qed

section \<open>Properties\<close>

text \<open>
  C10: end to end over one direction. If \<open>Send\<close> of a payload of less than \<open>2^32 - 8\<close> bytes
  on one endpoint returns 0, then the next \<open>TryRecv\<close> of the peer, whose read ring is the
  sender's write ring and which had read everything before, receives the frame: when it lies in
  one piece in the ring, or its payload fits into the fallback buffer (\<open>BufSize\<close>), it returns
  exactly the payload and the sequence number sent; when it wraps around the end of the ring
  and is larger than the fallback buffer, it returns -2 and the message is lost. In both cases
  nothing is left unread.
\<close>

theorem Send_TryRecv_roundtrip:
  assumes "reader_wf cap (b, fr)" "unread (b, fr) = []" "ch_wr a = ch_rd b" "length payload + 8 < 4294967296"
    and "Send cap a (Some payload) (word_of_nat (length payload)) seq = Some (Ret 0, a')"
  shows "\<exists>res b' fr'. FrameReader_TryRecv cap (b\<lparr>ch_rd := ch_wr a'\<rparr>, fr) = Some (res, b', fr') \<and> unread (b', fr') = [] \<and>
     (if in_one_piece cap (write_pos (ch_wr a)) (length payload) \<or> length payload \<le> length (fr_buf fr)
      then \<exists>ptr. res = RecvOk ptr (word_of_nat (length payload)) \<and>
             payload_at b' fr' ptr (word_of_nat (length payload)) = Some payload \<and> FrameReader_LastSeq fr' = seq
      else res = RecvErr (-2))"
proof -
  have wf: "ring_wf cap (ch_wr a)" using assms(1,3) by (simp add: reader_wf_def)
  from Send_cases [OF wf assms(4), of seq] assms(5)
  have a': "ring_wf cap (ch_wr a')" "contents (ch_wr a') = contents (ch_wr a) @ frame payload seq"
    "read_pos (ch_wr a') = read_pos (ch_wr a)"
    by (auto split: if_splits)
  have u: "unat (fr_pending_commit fr) = used (ch_rd b)"
    using assms(1,2) by (simp add: unread_def reader_wf_def)
  have "used (ch_wr a') = used (ch_wr a) + length (frame payload seq)"
    using arg_cong [OF a'(2), of length] by simp
  then have wf': "reader_wf cap (b\<lparr>ch_rd := ch_wr a'\<rparr>, fr)" using a' u assms(3) by (simp add: reader_wf_def)
  have un: "unread (b\<lparr>ch_rd := ch_wr a'\<rparr>, fr) = frame payload seq @ []"
    using a'(2) u assms(3) by (simp add: unread_def)
  have "next_pos (b\<lparr>ch_rd := ch_wr a'\<rparr>, fr) = write_pos (ch_wr a)"
    using reader_wf_next_pos [OF assms(1)] assms(2,3) a'(3) by (simp add: next_pos_def)
  with TryRecv_frame_cases [OF wf' un] show ?thesis by (auto simp: receivable_def split: if_splits)
qed

lemma near_wrap_phys: "RingPhys 1024 (write_pos ring_near_wrap) = 1021" "RingPhys 1024 (- 3) = 1021"
  by (simp_all add: RingPhys_mod [OF cap_ok_1024] ring_near_wrap_def)

lemma near_wrap_reader: "reader_wf 1024 (chan_near_wrap\<lparr>ch_rd := ring_near_wrap\<rparr>, (FrameReader_new k)\<lparr>fr_pending_commit := 2\<rparr>)"
  by (simp add: reader_wf_def ring_near_wrap_wf)

lemma near_wrap_send:
  "\<exists>a'. Send 1024 chan_near_wrap (Some [1, 2, 3]) 3 9 = Some (Ret 0, a') \<and> ring_wf 1024 (ch_wr a') \<and>
     contents (ch_wr a') = [7, 7] @ frame [1, 2, 3] 9 \<and> read_pos (ch_wr a') = - 5"
  using Send_cases [of 1024 chan_near_wrap "[1, 2, 3]" 9] ring_near_wrap_wf
  by (auto simp: max_write_size_def chan_near_wrap_sel ring_near_wrap_contents) (simp add: ring_near_wrap_def)

theorem Send_TryRecv_roundtrip_witness:
  "\<exists>a'. Send 1024 chan_near_wrap (Some [1, 2, 3]) 3 9 = Some (Ret 0, a') \<and>
     (\<exists>ptr b' fr'. FrameReader_TryRecv 1024 (chan_near_wrap\<lparr>ch_rd := ch_wr a'\<rparr>, (FrameReader_new 64)\<lparr>fr_pending_commit := 2\<rparr>)
         = Some (RecvOk ptr 3, b', fr') \<and> payload_at b' fr' ptr 3 = Some [1, 2, 3] \<and>
       FrameReader_LastSeq fr' = 9 \<and> unread (b', fr') = []) \<and>
     (\<exists>b' fr'. FrameReader_TryRecv 1024 (chan_near_wrap\<lparr>ch_rd := ch_wr a'\<rparr>, (FrameReader_new 2)\<lparr>fr_pending_commit := 2\<rparr>)
         = Some (RecvErr (-2), b', fr') \<and> unread (b', fr') = [])"
proof -
  from near_wrap_send obtain a' where
    s: "Send 1024 chan_near_wrap (Some [1, 2, 3]) 3 9 = Some (Ret 0, a')" by blast
  have "\<exists>ptr b' fr'. FrameReader_TryRecv 1024 (chan_near_wrap\<lparr>ch_rd := ch_wr a'\<rparr>, (FrameReader_new 64)\<lparr>fr_pending_commit := 2\<rparr>)
         = Some (RecvOk ptr 3, b', fr') \<and> payload_at b' fr' ptr 3 = Some [1, 2, 3] \<and>
       FrameReader_LastSeq fr' = 9 \<and> unread (b', fr') = []"
    using Send_TryRecv_roundtrip [OF near_wrap_reader, of 64 chan_near_wrap "[1, 2, 3]" 9 a'] s
    by (auto simp: unread_def ring_near_wrap_contents chan_near_wrap_sel FrameReader_new_def)
  moreover have "\<exists>b' fr'. FrameReader_TryRecv 1024 (chan_near_wrap\<lparr>ch_rd := ch_wr a'\<rparr>, (FrameReader_new 2)\<lparr>fr_pending_commit := 2\<rparr>)
         = Some (RecvErr (-2), b', fr') \<and> unread (b', fr') = []"
    using Send_TryRecv_roundtrip [OF near_wrap_reader, of 2 chan_near_wrap "[1, 2, 3]" 9 a'] s
    by (auto simp: unread_def ring_near_wrap_contents chan_near_wrap_sel FrameReader_new_def in_one_piece_def near_wrap_phys)
  ultimately show ?thesis using s by blast
qed

text \<open>
  C11: \<open>TryRecv\<close> computes the next frame of the byte stream on every branch: it first
  releases the frame returned before; on an incomplete frame it returns -1 and on an
  impossible length -3, without consuming anything. On a complete frame it returns its
  payload: a null pointer when it is empty, a pointer into the ring when the frame lies in one
  piece, whatever its size, else the fallback buffer; it returns -2, and keeps the last
  sequence number, exactly when the frame wraps around the end of the ring and its payload is
  larger than the fallback buffer. In both cases exactly that frame is released by the next
  call.
\<close>

theorem TryRecv_next_frame:
  assumes "reader_wf cap (ch, fr)"
  shows "\<exists>res ch' fr'. FrameReader_TryRecv cap (ch, fr) = Some (res, ch', fr') \<and> reader_wf cap (ch', fr') \<and>
     contents (ch_rd ch') = unread (ch, fr) \<and>
     (case parse_frame cap (unread (ch, fr)) of
        Incomplete \<Rightarrow> res = RecvErr (-1) \<and> unread (ch', fr') = unread (ch, fr)
      | BadLength \<Rightarrow> res = RecvErr (-3) \<and> unread (ch', fr') = unread (ch, fr)
      | Frame h p \<Rightarrow> unread (ch', fr') = drop (8 + length p) (unread (ch, fr)) \<and>
          (if \<not> in_one_piece cap (next_pos (ch, fr)) (length p) \<and> length (fr_buf fr) < length p
           then res = RecvErr (-2) \<and> FrameReader_LastSeq fr' = FrameReader_LastSeq fr
           else res = RecvOk (payload_ptr cap (next_pos (ch, fr)) (length p)) (mh_len h) \<and>
             payload_at ch' fr' (payload_ptr cap (next_pos (ch, fr)) (length p)) (mh_len h) = Some p \<and>
             FrameReader_LastSeq fr' = mh_seq h))"
proof -
  from TryRecv_outcome [OF assms] obtain res ch' fr' where
    r: "FrameReader_TryRecv cap (ch, fr) = Some (res, ch', fr')" "reader_wf cap (ch', fr')"
      "contents (ch_rd ch') = unread (ch, fr)" "read_pos (ch_rd ch') = next_pos (ch, fr)"
    and o: "recv_outcome cap (unread (ch, fr)) ch' (fr\<lparr>fr_pending_commit := 0\<rparr>) res fr'" by auto
  have "unread (ch', fr') = drop (unat (fr_pending_commit fr')) (unread (ch, fr))"
    using r(3) by (simp add: unread_def)
  with r o show ?thesis
    by (intro exI [of _ res] exI [of _ ch'] exI [of _ fr'])
      (auto simp: recv_outcome_def receivable_def FrameReader_LastSeq_def split: next_frame.splits if_splits)
qed

theorem TryRecv_next_frame_witness:
  "\<exists>a'. Send 1024 chan_near_wrap (Some [1, 2, 3]) 3 9 = Some (Ret 0, a') \<and>
     (\<exists>ch' fr'. FrameReader_TryRecv 1024 (chan_near_wrap\<lparr>ch_rd := ch_wr a'\<rparr>, (FrameReader_new 2)\<lparr>fr_pending_commit := 2\<rparr>)
        = Some (RecvErr (-2), ch', fr') \<and> FrameReader_LastSeq fr' = 0) \<and>
     (\<exists>ch' fr'. FrameReader_TryRecv 1024 (chan_near_wrap\<lparr>ch_rd := ch_wr a'\<rparr>, (FrameReader_new 3)\<lparr>fr_pending_commit := 2\<rparr>)
        = Some (RecvOk PBuf 3, ch', fr') \<and> payload_at ch' fr' PBuf 3 = Some [1, 2, 3] \<and> FrameReader_LastSeq fr' = 9)"
proof -
  from near_wrap_send obtain a' where
    s: "Send 1024 chan_near_wrap (Some [1, 2, 3]) 3 9 = Some (Ret 0, a')" and a': "ring_wf 1024 (ch_wr a')"
      "contents (ch_wr a') = [7, 7] @ frame [1, 2, 3] 9" "read_pos (ch_wr a') = - 5" by blast
  let ?s = "\<lambda>k. (chan_near_wrap\<lparr>ch_rd := ch_wr a'\<rparr>, (FrameReader_new k)\<lparr>fr_pending_commit := 2\<rparr>)"
  have "used (ch_wr a') = 13" using arg_cong [OF a'(2), of length] by simp
  then have wf: "reader_wf 1024 (?s k)" for k using a' by (simp add: reader_wf_def)
  have u: "unread (?s k) = frame [1, 2, 3] 9" for k using a' by (simp add: unread_def)
  have np: "next_pos (?s k) = - 3" for k using a' by (simp add: next_pos_def)
  have pf: "parse_frame 1024 (frame [1, 2, 3] 9) = Frame \<lparr>mh_len = 3, mh_seq = 9\<rparr> [1, 2, 3]"
    using parse_frame_frame [of "[1, 2, 3]" 1024 9 "[]"] by simp
  have "\<exists>ch' fr'. FrameReader_TryRecv 1024 (?s 2) = Some (RecvErr (-2), ch', fr') \<and> FrameReader_LastSeq fr' = 0"
    using TryRecv_next_frame [OF wf [of 2]] unfolding u np pf
    by (auto simp: in_one_piece_def near_wrap_phys FrameReader_new_def FrameReader_LastSeq_def)
  moreover have "\<exists>ch' fr'. FrameReader_TryRecv 1024 (?s 3) = Some (RecvOk PBuf 3, ch', fr') \<and>
      payload_at ch' fr' PBuf 3 = Some [1, 2, 3] \<and> FrameReader_LastSeq fr' = 9"
    using TryRecv_next_frame [OF wf [of 3]] unfolding u np pf
    by (auto simp: in_one_piece_def near_wrap_phys payload_ptr_def FrameReader_new_def)
  ultimately show ?thesis using s by blast
qed

text \<open>
  C12: a zero-copy payload stays valid until the next \<open>TryRecv\<close>: whatever operations the
  peer performs on its side of the ring meanwhile, in any number and order (raw writes, frames,
  frames whose callback throws, batches that are filled, flushed, cancelled or left open), the
  bytes behind the returned pointer do not change, although it may point into the shared ring.
\<close>

theorem zero_copy_payload_stable:
  assumes "reader_wf cap s" "FrameReader_TryRecv cap s = Some (RecvOk ptr n, ch', fr')"
    and "ch_wr a = ch_rd ch'" "producer_ok cap (a, b)" "(producer_step cap)\<^sup>*\<^sup>* (a, b) (a', b')"
  shows "payload_at (ch'\<lparr>ch_rd := ch_wr a'\<rparr>) fr' ptr n = payload_at ch' fr' ptr n"
proof -
  obtain ch fr where s: "s = (ch, fr)" by (cases s)
  have wf: "ring_wf cap (ch_rd ch')"
    using TryRecv_outcome [OF assms(1) [unfolded s]] assms(2) s by (auto simp: reader_wf_def)
  from producer_steps_grow [OF assms(5,4)] have "ring_grows cap (ch_rd ch') (ch_wr a')" using assms(3) by simp
  then show ?thesis using payload_stable [OF wf assms(2)] by (auto simp: ring_grows_def)
qed

theorem zero_copy_payload_stable_witness:
  "\<exists>a1 b1 fr1 a2 a3. Send 1024 chan_near_wrap (Some [1, 2, 3]) 3 9 = Some (Ret 0, a1) \<and>
     (\<exists>ptr. FrameReader_TryRecv 1024 (chan_near_wrap\<lparr>ch_rd := ch_wr a1\<rparr>, (FrameReader_new 64)\<lparr>fr_pending_commit := 2\<rparr>)
         = Some (RecvOk ptr 3, b1, fr1) \<and>
       Send 1024 (a1\<lparr>ch_wr := ch_rd b1\<rparr>) (Some [4]) 1 10 = Some (Ret 0, a2) \<and>
       Send 1024 a2 (Some [5, 6]) 2 11 = Some (Ret 0, a3) \<and>
       payload_at (b1\<lparr>ch_rd := ch_wr a3\<rparr>) fr1 ptr 3 = payload_at b1 fr1 ptr 3)"
proof -
  let ?fr = "(FrameReader_new 64)\<lparr>fr_pending_commit := 2\<rparr>"
  from near_wrap_send obtain a1 where
    s: "Send 1024 chan_near_wrap (Some [1, 2, 3]) 3 9 = Some (Ret 0, a1)" "ring_wf 1024 (ch_wr a1)"
      "contents (ch_wr a1) = [7, 7] @ frame [1, 2, 3] 9" by blast
  have u: "used (ch_wr a1) = 13" using arg_cong [OF s(3), of length] by simp
  have wf: "reader_wf 1024 (chan_near_wrap\<lparr>ch_rd := ch_wr a1\<rparr>, ?fr)" using s u by (simp add: reader_wf_def)
  have un: "unread (chan_near_wrap\<lparr>ch_rd := ch_wr a1\<rparr>, ?fr) = frame [1, 2, 3] 9 @ []" using s by (simp add: unread_def)
  from TryRecv_frame [OF wf un] obtain ptr b1 fr1 where
    r: "FrameReader_TryRecv 1024 (chan_near_wrap\<lparr>ch_rd := ch_wr a1\<rparr>, ?fr) = Some (RecvOk ptr 3, b1, fr1)"
    by (auto simp: FrameReader_new_def)
  have c1: "ring_wf 1024 (ch_rd b1)" "contents (ch_rd b1) = frame [1, 2, 3] 9"
    using TryRecv_outcome [OF wf] r un by (auto simp: reader_wf_def)
  let ?a = "a1\<lparr>ch_wr := ch_rd b1\<rparr>"
  have u1: "used (ch_rd b1) = 11" using arg_cong [OF c1(2), of length] by simp
  from Send_cases [of 1024 ?a "[4]" 10] c1(1) u1 obtain a2 where
    s2: "Send 1024 ?a (Some [4]) 1 10 = Some (Ret 0, a2)" "ring_wf 1024 (ch_wr a2)"
      "contents (ch_wr a2) = contents (ch_rd b1) @ frame [4] 10"
    by (auto simp: max_write_size_def)
  have u2: "used (ch_wr a2) = 20" using arg_cong [OF s2(3), of length] u1 by simp
  from Send_cases [of 1024 a2 "[5, 6]" 11] s2(2) u2 obtain a3 where
    s3: "Send 1024 a2 (Some [5, 6]) 2 11 = Some (Ret 0, a3)" by (auto simp: max_write_size_def)
  have "producer_step 1024 (?a, None) (a2, None)" "producer_step 1024 (a2, None) (a3, None)"
    using s2(1) s3 producer_step.send [of "[4]" 1024 ?a 10] producer_step.send [of "[5, 6]" 1024 a2 11] by auto
  then have st: "(producer_step 1024)\<^sup>*\<^sup>* (?a, None) (a3, None)"
    by (rule converse_rtranclp_into_rtranclp [OF _ r_into_rtranclp])
  have "producer_ok 1024 (?a, None)" using c1 by (simp add: producer_ok_def)
  then have "payload_at (b1\<lparr>ch_rd := ch_wr a3\<rparr>) fr1 ptr 3 = payload_at b1 fr1 ptr 3"
    using zero_copy_payload_stable [OF wf r _ _ st] by simp
  then show ?thesis using s(1) r s2(1) s3 by blast
qed

text \<open>
  C13: memory safety against a corrupted or malicious peer. For arbitrary values of the
  two shared positions and arbitrary ring bytes, \<open>TryRecv\<close> of a reader with nothing to
  release reads only inside the data area and the fallback buffer, and if it returns a
  payload then all the bytes it announces can be read.
\<close>

theorem TryRecv_memory_safe:
  assumes "cap_ok cap" "length (ring_bytes (ch_rd ch)) = cap" "fr_pending_commit fr = 0"
  shows "\<exists>res ch' fr'. FrameReader_TryRecv cap (ch, fr) = Some (res, ch', fr') \<and>
     (\<forall>ptr n. res = RecvOk ptr n \<longrightarrow> (\<exists>p. payload_at ch' fr' ptr n = Some p \<and> length p = unat n))"
  using TryRecv_defined [OF assms] by blast

text \<open>A ring whose peer moved \<open>write_pos\<close> far beyond the capacity.\<close>

definition corrupt_ring :: ring where
  "corrupt_ring = \<lparr>write_pos = 5000, read_pos = 0, ring_bytes = replicate 1024 1\<rparr>"

theorem TryRecv_memory_safe_witness:
  "\<exists>res ch' fr'. FrameReader_TryRecv 1024 (chan_near_wrap\<lparr>ch_rd := corrupt_ring\<rparr>, FrameReader_new 64) = Some (res, ch', fr') \<and>
     (\<forall>ptr n. res = RecvOk ptr n \<longrightarrow> (\<exists>p. payload_at ch' fr' ptr n = Some p \<and> length p = unat n))"
  by (rule TryRecv_memory_safe) (simp_all add: cap_ok_1024 corrupt_ring_def FrameReader_new_def)

text \<open>
  The byte-level read has no such protection: \<open>RingBuf::TryRead\<close> trusts the
  positions, and when they are so far apart that more than the rest of the data area and
  the whole data area would be copied, the second \<open>memcpy\<close> reads beyond the mapping.
\<close>

theorem TryRead_trusts_positions:
  assumes "cap_ok cap" "length (ring_bytes rg) = cap" "dist (write_pos rg) (read_pos rg) \<ge> unat m"
    and "unat m > cap + (cap - RingPhys cap (read_pos rg))"
  shows "RingBuf_TryRead cap rg m = None"
proof -
  have m: "m \<noteq> 0" "write_pos rg \<noteq> read_pos rg" using assms(3,4) by auto
  moreover have "\<not> write_pos rg - read_pos rg < ucast m"
    using assms(3) by (simp add: dist_def word_less_nat_alt)
  moreover have "RingCopyOut cap (ring_bytes rg) (RingPhys cap (read_pos rg)) m = None"
    using assms(2,4) RingPhys_less [OF assms(1), of "read_pos rg"]
    by (auto simp: RingCopyOut_def Let_def mem_read_def)
  ultimately show ?thesis by (simp add: RingBuf_TryRead_def Let_def)
qed

theorem TryRead_trusts_positions_witness: "RingBuf_TryRead 1024 corrupt_ring 4096 = None"
  by (rule TryRead_trusts_positions)
    (simp_all add: cap_ok_1024 corrupt_ring_def dist_def RingPhys_mod [OF cap_ok_1024])

end
