(* ===== verification/Recv_Loop.thy ===== *)
theory Recv_Loop
  imports Frame_Reader
begin

text \<open>
  The receive loop that \<open>PodCodec<T>::Recv\<close> (\<open>pod_codec.hpp\<close>) and
  \<open>ProtoCodec<T>::Recv\<close> (\<open>proto_codec.hpp\<close>) share: read frames, drop those that are too
  large for the fallback buffer or do not decode, and stop at the first message, at the
  end of the data or at an illegal frame header. The decoding of a payload is the
  argument \<open>dec\<close>, with \<open>None\<close> for a read outside the payload, \<open>Some None\<close> for a payload
  that is dropped and \<open>Some (Some x)\<close> for a message. The loop is a partial function, so that returning is something to prove.
  What the two codecs promise to their clients is the locale \<open>payload_codec\<close>.
\<close>

section \<open>The loop\<close>

partial_function (option) Recv_loop ::
    "nat \<Rightarrow> (bytes \<Rightarrow> 'a option option) \<Rightarrow> channel \<times> frame_reader
      \<Rightarrow> (int \<times> 'a option \<times> channel \<times> frame_reader) option" where
  "Recv_loop cap dec s = do {
     (res, ch, fr) \<leftarrow> FrameReader_TryRecv cap s;
     (case res of
        RecvErr rc \<Rightarrow>
          if rc = -1 \<or> rc = -3 then Some (rc, None, ch, fr)
          else do {
            s' \<leftarrow> FrameReader_Commit (ch, fr);
            Recv_loop cap dec s'
          }
      | RecvOk ptr n \<Rightarrow> do {
          p \<leftarrow> payload_at ch fr ptr n;
          r \<leftarrow> dec p;
          (case r of
             None \<Rightarrow> do {
               s' \<leftarrow> FrameReader_Commit (ch, fr);
               Recv_loop cap dec s'
             }
           | Some x \<Rightarrow> Some (0, Some x, ch, fr))
        })
   }"

text \<open>A client that calls \<open>Recv\<close> a number of times: results and sequence numbers.\<close>

fun recv_n :: "nat \<Rightarrow> (bytes \<Rightarrow> 'a option option) \<Rightarrow> nat \<Rightarrow> channel \<times> frame_reader
    \<Rightarrow> ((int \<times> 'a option \<times> u32) list \<times> channel \<times> frame_reader) option" where
  "recv_n cap dec 0 s = Some ([], s)"
| "recv_n cap dec (Suc n) s = do {
     (rc, x, ch, fr) \<leftarrow> Recv_loop cap dec s;
     (out, s') \<leftarrow> recv_n cap dec n (ch, fr);
     Some ((rc, x, FrameReader_LastSeq fr) # out, s')
   }"

section \<open>It returns\<close>

text \<open>Releasing the current frame at once instead of with the next call.\<close>

lemma Commit_skip:
  assumes "reader_wf cap (ch, fr)"
  shows "\<exists>s'. FrameReader_Commit (ch, fr) = Some s' \<and> reader_wf cap s' \<and> unread s' = unread (ch, fr) \<and>
     next_pos s' = next_pos (ch, fr) \<and> fr_buf (snd s') = fr_buf fr"
  using FrameReader_Commit_unread [OF assms]
  by (auto simp: reader_wf_def next_pos_def) (simp add: unread_def)

text \<open>One round of the loop on a well-formed reader.\<close>

lemma Recv_loop_round:
  assumes wf: "reader_wf cap s" and safe: "\<And>p. dec p \<noteq> None"
  obtains (stop) rc ch fr where "Recv_loop cap dec s = Some (rc, None, ch, fr)" "rc = -1 \<or> rc = -3"
      "reader_wf cap (ch, fr)" "unread (ch, fr) = unread s" "length (fr_buf fr) = length (fr_buf (snd s))"
      "rc = -1 \<longleftrightarrow> parse_frame cap (unread s) = Incomplete" "rc = -3 \<longleftrightarrow> parse_frame cap (unread s) = BadLength"
  | (msg) h p x ch fr where "parse_frame cap (unread s) = Frame h p" "dec p = Some (Some x)"
      "Recv_loop cap dec s = Some (0, Some x, ch, fr)" "reader_wf cap (ch, fr)"
      "unread (ch, fr) = drop (8 + length p) (unread s)" "FrameReader_LastSeq fr = mh_seq h"
      "length (fr_buf fr) = length (fr_buf (snd s))" "receivable cap (next_pos s) (length (fr_buf (snd s))) (length p)"
  | (skip) h p s' where "parse_frame cap (unread s) = Frame h p"
      "dec p = Some None \<or> \<not> receivable cap (next_pos s) (length (fr_buf (snd s))) (length p)"
      "Recv_loop cap dec s = Recv_loop cap dec s'"
      "reader_wf cap s'" "unread s' = drop (8 + length p) (unread s)"
      "length (fr_buf (snd s')) = length (fr_buf (snd s))" "next_pos s' = next_pos s + word_of_nat (8 + length p)"
proof -
  obtain ch0 fr0 where s: "s = (ch0, fr0)" by (cases s)
  from TryRecv_outcome [OF wf [unfolded s]] obtain res ch fr where
    r: "FrameReader_TryRecv cap s = Some (res, ch, fr)" "reader_wf cap (ch, fr)" "contents (ch_rd ch) = unread s" "read_pos (ch_rd ch) = next_pos s"
    and o: "recv_outcome cap (unread s) ch (fr0\<lparr>fr_pending_commit := 0\<rparr>) res fr" using s by auto
  have buf: "length (fr_buf fr) = length (fr_buf (snd s))" using o s by (simp add: recv_outcome_def)
  have u: "unread (ch, fr) = drop (unat (fr_pending_commit fr)) (unread s)" using r(3) by (simp add: unread_def)
  note loop = Recv_loop.simps [of cap dec s]
  show thesis
  proof (cases "parse_frame cap (unread s)")
    case Incomplete
    with o s have "res = RecvErr (-1)" "fr_pending_commit fr = 0" by (auto simp: recv_outcome_def)
    then show thesis using stop [of "-1" ch fr] loop r u buf Incomplete by simp
  next
    case BadLength
    with o s have "res = RecvErr (-3)" "fr_pending_commit fr = 0" by (auto simp: recv_outcome_def)
    then show thesis using stop [of "-3" ch fr] loop r u buf BadLength by simp
  next
    case (Frame h p)
    with o have pc: "unat (fr_pending_commit fr) = 8 + length p" by (simp add: recv_outcome_def)
    from arg_cong [OF this, of "word_of_nat :: nat \<Rightarrow> u64"]
    have np: "next_pos (ch, fr) = next_pos s + word_of_nat (8 + length p)" using r(4) by (simp add: next_pos_def)
    from Commit_skip [OF r(2)] obtain s' where
      s': "FrameReader_Commit (ch, fr) = Some s'" "reader_wf cap s'" "unread s' = unread (ch, fr)"
        "next_pos s' = next_pos (ch, fr)" "fr_buf (snd s') = fr_buf fr" by blast
    let ?fits = "receivable cap (next_pos s) (length (fr_buf (snd s))) (length p)"
    show thesis
    proof (cases "\<not> ?fits \<or> dec p = Some None")
      case True
      have "Recv_loop cap dec s = Recv_loop cap dec s'"
      proof (cases ?fits)
        case True
        with o Frame s r(4) \<open>\<not> ?fits \<or> dec p = Some None\<close> show ?thesis using loop r(1) s'(1)
          by (auto simp: recv_outcome_def)
      next
        case False
        with o Frame s r(4) have "res = RecvErr (-2)" by (simp add: recv_outcome_def)
        then show ?thesis using loop r(1) s'(1) by simp
      qed
      then show thesis using skip [of h p s'] True s' u pc np buf Frame by auto
    next
      case False
      with safe [of p] obtain x where x: "dec p = Some (Some x)" by auto
      from o Frame s r(4) False have "res = RecvOk (payload_ptr cap (next_pos s) (length p)) (mh_len h)"
        "payload_at ch fr (payload_ptr cap (next_pos s) (length p)) (mh_len h) = Some p" "fr_hdr fr = h"
        by (auto simp: recv_outcome_def)
      then show thesis using msg [of h p x ch fr] loop r u pc buf x Frame False by (simp add: FrameReader_LastSeq_def)
    qed
  qed
qed

lemma parse_frame_length: "parse_frame cap bs = Frame h p \<Longrightarrow> 8 + length p \<le> length bs"
  by (auto simp: parse_frame_def Let_def split: if_splits)

lemma Recv_loop_returns:
  assumes "reader_wf cap s" and safe: "\<And>p. dec p \<noteq> None"
  shows "\<exists>rc x ch fr. Recv_loop cap dec s = Some (rc, x, ch, fr) \<and> reader_wf cap (ch, fr) \<and>
     (case x of
        None \<Rightarrow> (rc = -1 \<or> rc = -3) \<and> (\<exists>k. unread (ch, fr) = drop k (unread s))
      | Some y \<Rightarrow> rc = 0 \<and> (\<exists>k h p. parse_frame cap (drop k (unread s)) = Frame h p \<and> dec p = Some (Some y) \<and>
          FrameReader_LastSeq fr = mh_seq h \<and> unread (ch, fr) = drop (k + 8 + length p) (unread s)))"
  using assms(1)
proof (induction "length (unread s)" arbitrary: s rule: less_induct)
  case less
  from less.prems safe show ?case
  proof (cases rule: Recv_loop_round [where dec = dec])
    case (stop rc ch fr)
    then have "\<exists>k. unread (ch, fr) = drop k (unread s)" by (intro exI [of _ 0]) simp
    then show ?thesis
      using stop(1-3) by (intro exI [of _ rc] exI [of _ None] exI [of _ ch] exI [of _ fr]) simp
  next
    case (msg h p x ch fr)
    then have "\<exists>k h p. parse_frame cap (drop k (unread s)) = Frame h p \<and> dec p = Some (Some x) \<and>
          FrameReader_LastSeq fr = mh_seq h \<and> unread (ch, fr) = drop (k + 8 + length p) (unread s)"
      by (intro exI [of _ 0] exI [of _ h] exI [of _ p]) simp
    then show ?thesis using msg by (intro exI [of _ 0] exI [of _ "Some x"] exI [of _ ch] exI [of _ fr]) simp
  next
    case (skip h p s')
    then have "length (unread s') < length (unread s)" using parse_frame_length by fastforce
    from less.hyps [OF this skip(4)] obtain rc x ch fr where
      r: "Recv_loop cap dec s = Some (rc, x, ch, fr)" "reader_wf cap (ch, fr)"
      and x: "case x of
        None \<Rightarrow> (rc = -1 \<or> rc = -3) \<and> (\<exists>k. unread (ch, fr) = drop k (unread s'))
      | Some y \<Rightarrow> rc = 0 \<and> (\<exists>k h p. parse_frame cap (drop k (unread s')) = Frame h p \<and> dec p = Some (Some y) \<and>
          FrameReader_LastSeq fr = mh_seq h \<and> unread (ch, fr) = drop (k + 8 + length p) (unread s'))"
      unfolding skip(3) by blast
    have dd: "drop k (unread s') = drop (k + (8 + length p)) (unread s)" for k using skip(5) by simp
    show ?thesis
    proof (cases x)
      case None
      then show ?thesis using r x unfolding dd by auto
    next
      case (Some y)
      with x obtain k h2 p2 where "rc = 0" "parse_frame cap (drop (k + (8 + length p)) (unread s)) = Frame h2 p2"
        "dec p2 = Some (Some y)" "FrameReader_LastSeq fr = mh_seq h2"
        "unread (ch, fr) = drop (k + (8 + length p) + 8 + length p2) (unread s)"
        unfolding dd by (auto simp: add.commute add.left_commute)
      then have "\<exists>k h p. parse_frame cap (drop k (unread s)) = Frame h p \<and> dec p = Some (Some y) \<and>
          FrameReader_LastSeq fr = mh_seq h \<and> unread (ch, fr) = drop (k + 8 + length p) (unread s)"
        by (intro exI [of _ "k + (8 + length p)"] exI [of _ h2] exI [of _ p2]) simp
      then show ?thesis using r Some \<open>rc = 0\<close>
        by (intro exI [of _ rc] exI [of _ x] exI [of _ ch] exI [of _ fr]) simp
    qed
  qed
qed

text \<open>The next frame of a reader whose unread bytes begin with one.\<close>

lemma parse_frame_reader:
  assumes "reader_wf cap s" "unread s = frame p q @ rest"
  shows "parse_frame cap (unread s) = Frame \<lparr>mh_len = word_of_nat (length p), mh_seq = q\<rparr> p"
proof -
  have cap: "length (unread s) \<le> cap" "cap < 4294967296"
    using assms(1) ring_wfD by (cases s; fastforce simp: reader_wf_def unread_def)+
  then show ?thesis unfolding assms(2) by (intro parse_frame_frame) (use assms(2) in auto)
qed

text \<open>A frame that the sender publishes behind the unread bytes of its peer.\<close>

lemma sent_behind:
  assumes "reader_wf cap (b, fr)" "ch_wr a = ch_rd b" "ring_wf cap rg" "contents rg = contents (ch_wr a) @ f"
    and "read_pos rg = read_pos (ch_wr a)" "unread (b, fr) = bs"
  shows "reader_wf cap (b\<lparr>ch_rd := rg\<rparr>, fr)" "unread (b\<lparr>ch_rd := rg\<rparr>, fr) = bs @ f"
    "next_pos (b\<lparr>ch_rd := rg\<rparr>, fr) + word_of_nat (length bs) = write_pos (ch_wr a)"
proof -
  have pc: "unat (fr_pending_commit fr) \<le> used (ch_rd b)" using assms(1) by (simp add: reader_wf_def)
  have "used rg = used (ch_wr a) + length f" using arg_cong [OF assms(4), of length] by simp
  then show "reader_wf cap (b\<lparr>ch_rd := rg\<rparr>, fr)" using assms(2,3) pc by (simp add: reader_wf_def)
  show "unread (b\<lparr>ch_rd := rg\<rparr>, fr) = bs @ f" using assms(2,4,6) pc by (auto simp: unread_def)
  show "next_pos (b\<lparr>ch_rd := rg\<rparr>, fr) + word_of_nat (length bs) = write_pos (ch_wr a)"
    using reader_wf_next_pos [OF assms(1)] assms(2,5,6) by (simp add: next_pos_def)
qed

section \<open>The contract of a codec\<close>

text \<open>
  \<open>enc\<close> is the payload a codec writes for a message, \<open>dec\<close> how it reads one, \<open>valid\<close> the
  messages of its type. Decoding never reads outside the payload, whatever its bytes are.
\<close>

locale payload_codec =
  fixes valid :: "'a \<Rightarrow> bool" and enc :: "'a \<Rightarrow> bytes" and dec :: "bytes \<Rightarrow> 'a option option"
  assumes dec_enc: "valid x \<Longrightarrow> dec (enc x) = Some (Some x)"
    and dec_safe: "dec p \<noteq> None"
begin

text \<open>Frames that do not decode are skipped, and the first message behind them is delivered.\<close>

lemma Recv_skips_to_message:
  assumes "reader_wf cap s" "unread s = concat (map (\<lambda>(p, q). frame p q) bad) @ frame (enc x) seq @ rest"
    and "list_all (\<lambda>(p, q). dec p = Some None) bad" and "valid x"
    and "receivable cap (next_pos s + word_of_nat (length (concat (map (\<lambda>(p, q). frame p q) bad))))
           (length (fr_buf (snd s))) (length (enc x))"
  shows "\<exists>ch fr. Recv_loop cap dec s = Some (0, Some x, ch, fr) \<and> reader_wf cap (ch, fr) \<and>
     FrameReader_LastSeq fr = seq \<and> unread (ch, fr) = rest \<and> length (fr_buf fr) = length (fr_buf (snd s))"
  using assms
proof (induction bad arbitrary: s)
  case Nil
  have pf: "parse_frame cap (unread s) = Frame \<lparr>mh_len = word_of_nat (length (enc x)), mh_seq = seq\<rparr> (enc x)"
    using Nil.prems(2) parse_frame_reader [OF Nil.prems(1), of "enc x" seq rest] by simp
  from Nil.prems(1) dec_safe show ?case
    by (cases rule: Recv_loop_round [where dec = dec])
      (use pf dec_enc [OF Nil.prems(4)] Nil.prems in auto)
next
  case (Cons b bad)
  obtain p q where b: "b = (p, q)" by (cases b)
  let ?rest = "concat (map (\<lambda>(p, q). frame p q) bad) @ frame (enc x) seq @ rest"
  have u: "unread s = frame p q @ ?rest" using Cons.prems(2) b by simp
  note pf = parse_frame_reader [OF Cons.prems(1) u]
  have np: "dec p = Some None" using Cons.prems(3) b by auto
  from Cons.prems(1) dec_safe show ?case
  proof (cases rule: Recv_loop_round [where dec = dec])
    case (stop rc ch fr)
    then show ?thesis using pf by auto
  next
    case (msg h p' x' ch fr)
    then show ?thesis using pf np by auto
  next
    case (skip h p' s')
    then have u': "unread s' = ?rest" using pf u by auto
    have "list_all (\<lambda>(p, q). dec p = Some None) bad" using Cons.prems(3) by simp
    moreover have "p' = p" using skip(1) pf by simp
    then have "receivable cap (next_pos s' + word_of_nat (length (concat (map (\<lambda>(p, q). frame p q) bad))))
        (length (fr_buf (snd s'))) (length (enc x))"
      using Cons.prems(5) skip(6,7) b by (simp add: algebra_simps)
    ultimately show ?thesis using Cons.IH [OF skip(4) u' _ Cons.prems(4)] skip(3,6) by metis
  qed
qed

text \<open>A message whose frame wraps around and does not fit into the fallback buffer is dropped.\<close>

lemma Recv_loses_message:
  assumes "reader_wf cap s" "unread s = concat (map (\<lambda>(p, q). frame p q) bad) @ frame (enc x) seq"
    and "list_all (\<lambda>(p, q). dec p = Some None) bad"
    and "\<not> receivable cap (next_pos s + word_of_nat (length (concat (map (\<lambda>(p, q). frame p q) bad))))
           (length (fr_buf (snd s))) (length (enc x))"
  shows "\<exists>ch fr. Recv_loop cap dec s = Some (-1, None, ch, fr) \<and> reader_wf cap (ch, fr) \<and> unread (ch, fr) = []"
  using assms
proof (induction bad arbitrary: s)
  case Nil
  have pf: "parse_frame cap (unread s) = Frame \<lparr>mh_len = word_of_nat (length (enc x)), mh_seq = seq\<rparr> (enc x)"
    using Nil.prems(2) parse_frame_reader [OF Nil.prems(1), of "enc x" seq "[]"] by simp
  from Nil.prems(1) dec_safe show ?case
  proof (cases rule: Recv_loop_round [where dec = dec])
    case (stop rc ch fr)
    then show ?thesis using pf by auto
  next
    case (msg h p' x' ch fr)
    then show ?thesis using pf Nil.prems(4) by auto
  next
    case (skip h p' s')
    then have u': "unread s' = []" using pf Nil.prems(2) by auto
    then have pf': "parse_frame cap (unread s') = Incomplete" by (simp add: parse_frame_def)
    from skip(4) dec_safe show ?thesis
    proof (cases rule: Recv_loop_round [where dec = dec])
      case (stop rc ch fr)
      then show ?thesis using pf' u' skip(3) by auto
    qed (use pf' in auto)
  qed
next
  case (Cons b bad)
  obtain p q where b: "b = (p, q)" by (cases b)
  let ?rest = "concat (map (\<lambda>(p, q). frame p q) bad) @ frame (enc x) seq"
  have u: "unread s = frame p q @ ?rest" using Cons.prems(2) b by simp
  note pf = parse_frame_reader [OF Cons.prems(1) u]
  have np: "dec p = Some None" using Cons.prems(3) b by auto
  from Cons.prems(1) dec_safe show ?case
  proof (cases rule: Recv_loop_round [where dec = dec])
    case (stop rc ch fr)
    then show ?thesis using pf by auto
  next
    case (msg h p' x' ch fr)
    then show ?thesis using pf np by auto
  next
    case (skip h p' s')
    then have u': "unread s' = ?rest" using pf u by auto
    have "list_all (\<lambda>(p, q). dec p = Some None) bad" using Cons.prems(3) by simp
    moreover have "p' = p" using skip(1) pf by simp
    then have "\<not> receivable cap (next_pos s' + word_of_nat (length (concat (map (\<lambda>(p, q). frame p q) bad))))
        (length (fr_buf (snd s'))) (length (enc x))"
      using Cons.prems(4) skip(6,7) b by (simp add: algebra_simps)
    ultimately show ?thesis using Cons.IH [OF skip(4) u'] skip(3) by metis
  qed
qed

text \<open>Both cases for a message sent behind such frames.\<close>

lemma Recv_sent:
  assumes "reader_wf cap (b, fr)" "ch_wr a = ch_rd b" "ring_wf cap rg"
    and "contents rg = contents (ch_wr a) @ frame (enc x) seq" "read_pos rg = read_pos (ch_wr a)"
    and "unread (b, fr) = concat (map (\<lambda>(p, q). frame p q) bad)" "list_all (\<lambda>(p, q). dec p = Some None) bad" "valid x"
  shows "if in_one_piece cap (write_pos (ch_wr a)) (length (enc x)) \<or> length (enc x) \<le> length (fr_buf fr)
    then \<exists>b' fr'. Recv_loop cap dec (b\<lparr>ch_rd := rg\<rparr>, fr) = Some (0, Some x, b', fr') \<and>
           FrameReader_LastSeq fr' = seq \<and> unread (b', fr') = []
    else \<exists>b' fr'. Recv_loop cap dec (b\<lparr>ch_rd := rg\<rparr>, fr) = Some (-1, None, b', fr') \<and> unread (b', fr') = []"
proof -
  note s = sent_behind [OF assms(1-6)]
  have u: "unread (b\<lparr>ch_rd := rg\<rparr>, fr) = concat (map (\<lambda>(p, q). frame p q) bad) @ frame (enc x) seq @ []"
    using s(2) by simp
  show ?thesis
    using Recv_skips_to_message [OF s(1) u assms(7,8)] Recv_loses_message [OF s(1,2) assms(7)]
    unfolding s(3) receivable_def by auto
qed

text \<open>A sequence of messages is received in order, one per call.\<close>

lemma recv_n_messages:
  assumes "reader_wf cap s" "unread s = concat (map (\<lambda>(x, q). frame (enc x) q) msgs) @ rest"
    and "list_all (\<lambda>(x, q). valid x \<and> length (enc x) \<le> length (fr_buf (snd s))) msgs"
  shows "\<exists>s'. recv_n cap dec (length msgs) s = Some (map (\<lambda>(x, q). (0, Some x, q)) msgs, s') \<and>
     reader_wf cap s' \<and> unread s' = rest"
  using assms
proof (induction msgs arbitrary: s)
  case Nil
  then show ?case by simp
next
  case (Cons m msgs)
  obtain x q where m: "m = (x, q)" by (cases m)
  let ?rest = "concat (map (\<lambda>(x, q). frame (enc x) q) msgs) @ rest"
  have u: "unread s = concat (map (\<lambda>(p, q). frame p q) []) @ frame (enc x) q @ ?rest"
    using Cons.prems(2) m by simp
  have v: "valid x" "length (enc x) \<le> length (fr_buf (snd s))" using Cons.prems(3) m by auto
  from Recv_skips_to_message [OF Cons.prems(1) u _ v(1) receivable_small [OF v(2)]] obtain ch fr where
    r: "Recv_loop cap dec s = Some (0, Some x, ch, fr)" "reader_wf cap (ch, fr)"
      "FrameReader_LastSeq fr = q" "unread (ch, fr) = ?rest" "length (fr_buf fr) = length (fr_buf (snd s))" by auto
  have "list_all (\<lambda>(x, q). valid x \<and> length (enc x) \<le> length (fr_buf (snd (ch, fr)))) msgs"
    using Cons.prems(3) r(5) by simp
  from Cons.IH [OF r(2,4) this] r m show ?case by auto
qed

end

end
