(* ===== verification/Proto_Codec.thy ===== *)
theory Proto_Codec
  imports Recv_Loop
begin

text \<open>
  \<open>ProtoCodec<T>\<close> of \<open>include/shm_ipc/proto_codec.hpp\<close>: a payload is the length and the
  characters of the message type's name followed by the serialized message. The protobuf
  library is a parameter: the type name of \<open>T\<close>, serialization (\<open>SerializeToArray\<close>, whose
  length is \<open>ByteSizeLong\<close>) and parsing (\<open>ParseFromArray\<close>). That parsing restores a
  serialized message is the hypothesis \<open>proto_law\<close>; \<open>Message_Codec\<close> shows it for the generated
  messages.
\<close>

section \<open>The model\<close>

record 'm proto =
  pb_name :: bytes
  pb_ser :: "'m \<Rightarrow> bytes"
  pb_parse :: "bytes \<Rightarrow> 'm option"

definition proto_law :: "'m proto \<Rightarrow> 'm \<Rightarrow> bool" where
  "proto_law P m \<longleftrightarrow> pb_parse P (pb_ser P m) = Some m"

definition kTypeNameLenSize :: u32 where "kTypeNameLenSize = 2"

definition TypeNameMatches :: "'m proto \<Rightarrow> bytes \<Rightarrow> nat \<Rightarrow> u32 \<Rightarrow> bool option" where
  "TypeNameMatches P m off type_name_len =
     (if unat type_name_len = length (pb_name P) then do {
        nm \<leftarrow> mem_read m off (unat type_name_len);
        Some (nm = pb_name P)
      } else Some False)"

definition ProtoCodec_DecodePayload :: "'m proto \<Rightarrow> bytes \<Rightarrow> u32 \<Rightarrow> (nat \<times> u32) option option" where
  "ProtoCodec_DecodePayload P payload payload_len =
     (if payload_len < kTypeNameLenSize then Some None
      else do {
        l \<leftarrow> mem_read payload 0 (unat kTypeNameLenSize);
        let name_len = bytes_u16 l; prefix_len = kTypeNameLenSize + ucast name_len in
        if payload_len < prefix_len then Some None
        else do {
          ok \<leftarrow> TypeNameMatches P payload (unat kTypeNameLenSize) (ucast name_len);
          Some (if ok then Some (unat prefix_len, payload_len - prefix_len) else None)
        }
      })"

text \<open>
  \<open>DecodeHeader\<close> returns the offset and length of the type name, the offset and length of
  the protobuf data, and the sequence number.
\<close>

definition DecodeHeader :: "bytes \<Rightarrow> u32 \<Rightarrow> (nat \<times> u32 \<times> nat \<times> u32 \<times> u32) option option" where
  "DecodeHeader buf buf_len =
     (if buf_len < kMsgHeaderSize + kTypeNameLenSize then Some None
      else do {
        h \<leftarrow> mem_read buf 0 (unat kMsgHeaderSize);
        let hdr = MsgHeader_read h in
        if mh_len hdr < kTypeNameLenSize then Some None
        else if mh_len hdr > buf_len - kMsgHeaderSize then Some None
        else do {
          l \<leftarrow> mem_read buf (unat kMsgHeaderSize) (unat kTypeNameLenSize);
          let name_len = bytes_u16 l in
          if mh_len hdr < kTypeNameLenSize + ucast name_len then Some None
          else Some (Some (unat kMsgHeaderSize + unat kTypeNameLenSize, ucast name_len,
                 unat kMsgHeaderSize + unat kTypeNameLenSize + unat name_len,
                 mh_len hdr - kTypeNameLenSize - ucast name_len, mh_seq hdr))
        }
      })"

definition ProtoCodec_Decode :: "'m proto \<Rightarrow> bytes \<Rightarrow> u32 \<Rightarrow> (nat \<times> u32 \<times> u32) option option" where
  "ProtoCodec_Decode P buf buf_len = do {
     r \<leftarrow> DecodeHeader buf buf_len;
     (case r of
        None \<Rightarrow> Some None
      | Some (noff, nlen, off, len, seq) \<Rightarrow> do {
          ok \<leftarrow> TypeNameMatches P buf noff nlen;
          Some (if ok then Some (off, len, seq) else None)
        })
   }"

definition ProtoCodec_TypeName :: "'m proto \<Rightarrow> bytes" where
  "ProtoCodec_TypeName P = pb_name P"

definition ProtoCodec_EncodeTo :: "'m proto \<Rightarrow> 'm \<Rightarrow> bytes \<Rightarrow> u32 \<Rightarrow> u32 \<Rightarrow> (u32 \<times> bytes) option" where
  "ProtoCodec_EncodeTo P msg buf buf_size seq =
     (let name_len = word_of_nat (length (pb_name P)) :: u16;
          pb_len = word_of_nat (length (pb_ser P msg)) :: u32;
          payload_len = kTypeNameLenSize + ucast name_len + pb_len
      in do {
        (p, buf1) \<leftarrow> EncodeFrame buf buf_size payload_len seq;
        (case p of
           None \<Rightarrow> Some (0, buf1)
         | Some off \<Rightarrow> do {
             buf2 \<leftarrow> mem_write buf1 off (u16_bytes name_len);
             nm \<leftarrow> mem_read (pb_name P) 0 (unat name_len);
             buf3 \<leftarrow> mem_write buf2 (off + unat kTypeNameLenSize) nm;
             buf4 \<leftarrow> mem_write buf3 (off + unat kTypeNameLenSize + unat name_len) (pb_ser P msg);
             Some (kMsgHeaderSize + payload_len, buf4)
           })
      })"

definition ProtoCodec_DecodeFrom :: "'m proto \<Rightarrow> bytes \<Rightarrow> u32 \<Rightarrow> 'm option option" where
  "ProtoCodec_DecodeFrom P payload payload_len = do {
     d \<leftarrow> mem_read payload 0 (unat payload_len);
     Some (pb_parse P d)
   }"

text \<open>
  Serialization straight into the ring when \<open>Reserve\<close> returns a pointer, through a
  temporary buffer otherwise.
\<close>

definition SerializeToBatch :: "nat \<Rightarrow> chan_batch \<Rightarrow> bytes \<Rightarrow> u32 \<Rightarrow> chan_batch option" where
  "SerializeToBatch cap s ser pb_len = (case s of (ch, w) \<Rightarrow>
     case ChannelBatchWriter_Reserve cap w pb_len of
       Some ptr \<Rightarrow> do {
         ch' \<leftarrow> write_reserved ch ptr ser;
         w' \<leftarrow> ChannelBatchWriter_CommitReserve cap w pb_len;
         Some (ch', w')
       }
     | None \<Rightarrow> do {
         (_, s') \<leftarrow> ChannelBatchWriter_TryWrite cap (ch, w) (Some ser) pb_len;
         Some s'
       })"

definition Proto_payload :: "nat \<Rightarrow> bytes \<Rightarrow> bytes \<Rightarrow> payload_fn" where
  "Proto_payload cap name ser s =
     (let name_len = word_of_nat (length name) :: u16; pb_len = word_of_nat (length ser) :: u32 in do {
        (_, s1) \<leftarrow> ChannelBatchWriter_TryWrite cap s (Some (u16_bytes name_len)) kTypeNameLenSize;
        (_, s2) \<leftarrow> ChannelBatchWriter_TryWrite cap s1 (Some name) (ucast name_len);
        s3 \<leftarrow> (if pb_len > 0 then SerializeToBatch cap s2 ser pb_len else Some s2);
        Some (True, s3)
      })"

definition ProtoCodec_Send :: "nat \<Rightarrow> 'm proto \<Rightarrow> channel \<Rightarrow> 'm \<Rightarrow> u32 \<Rightarrow> (int outcome \<times> channel) option" where
  "ProtoCodec_Send cap P ch msg seq =
     (let name_len = word_of_nat (length (pb_name P)) :: u16;
          pb_len = word_of_nat (length (pb_ser P msg)) :: u32
      in
      if unat pb_len > max_write_size cap then Some (Ret (-1), ch)
      else SendFrame cap ch (kTypeNameLenSize + ucast name_len + pb_len) seq (Proto_payload cap (pb_name P) (pb_ser P msg)))"

definition ProtoCodec_SendBatch ::
    "nat \<Rightarrow> 'm proto \<Rightarrow> chan_batch \<Rightarrow> 'm \<Rightarrow> u32 \<Rightarrow> (int outcome \<times> chan_batch) option" where
  "ProtoCodec_SendBatch cap P s msg seq =
     (let name_len = word_of_nat (length (pb_name P)) :: u16;
          pb_len = word_of_nat (length (pb_ser P msg)) :: u32
      in
      if unat pb_len > max_write_size cap then Some (Ret (-1), s)
      else SendFrameBatch cap s (kTypeNameLenSize + ucast name_len + pb_len) seq (Proto_payload cap (pb_name P) (pb_ser P msg)))"

text \<open>
  What the body of the loop of \<open>Recv\<close> makes of a payload: \<open>None\<close> for a read outside it,
  \<open>Some None\<close> for a frame that is dropped.
\<close>

definition Proto_dec :: "'m proto \<Rightarrow> bytes \<Rightarrow> 'm option option" where
  "Proto_dec P payload = do {
     r \<leftarrow> ProtoCodec_DecodePayload P payload (word_of_nat (length payload));
     (case r of
        None \<Rightarrow> Some None
      | Some (off, data_len) \<Rightarrow> do {
          d \<leftarrow> mem_read payload off (unat data_len);
          Some (pb_parse P d)
        })
   }"

definition ProtoCodec_Recv :: "nat \<Rightarrow> 'm proto \<Rightarrow> channel \<times> frame_reader
    \<Rightarrow> (int \<times> 'm option \<times> channel \<times> frame_reader) option" where
  "ProtoCodec_Recv cap P s = Recv_loop cap (Proto_dec P) s"

definition ProtoCodec_Commit :: "channel \<times> frame_reader \<Rightarrow> (channel \<times> frame_reader) option" where
  "ProtoCodec_Commit s = FrameReader_Commit s"

section \<open>Encoding and decoding a payload\<close>

definition name_prefix :: "bytes \<Rightarrow> bytes" where
  "name_prefix name = u16_bytes (word_of_nat (length name)) @ name"

definition Proto_enc :: "'m proto \<Rightarrow> 'm \<Rightarrow> bytes" where
  "Proto_enc P msg = name_prefix (pb_name P) @ pb_ser P msg"

definition Proto_fits :: "'m proto \<Rightarrow> 'm \<Rightarrow> bool" where
  "Proto_fits P msg \<longleftrightarrow> length (pb_name P) < 65536 \<and> length (pb_name P) + length (pb_ser P msg) + 10 < 4294967296"

lemma length_name_prefix [simp]: "length (name_prefix name) = 2 + length name"
  by (simp add: name_prefix_def)

lemma length_Proto_enc [simp]: "length (Proto_enc P msg) = 2 + length (pb_name P) + length (pb_ser P msg)"
  by (simp add: Proto_enc_def)

lemma unat_name_len: "length name < 65536 \<Longrightarrow> unat (word_of_nat (length name) :: u16) = length name"
  by (simp add: unat_of_nat take_bit_eq_mod)

lemma unat_ucast_16_32 [simp]: "unat (ucast (x :: u16) :: u32) = unat x"
proof -
  have "unat x < 4294967296" using unat_u16_bound [of x] by linarith
  then show ?thesis by (simp add: unsigned_ucast_eq take_bit_eq_mod)
qed

lemma unat_prefix_len: "unat (kTypeNameLenSize + ucast (x :: u16) :: u32) = 2 + unat x"
proof -
  have "2 + unat x < 4294967296" using unat_u16_bound [of x] by linarith
  then show ?thesis by (simp add: kTypeNameLenSize_def unat_word_ariths)
qed

text \<open>Decoding stays inside the payload, whatever its length and bytes are.\<close>

lemma Proto_dec_safe: "Proto_dec P payload \<noteq> None"
proof -
  let ?n = "word_of_nat (length payload) :: u32"
  have n: "unat ?n \<le> length payload" by (rule unat_word_length_le)
  have sub: "unat (?n - (kTypeNameLenSize + ucast nl)) = unat ?n - (2 + unat nl)"
    if "\<not> ?n < kTypeNameLenSize + ucast nl" for nl :: u16
    using that unat_prefix_len [of nl] by (subst unat_sub) (simp_all add: not_less)
  have name: "mem_read payload (unat kTypeNameLenSize) (unat nl) \<noteq> None" if "\<not> ?n < kTypeNameLenSize + ucast nl" for nl :: u16
    using that n unat_prefix_len [of nl] by (simp add: word_less_nat_alt mem_read_def kTypeNameLenSize_def)
  have len: "mem_read payload 0 (unat kTypeNameLenSize) \<noteq> None" if "\<not> ?n < kTypeNameLenSize"
    using that n by (simp add: word_less_nat_alt mem_read_def)
  have data: "mem_read payload (unat (kTypeNameLenSize + ucast nl :: u32)) (unat (?n - (kTypeNameLenSize + ucast nl))) \<noteq> None"
    if "\<not> ?n < kTypeNameLenSize + ucast nl" for nl :: u16
    using that n sub [OF that] unat_prefix_len [of nl] by (simp add: word_less_nat_alt mem_read_def)
  note defs = Proto_dec_def ProtoCodec_DecodePayload_def TypeNameMatches_def Let_def
  show ?thesis
  proof (cases "?n < kTypeNameLenSize")
    case False
    with len obtain l where l: "mem_read payload 0 (unat kTypeNameLenSize) = Some l" by blast
    show ?thesis
    proof (cases "?n < kTypeNameLenSize + ucast (bytes_u16 l)")
      case True
      then show ?thesis using False l by (simp add: defs)
    next
      case fit: False
      from name [OF fit] data [OF fit] show ?thesis using False l fit by (auto simp: defs)
    qed
  qed (simp add: defs)
qed

lemma Proto_dec_iff:
  assumes "length payload < 4294967296" "length (pb_name P) < 65536"
  shows "Proto_dec P payload = Some (Some m) \<longleftrightarrow> (\<exists>d. payload = name_prefix (pb_name P) @ d \<and> pb_parse P d = Some m)"
proof -
  let ?n = "word_of_nat (length payload) :: u32"
  have n: "unat ?n = length payload" using assms(1) by (rule unat_of_nat_u32)
  show ?thesis
  proof (cases "length payload < 2")
    case True
    then have "?n < kTypeNameLenSize" using n by (simp add: kTypeNameLenSize_def word_less_nat_alt)
    then show ?thesis using True by (auto simp: Proto_dec_def ProtoCodec_DecodePayload_def)
  next
    case False
    define nl where "nl = bytes_u16 (take 2 payload)"
    have pl: "unat (kTypeNameLenSize + ucast nl :: u32) = 2 + unat nl" by (rule unat_prefix_len)
    have r: "mem_read payload 0 (unat kTypeNameLenSize) = Some (take 2 payload)" "\<not> ?n < kTypeNameLenSize"
      using False n by (simp_all add: kTypeNameLenSize_def word_less_nat_alt)
    have eq: "(\<exists>d. payload = name_prefix (pb_name P) @ d \<and> pb_parse P d = Some m) \<longleftrightarrow>
        unat nl = length (pb_name P) \<and> 2 + unat nl \<le> length payload \<and>
        take (unat nl) (drop 2 payload) = pb_name P \<and> pb_parse P (drop (2 + unat nl) payload) = Some m"
      (is "?L \<longleftrightarrow> ?R")
    proof
      assume ?L
      then obtain d where d: "payload = name_prefix (pb_name P) @ d" "pb_parse P d = Some m" by blast
      have "nl = word_of_nat (length (pb_name P))" using d(1) by (simp add: nl_def name_prefix_def)
      then show ?R using d assms(2) unat_name_len [of "pb_name P"] by (simp add: name_prefix_def)
    next
      assume R: ?R
      have "take 2 payload = u16_bytes nl"
        unfolding nl_def using False by (intro u16_bytes_bytes [symmetric]) simp
      moreover have "word_of_nat (length (pb_name P)) = nl"
      proof -
        have "word_of_nat (unat nl) = nl" by simp
        then show ?thesis using R by metis
      qed
      ultimately have "take 2 payload @ take (unat nl) (drop 2 payload) = name_prefix (pb_name P)"
        using R unfolding name_prefix_def by metis
      moreover have "payload = (take 2 payload @ take (unat nl) (drop 2 payload)) @ drop (2 + unat nl) payload"
        by (metis append.assoc append_take_drop_id drop_drop add.commute)
      ultimately show ?L using R by metis
    qed
    have dp: "ProtoCodec_DecodePayload P payload ?n = (if ?n < kTypeNameLenSize + ucast nl then Some None
        else do {
          ok \<leftarrow> TypeNameMatches P payload (unat kTypeNameLenSize) (ucast nl);
          Some (if ok then Some (unat (kTypeNameLenSize + ucast nl :: u32), ?n - (kTypeNameLenSize + ucast nl)) else None)
        })"
      unfolding nl_def using r by (simp add: ProtoCodec_DecodePayload_def Let_def)
    show ?thesis
    proof (cases "length payload < 2 + unat nl")
      case True
      then have "?n < kTypeNameLenSize + ucast nl" using n pl by (simp add: word_less_nat_alt)
      then have "Proto_dec P payload = Some None" using dp by (simp add: Proto_dec_def)
      then show ?thesis using eq True by simp
    next
      case fit: False
      have "\<not> ?n < kTypeNameLenSize + ucast nl" using fit n pl by (simp add: word_less_nat_alt)
      moreover have "unat (?n - (kTypeNameLenSize + ucast nl)) = length payload - (2 + unat nl)"
        using fit n pl by (subst unat_sub) (simp_all add: word_le_nat_alt)
      moreover have "mem_read payload (unat kTypeNameLenSize) (unat nl) = Some (take (unat nl) (drop 2 payload))"
        using fit by (simp add: mem_read_def kTypeNameLenSize_def)
      moreover have "mem_read payload (2 + unat nl) (length payload - (2 + unat nl)) = Some (drop (2 + unat nl) payload)"
        using fit by (simp add: mem_read_def)
      ultimately show ?thesis
        unfolding eq Proto_dec_def dp using pl fit
        by (cases "unat nl = length (pb_name P) \<and> take (unat nl) (drop 2 payload) = pb_name P")
          (auto simp: TypeNameMatches_def split: if_splits)
    qed
  qed
qed

interpretation protoc: payload_codec "\<lambda>m. proto_law P m \<and> Proto_fits P m" "Proto_enc P" "Proto_dec P"
  for P :: "'m proto"
proof
  fix P :: "'m proto" and m assume "proto_law P m \<and> Proto_fits P m"
  then show "Proto_dec P (Proto_enc P m) = Some (Some m)"
    by (subst Proto_dec_iff) (auto simp: Proto_fits_def Proto_enc_def proto_law_def)
qed (rule Proto_dec_safe)

section \<open>The payload callback\<close>

lemma SerializeToBatch_maybe:
  assumes wf: "cbw_wf cap s" and n: "unat n = length ser"
  shows "\<exists>s' xs. SerializeToBatch cap s ser n = Some s' \<and> cbw_appends cap s xs s' \<and>
     (length ser \<le> max_write_size cap \<longrightarrow> cb_used (snd s) + length ser \<le> cap \<longrightarrow> xs = ser)"
proof -
  obtain ch w where s: "s = (ch, w)" by (cases s)
  show ?thesis
  proof (cases "ChannelBatchWriter_Reserve cap w n")
    case None
    from cbw_TryWrite_maybe [OF wf, of n ser] n show ?thesis
      using None s by (fastforce simp: SerializeToBatch_def)
  next
    case (Some off)
    from cbw_Reserve_appends [OF wf [unfolded s] Some, of ser] n show ?thesis
      using Some s by (fastforce simp: SerializeToBatch_def)
  qed
qed

lemma Proto_payload_appends:
  assumes wf: "cbw_wf cap s" and l: "length ser < 4294967296"
  shows "\<exists>s' xs. Proto_payload cap name ser s = Some (True, s') \<and> cbw_appends cap s xs s' \<and>
     (length name < 65536 \<longrightarrow> length name \<le> max_write_size cap \<longrightarrow> length ser \<le> max_write_size cap \<longrightarrow>
      cb_used (snd s) + 2 + length name + length ser \<le> cap \<longrightarrow> xs = name_prefix name @ ser)"
proof -
  obtain ch w where s: "s = (ch, w)" by (cases s)
  have cap: "1024 \<le> cap" using batch_wfD(8) [OF cbw_wf_batch] wf s by blast
  let ?nl = "word_of_nat (length name) :: u16" and ?n = "word_of_nat (length ser) :: u32"
  have n: "unat ?n = length ser" using l by (rule unat_of_nat_u32)
  have nl: "unat (ucast ?nl :: u32) \<le> length name" by (simp add: unat_of_nat take_bit_eq_mod)
  have k: "unat kTypeNameLenSize = 2" "2 \<le> max_write_size cap" using cap by (auto simp: kTypeNameLenSize_def max_write_size_def)
  from cbw_TryWrite_maybe [OF wf, of kTypeNameLenSize "u16_bytes ?nl"] k s obtain s1 rc1 xs1 where
    t: "ChannelBatchWriter_TryWrite cap s (Some (u16_bytes ?nl)) kTypeNameLenSize = Some (rc1, s1)"
      "cbw_appends cap s xs1 s1" "cb_used w + 2 \<le> cap \<longrightarrow> xs1 = u16_bytes ?nl" by fastforce
  obtain ch1 w1 where s1: "s1 = (ch1, w1)" by (cases s1)
  have wf1: "cbw_wf cap s1" using t(2) by (rule cbw_appends_wf)
  have u1: "cb_used w1 = cb_used w + length xs1" using cbw_appends_used [of cap ch w xs1 ch1 w1] wf t(2) s s1 by simp
  from cbw_TryWrite_maybe [OF wf1 nl] s1 obtain s2 rc2 xs2 where
    o: "ChannelBatchWriter_TryWrite cap s1 (Some name) (ucast ?nl) = Some (rc2, s2)" "cbw_appends cap s1 xs2 s2"
      "unat ?nl \<le> max_write_size cap \<longrightarrow> cb_used w1 + unat ?nl \<le> cap \<longrightarrow> xs2 = take (unat ?nl) name" by auto
  obtain ch2 w2 where s2: "s2 = (ch2, w2)" by (cases s2)
  have wf2: "cbw_wf cap s2" using o(2) by (rule cbw_appends_wf)
  have u2: "cb_used w2 = cb_used w1 + length xs2"
    using cbw_appends_used [of cap ch1 w1 xs2 ch2 w2] wf1 o(2) s1 s2 by simp
  obtain s3 xs3 where p: "(if ?n > 0 then SerializeToBatch cap s2 ser ?n else Some s2) = Some s3"
      "cbw_appends cap s2 xs3 s3" "length ser \<le> max_write_size cap \<longrightarrow> cb_used w2 + length ser \<le> cap \<longrightarrow> xs3 = ser"
  proof (cases "?n > 0")
    case True
    then show ?thesis using SerializeToBatch_maybe [OF wf2 n] s2 that by auto
  next
    case False
    then have "?n = 0" by (simp add: word_gt_0)
    then have "ser = []" using n by simp
    then show ?thesis using cbw_appends_refl [OF wf2] that by simp
  qed
  have "Proto_payload cap name ser s = Some (True, s3)" using t o p by (simp add: Proto_payload_def)
  moreover have "cbw_appends cap s ((xs1 @ xs2) @ xs3) s3"
    using cbw_appends_trans [OF cbw_appends_trans [OF t(2) o(2)] p(2)] .
  ultimately show ?thesis
    using t(3) o(3) p(3) u1 u2 s unat_name_len [of name]
    by (intro exI [of _ s3] exI [of _ "(xs1 @ xs2) @ xs3"]) (auto simp: name_prefix_def)
qed

lemma Proto_payload_writer:
  assumes "length ser < 4294967296" "length name < 65536" "length name \<le> max_write_size cap"
  shows "exact_payload_writer cap (Proto_payload cap name ser) (name_prefix name @ ser)
     (max_write_size cap + (2 + length name))"
proof unfold_locales
  fix s assume wf: "cbw_wf cap s"
  note ap = Proto_payload_appends [OF wf assms(1), of name]
  show "\<exists>ok s' xs. Proto_payload cap name ser s = Some (ok, s') \<and> cbw_appends cap s xs s'" using ap by blast
  assume "length (name_prefix name @ ser) \<le> max_write_size cap + (2 + length name)"
    "cb_used (snd s) + length (name_prefix name @ ser) \<le> cap"
  then show "\<exists>s'. Proto_payload cap name ser s = Some (True, s') \<and> cbw_appends cap s (name_prefix name @ ser) s'"
    using ap assms by (auto simp: add.assoc)
qed

lemma ProtoCodec_Send_cases:
  assumes wf: "ring_wf cap (ch_wr ch)" and v: "Proto_fits P msg" "length (pb_name P) \<le> max_write_size cap"
  shows "\<exists>ch'. ProtoCodec_Send cap P ch msg seq
      = Some (if length (pb_ser P msg) \<le> max_write_size cap \<and> used (ch_wr ch) + 8 + length (Proto_enc P msg) \<le> cap
              then Ret 0 else Ret (-1), ch') \<and>
     ring_wf cap (ch_wr ch') \<and> ch_rd ch' = ch_rd ch \<and> read_pos (ch_wr ch') = read_pos (ch_wr ch) \<and>
     (if length (pb_ser P msg) \<le> max_write_size cap \<and> used (ch_wr ch) + 8 + length (Proto_enc P msg) \<le> cap
      then contents (ch_wr ch') = contents (ch_wr ch) @ frame (Proto_enc P msg) seq \<and>
           ch_peer_evt ch' = eventfd_write (ch_peer_evt ch) 1
      else ch' = ch)"
proof -
  let ?ser = "pb_ser P msg" and ?name = "pb_name P"
  have b: "length ?ser < 4294967296" "length ?name < 65536" using v by (auto simp: Proto_fits_def)
  have n: "unat (word_of_nat (length ?ser) :: u32) = length ?ser" using b(1) by (rule unat_of_nat_u32)
  have len: "word_of_nat (length (Proto_enc P msg))
      = kTypeNameLenSize + ucast (word_of_nat (length ?name) :: u16) + (word_of_nat (length ?ser) :: u32)"
  proof -
    have "unat (ucast (word_of_nat (length ?name) :: u16) :: u32) = unat (word_of_nat (length ?name) :: u32)"
      using unat_name_len [OF b(2)] b(2) by (simp add: unat_of_nat_u32)
    then have "(ucast (word_of_nat (length ?name) :: u16) :: u32) = word_of_nat (length ?name)"
      by (rule unsigned_word_eqI)
    then show ?thesis by (simp add: kTypeNameLenSize_def)
  qed
  show ?thesis
  proof (cases "length ?ser \<le> max_write_size cap")
    case True
    then have ps: "ProtoCodec_Send cap P ch msg seq
        = SendFrame cap ch (word_of_nat (length (Proto_enc P msg))) seq (Proto_payload cap ?name ?ser)"
      unfolding ProtoCodec_Send_def Let_def len using n by simp
    have l: "length (Proto_enc P msg) \<le> max_write_size cap + (2 + length ?name)"
      "length (Proto_enc P msg) + 8 < 4294967296" using v(1) True by (simp_all add: Proto_fits_def)
    note w = Proto_payload_writer [OF b v(2), folded Proto_enc_def]
    show ?thesis
      unfolding ps using exact_payload_writer.SendFrame_exact [OF w wf l, of seq] True by auto
  next
    case False
    then show ?thesis using n wf by (simp add: ProtoCodec_Send_def Let_def)
  qed
qed

section \<open>Send and Recv\<close>

text \<open>
  \<open>ProtoCodec<T>\<close> end to end. A message that \<open>Send\<close> accepted, written into the ring
  in place or through the temporary buffer, is returned by the peer's next \<open>Recv\<close> with its
  sequence number, behind any frames of other types, which are dropped, when its frame lies in
  one piece or fits into the fallback buffer; otherwise it is dropped too. This holds for any
  protobuf library whose parser inverts its serializer.
\<close>

lemma ProtoCodec_Send_Recv:
  assumes "proto_law P msg" "reader_wf cap (b, fr)" "ch_wr a = ch_rd b" "Proto_fits P msg"
    and "length (pb_name P) \<le> max_write_size cap"
    and "unread (b, fr) = concat (map (\<lambda>(p, q). frame p q) bad)" "list_all (\<lambda>(p, q). Proto_dec P p = Some None) bad"
    and "ProtoCodec_Send cap P a msg seq = Some (Ret 0, a')"
  shows "if in_one_piece cap (write_pos (ch_wr a)) (length (Proto_enc P msg)) \<or> length (Proto_enc P msg) \<le> length (fr_buf fr)
    then \<exists>b' fr'. ProtoCodec_Recv cap P (b\<lparr>ch_rd := ch_wr a'\<rparr>, fr) = Some (0, Some msg, b', fr') \<and>
           FrameReader_LastSeq fr' = seq \<and> unread (b', fr') = []
    else \<exists>b' fr'. ProtoCodec_Recv cap P (b\<lparr>ch_rd := ch_wr a'\<rparr>, fr) = Some (-1, None, b', fr') \<and> unread (b', fr') = []"
proof -
  have wf: "ring_wf cap (ch_wr a)" using assms(2,3) by (simp add: reader_wf_def)
  from ProtoCodec_Send_cases [OF wf assms(4,5), of seq] assms(8)
  have a': "ring_wf cap (ch_wr a')" "contents (ch_wr a') = contents (ch_wr a) @ frame (Proto_enc P msg) seq"
    "read_pos (ch_wr a') = read_pos (ch_wr a)"
    by (auto split: if_splits)
  have v: "proto_law P msg \<and> Proto_fits P msg" using assms(1,4) by blast
  show ?thesis using protoc.Recv_sent [OF assms(2,3) a' assms(6,7) v] unfolding ProtoCodec_Recv_def .
qed

end
