(* ===== verification/Wire_Format.thy ===== *)
theory Wire_Format
  imports Shm_Prelude
begin

text \<open>
  The wire format of protocol buffers as far as the generated messages of \<open>src/proto\<close> use
  it, from the headers in \<open>src/3rd/protobuf\<close>: base-128 integers and their sizes
  (\<open>coded_stream.h\<close>, \<open>stubs/port.h\<close>), tags and integer fields (\<open>wire_format_lite.h\<close>) and the
  output stream over an array (\<open>EpsCopyOutputStream\<close>). The functions of the stream that are
  compiled into the library, and not in a header, are fields of the record \<open>out_lib\<close>.

  Shown: the byte-wise writers store the reference encoding \<open>varint\<close>, the sizes computed
  from the position of the highest bit are its length, and fields are written inside the array.
\<close>

section \<open>The model\<close>

lemma unat_drop_bit_7 [simp]: "unat (drop_bit 7 v) = unat (v :: 'w::len word) div 128"
  unfolding unat_drop_bit_eq by (simp add: drop_bit_eq_div)

text \<open>A byte store and the \<open>|=\<close> that sets the continuation bit of a byte already written.\<close>

definition or_byte :: "bytes \<Rightarrow> nat \<Rightarrow> u8 \<Rightarrow> bytes option" where
  "or_byte m p b = do { x \<leftarrow> mem_read m p 1; mem_write m p [hd x OR b] }"

function UnsafeVarint_loop :: "'w::len word \<Rightarrow> bytes \<Rightarrow> nat \<Rightarrow> (bytes \<times> nat) option" where
  "UnsafeVarint_loop v m ptr = do {
     m1 \<leftarrow> or_byte m (ptr - 1) 0x80;
     m2 \<leftarrow> mem_write m1 ptr [ucast (drop_bit 7 v)];
     (if 0x80 \<le> unat (drop_bit 7 v) then UnsafeVarint_loop (drop_bit 7 v) m2 (ptr + 1)
      else Some (m2, ptr + 1))
   }"
  by pat_completeness auto

termination
proof (relation "measure (\<lambda>(v, m, ptr). unat v)", simp)
  fix v :: "'w::len word" and m ptr m1 m2
  assume "0x80 \<le> unat (drop_bit 7 v)"
  then have "0 < unat v" "128 \<le> unat v div 128" by auto
  then show "((drop_bit 7 v, m2 :: bytes, ptr + 1), v, m :: bytes, ptr) \<in> measure (\<lambda>(v, m, ptr). unat v)"
    by simp
qed

declare UnsafeVarint_loop.simps [simp del]

definition UnsafeVarint :: "'w::len word \<Rightarrow> bytes \<Rightarrow> nat \<Rightarrow> (bytes \<times> nat) option" where
  "UnsafeVarint v m ptr = do {
     m0 \<leftarrow> mem_write m ptr [ucast v];
     if unat v < 0x80 then Some (m0, ptr + 1)
     else do {
       m1 \<leftarrow> or_byte m0 ptr 0x80;
       m2 \<leftarrow> mem_write m1 (ptr + 1) [ucast (drop_bit 7 v)];
       if unat (drop_bit 7 v) < 0x80 then Some (m2, ptr + 2)
       else UnsafeVarint_loop (drop_bit 7 v) m2 (ptr + 2)
     }
   }"

function UnsafeWriteSize :: "u32 \<Rightarrow> bytes \<Rightarrow> nat \<Rightarrow> (bytes \<times> nat) option" where
  "UnsafeWriteSize v m ptr =
     (if 0x80 \<le> v then do {
        m' \<leftarrow> mem_write m ptr [ucast (v OR 0x80)];
        UnsafeWriteSize (drop_bit 7 v) m' (ptr + 1)
      } else do { m' \<leftarrow> mem_write m ptr [ucast v]; Some (m', ptr + 1) })"
  by pat_completeness auto

termination
proof (relation "measure (\<lambda>(v, m, ptr). unat v)", simp)
  fix v :: u32 and m ptr m'
  assume "0x80 \<le> v"
  then have "0 < unat v" by (simp add: word_le_nat_alt)
  then show "((drop_bit 7 v, m' :: bytes, ptr + 1), v, m :: bytes, ptr) \<in> measure (\<lambda>(v, m, ptr). unat v)"
    by simp
qed

declare UnsafeWriteSize.simps [simp del]

definition builtin_clz :: "'w::len word \<Rightarrow> u32" where
  "builtin_clz w = word_of_nat (length (takeWhile (\<lambda>i. \<not> bit w i) (rev [0..<LENGTH('w)])))"

definition Log2FloorNonZero :: "u32 \<Rightarrow> u32" where
  "Log2FloorNonZero n = 31 XOR builtin_clz n"

definition Log2FloorNonZero64 :: "u64 \<Rightarrow> u32" where
  "Log2FloorNonZero64 n = 63 XOR builtin_clz n"

definition VarintSize32 :: "u32 \<Rightarrow> u64" where
  "VarintSize32 v = ucast ((Log2FloorNonZero (v OR 1) * 9 + 73) div 64)"

definition VarintSize64 :: "u64 \<Rightarrow> u64" where
  "VarintSize64 v = ucast ((Log2FloorNonZero64 (v OR 1) * 9 + 73) div 64)"

definition VarintSize64PlusOne :: "u64 \<Rightarrow> u64" where
  "VarintSize64PlusOne v = ucast ((Log2FloorNonZero64 (v OR 1) * 9 + 73 + 64) div 64)"

definition kTagTypeBits :: nat where "kTagTypeBits = 3"
definition WIRETYPE_VARINT :: u32 where "WIRETYPE_VARINT = 0"
definition WIRETYPE_LENGTH_DELIMITED :: u32 where "WIRETYPE_LENGTH_DELIMITED = 2"

definition MakeTag :: "u32 \<Rightarrow> u32 \<Rightarrow> u32" where
  "MakeTag field_number type = push_bit kTagTypeBits field_number OR type"

definition WriteTagToArray :: "u32 \<Rightarrow> u32 \<Rightarrow> bytes \<Rightarrow> nat \<Rightarrow> (bytes \<times> nat) option" where
  "WriteTagToArray field_number type m target = UnsafeVarint (MakeTag field_number type) m target"

text \<open>An \<open>int32_t\<close> is a 32-bit word that is sign-extended when it is written.\<close>

definition WriteInt32ToArray :: "u32 \<Rightarrow> u32 \<Rightarrow> bytes \<Rightarrow> nat \<Rightarrow> (bytes \<times> nat) option" where
  "WriteInt32ToArray field_number v m target = do {
     (m, target) \<leftarrow> WriteTagToArray field_number WIRETYPE_VARINT m target;
     UnsafeVarint (scast v :: u64) m target
   }"

definition WriteInt64ToArray :: "u32 \<Rightarrow> u64 \<Rightarrow> bytes \<Rightarrow> nat \<Rightarrow> (bytes \<times> nat) option" where
  "WriteInt64ToArray field_number v m target = do {
     (m, target) \<leftarrow> WriteTagToArray field_number WIRETYPE_VARINT m target;
     UnsafeVarint v m target
   }"

definition Int32SizePlusOne :: "u32 \<Rightarrow> u64" where
  "Int32SizePlusOne v = VarintSize64PlusOne (scast v)"

definition Int64SizePlusOne :: "u64 \<Rightarrow> u64" where
  "Int64SizePlusOne v = VarintSize64PlusOne v"

definition LengthDelimitedSize :: "u64 \<Rightarrow> u64" where
  "LengthDelimitedSize len = len + VarintSize32 (ucast len)"

definition BytesSize :: "bytes \<Rightarrow> u64" where
  "BytesSize s = LengthDelimitedSize (word_of_nat (length s))"

text \<open>
  The output stream over an array: \<open>eo_end\<close> is \<open>end_\<close> as an offset into the array. A stream
  operation works on the stream, the array and the write position.
\<close>

record eos =
  eo_end :: nat
  eo_aliasing_enabled :: bool

type_synonym out = "eos \<times> bytes \<times> nat"

record out_lib =
  ol_EnsureSpaceFallback :: "out \<Rightarrow> out option"
  ol_WriteRawFallback :: "bytes \<Rightarrow> out \<Rightarrow> out option"
  ol_WriteAliasedRaw :: "bytes \<Rightarrow> out \<Rightarrow> out option"
  ol_WriteStringMaybeAliasedOutline :: "u32 \<Rightarrow> bytes \<Rightarrow> out \<Rightarrow> out option"

definition EpsCopyOutputStream_array :: "nat \<Rightarrow> eos" where
  "EpsCopyOutputStream_array n = \<lparr>eo_end = n, eo_aliasing_enabled = False\<rparr>"

definition EnsureSpace :: "'l out_lib_scheme \<Rightarrow> out \<Rightarrow> out option" where
  "EnsureSpace L = (\<lambda>(st, m, ptr).
     if eo_end st \<le> ptr then ol_EnsureSpaceFallback L (st, m, ptr) else Some (st, m, ptr))"

definition EpsCopy_WriteRaw :: "'l out_lib_scheme \<Rightarrow> bytes \<Rightarrow> out \<Rightarrow> out option" where
  "EpsCopy_WriteRaw L d = (\<lambda>(st, m, ptr).
     if int (eo_end st) - int ptr < int (length d) then ol_WriteRawFallback L d (st, m, ptr)
     else do { m' \<leftarrow> mem_write m ptr d; Some (st, m', ptr + length d) })"

definition WriteRawMaybeAliased :: "'l out_lib_scheme \<Rightarrow> bytes \<Rightarrow> out \<Rightarrow> out option" where
  "WriteRawMaybeAliased L d = (\<lambda>(st, m, ptr).
     if eo_aliasing_enabled st then ol_WriteAliasedRaw L d (st, m, ptr) else EpsCopy_WriteRaw L d (st, m, ptr))"

definition EpsCopy_TagSize :: "u32 \<Rightarrow> int" where
  "EpsCopy_TagSize tag = (if tag < push_bit 7 1 then 1 else if tag < push_bit 14 1 then 2
     else if tag < push_bit 21 1 then 3 else if tag < push_bit 28 1 then 4 else 5)"

definition EpsCopy_WriteTag :: "u32 \<Rightarrow> u32 \<Rightarrow> bytes \<Rightarrow> nat \<Rightarrow> (bytes \<times> nat) option" where
  "EpsCopy_WriteTag num wt m ptr = UnsafeVarint (push_bit 3 num OR wt) m ptr"

definition WriteLengthDelim :: "u32 \<Rightarrow> u32 \<Rightarrow> bytes \<Rightarrow> nat \<Rightarrow> (bytes \<times> nat) option" where
  "WriteLengthDelim num len m ptr = do {
     (m, ptr) \<leftarrow> EpsCopy_WriteTag num 2 m ptr;
     UnsafeWriteSize len m ptr
   }"

definition WriteStringMaybeAliased :: "'l out_lib_scheme \<Rightarrow> u32 \<Rightarrow> bytes \<Rightarrow> out \<Rightarrow> out option" where
  "WriteStringMaybeAliased L num s = (\<lambda>(st, m, ptr).
     let len = int (length s) in
     if 128 \<le> len \<or> int (eo_end st) - int ptr + 16 - EpsCopy_TagSize (push_bit 3 num) - 1 < len
     then ol_WriteStringMaybeAliasedOutline L num s (st, m, ptr)
     else do {
       (m, ptr) \<leftarrow> UnsafeVarint (push_bit 3 num OR 2) m ptr;
       m \<leftarrow> mem_write m ptr [word_of_int len];
       m \<leftarrow> mem_write m (ptr + 1) s;
       Some (st, m, ptr + 1 + length s)
     })"

definition WriteBytesMaybeAliased :: "'l out_lib_scheme \<Rightarrow> u32 \<Rightarrow> bytes \<Rightarrow> out \<Rightarrow> out option" where
  "WriteBytesMaybeAliased L num s = WriteStringMaybeAliased L num s"

section \<open>The reference encoding\<close>

text \<open>The reference: the base-128 encoding of a number, least significant group first.\<close>

fun varint :: "nat \<Rightarrow> bytes" where
  "varint n = (if n < 128 then [word_of_nat n] else word_of_nat (n mod 128 + 128) # varint (n div 128))"

declare varint.simps [simp del]

lemma varint_small: "n < 128 \<Longrightarrow> varint n = [word_of_nat n]"
  by (subst varint.simps) simp

lemma varint_big: "128 \<le> n \<Longrightarrow> varint n = word_of_nat (n mod 128 + 128) # varint (n div 128)"
  by (subst varint.simps) simp

lemma varint_nonempty [simp]: "varint n \<noteq> []" "0 < length (varint n)"
  by (subst varint.simps, simp)+

lemma length_varint_le: "0 < k \<Longrightarrow> n < 128 ^ k \<Longrightarrow> length (varint n) \<le> k"
proof (induction k arbitrary: n)
  case (Suc k)
  show ?case
  proof (cases "n < 128")
    case False
    then have "0 < k" using Suc.prems by (cases k) auto
    moreover have "n div 128 < 128 ^ k" using Suc.prems by (simp add: less_mult_imp_div_less mult.commute)
    ultimately show ?thesis using Suc.IH False by (simp add: varint_big)
  qed (simp add: varint_small)
qed simp

section \<open>Writing\<close>

lemma u8_or_128: "x OR 0x80 = word_of_nat (unat x mod 128 + 128)" for x :: u8
proof -
  have b: "unat x < 256" using unsigned_less [of x, where ?'a = nat] by simp
  have "(0x80 :: u8) = push_bit 7 1" by (simp add: push_bit_eq_mult)
  then have s: "x OR 0x80 = set_bit 7 x" by (simp only: set_bit_eq_or)
  have bt: "bit x 7 \<longleftrightarrow> 128 \<le> unat x"
  proof -
    have "bit x 7 \<longleftrightarrow> bit (unat x) 7" by (simp add: bit_unsigned_iff)
    also have "\<dots> \<longleftrightarrow> odd (unat x div 128)" by (simp add: bit_iff_odd)
    also have "\<dots> \<longleftrightarrow> 128 \<le> unat x" using b by (cases "unat x < 128") (auto simp: div_if)
    finally show ?thesis .
  qed
  show ?thesis
  proof (cases "bit x 7")
    case True
    then have e: "unat x mod 128 + 128 = unat x" using bt b by (auto simp: mod_if)
    have "word_of_nat (unat x) = x" by simp
    then show ?thesis using True s unfolding e by (simp add: set_bit_eq)
  next
    case False
    then have "unat x mod 128 = unat x" using bt by simp
    then show ?thesis using False s by (simp add: set_bit_eq)
  qed
qed

lemma ucast_u8_eq: "(ucast (v :: 'w::len word) :: u8) = word_of_nat (unat v)"
proof -
  have "unat (ucast v :: u8) = unat (word_of_nat (unat v) :: u8)" by (simp add: unsigned_ucast_eq unsigned_of_nat)
  then show ?thesis by (rule unsigned_word_eqI)
qed

lemma unat_ucast_u8_mod: "unat (ucast (v :: 'w::len word) :: u8) mod 128 = unat v mod 128"
proof -
  have "unat (ucast v :: u8) = unat v mod 256" by (simp add: unsigned_ucast_eq take_bit_eq_mod)
  then show ?thesis by (simp add: mod_mod_cancel)
qed

lemma ucast_drop_bit_7: "(ucast (drop_bit 7 (v :: 'w::len word)) :: u8) = word_of_nat (unat v div 128)"
  using ucast_u8_eq [of "drop_bit 7 v"] by (simp only: unat_drop_bit_7)

lemma or_byte_append:
  "length xs = p \<Longrightarrow> or_byte (xs @ y # ys) p b = Some (xs @ (y OR b) # ys)"
  by (auto simp: or_byte_def mem_read_def mem_write_def)

lemma mem_write_Cons: "length xs = p \<Longrightarrow> mem_write (xs @ y # ys) p [b] = Some (xs @ b # ys)"
  by (auto simp: mem_write_def)

lemma UnsafeVarint_loop_writes:
  assumes "128 \<le> unat v" "length xs + 1 = ptr" "length (varint (unat v)) \<le> Suc (length ys)"
  shows "UnsafeVarint_loop v (xs @ ucast v # ys) ptr
     = Some (xs @ varint (unat v) @ drop (length (varint (unat v)) - 1) ys, length xs + length (varint (unat v)))"
  using assms
proof (induction v "xs @ ucast v # ys" ptr arbitrary: xs ys rule: UnsafeVarint_loop.induct)
  case (1 v ptr xs ys)
  let ?v = "drop_bit 7 v" and ?b = "word_of_nat (unat v mod 128 + 128) :: u8"
  have uv: "unat ?v = unat v div 128" by simp
  have vi: "varint (unat v) = ?b # varint (unat ?v)" using 1(2) uv by (simp add: varint_big)
  obtain y zs where ys: "ys = y # zs" using 1(4) vi by (cases ys) auto
  have w1: "or_byte (xs @ ucast v # ys) (ptr - 1) 0x80 = Some (xs @ ?b # ys)"
    using 1(3) by (subst or_byte_append) (auto simp: u8_or_128 unat_ucast_u8_mod)
  have w2: "mem_write (xs @ ?b # ys) ptr [ucast ?v] = Some ((xs @ [?b]) @ ucast ?v # zs)"
    using mem_write_Cons [of "xs @ [?b]" ptr y zs "ucast ?v"] 1(3) ys by simp
  show ?case
  proof (cases "0x80 \<le> unat ?v")
    case True
    have l: "length (xs @ [?b]) + 1 = ptr + 1" "length (varint (unat ?v)) \<le> Suc (length zs)"
      using 1(3,4) vi ys by auto
    have "drop (length (varint (unat v)) - 1) ys = drop (length (varint (unat ?v)) - 1) zs"
      unfolding vi ys by (cases "varint (unat ?v)") auto
    with 1(1) [OF w1 w2 True True l] True w1 w2 show ?thesis
      unfolding vi by (subst UnsafeVarint_loop.simps) simp
  next
    case False
    then show ?thesis using w1 w2 vi ys 1(3)
      by (subst UnsafeVarint_loop.simps) (auto simp: varint_small ucast_drop_bit_7)
  qed
qed

text \<open>The bytes of \<open>m\<close> from \<open>p\<close> on are replaced by \<open>xs\<close>.\<close>

definition overwrite :: "bytes \<Rightarrow> nat \<Rightarrow> bytes \<Rightarrow> bytes" where
  "overwrite m p xs = take p m @ xs @ drop (p + length xs) m"

lemma length_overwrite [simp]: "p + length xs \<le> length m \<Longrightarrow> length (overwrite m p xs) = length m"
  by (simp add: overwrite_def)

lemma overwrite_overwrite:
  "p + length xs \<le> length m \<Longrightarrow> overwrite (overwrite m p xs) (p + length xs) ys = overwrite m p (xs @ ys)"
  by (simp add: overwrite_def ac_simps)

lemma mem_write_overwrite: "p + length xs \<le> length m \<Longrightarrow> mem_write m p xs = Some (overwrite m p xs)"
  by (simp add: mem_write_def overwrite_def)

lemma overwrite_all: "length xs = length m \<Longrightarrow> overwrite m 0 xs = xs"
  by (simp add: overwrite_def)

lemma split_at: "p < length m \<Longrightarrow> m = take p m @ m ! p # drop (Suc p) m"
  by (simp add: id_take_nth_drop)

lemma UnsafeVarint_writes:
  assumes "ptr + length (varint (unat v)) \<le> length m"
  shows "UnsafeVarint v m ptr
     = Some (overwrite m ptr (varint (unat v)), ptr + length (varint (unat v)))"
proof -
  let ?xs = "take ptr m" and ?ys = "drop (Suc ptr) m" and ?b = "word_of_nat (unat v mod 128 + 128) :: u8"
  have p: "ptr < length m" using assms varint_nonempty(2) [of "unat v"] by linarith
  then have m: "m = ?xs @ m ! ptr # ?ys" and lx: "length ?xs = ptr" by (simp_all add: id_take_nth_drop)
  have w0: "mem_write m ptr [ucast v] = Some (?xs @ ucast v # ?ys)" using p by (simp add: mem_write_def)
  show ?thesis
  proof (cases "unat v < 128")
    case True
    then show ?thesis using w0 by (simp add: UnsafeVarint_def varint_small overwrite_def)
  next
    case False
    have vi: "varint (unat v) = ?b # varint (unat v div 128)" using False by (simp add: varint_big)
    have w1: "or_byte (?xs @ ucast v # ?ys) ptr 0x80 = Some (?xs @ ?b # ?ys)"
      using lx by (subst or_byte_append) (auto simp: u8_or_128 unat_ucast_u8_mod)
    have l: "ptr + 1 + length (varint (unat v div 128)) \<le> length m" using assms vi by simp
    then have p1: "ptr + 1 < length m" using varint_nonempty(2) [of "unat v div 128"] by linarith
    let ?zs = "drop (Suc (Suc ptr)) m"
    have "?xs @ ?b # ?ys = (?xs @ [?b]) @ m ! Suc ptr # ?zs" using p1 by (simp add: Cons_nth_drop_Suc)
    then have w2: "mem_write (?xs @ ?b # ?ys) (ptr + 1) [ucast (drop_bit 7 v)] = Some ((?xs @ [?b]) @ ucast (drop_bit 7 v) # ?zs)"
      using mem_write_Cons [of "?xs @ [?b]" "ptr + 1"] lx by simp
    show ?thesis
    proof (cases "unat v div 128 < 128")
      case True
      then show ?thesis using w0 w1 w2 vi \<open>\<not> unat v < 128\<close>
        by (simp add: UnsafeVarint_def varint_small overwrite_def ucast_drop_bit_7)
    next
      case big: False
      have "UnsafeVarint_loop (drop_bit 7 v) ((?xs @ [?b]) @ ucast (drop_bit 7 v) # ?zs) (ptr + 2)
          = Some ((?xs @ [?b]) @ varint (unat (drop_bit 7 v)) @ drop (length (varint (unat (drop_bit 7 v))) - 1) ?zs,
              length (?xs @ [?b]) + length (varint (unat (drop_bit 7 v))))"
        using big lx l by (intro UnsafeVarint_loop_writes) auto
      moreover have "Suc (Suc (ptr + (length (varint (unat v div 128)) - Suc 0))) = Suc (ptr + length (varint (unat v div 128)))"
        using varint_nonempty(2) [of "unat v div 128"] by linarith
      ultimately show ?thesis using w0 w1 w2 vi False big lx l
        by (simp add: UnsafeVarint_def overwrite_def add.commute)
    qed
  qed
qed

lemma UnsafeWriteSize_writes:
  assumes "ptr + length (varint (unat v)) \<le> length m"
  shows "UnsafeWriteSize v m ptr = Some (overwrite m ptr (varint (unat v)), ptr + length (varint (unat v)))"
  using assms
proof (induction v m ptr rule: UnsafeWriteSize.induct)
  case (1 v m ptr)
  let ?b = "word_of_nat (unat v mod 128 + 128) :: u8"
  show ?case
  proof (cases "0x80 \<le> v")
    case True
    then have v: "128 \<le> unat v" by (simp add: word_le_nat_alt)
    have vi: "varint (unat v) = ?b # varint (unat (drop_bit 7 v))" using v by (simp add: varint_big)
    have "(ucast (v OR 0x80) :: u8) = ucast v OR ucast (0x80 :: u32)" by (rule bit_word_eqI) (simp add: bit_simps)
    then have b: "(ucast (v OR 0x80) :: u8) = ?b" by (simp add: u8_or_128 unat_ucast_u8_mod)
    have w: "mem_write m ptr [ucast (v OR 0x80)] = Some (overwrite m ptr [?b])"
      using 1(2) vi unfolding b by (intro mem_write_overwrite) auto
    have l: "ptr + 1 + length (varint (unat (drop_bit 7 v))) \<le> length (overwrite m ptr [?b])" using 1(2) vi by simp
    have "overwrite (overwrite m ptr [?b]) (ptr + 1) (varint (unat (drop_bit 7 v))) = overwrite m ptr (varint (unat v))"
      using overwrite_overwrite [of ptr "[?b]" m] 1(2) unfolding vi by simp
    then show ?thesis using 1(1) [OF True w l] True w vi by (subst UnsafeWriteSize.simps) simp
  next
    case False
    then have "unat v < 128" by (simp add: word_le_nat_alt)
    then show ?thesis using False 1(2)
      by (subst UnsafeWriteSize.simps) (simp add: varint_small mem_write_overwrite)
  qed
qed


section \<open>Sizes\<close>

lemma xor_mask_nat: "k < 2 ^ n \<Longrightarrow> mask n XOR k = (mask n - k :: nat)"
proof (induction n arbitrary: k)
  case (Suc n)
  have "k div 2 < 2 ^ n" using Suc.prems by simp
  from Suc.IH [OF this] have "mask n XOR (k div 2) = (mask n - k div 2 :: nat)" .
  moreover have m: "mask (Suc n) = 2 * mask n + (1 :: nat)"
    unfolding mask_eq_exp_minus_1 power_Suc using one_le_power [of "2 :: nat" n] by linarith
  moreover have "k div 2 \<le> mask n" using \<open>k div 2 < 2 ^ n\<close> by (simp add: mask_eq_exp_minus_1)
  ultimately show ?case by (subst xor_nat_rec) (simp add: m, presburger)
qed simp

lemma xor_complement:
  assumes "k < 2 ^ n"
  shows "mask n XOR word_of_nat k = (word_of_nat (mask n - k) :: 'w::len word)"
  using xor_mask_nat [OF assms] by (metis of_nat_mask_eq of_nat_xor_eq)

text \<open>The highest set bit.\<close>

lemma clz_bits:
  "\<exists>i<n. bit w i \<Longrightarrow> \<exists>h<n. bit w h \<and> (\<forall>i. h < i \<and> i < n \<longrightarrow> \<not> bit w i) \<and>
     length (takeWhile (\<lambda>i. \<not> bit w i) (rev [0..<n])) = n - 1 - h"
proof (induction n)
  case (Suc n)
  show ?case
  proof (cases "bit w n")
    case False
    then have "\<exists>i<n. bit w i" using Suc.prems less_Suc_eq by auto
    from Suc.IH [OF this] obtain h where h: "h < n" "bit w h" "\<forall>i. h < i \<and> i < n \<longrightarrow> \<not> bit w i"
      "length (takeWhile (\<lambda>i. \<not> bit w i) (rev [0..<n])) = n - 1 - h" by blast
    then show ?thesis using False by (intro exI [of _ h]) (auto simp: less_Suc_eq)
  qed (auto intro!: exI [of _ n])
qed simp

lemma highest_bit_bounds:
  assumes "bit w h" "\<And>i. h < i \<Longrightarrow> i < LENGTH('w) \<Longrightarrow> \<not> bit w i"
  shows "2 ^ h \<le> unat (w :: 'w::len word)" "unat w < 2 ^ Suc h"
proof -
  have "bit (unat w) h" using assms(1) by (simp add: bit_unsigned_iff)
  then have "odd (unat w div 2 ^ h)" by (simp add: bit_iff_odd)
  then have "unat w div 2 ^ h \<noteq> 0" by (metis even_zero)
  then show "2 ^ h \<le> unat w" by (simp add: div_eq_0_iff)
  have "drop_bit (Suc h) (unat w) = 0"
  proof (rule bit_eqI)
    fix i
    have "\<not> bit w (Suc h + i)"
    proof (cases "Suc h + i < LENGTH('w)")
      case False
      then show ?thesis using bit_imp_le_length [of w "Suc h + i"] by linarith
    qed (use assms(2) in auto)
    then show "bit (drop_bit (Suc h) (unat w)) i = bit (0 :: nat) i" by (simp add: bit_simps)
  qed
  then show "unat w < 2 ^ Suc h" by (simp add: drop_bit_eq_div div_eq_0_iff)
qed

lemma Log2Floor:
  assumes "w \<noteq> (0 :: 'w::len word)" "LENGTH('w) = 2 ^ n" 
  shows "\<exists>h. mask n XOR builtin_clz w = word_of_nat h \<and> h < LENGTH('w) \<and> 2 ^ h \<le> unat w \<and> unat w < 2 ^ Suc h"
proof -
  have "\<exists>i<LENGTH('w). bit w i" using assms(1) by (metis bit_imp_le_length bit_word_eqI bit_0_eq bot_apply bot_bool_def)
  from clz_bits [OF this] obtain h where h: "h < LENGTH('w)" "bit w h" "\<forall>i. h < i \<and> i < LENGTH('w) \<longrightarrow> \<not> bit w i"
    "builtin_clz w = word_of_nat (LENGTH('w) - 1 - h)" unfolding builtin_clz_def by metis
  have "mask n XOR word_of_nat (LENGTH('w) - 1 - h) = (word_of_nat (mask n - (LENGTH('w) - 1 - h)) :: u32)"
    using h(1) assms(2) by (intro xor_complement) auto
  moreover have "mask n - (LENGTH('w) - 1 - h) = h" using h(1) assms(2) by (simp add: mask_eq_exp_minus_1)
  ultimately show ?thesis using h highest_bit_bounds [of w h] by auto
qed

lemma length_varint_log:
  "2 ^ h \<le> n \<Longrightarrow> n < 2 ^ Suc h \<Longrightarrow> length (varint n) = h div 7 + 1"
proof (induction n arbitrary: h rule: varint.induct)
  case (1 n)
  show ?case
  proof (cases "n < 128")
    case True
    then have "(2::nat) ^ h < 2 ^ 7" using 1(2) by simp
    then have "h < 7" by (simp only: power_strict_increasing_iff)
    then show ?thesis using True by (simp add: varint_small)
  next
    case False
    then have "(2::nat) ^ 7 < 2 ^ Suc h" using 1(3) by simp
    then have h: "7 \<le> h" by (simp only: power_strict_increasing_iff)
    have e: "(2::nat) ^ h = 128 * 2 ^ (h - 7)" using h power_add [of "2::nat" 7 "h - 7"] by simp
    have "2 ^ (h - 7) \<le> n div 128" using 1(2) e by simp
    moreover have "n div 128 < 2 ^ Suc (h - 7)" using 1(3) e by simp
    ultimately have "length (varint (n div 128)) = (h - 7) div 7 + 1" using 1(1) False by simp
    then show ?thesis using False h by (simp add: varint_big le_div_geq)
  qed
qed

lemma length_varint_or_1: "length (varint (n OR 1)) = length (varint n)"
proof -
  have o: "n OR 1 = n + of_bool (even n)" by (rule or_one_eq)
  show ?thesis
  proof (cases "n < 128")
    case True
    then have "n OR 1 < 128" unfolding o by (cases "even n") auto
    then show ?thesis using True by (simp add: varint_small)
  next
    case False
    have d: "x div 128 = x div 2 div 64" for x :: nat by (simp add: div_mult2_eq [symmetric])
    have "(n OR 1) div 128 = n div 128" unfolding o d by (cases "even n") simp_all
    moreover have "\<not> n OR 1 < 128" using False unfolding o by simp
    ultimately show ?thesis using False by (simp add: varint_big)
  qed
qed

lemma unat_or_1: "unat ((v :: 'w::len word) OR 1) = unat v OR 1"
  by (simp add: unsigned_or_eq)

lemma size_formula:
  assumes "h < 64"
  shows "unat (ucast ((word_of_nat h * 9 + 73) div 64 :: u32) :: u64) = h div 7 + 1"
    and "unat (ucast ((word_of_nat h * 9 + 73 + 64) div 64 :: u32) :: u64) = h div 7 + 2"
proof -
  have u: "unat (word_of_nat h * 9 + 73 :: u32) = h * 9 + 73" "unat (word_of_nat h * 9 + 73 + 64 :: u32) = h * 9 + 137"
    using assms unat_of_nat_u32 [of h] by (simp_all add: unat_word_ariths)
  define a b where "a = h div 7" and "b = h mod 7"
  have q: "a \<le> 9" "b \<le> 6" "h = 7 * a + b" using assms by (auto simp: a_def b_def less_mult_imp_div_less)
  have d: "(h * 9 + 73) div 64 = h div 7 + 1" "(h * 9 + 137) div 64 = h div 7 + 2"
    unfolding a_def [symmetric] using q by (intro div_nat_eqI; simp)+
  show "unat (ucast ((word_of_nat h * 9 + 73) div 64 :: u32) :: u64) = h div 7 + 1"
    unfolding unat_ucast_32_64 unat_div_distrib u using d by simp
  show "unat (ucast ((word_of_nat h * 9 + 73 + 64) div 64 :: u32) :: u64) = h div 7 + 2"
    unfolding unat_ucast_32_64 unat_div_distrib u using d by simp
qed

lemma or_1_nonzero: "(v :: 'w::len word) OR 1 \<noteq> 0"
proof -
  have "unat (v OR 1) = unat v + of_bool (even (unat v))" unfolding unat_or_1 by (rule or_one_eq)
  then have "unat (v OR 1) \<noteq> 0" by (cases "unat v") auto
  then show ?thesis by (metis unat_0)
qed

lemma VarintSize_correct:
  "unat (VarintSize32 a) = length (varint (unat a))"
  "unat (VarintSize64 b) = length (varint (unat b))"
  "unat (VarintSize64PlusOne b) = length (varint (unat b)) + 1"
proof -
  obtain h where h: "31 XOR builtin_clz (a OR 1) = word_of_nat h" "h < 32" "2 ^ h \<le> unat (a OR 1)" "unat (a OR 1) < 2 ^ Suc h"
    using Log2Floor [of "a OR 1" 5] or_1_nonzero [of a] by (auto simp: mask_eq_exp_minus_1)
  then show "unat (VarintSize32 a) = length (varint (unat a))"
    using length_varint_log [OF h(3,4)] size_formula(1) [of h]
    by (simp add: VarintSize32_def Log2FloorNonZero_def unat_or_1 length_varint_or_1 del: One_nat_def)
  obtain k where k: "63 XOR builtin_clz (b OR 1) = word_of_nat k" "k < 64" "2 ^ k \<le> unat (b OR 1)" "unat (b OR 1) < 2 ^ Suc k"
    using Log2Floor [of "b OR 1" 6] or_1_nonzero [of b] by (auto simp: mask_eq_exp_minus_1)
  have l: "k div 7 + 1 = length (varint (unat b))"
    using length_varint_log [OF k(3,4)] by (simp add: unat_or_1 length_varint_or_1 del: One_nat_def)
  show "unat (VarintSize64 b) = length (varint (unat b))"
    using size_formula(1) [of k] k(1,2) l by (simp add: VarintSize64_def Log2FloorNonZero64_def)
  show "unat (VarintSize64PlusOne b) = length (varint (unat b)) + 1"
    using size_formula(2) [of k] k(1,2) l by (simp add: VarintSize64PlusOne_def Log2FloorNonZero64_def)
qed

section \<open>Fields\<close>

text \<open>A field on the wire: the tag, then an integer, or the length and the bytes of a string.\<close>

definition varint_field :: "u32 \<Rightarrow> u64 \<Rightarrow> bytes" where
  "varint_field num v = varint (unat (MakeTag num WIRETYPE_VARINT)) @ varint (unat v)"

definition bytes_field :: "u32 \<Rightarrow> bytes \<Rightarrow> bytes" where
  "bytes_field num s = varint (unat (MakeTag num WIRETYPE_LENGTH_DELIMITED)) @ varint (length s) @ s"

text \<open>\<open>WriteStringMaybeAliasedOutline\<close> over an array with enough room writes the field.\<close>

definition outline_law :: "'l out_lib_scheme \<Rightarrow> bool" where
  "outline_law L \<longleftrightarrow> (\<forall>num s st m ptr. eo_end st = length m \<and> \<not> eo_aliasing_enabled st \<and> length s < 4294967296 \<and>
     ptr + length (bytes_field num s) \<le> length m \<longrightarrow>
     ol_WriteStringMaybeAliasedOutline L num s (st, m, ptr)
       = Some (st, overwrite m ptr (bytes_field num s), ptr + length (bytes_field num s)))"

lemma UnsafeVarint_twice:
  assumes "ptr + (length (varint (unat a)) + length (varint (unat b))) \<le> length m"
  shows "(do { (m, ptr) \<leftarrow> UnsafeVarint a m ptr; UnsafeVarint b m ptr })
     = Some (overwrite m ptr (varint (unat a) @ varint (unat b)), ptr + (length (varint (unat a)) + length (varint (unat b))))"
  using assms by (simp add: UnsafeVarint_writes overwrite_overwrite add.assoc)

lemma WriteInt_writes:
  "ptr + length (varint_field num (scast v)) \<le> length m \<Longrightarrow>
     WriteInt32ToArray num v m ptr = Some (overwrite m ptr (varint_field num (scast v)), ptr + length (varint_field num (scast v)))"
  "ptr + length (varint_field num w) \<le> length m \<Longrightarrow>
     WriteInt64ToArray num w m ptr = Some (overwrite m ptr (varint_field num w), ptr + length (varint_field num w))"
  using UnsafeVarint_twice [of ptr "MakeTag num WIRETYPE_VARINT"]
  by (simp_all add: WriteInt32ToArray_def WriteInt64ToArray_def WriteTagToArray_def varint_field_def)

lemma WriteBytes_writes:
  assumes "outline_law L" "eo_end st = length m" "\<not> eo_aliasing_enabled st" "length s < 4294967296"
    and fit: "ptr + length (bytes_field num s) \<le> length m"
  shows "WriteBytesMaybeAliased L num s (st, m, ptr)
     = Some (st, overwrite m ptr (bytes_field num s), ptr + length (bytes_field num s))"
proof (cases "128 \<le> int (length s) \<or> int (eo_end st) - int ptr + 16 - EpsCopy_TagSize (push_bit 3 num) - 1 < int (length s)")
  case True
  then show ?thesis using assms
    by (simp add: WriteBytesMaybeAliased_def WriteStringMaybeAliased_def outline_law_def Let_def)
next
  case False
  let ?t = "varint (unat (push_bit 3 num OR 2))" and ?n = "[word_of_nat (length s)] :: bytes"
  have f: "bytes_field num s = ?t @ ?n @ s"
    using False by (simp add: bytes_field_def MakeTag_def kTagTypeBits_def WIRETYPE_LENGTH_DELIMITED_def varint_small)
  have w1: "UnsafeVarint (push_bit 3 num OR 2) m ptr = Some (overwrite m ptr ?t, ptr + length ?t)"
    using fit f by (intro UnsafeVarint_writes) simp
  have w2: "mem_write (overwrite m ptr ?t) (ptr + length ?t) ?n = Some (overwrite m ptr (?t @ ?n))"
    using fit f by (subst mem_write_overwrite) (auto simp: overwrite_overwrite)
  have w3: "mem_write (overwrite m ptr (?t @ ?n)) (ptr + length ?t + 1) s = Some (overwrite m ptr ((?t @ ?n) @ s))"
    using fit f overwrite_overwrite [of ptr "?t @ ?n" m s] by (subst mem_write_overwrite) (auto simp: add.assoc)
  show ?thesis using False w1 w2 w3 unfolding f
    by (simp add: WriteBytesMaybeAliased_def WriteStringMaybeAliased_def Let_def add.assoc)
qed

text \<open>An outline built from the functions of the header, with the law.\<close>

definition outline_flat :: "'l out_lib_scheme \<Rightarrow> u32 \<Rightarrow> bytes \<Rightarrow> out \<Rightarrow> out option" where
  "outline_flat L num s o0 = do {
     (st, m, ptr) \<leftarrow> EnsureSpace L o0;
     (m, ptr) \<leftarrow> WriteLengthDelim num (word_of_nat (length s)) m ptr;
     WriteRawMaybeAliased L s (st, m, ptr)
   }"

definition no_out_lib :: out_lib where
  "no_out_lib = \<lparr>ol_EnsureSpaceFallback = (\<lambda>_. None), ol_WriteRawFallback = (\<lambda>_ _. None),
     ol_WriteAliasedRaw = (\<lambda>_ _. None), ol_WriteStringMaybeAliasedOutline = (\<lambda>_ _ _. None)\<rparr>"

definition flat_out_lib :: out_lib where
  "flat_out_lib = no_out_lib\<lparr>ol_WriteStringMaybeAliasedOutline := outline_flat no_out_lib\<rparr>"

lemma flat_outline_law: "outline_law flat_out_lib"
  unfolding outline_law_def
proof (intro allI impI, elim conjE)
  fix num s and st :: eos and m :: bytes and ptr :: nat
  assume a: "eo_end st = length m" "\<not> eo_aliasing_enabled st" "length s < 4294967296"
    "ptr + length (bytes_field num s) \<le> length m"
  let ?t = "varint (unat (push_bit 3 num OR 2))" and ?n = "varint (length s)"
  have f: "bytes_field num s = ?t @ ?n @ s"
    by (simp add: bytes_field_def MakeTag_def kTagTypeBits_def WIRETYPE_LENGTH_DELIMITED_def)
  have "ptr < length m" using a(4) varint_nonempty(2) [of "unat (push_bit 3 num OR 2)"] unfolding f length_append by linarith
  then have e: "EnsureSpace no_out_lib (st, m, ptr) = Some (st, m, ptr)" using a by (simp add: EnsureSpace_def)
  have w1: "UnsafeVarint (push_bit 3 num OR 2) m ptr = Some (overwrite m ptr ?t, ptr + length ?t)"
    using a f by (intro UnsafeVarint_writes) simp
  have w2: "UnsafeWriteSize (word_of_nat (length s)) (overwrite m ptr ?t) (ptr + length ?t)
      = Some (overwrite m ptr (?t @ ?n), ptr + (length ?t + length ?n))"
    using a f by (subst UnsafeWriteSize_writes) (auto simp: unat_of_nat_u32 overwrite_overwrite)
  have w3: "mem_write (overwrite m ptr (?t @ ?n)) (ptr + (length ?t + length ?n)) s = Some (overwrite m ptr (?t @ ?n @ s))"
    using a f overwrite_overwrite [of ptr "?t @ ?n" m s] by (subst mem_write_overwrite) auto
  show "ol_WriteStringMaybeAliasedOutline flat_out_lib num s (st, m, ptr)
      = Some (st, overwrite m ptr (bytes_field num s), ptr + length (bytes_field num s))"
    using a e w1 w2 w3 f
    by (simp add: flat_out_lib_def outline_flat_def WriteLengthDelim_def EpsCopy_WriteTag_def
        WriteRawMaybeAliased_def EpsCopy_WriteRaw_def add.assoc)
qed

section \<open>Properties\<close>

text \<open>
  C20: the sizes computed from the position of the highest bit (\<open>VarintSize32\<close>,
  \<open>VarintSize64\<close>) are exact: an integer written byte by byte into an array of that many bytes
  fills the array, with the base-128 encoding of the integer.
\<close>

theorem VarintSize_exact:
  assumes "length m = unat (VarintSize64 v)" "length m' = unat (VarintSize32 w)"
  shows "UnsafeVarint v m 0 = Some (varint (unat v), length m) \<and>
     UnsafeWriteSize w m' 0 = Some (varint (unat w), length m') \<and>
     UnsafeVarint w m' 0 = Some (varint (unat w), length m')"
  using assms UnsafeVarint_writes [of 0 v m] UnsafeVarint_writes [of 0 w m'] UnsafeWriteSize_writes [of 0 w m']
  by (simp add: VarintSize_correct overwrite_all)

theorem VarintSize_exact_witness:
  "UnsafeVarint (300 :: u64) [0, 0] 0 = Some ([172, 2], 2) \<and> UnsafeWriteSize 127 [9] 0 = Some ([127], 1)"
proof -
  have v: "varint (unat (300 :: u64)) = [172, 2]" "varint (unat (127 :: u32)) = [127]"
    by (simp_all add: varint_big varint_small)
  then have "length [0 :: u8, 0] = unat (VarintSize64 300)" "length [9 :: u8] = unat (VarintSize32 127)"
    by (simp_all add: VarintSize_correct)
  from VarintSize_exact [OF this] show ?thesis using v by simp
qed

end
