(* ===== verification/Parse_Context.thy ===== *)
theory Parse_Context
  imports Wire_Format
begin

text \<open>
  Parsing of protocol buffers as far as the generated messages of \<open>src/proto\<close> use it, from
  \<open>parse_context.h\<close> in \<open>src/3rd/protobuf\<close>: the input stream over a flat array, tags and integers,
  and the loop that every generated \<open>_InternalParse\<close> runs. The stream may be read up to
  \<open>kSlopBytes\<close> bytes behind \<open>buffer_end_\<close> without a check; a short input is copied to a buffer
  with that much room, and a long one is switched to such a buffer for its last bytes.
  The functions compiled into the library are fields of the record \<open>pb_lib\<close>; what is used of
  them is the predicate \<open>pb_lib_law\<close>.

  Shown: the parser of long integers inverts the encoding; after a successful check for the end a
  tag and an integer can be read in bounds; the loop returns on every input, if the code for the
  fields stays in bounds and advances (the locale \<open>message_parser\<close>).
\<close>

section \<open>The model\<close>

definition kSlopBytes :: nat where "kSlopBytes = 16"

record eis =
  is_buf :: bytes
  is_limit_end :: nat
  is_buffer_end :: nat
  is_next_chunk :: bool
  is_limit :: int
  is_last_tag_minus_1 :: u32

text \<open>
  The compiled functions are total: what they read inside is not checked here. The checks of this
  development are those of the inline code of the header and of the generated code.
\<close>

record 'u pb_lib = out_lib +
  pl_DoneFallback :: "int \<Rightarrow> eis \<Rightarrow> nat option \<times> bool \<times> eis"
  pl_VarintParseSlow32 :: "bytes \<Rightarrow> nat \<Rightarrow> u32 \<Rightarrow> nat option \<times> u32"
  pl_VarintParseSlow64 :: "bytes \<Rightarrow> nat \<Rightarrow> u32 \<Rightarrow> nat option \<times> u64"
  pl_ReadSizeFallback :: "bytes \<Rightarrow> nat \<Rightarrow> u32 \<Rightarrow> nat option \<times> u32"
  pl_ReadStringFallback :: "nat \<Rightarrow> int \<Rightarrow> eis \<Rightarrow> bytes \<times> nat option \<times> eis"
  pl_ReadTagFallback :: "bytes \<Rightarrow> nat \<Rightarrow> u32 \<Rightarrow> nat option \<times> u32"
  pl_InlineGreedyStringParser :: "bytes \<Rightarrow> nat \<Rightarrow> eis \<Rightarrow> bytes \<times> nat option \<times> eis"
  pl_UnknownFieldParse :: "u32 \<Rightarrow> 'u \<Rightarrow> nat \<Rightarrow> eis \<Rightarrow> 'u \<times> nat option \<times> eis"
  pl_UnknownFieldSet_new :: 'u
  pl_UnknownFieldSet_Clear :: "'u \<Rightarrow> 'u"
  pl_UnknownFieldSet_MergeFrom :: "'u \<Rightarrow> 'u \<Rightarrow> 'u"
  pl_InternalSerializeUnknownFieldsToArray :: "'u \<Rightarrow> out \<Rightarrow> out option"
  pl_MaybeComputeUnknownFieldsSize :: "'u option \<Rightarrow> u64 \<Rightarrow> u64 \<times> u32"

definition EpsCopyInputStream_InitFrom :: "bytes \<Rightarrow> nat \<times> eis" where
  "EpsCopyInputStream_InitFrom flat =
     (if length flat > kSlopBytes
      then (0, \<lparr>is_buf = flat, is_limit_end = length flat - kSlopBytes, is_buffer_end = length flat - kSlopBytes,
                is_next_chunk = True, is_limit = int kSlopBytes, is_last_tag_minus_1 = 0\<rparr>)
      else (0, \<lparr>is_buf = flat @ replicate (2 * kSlopBytes - length flat) 0, is_limit_end = length flat,
                is_buffer_end = length flat, is_next_chunk = False, is_limit = 0, is_last_tag_minus_1 = 0\<rparr>))"

definition DoneWithCheck :: "('u, 'l) pb_lib_scheme \<Rightarrow> nat \<Rightarrow> eis \<Rightarrow> nat option \<times> bool \<times> eis" where
  "DoneWithCheck L ptr c =
     (if ptr < is_limit_end c then (Some ptr, False, c)
      else let overrun = int ptr - int (is_buffer_end c) in
        if overrun = is_limit c
        then (if overrun > 0 \<and> \<not> is_next_chunk c then None else Some ptr, True, c)
        else pl_DoneFallback L overrun c)"

definition EndedAtLimit :: "eis \<Rightarrow> bool" where
  "EndedAtLimit c \<longleftrightarrow> is_last_tag_minus_1 c = 0"

definition SetLastTag :: "u32 \<Rightarrow> eis \<Rightarrow> eis" where
  "SetLastTag tag c = c\<lparr>is_last_tag_minus_1 := tag - 1\<rparr>"

definition load_u8 :: "bytes \<Rightarrow> nat \<Rightarrow> u32 option" where
  "load_u8 m p = map_option (\<lambda>b. ucast (hd b)) (mem_read m p 1)"

definition ReadTag :: "('u, 'l) pb_lib_scheme \<Rightarrow> bytes \<Rightarrow> nat \<Rightarrow> (nat option \<times> u32) option" where
  "ReadTag L m p = do {
     res \<leftarrow> load_u8 m p;
     if res < 128 then Some (Some (p + 1), res)
     else do {
       second \<leftarrow> load_u8 m (p + 1);
       let res = res + push_bit 7 (second - 1) in
       if second < 128 then Some (Some (p + 2), res)
       else Some (pl_ReadTagFallback L m p res)
     }
   }"

definition VarintParse :: "(bytes \<Rightarrow> nat \<Rightarrow> u32 \<Rightarrow> nat option \<times> 'w::len word) \<Rightarrow> bytes \<Rightarrow> nat \<Rightarrow> (nat option \<times> 'w word) option" where
  "VarintParse VarintParseSlow m p = do {
     res \<leftarrow> load_u8 m p;
     if res AND 0x80 = 0 then Some (Some (p + 1), ucast res)
     else do {
       byte \<leftarrow> load_u8 m (p + 1);
       let res = res + push_bit 7 (byte - 1) in
       if byte AND 0x80 = 0 then Some (Some (p + 2), ucast res)
       else Some (VarintParseSlow m p res)
     }
   }"

definition ReadVarint32 :: "('u, 'l) pb_lib_scheme \<Rightarrow> bytes \<Rightarrow> nat \<Rightarrow> (nat option \<times> u32) option" where
  "ReadVarint32 L m p = VarintParse (pl_VarintParseSlow32 L) m p"

definition ReadVarint64 :: "('u, 'l) pb_lib_scheme \<Rightarrow> bytes \<Rightarrow> nat \<Rightarrow> (nat option \<times> u64) option" where
  "ReadVarint64 L m p = VarintParse (pl_VarintParseSlow64 L) m p"

text \<open>The parser for long integers: two bytes at a time.\<close>

definition DecodeTwoBytes :: "bytes \<Rightarrow> nat \<Rightarrow> (u32 \<times> nat) option" where
  "DecodeTwoBytes m ptr = do {
     b \<leftarrow> mem_read m ptr 2;
     let v = ucast (bytes_u16 b) :: u32;
         x = scast (ucast v :: u8) :: u32;
         v' = (v AND x) + x
     in Some (v', ptr + (if v' < x then 2 else 1))
   }"

text \<open>The loop of \<open>ParseBigVarint\<close> from the round \<open>i\<close> on, of \<open>n\<close> rounds.\<close>

fun ParseBigVarint_loop :: "nat \<Rightarrow> nat \<Rightarrow> bytes \<Rightarrow> nat \<Rightarrow> u64 \<Rightarrow> (nat option \<times> u64) option" where
  "ParseBigVarint_loop 0 i m p res = Some (None, res)"
| "ParseBigVarint_loop (Suc n) i m p res = do {
     (tmp, pnew) \<leftarrow> DecodeTwoBytes m (p + 2 * i);
     let res = res + push_bit (14 * i - 1) (ucast tmp - 2) in
     if 0 \<le> sint (ucast tmp :: u16) then Some (Some pnew, res)
     else ParseBigVarint_loop n (i + 1) m p res
   }"

definition ParseBigVarint :: "bytes \<Rightarrow> nat \<Rightarrow> (nat option \<times> u64) option" where
  "ParseBigVarint m p = do {
     (tmp, pnew) \<leftarrow> DecodeTwoBytes m p;
     let res = ucast (drop_bit 1 tmp) :: u64 in
     if 0 \<le> sint (ucast tmp :: u16) then Some (Some pnew, res)
     else ParseBigVarint_loop 4 1 m p res
   }"

definition ReadSize :: "('u, 'l) pb_lib_scheme \<Rightarrow> bytes \<Rightarrow> nat \<Rightarrow> (nat option \<times> u32) option" where
  "ReadSize L m p = do {
     res \<leftarrow> load_u8 m p;
     if res < 128 then Some (Some (p + 1), res) else Some (pl_ReadSizeFallback L m p res)
   }"

definition ReadString :: "('u, 'l) pb_lib_scheme \<Rightarrow> nat \<Rightarrow> int \<Rightarrow> eis \<Rightarrow> (bytes \<times> nat option \<times> eis) option" where
  "ReadString L ptr len c =
     (if len \<le> int (is_buffer_end c + kSlopBytes) - int ptr
      then do { s \<leftarrow> mem_read (is_buf c) ptr (nat len); Some (s, Some (ptr + nat len), c) }
      else Some (pl_ReadStringFallback L ptr len c))"

text \<open>The base of a message, and the parse loop of a generated message.\<close>

record 'u message =
  msg_unknown :: "'u option"

datatype 'm pstep = Continue 'm nat eis | Return 'm "nat option" eis

definition handle_unusual ::
    "('u, 'l) pb_lib_scheme \<Rightarrow> ('u, 'a) message_scheme \<Rightarrow> u32 \<Rightarrow> nat option \<Rightarrow> eis \<Rightarrow> ('u, 'a) message_scheme pstep option" where
  "handle_unusual L msg tag ptr c =
     (if tag = 0 \<or> tag AND 7 = 4
      then Some (case ptr of None \<Rightarrow> Return msg None c | Some p \<Rightarrow> Return msg (Some p) (SetLastTag tag c))
      else do {
        p \<leftarrow> ptr;
        let u = (case msg_unknown msg of Some u \<Rightarrow> u | None \<Rightarrow> pl_UnknownFieldSet_new L) in
        case pl_UnknownFieldParse L tag u p c of
          (u', None, c') \<Rightarrow> Some (Return (msg\<lparr>msg_unknown := Some u'\<rparr>) None c')
        | (u', Some q, c') \<Rightarrow> Some (Continue (msg\<lparr>msg_unknown := Some u'\<rparr>) q c')
      })"

partial_function (option) parse_loop ::
    "('u, 'l) pb_lib_scheme \<Rightarrow> ('m \<Rightarrow> u32 \<Rightarrow> nat option \<Rightarrow> eis \<Rightarrow> 'm pstep option) \<Rightarrow> 'm \<Rightarrow> nat \<Rightarrow> eis
      \<Rightarrow> ('m \<times> nat option \<times> eis) option" where
  "parse_loop L field msg ptr c =
     (case DoneWithCheck L ptr c of (p, d, c1) \<Rightarrow>
        if d then Some (msg, p, c1)
        else do {
          p0 \<leftarrow> p;
          (q, tag) \<leftarrow> ReadTag L (is_buf c1) p0;
          r \<leftarrow> field msg tag q c1;
          (case r of
             Return msg' p' c' \<Rightarrow> Some (msg', p', c')
           | Continue msg' p' c' \<Rightarrow> parse_loop L field msg' p' c')
        })"

section \<open>Long integers\<close>

lemma eq_word_of_nat: "unat w = n \<Longrightarrow> w = word_of_nat n"
  by auto

lemma odd_div_iff: "n < 2 * k \<Longrightarrow> odd (n div k) \<longleftrightarrow> k \<le> n" for n k :: nat
  using div_nat_eqI [of k 1 n] by (cases "n < k") auto

lemma unat_u8_bound [simp]: "unat (x :: u8) < 256"
  using unsigned_less [of x, where ?'a = nat] by simp

lemma bit_7_u8: "bit x 7 \<longleftrightarrow> 128 \<le> unat x" for x :: u8
proof -
  have "bit x 7 \<longleftrightarrow> bit (unat x) 7" by (simp add: bit_unsigned_iff)
  then show ?thesis using odd_div_iff [of "unat x" 128] unat_u8_bound [of x] by (simp add: bit_iff_odd)
qed

lemma sint_nonneg_u16: "0 \<le> sint (w :: u16) \<longleftrightarrow> unat w < 32768"
proof -
  have "0 \<le> sint w \<longleftrightarrow> \<not> bit (uint w) 15" by (simp add: sint_uint signed_take_bit_nonnegative_iff)
  also have "bit (uint w) 15 \<longleftrightarrow> bit (unat w) 15" by (simp add: bit_unsigned_iff)
  also have "\<dots> \<longleftrightarrow> 32768 \<le> unat w" using odd_div_iff [of "unat w" 32768] unat_u16_bound [of w] by (simp add: bit_iff_odd)
  finally show ?thesis by auto
qed

lemma unat_ucast_u16_u32: "unat (ucast (x :: u16) :: u32) = unat x"
proof -
  have "unat x < 4294967296" using unat_u16_bound [of x] by linarith
  then show ?thesis by (simp add: unsigned_ucast_eq take_bit_eq_mod)
qed

lemma sint_u8: "sint (b :: u8) = (if unat b < 128 then int (unat b) else int (unat b) - 256)"
proof -
  define u where "u = unat b"
  have u: "u < 256" by (simp add: u_def)
  have "sint (word_of_int (uint b) :: u8) = (uint b + 128) mod 256 - 128" by (subst int_word_sint) simp
  then have "sint b = (int u + 128) mod 256 - 128" by (simp add: u_def)
  moreover have "(int u + 128) mod 256 = (if u < 128 then int u + 128 else int u - 128)"
    using u minus_mod_self2 [of "int u + 128" 256] by (cases "u < 128") simp_all
  ultimately show ?thesis unfolding u_def [symmetric] by (cases "u < 128") simp_all
qed

lemma unat_scast_8_32: "unat (scast (b :: u8) :: u32) = (if unat b < 128 then unat b else unat b + 4294967040)"
proof -
  define u where "u = unat b"
  have u: "u < 256" by (simp add: u_def)
  have "uint (word_of_int (sint b) :: u32) = sint b mod 4294967296" by (subst uint_word_of_int) simp
  then have "uint (scast b :: u32) = sint b mod 4294967296" unfolding scast_eq .
  then have "unat (scast b :: u32) = nat (sint b mod 4294967296)" by (simp only: unat_eq_nat_uint)
  moreover have "(int u - 256) mod 4294967296 = int u + 4294967040"
    using u mod_add_self2 [of "int u - 256" 4294967296] by simp
  ultimately show ?thesis using u unfolding sint_u8 u_def [symmetric] by (cases "u < 128") simp_all
qed

lemma DecodeTwoBytes_eq:
  assumes "mem_read m p 2 = Some [b0, b1]"
  shows "DecodeTwoBytes m p = Some (if unat b0 < 128 then (word_of_nat (2 * unat b0), p + 1)
     else (word_of_nat (2 * (unat b0 - 128) + 256 * unat b1), p + 2))"
proof -
  let ?v = "ucast (bytes_u16 [b0, b1]) :: u32" and ?x = "scast b0 :: u32"
  have "unat b0 + 256 * unat b1 < 65536" using unat_u8_bound [of b0] unat_u8_bound [of b1] by linarith
  then have "unat (bytes_u16 [b0, b1]) = unat b0 + 256 * unat b1"
    unfolding bytes_u16_def by (simp add: unat_of_nat take_bit_eq_mod del: of_nat_add)
  then have v: "unat ?v = unat b0 + 256 * unat b1" by (simp only: unat_ucast_u16_u32)
  have "unat (ucast ?v :: u8) = unat b0" unfolding unsigned_ucast_eq [of ?v] v by (simp add: take_bit_eq_mod)
  then have b: "(ucast ?v :: u8) = b0" by (rule unsigned_word_eqI)
  have "bit (ucast ?v :: u8) i \<longleftrightarrow> bit ?v i" if "i < 8" for i using that by (simp add: bit_simps)
  then have bits: "bit b0 i \<longleftrightarrow> bit ?v i" if "i < 8" for i using that unfolding b by blast
  have x: "unat ?x = (if unat b0 < 128 then unat b0 else unat b0 + 4294967040)" by (rule unat_scast_8_32)
  have d: "DecodeTwoBytes m p = Some ((?v AND ?x) + ?x, p + (if (?v AND ?x) + ?x < ?x then 2 else 1))"
    using assms b by (simp add: DecodeTwoBytes_def Let_def)
  show ?thesis
  proof (cases "unat b0 < 128")
    case True
    then have "?v AND ?x = ?x"
      using bit_7_u8 [of b0] bits by (intro bit_word_eqI) (auto simp: bit_simps min_def split: if_splits)
    moreover have s: "unat (?x + ?x) = 2 * unat b0" using x True by (simp add: unat_word_ariths)
    moreover have "?x + ?x = word_of_nat (2 * unat b0)" using s by (rule eq_word_of_nat)
    ultimately show ?thesis using True d x by (simp add: word_less_nat_alt)
  next
    case False
    then have "?v AND ?x = ?v"
      using bit_7_u8 [of b0] bits by (intro bit_word_eqI) (auto simp: bit_simps min_def not_less split: if_splits)
    moreover have "unat ?v + unat ?x = 2 * (unat b0 - 128) + 256 * unat b1 + 4294967296" using x v False by simp
    then have "unat (?v + ?x) = (2 * (unat b0 - 128) + 256 * unat b1 + 4294967296) mod 2 ^ LENGTH(32)"
      by (simp only: unat_word_ariths)
    then have s: "unat (?v + ?x) = 2 * (unat b0 - 128) + 256 * unat b1"
      using unat_u8_bound [of b0] unat_u8_bound [of b1] by simp
    have "?v + ?x = word_of_nat (2 * (unat b0 - 128) + 256 * unat b1)" using s by (rule eq_word_of_nat)
    moreover have "2 * (unat b0 - 128) + 256 * unat b1 < unat b0 + 4294967040"
      using unat_u8_bound [of b0] unat_u8_bound [of b1] by linarith
    ultimately show ?thesis using False d x s by (simp add: word_less_nat_alt)
  qed
qed

text \<open>The bytes of an encoded number in memory.\<close>

definition holds :: "bytes \<Rightarrow> nat \<Rightarrow> bytes \<Rightarrow> bool" where
  "holds m p xs \<longleftrightarrow> p + length xs \<le> length m \<and> take (length xs) (drop p m) = xs"

lemma holds_Cons: "holds m p (x # xs) \<longleftrightarrow> p < length m \<and> m ! p = x \<and> holds m (p + 1) xs"
  by (cases "p < length m") (auto simp: holds_def Cons_nth_drop_Suc [symmetric] take_Suc_Cons)

lemma holds_append: "holds m p (xs @ ys) \<longleftrightarrow> holds m p xs \<and> holds m (p + length xs) ys"
  by (induction xs arbitrary: p) (auto simp: holds_Cons, auto simp: holds_def)

lemma mem_read_2: "p + 2 \<le> length m \<Longrightarrow> mem_read m p 2 = Some [m ! p, m ! (p + 1)]"
  by (simp add: mem_read_def numeral_2_eq_2 take_Suc_conv_app_nth)

lemma DecodeTwoBytes_varint:
  assumes "holds m p (varint k)" "p + 2 \<le> length m"
  shows "DecodeTwoBytes m p = Some (if k < 16384 then (word_of_nat (2 * k), p + length (varint k))
     else (word_of_nat (2 * (k mod 16384) + 32768), p + 2))"
proof -
  note d = DecodeTwoBytes_eq [OF mem_read_2 [OF assms(2)]]
  consider "k < 128" | "128 \<le> k" "k < 16384" | "16384 \<le> k" by linarith
  then show ?thesis
  proof cases
    case 1
    then have "m ! p = word_of_nat k" using assms(1) by (simp add: varint_small holds_Cons)
    then have "unat (m ! p) = k" using 1 by (simp add: unat_of_nat take_bit_eq_mod)
    then show ?thesis using 1 d by (simp add: varint_small)
  next
    case 2
    then have k: "varint k = [word_of_nat (k mod 128 + 128), word_of_nat (k div 128)]" by (simp add: varint_big varint_small)
    then have "m ! p = word_of_nat (k mod 128 + 128)" "m ! (p + 1) = word_of_nat (k div 128)"
      using assms(1) by (simp_all add: holds_Cons)
    moreover have "unat (word_of_nat (k mod 128 + 128) :: u8) = k mod 128 + 128" "unat (word_of_nat (k div 128) :: u8) = k div 128"
      using 2 by (simp_all add: unat_of_nat take_bit_eq_mod del: of_nat_add)
    moreover have "2 * (k mod 128) + 256 * (k div 128) = 2 * k" using mult_div_mod_eq [of 128 k] by linarith
    ultimately show ?thesis using 2 d k by (simp del: of_nat_add of_nat_mult)
  next
    case 3
    let ?j = "k div 128 mod 128 + 128"
    have "varint k = word_of_nat (k mod 128 + 128) # word_of_nat ?j # varint (k div 128 div 128)"
      using 3 by (simp add: varint_big)
    then have "m ! p = word_of_nat (k mod 128 + 128)" "m ! (p + 1) = word_of_nat ?j"
      using assms(1) by (simp_all add: holds_Cons)
    moreover have "unat (word_of_nat (k mod 128 + 128) :: u8) = k mod 128 + 128" "unat (word_of_nat ?j :: u8) = ?j"
      by (simp_all add: unat_of_nat take_bit_eq_mod del: of_nat_add)
    moreover have "k mod 16384 = k mod 128 + 128 * (k div 128 mod 128)"
      using mod_mult2_eq [of k 128 128] by simp
    ultimately show ?thesis using 3 d by (simp add: algebra_simps del: of_nat_add of_nat_mult)
  qed
qed

lemma holds_varint_tail: "holds m p (varint k) \<Longrightarrow> 16384 \<le> k \<Longrightarrow> holds m (p + 2) (varint (k div 16384))"
  by (simp add: varint_big holds_Cons div_mult2_eq [symmetric] numeral_2_eq_2)

lemma length_varint_16384: "16384 \<le> k \<Longrightarrow> length (varint k) = 2 + length (varint (k div 16384))"
  by (simp add: varint_big div_mult2_eq [symmetric])

lemma ParseBigVarint_loop_reads:
  assumes "n + i = 5" "0 < i" "2 ^ (14 * i) \<le> N" "N < 18446744073709551616" "res = word_of_nat (N mod 2 ^ (14 * i) + 2 ^ (14 * i))"
    and "holds m (p + 2 * i) (varint (N div 2 ^ (14 * i)))" "p + 10 \<le> length m"
  shows "ParseBigVarint_loop n i m p res = Some (Some (p + 2 * i + length (varint (N div 2 ^ (14 * i)))), word_of_nat N)"
  using assms
proof (induction n arbitrary: i res)
  case 0
  then show ?case by simp
next
  case (Suc n)
  let ?P = "2 ^ (14 * i) :: nat" and ?k = "N div 2 ^ (14 * i)"
  have e: "push_bit (14 * i - 1) (word_of_nat (2 * x) - 2) = (word_of_nat (x * ?P) - word_of_nat ?P :: u64)" for x
  proof -
    have "(2::u64) ^ (14 * i) = 2 * 2 ^ (14 * i - 1)" using Suc.prems(2) by (cases i) (simp_all add: power_Suc [symmetric] del: power_Suc)
    then show ?thesis by (simp add: push_bit_eq_mult algebra_simps)
  qed
  have r: "p + 2 * i + 2 \<le> length m" using Suc.prems by simp
  note d = DecodeTwoBytes_varint [OF Suc.prems(6) r]
  have N: "N = N mod ?P + ?k * ?P" by (rule mod_div_mult_eq [symmetric])
  show ?case
  proof (cases "?k < 16384")
    case True
    have "(ucast (word_of_nat (2 * ?k) :: u32) :: u64) = word_of_nat (2 * ?k)" using True by (intro ucast_of_nat_u32) simp
    moreover have "unat (ucast (word_of_nat (2 * ?k) :: u32) :: u16) = 2 * ?k"
      using True by (simp add: unsigned_ucast_eq unat_of_nat take_bit_eq_mod del: of_nat_mult)
    moreover have "res + (word_of_nat (?k * ?P) - word_of_nat ?P) = word_of_nat (N mod ?P + ?k * ?P)"
      using Suc.prems(5) by simp
    ultimately show ?thesis using True d e [of ?k] N by (simp add: sint_nonneg_u16 Let_def del: of_nat_mult of_nat_add of_nat_power)
  next
    case False
    let ?r = "?k mod 16384 + 16384"
    have u: "(ucast (word_of_nat (2 * ?r) :: u32) :: u64) = word_of_nat (2 * ?r)" by (intro ucast_of_nat_u32) simp
    have s: "unat (ucast (word_of_nat (2 * ?r) :: u32) :: u16) = 2 * ?r"
      by (simp add: unsigned_ucast_eq unat_of_nat take_bit_eq_mod del: of_nat_mult of_nat_add)
    have big: "2 ^ (14 * (i + 1)) \<le> N" using False by (simp add: power_add not_less less_eq_div_iff_mult_less_eq mult.commute)
    have P': "2 ^ (14 * (i + 1)) = 16384 * ?P" by (simp add: power_add)
    have res': "res + (word_of_nat (?r * ?P) - word_of_nat ?P) = word_of_nat (N mod 2 ^ (14 * (i + 1)) + 2 ^ (14 * (i + 1)))"
      unfolding P' mod_mult2_eq [of N ?P 16384] mult.commute [of 16384 ?P] using Suc.prems(5) by (simp add: algebra_simps)
    have h: "holds m (p + 2 * (i + 1)) (varint (N div 2 ^ (14 * (i + 1))))"
      using holds_varint_tail [OF Suc.prems(6)] False unfolding P' by (simp add: div_mult2_eq [symmetric] mult.commute)
    have l: "length (varint ?k) = 2 + length (varint (N div 2 ^ (14 * (i + 1))))"
      using length_varint_16384 [of ?k] False unfolding P' by (simp add: div_mult2_eq [symmetric] mult.commute)
    have n: "n + (i + 1) = 5" "0 < i + 1" using Suc.prems(1) by simp_all
    note ih = Suc.IH [OF n big Suc.prems(4) refl h Suc.prems(7)]
    show ?thesis using ih using False d u s e [of ?r] res' l
      by (simp add: sint_nonneg_u16 Let_def del: of_nat_mult of_nat_add of_nat_power)
  qed
qed

lemma ParseBigVarint_reads:
  assumes "holds m p (varint N)" "N < 18446744073709551616" "p + 10 \<le> length m"
  shows "ParseBigVarint m p = Some (Some (p + length (varint N)), word_of_nat N)"
proof -
  have r: "p + 2 \<le> length m" using assms(3) by simp
  note d = DecodeTwoBytes_varint [OF assms(1) r]
  have sh: "(ucast (drop_bit 1 (word_of_nat (2 * x) :: u32)) :: u64) = word_of_nat x" if "x < 32768" for x
  proof -
    have "unat (word_of_nat (2 * x) :: u32) = 2 * x" using that by (intro unat_of_nat_u32) simp
    then have "unat (drop_bit 1 (word_of_nat (2 * x) :: u32)) = x" unfolding unat_drop_bit_eq by (simp add: drop_bit_eq_div)
    then have "unat (ucast (drop_bit 1 (word_of_nat (2 * x) :: u32)) :: u64) = x" by (simp only: unat_ucast_32_64)
    then show ?thesis by (rule eq_word_of_nat)
  qed
  show ?thesis
  proof (cases "N < 16384")
    case True
    have "unat (ucast (word_of_nat (2 * N) :: u32) :: u16) = 2 * N"
      using True by (simp add: unsigned_ucast_eq unat_of_nat take_bit_eq_mod del: of_nat_mult)
    then show ?thesis using True d sh [of N] by (simp add: ParseBigVarint_def sint_nonneg_u16 Let_def del: of_nat_mult)
  next
    case False
    let ?r = "N mod 16384 + 16384"
    have s: "unat (ucast (word_of_nat (2 * ?r) :: u32) :: u16) = 2 * ?r"
      by (simp add: unsigned_ucast_eq unat_of_nat take_bit_eq_mod del: of_nat_mult of_nat_add)
    have b: "?r < 32768" using mod_less_divisor [of 16384 N] by linarith
    have e: "(2 :: nat) ^ (14 * 1) = 16384" by simp
    have h: "holds m (p + 2 * 1) (varint (N div 16384))" using holds_varint_tail [OF assms(1)] False by simp
    have n: "4 + 1 = (5 :: nat)" "0 < (1 :: nat)" "16384 \<le> N" using False by simp_all
    note l = ParseBigVarint_loop_reads [of 4 1 N "word_of_nat ?r" m p, unfolded e, OF n assms(2) refl h assms(3)]
    show ?thesis using l False d s sh [OF b] length_varint_16384 [of N]
      by (simp add: ParseBigVarint_def sint_nonneg_u16 Let_def del: of_nat_mult of_nat_add)
  qed
qed

text \<open>It stays within ten bytes, whatever they are.\<close>

lemma DecodeTwoBytes_safe: "p + 2 \<le> length m \<Longrightarrow> \<exists>tmp q. DecodeTwoBytes m p = Some (tmp, q) \<and> p < q \<and> q \<le> p + 2"
  using DecodeTwoBytes_eq [OF mem_read_2] by (cases "unat (m ! p) < 128") auto

lemma ParseBigVarint_loop_safe:
  "n + i = 5 \<Longrightarrow> p + 10 \<le> length m \<Longrightarrow> \<exists>q v. ParseBigVarint_loop n i m p res = Some (q, v) \<and> (\<forall>q'. q = Some q' \<longrightarrow> p < q' \<and> q' \<le> p + 10)"
proof (induction n arbitrary: i res)
  case (Suc n)
  obtain tmp q where d: "DecodeTwoBytes m (p + 2 * i) = Some (tmp, q)" "p + 2 * i < q" "q \<le> p + 2 * i + 2"
    using DecodeTwoBytes_safe [of "p + 2 * i" m] Suc.prems by auto
  then show ?case using Suc.IH [of "i + 1"] Suc.prems by (auto simp: Let_def)
qed simp

lemma ParseBigVarint_safe:
  "p + 10 \<le> length m \<Longrightarrow> \<exists>q v. ParseBigVarint m p = Some (q, v) \<and> (\<forall>q'. q = Some q' \<longrightarrow> p < q' \<and> q' \<le> p + 10)"
  using DecodeTwoBytes_safe [of p m] ParseBigVarint_loop_safe [of 4 1 p m]
  by (fastforce simp: ParseBigVarint_def Let_def)

section \<open>The stream\<close>

text \<open>
  The state of the stream over a flat array: at least \<open>kSlopBytes\<close> can be read behind
  \<open>buffer_end_\<close>; the input ends that far behind it if there is a next chunk (the patch buffer),
  and at \<open>buffer_end_\<close> otherwise. \<open>eis_at c p xs\<close> says that the bytes from \<open>p\<close> to the end of the input are \<open>xs\<close>.
\<close>

definition eis_wf :: "eis \<Rightarrow> bool" where
  "eis_wf c \<longleftrightarrow> is_buffer_end c + kSlopBytes \<le> length (is_buf c) \<and> is_limit_end c = is_buffer_end c \<and>
     is_limit c = (if is_next_chunk c then int kSlopBytes else 0)"

definition left :: "eis \<Rightarrow> nat \<Rightarrow> int" where
  "left c p = int (is_buffer_end c) + is_limit c - int p"

definition eis_at :: "eis \<Rightarrow> nat \<Rightarrow> bytes \<Rightarrow> bool" where
  "eis_at c p xs \<longleftrightarrow> eis_wf c \<and> holds (is_buf c) p xs \<and> left c p = int (length xs)"

definition done_law :: "('u, 'l) pb_lib_scheme \<Rightarrow> bool" where
  "done_law L \<longleftrightarrow> (\<forall>c p. eis_wf c \<and> is_buffer_end c \<le> p \<and> p \<le> is_buffer_end c + kSlopBytes \<longrightarrow>
     (left c p < 0 \<longrightarrow> (\<exists>c'. pl_DoneFallback L (int p - int (is_buffer_end c)) c = (None, True, c'))) \<and>
     (0 < left c p \<longrightarrow> (\<exists>q c'. pl_DoneFallback L (int p - int (is_buffer_end c)) c = (Some q, False, c') \<and>
        q < is_buffer_end c' \<and> is_last_tag_minus_1 c' = is_last_tag_minus_1 c \<and>
        (\<forall>xs. eis_at c p xs \<longrightarrow> eis_at c' q xs))))"

definition tag_law :: "('u, 'l) pb_lib_scheme \<Rightarrow> bool" where
  "tag_law L \<longleftrightarrow> (\<forall>m p res q tag. pl_ReadTagFallback L m p res = (q, tag) \<longrightarrow>
     (case q of None \<Rightarrow> tag = 0 | Some q' \<Rightarrow> p < q' \<and> q' \<le> p + 5))"

definition varint_law :: "('u, 'l) pb_lib_scheme \<Rightarrow> bool" where
  "varint_law L \<longleftrightarrow>
     (\<forall>m p res q. fst (pl_VarintParseSlow32 L m p res) = Some q \<longrightarrow> p < q \<and> q \<le> p + 10) \<and>
     (\<forall>m p res q. fst (pl_VarintParseSlow64 L m p res) = Some q \<longrightarrow> p < q \<and> q \<le> p + 10) \<and>
     (\<forall>m p n. holds m p (varint n) \<and> 16384 \<le> n \<and> n < 18446744073709551616 \<and> p + 10 \<le> length m \<longrightarrow>
        pl_VarintParseSlow32 L m p (word_of_nat (n mod 16384 + 16384)) = (Some (p + length (varint n)), word_of_nat n) \<and>
        pl_VarintParseSlow64 L m p (word_of_nat (n mod 16384 + 16384)) = (Some (p + length (varint n)), word_of_nat n))"

definition string_law :: "('u, 'l) pb_lib_scheme \<Rightarrow> bool" where
  "string_law L \<longleftrightarrow> (\<forall>s0 c p. eis_wf c \<and> p \<le> is_buffer_end c + 5 \<longrightarrow>
     (\<forall>s q c'. pl_InlineGreedyStringParser L s0 p c = (s, Some q, c') \<longrightarrow>
        eis_wf c' \<and> q \<le> is_buffer_end c' + kSlopBytes \<and> left c' q < left c p) \<and>
     (\<forall>s xs. eis_at c p (varint (length s) @ s @ xs) \<and> length s < 2147483632 \<longrightarrow>
        (\<exists>q c'. pl_InlineGreedyStringParser L s0 p c = (s, Some q, c') \<and> eis_at c' q xs \<and>
           is_last_tag_minus_1 c' = is_last_tag_minus_1 c)))"

definition unknown_law :: "('u, 'l) pb_lib_scheme \<Rightarrow> bool" where
  "unknown_law L \<longleftrightarrow> (\<forall>tag u c p u' q c'. eis_wf c \<and> p \<le> is_buffer_end c + 5 \<and>
     pl_UnknownFieldParse L tag u p c = (u', Some q, c') \<longrightarrow>
     eis_wf c' \<and> q \<le> is_buffer_end c' + kSlopBytes \<and> left c' q \<le> left c p)"

definition size_law :: "('u, 'l) pb_lib_scheme \<Rightarrow> bool" where
  "size_law L \<longleftrightarrow> (\<forall>n. pl_MaybeComputeUnknownFieldsSize L None n = (n, ucast n))"

definition pb_lib_law :: "('u, 'l) pb_lib_scheme \<Rightarrow> bool" where
  "pb_lib_law L \<longleftrightarrow> outline_law L \<and> done_law L \<and> tag_law L \<and> varint_law L \<and> string_law L \<and> unknown_law L \<and> size_law L"

lemma InitFrom_at:
  assumes "EpsCopyInputStream_InitFrom d = (p, c)"
  shows "eis_at c p d" "p = 0" "is_last_tag_minus_1 c = 0"
  using assms by (auto simp: EpsCopyInputStream_InitFrom_def eis_at_def eis_wf_def left_def holds_def kSlopBytes_def split: if_splits)

lemma eis_at_exists: "eis_wf c \<Longrightarrow> 0 \<le> left c p \<Longrightarrow> \<exists>xs. eis_at c p xs"
  by (rule exI [of _ "take (nat (left c p)) (drop p (is_buf c))"])
    (auto simp: eis_at_def eis_wf_def holds_def left_def kSlopBytes_def min_def)

lemma eis_at_append: "eis_at c p (xs @ ys) \<Longrightarrow> eis_at c (p + length xs) ys"
  by (auto simp: eis_at_def holds_append left_def)

lemma DoneWithCheck_end: "eis_at c p [] \<Longrightarrow> DoneWithCheck L p c = (Some p, True, c)"
  by (auto simp: eis_at_def eis_wf_def left_def DoneWithCheck_def Let_def split: if_splits)

lemma DoneWithCheck_more:
  assumes "done_law L" "eis_wf c" "p \<le> is_buffer_end c + kSlopBytes" "0 < left c p"
  shows "\<exists>q c'. DoneWithCheck L p c = (Some q, False, c') \<and> q < is_buffer_end c' \<and>
     is_last_tag_minus_1 c' = is_last_tag_minus_1 c \<and> (\<forall>xs. eis_at c p xs \<longrightarrow> eis_at c' q xs)"
proof (cases "p < is_buffer_end c")
  case True
  then show ?thesis using assms(2) by (simp add: DoneWithCheck_def eis_wf_def)
next
  case False
  then have "int p - int (is_buffer_end c) \<noteq> is_limit c" "\<not> p < is_limit_end c"
    using assms(2,4) by (auto simp: left_def eis_wf_def)
  then show ?thesis using assms False unfolding done_law_def DoneWithCheck_def Let_def by auto
qed

lemma DoneWithCheck_past:
  assumes "done_law L" "eis_wf c" "p \<le> is_buffer_end c + kSlopBytes" "left c p < 0"
  shows "\<exists>c'. DoneWithCheck L p c = (None, True, c')"
proof -
  have "int p - int (is_buffer_end c) \<noteq> is_limit c" "\<not> p < is_limit_end c" "is_buffer_end c \<le> p"
    using assms(2,4) by (auto simp: left_def eis_wf_def split: if_splits)
  then show ?thesis using assms unfolding done_law_def DoneWithCheck_def Let_def by auto
qed

text \<open>Past the check there is room for a tag and an integer.\<close>

lemma DoneWithCheck_cases:
  assumes "done_law L" "eis_wf c" "p \<le> is_buffer_end c + kSlopBytes"
  shows "(\<exists>q c'. DoneWithCheck L p c = (q, True, c')) \<or>
     (\<exists>q c'. DoneWithCheck L p c = (Some q, False, c') \<and> eis_wf c' \<and> q < is_buffer_end c' \<and> left c' q = left c p)"
proof -
  consider "left c p < 0" | "left c p = 0" | "0 < left c p" by linarith
  then show ?thesis
  proof cases
    case 1
    then show ?thesis using DoneWithCheck_past [OF assms] by blast
  next
    case 2
    then have "eis_at c p []" using assms(2,3) by (auto simp: eis_at_def eis_wf_def holds_def)
    then show ?thesis by (auto dest: DoneWithCheck_end)
  next
    case 3
    obtain xs where xs: "eis_at c p xs" using eis_at_exists assms(2) 3 by fastforce
    from DoneWithCheck_more [OF assms 3] xs show ?thesis by (fastforce simp: eis_at_def)
  qed
qed

lemma load_u8_Some: "p < length m \<Longrightarrow> load_u8 m p = Some (ucast (m ! p))"
  by (simp add: load_u8_def mem_read_def hd_drop_conv_nth take_Suc_conv_app_nth)

lemma ReadTag_safe:
  assumes "tag_law L" "p + 2 \<le> length m"
  shows "\<exists>q tag. ReadTag L m p = Some (q, tag) \<and> (case q of None \<Rightarrow> tag = 0 | Some q' \<Rightarrow> p < q' \<and> q' \<le> p + 5)"
proof -
  let ?a = "ucast (m ! p) :: u32" and ?b = "ucast (m ! (p + 1)) :: u32"
  let ?f = "pl_ReadTagFallback L m p (?a + push_bit 7 (?b - 1))"
  have r: "ReadTag L m p = Some (if ?a < 128 then (Some (p + 1), ?a)
      else if ?b < 128 then (Some (p + 2), ?a + push_bit 7 (?b - 1)) else ?f)"
    using assms(2) by (simp add: ReadTag_def load_u8_Some Let_def)
  obtain q tag where f: "?f = (q, tag)" by (cases ?f)
  then have "case q of None \<Rightarrow> tag = 0 | Some q' \<Rightarrow> p < q' \<and> q' \<le> p + 5"
    using assms(1) unfolding tag_law_def by blast
  then show ?thesis using r f by (cases "?a < 128"; cases "?b < 128") auto
qed

lemma unat_ucast_u8_u32: "unat (ucast (x :: u8) :: u32) = unat x"
proof -
  have "unat x < 4294967296" using unat_u8_bound [of x] by linarith
  then show ?thesis by (simp add: unsigned_ucast_eq take_bit_eq_mod)
qed

lemma ReadTag_at:
  assumes "eis_at c p (varint t @ xs)" "t < 128"
  shows "ReadTag L (is_buf c) p = Some (Some (p + 1), word_of_nat t)" "eis_at c (p + 1) xs"
proof -
  have m: "p < length (is_buf c)" "is_buf c ! p = word_of_nat t"
    using assms by (auto simp: eis_at_def varint_small holds_Cons)
  have "unat (ucast (word_of_nat t :: u8) :: u32) = t"
    unfolding unat_ucast_u8_u32 using assms(2) by (simp add: unat_of_nat take_bit_eq_mod)
  then have "(ucast (word_of_nat t :: u8) :: u32) = word_of_nat t" "(ucast (word_of_nat t :: u8) :: u32) < 128"
    using assms(2) by (auto simp: word_less_nat_alt intro: eq_word_of_nat)
  then show "ReadTag L (is_buf c) p = Some (Some (p + 1), word_of_nat t)"
    using m by (simp add: ReadTag_def load_u8_Some)
  show "eis_at c (p + 1) xs" using eis_at_append [OF assms(1)] assms(2) by (simp add: varint_small)
qed

section \<open>Integers of one or two bytes and the loop\<close>

lemma u32_and_128:
  assumes "unat (w :: u32) < 256"
  shows "w AND 0x80 = 0 \<longleftrightarrow> unat w < 128"
proof -
  have "w AND 2 ^ 7 = 0 \<longleftrightarrow> \<not> bit w 7" by (rule and_exp_eq_0_iff_not_bit)
  then have "w AND 0x80 = 0 \<longleftrightarrow> \<not> bit (unat w) 7" by (simp add: bit_unsigned_iff)
  then show ?thesis using odd_div_iff [of "unat w" 128] assms by (auto simp: bit_iff_odd)
qed

lemma ucast_word_of_nat: "(ucast (v :: 'a::len word) :: 'b::len word) = word_of_nat (unat v)"
proof -
  have "unat (ucast v :: 'b word) = unat (word_of_nat (unat v) :: 'b word)" by (simp add: unsigned_ucast_eq unsigned_of_nat)
  then show ?thesis by (rule unsigned_word_eqI)
qed

lemma VarintParse_safe:
  assumes "p + 2 \<le> length m" "\<And>res q. fst (slow m p res) = Some q \<Longrightarrow> p < q \<and> q \<le> p + 10"
  shows "\<exists>q v. VarintParse slow m p = Some (q, v) \<and> (\<forall>q'. q = Some q' \<longrightarrow> p < q' \<and> q' \<le> p + 10)"
proof -
  let ?a = "ucast (m ! p) :: u32" and ?b = "ucast (m ! (p + 1)) :: u32"
  let ?f = "slow m p (?a + push_bit 7 (?b - 1))"
  have r: "VarintParse slow m p = Some (if ?a AND 0x80 = 0 then (Some (p + 1), ucast ?a)
      else if ?b AND 0x80 = 0 then (Some (p + 2), ucast (?a + push_bit 7 (?b - 1))) else ?f)"
    using assms(1) by (simp add: VarintParse_def load_u8_Some Let_def)
  obtain q v where f: "?f = (q, v)" by (cases ?f)
  then have "\<forall>q'. q = Some q' \<longrightarrow> p < q' \<and> q' \<le> p + 10" by (metis assms(2) fst_conv)
  then show ?thesis using r f by (cases "?a AND 0x80 = 0"; cases "?b AND 0x80 = 0") auto
qed

lemma VarintParse_reads:
  assumes "holds m p (varint n)" "p + 10 \<le> length m"
    and "16384 \<le> n \<Longrightarrow> slow m p (word_of_nat (n mod 16384 + 16384)) = (Some (p + length (varint n)), word_of_nat n :: 'w::len word)"
  shows "VarintParse slow m p = Some (Some (p + length (varint n)), word_of_nat n)"
proof -
  let ?a = "ucast (m ! p) :: u32" and ?b = "ucast (m ! (p + 1)) :: u32"
  have r: "VarintParse slow m p = Some (if ?a AND 0x80 = 0 then (Some (p + 1), ucast ?a)
      else if ?b AND 0x80 = 0 then (Some (p + 2), ucast (?a + push_bit 7 (?b - 1))) else slow m p (?a + push_bit 7 (?b - 1)))"
    using assms(2) by (simp add: VarintParse_def load_u8_Some Let_def)
  have u8: "unat (ucast (word_of_nat x :: u8) :: u32) = x" if "x < 256" for x
    unfolding unat_ucast_u8_u32 using that by (simp add: unat_of_nat take_bit_eq_mod)
  have w8: "(ucast (word_of_nat x :: u8) :: u32) = word_of_nat x" if "x < 256" for x
    using u8 [OF that] by (rule eq_word_of_nat)
  have two_groups: "(word_of_nat (x + 128) :: u32) + push_bit 7 (word_of_nat y - 1) = word_of_nat (x + 128 * y)" for x y
    by (simp add: push_bit_eq_mult algebra_simps)
  consider "n < 128" | "128 \<le> n" "n < 16384" | "16384 \<le> n" by linarith
  then show ?thesis
  proof cases
    case 1
    then have "unat ?a = n" using assms(1) u8 [of n] by (simp add: varint_small holds_Cons)
    then show ?thesis using r 1 u32_and_128 [of ?a] ucast_word_of_nat [of ?a, where ?'b = 'w] by (simp add: varint_small)
  next
    case 2
    then have v: "varint n = [word_of_nat (n mod 128 + 128), word_of_nat (n div 128)]" by (simp add: varint_big varint_small)
    then have ab: "?a = word_of_nat (n mod 128 + 128)" "?b = word_of_nat (n div 128)"
      using assms(1) 2 w8 [of "n mod 128 + 128"] w8 [of "n div 128"] by (simp_all add: holds_Cons del: of_nat_add)
    have u: "unat ?a = n mod 128 + 128" "unat ?b = n div 128"
      unfolding ab using 2 by (simp_all add: unat_of_nat_u32 del: of_nat_add)
    have c: "?a AND 0x80 \<noteq> 0" "?b AND 0x80 = 0" using u 2 u32_and_128 [of ?a] u32_and_128 [of ?b] by auto
    have "?a + push_bit 7 (?b - 1) = word_of_nat (n mod 128 + 128 * (n div 128))" unfolding ab by (rule two_groups)
    also have "n mod 128 + 128 * (n div 128) = n" by simp
    finally have "unat (?a + push_bit 7 (?b - 1)) = n" using 2 by (simp add: unat_of_nat_u32)
    then show ?thesis using r c v ucast_word_of_nat [of "?a + push_bit 7 (?b - 1)", where ?'b = 'w] by simp
  next
    case 3
    let ?j = "n div 128 mod 128 + 128"
    have v: "varint n = word_of_nat (n mod 128 + 128) # word_of_nat ?j # varint (n div 128 div 128)"
      using 3 by (simp add: varint_big)
    then have ab: "?a = word_of_nat (n mod 128 + 128)" "?b = word_of_nat ?j"
      using assms(1) w8 [of "n mod 128 + 128"] w8 [of ?j] by (simp_all add: holds_Cons del: of_nat_add)
    have u: "unat ?a = n mod 128 + 128" "unat ?b = ?j"
      unfolding ab by (rule unat_of_nat_u32, simp)+
    have c: "?a AND 0x80 \<noteq> 0" "?b AND 0x80 \<noteq> 0" using u u32_and_128 [of ?a] u32_and_128 [of ?b] by auto
    have "?a + push_bit 7 (?b - 1) = word_of_nat (n mod 128 + 128 * ?j)" unfolding ab by (rule two_groups)
    also have "n mod 128 + 128 * ?j = n mod 16384 + 16384" using mod_mult2_eq [of n 128 128] by simp
    finally show ?thesis using r c assms(3) [OF 3] by simp
  qed
qed

lemma ReadVarint_at:
  assumes "varint_law L" "eis_at c p (varint n @ xs)" "n < 18446744073709551616" "p \<le> is_buffer_end c"
  shows "ReadVarint32 L (is_buf c) p = Some (Some (p + length (varint n)), word_of_nat n)"
    "ReadVarint64 L (is_buf c) p = Some (Some (p + length (varint n)), word_of_nat n)"
    "eis_at c (p + length (varint n)) xs"
proof -
  have h: "holds (is_buf c) p (varint n)" "p + 10 \<le> length (is_buf c)"
    using assms(2,4) by (auto simp: eis_at_def holds_append eis_wf_def kSlopBytes_def)
  show "ReadVarint32 L (is_buf c) p = Some (Some (p + length (varint n)), word_of_nat n)"
    unfolding ReadVarint32_def using assms(1,3) h by (intro VarintParse_reads) (auto simp: varint_law_def)
  show "ReadVarint64 L (is_buf c) p = Some (Some (p + length (varint n)), word_of_nat n)"
    unfolding ReadVarint64_def using assms(1,3) h by (intro VarintParse_reads) (auto simp: varint_law_def)
  show "eis_at c (p + length (varint n)) xs" using assms(2) by (rule eis_at_append)
qed

lemma ReadVarint_safe:
  assumes "varint_law L" "p + 2 \<le> length m"
  shows "\<exists>q v. ReadVarint32 L m p = Some (q, v) \<and> (\<forall>q'. q = Some q' \<longrightarrow> p < q' \<and> q' \<le> p + 10)"
    "\<exists>q v. ReadVarint64 L m p = Some (q, v) \<and> (\<forall>q'. q = Some q' \<longrightarrow> p < q' \<and> q' \<le> p + 10)"
  unfolding ReadVarint32_def ReadVarint64_def using assms
  by (intro VarintParse_safe; auto simp: varint_law_def)+

text \<open>
  What the loop needs of the code for a field: called with a tag that was just read, it
  stays in bounds, and if it goes on then at a later place of the stream.
\<close>

definition step_ok :: "eis \<Rightarrow> nat \<Rightarrow> 'm pstep \<Rightarrow> bool" where
  "step_ok c p r \<longleftrightarrow> (case r of Return _ _ _ \<Rightarrow> True
     | Continue _ q c' \<Rightarrow> eis_wf c' \<and> q \<le> is_buffer_end c' + kSlopBytes \<and> left c' q < left c p)"

definition tag_read :: "eis \<Rightarrow> nat \<Rightarrow> nat option \<Rightarrow> u32 \<Rightarrow> bool" where
  "tag_read c p q tag \<longleftrightarrow> eis_wf c \<and> p < is_buffer_end c \<and>
     (case q of None \<Rightarrow> tag = 0 | Some q' \<Rightarrow> p < q' \<and> q' \<le> p + 5)"

locale message_parser =
  fixes L :: "('u, 'l) pb_lib_scheme" and field :: "'m \<Rightarrow> u32 \<Rightarrow> nat option \<Rightarrow> eis \<Rightarrow> 'm pstep option"
  assumes field_safe: "pb_lib_law L \<Longrightarrow> tag_read c p q tag \<Longrightarrow> \<exists>r. field msg tag q c = Some r \<and> step_ok c p r"
begin

lemma parse_returns:
  assumes law: "pb_lib_law L" and "eis_wf c" "p \<le> is_buffer_end c + kSlopBytes"
  shows "\<exists>r. parse_loop L field msg p c = Some r"
  using assms(2,3)
proof (induction "nat (left c p + 16)" arbitrary: c p msg rule: less_induct)
  case less
  have laws: "done_law L" "tag_law L" using law by (auto simp: pb_lib_law_def)
  from DoneWithCheck_cases [OF laws(1) less.prems] consider
    q c' where "DoneWithCheck L p c = (q, True, c')"
    | q c' where "DoneWithCheck L p c = (Some q, False, c')" "eis_wf c'" "q < is_buffer_end c'" "left c' q = left c p" by blast
  then show ?case
  proof cases
    case 1
    then show ?thesis by (subst parse_loop.simps) simp
  next
    case (2 q c')
    have "q + 2 \<le> length (is_buf c')" using 2 by (simp add: eis_wf_def kSlopBytes_def)
    from ReadTag_safe [OF laws(2) this] obtain q' tag where
      t: "ReadTag L (is_buf c') q = Some (q', tag)" "tag_read c' q q' tag" using 2 by (auto simp: tag_read_def)
    from field_safe [OF law t(2)] obtain r where r: "field msg tag q' c' = Some r" "step_ok c' q r" by blast
    show ?thesis
    proof (cases r)
      case (Continue msg' p2 c2)
      then have w: "eis_wf c2" "p2 \<le> is_buffer_end c2 + kSlopBytes" "left c2 p2 < left c p"
        using r(2) 2 by (auto simp: step_ok_def)
      have "-16 \<le> left c2 p2" using w by (auto simp: left_def eis_wf_def kSlopBytes_def)
      then have "nat (left c2 p2 + 16) < nat (left c p + 16)" using w(3) by linarith
      from less.hyps [OF this w(1,2)] show ?thesis
        using 2 t r Continue by (subst parse_loop.simps) auto
    next
      case (Return msg' p2 c2)
      then show ?thesis using 2 t r by (subst parse_loop.simps) simp
    qed
  qed
qed

end

lemma parse_loop_end:
  "eis_at c p [] \<Longrightarrow> parse_loop L field msg p c = Some (msg, Some p, c)"
  by (subst parse_loop.simps) (simp add: DoneWithCheck_end)

lemma parse_loop_field:
  assumes law: "pb_lib_law L" and "eis_at c p (varint t @ xs)" "t < 128" "p \<le> is_buffer_end c + kSlopBytes"
    and step: "\<And>c1 q. eis_at c1 q xs \<Longrightarrow> q \<le> is_buffer_end c1 \<Longrightarrow> \<exists>q' c2. field msg (word_of_nat t) (Some q) c1
       = Some (Continue msg' q' c2) \<and> eis_at c2 q' ys \<and> q' \<le> is_buffer_end c2 + kSlopBytes \<and> is_last_tag_minus_1 c2 = is_last_tag_minus_1 c1"
  shows "\<exists>q' c2. parse_loop L field msg p c = parse_loop L field msg' q' c2 \<and> eis_at c2 q' ys \<and>
     q' \<le> is_buffer_end c2 + kSlopBytes \<and> is_last_tag_minus_1 c2 = is_last_tag_minus_1 c"
proof -
  have "eis_wf c" "0 < left c p" using assms(2,3) by (auto simp: eis_at_def varint_small)
  from DoneWithCheck_more [OF _ this(1) assms(4) this(2), of L] law assms(2) obtain p0 c1 where
    d: "DoneWithCheck L p c = (Some p0, False, c1)" "p0 < is_buffer_end c1"
       "is_last_tag_minus_1 c1 = is_last_tag_minus_1 c" "eis_at c1 p0 (varint t @ xs)" by (auto simp: pb_lib_law_def)
  have t: "ReadTag L (is_buf c1) p0 = Some (Some (p0 + 1), word_of_nat t)" "eis_at c1 (p0 + 1) xs"
    using ReadTag_at [OF d(4) assms(3)] by blast+
  from step [OF t(2)] d(2) obtain q' c2 where s: "field msg (word_of_nat t) (Some (p0 + 1)) c1 = Some (Continue msg' q' c2)"
    "eis_at c2 q' ys" "q' \<le> is_buffer_end c2 + kSlopBytes" "is_last_tag_minus_1 c2 = is_last_tag_minus_1 c1" by auto
  have "parse_loop L field msg p c = parse_loop L field msg' q' c2"
    using d(1) t(1) s(1) by (subst parse_loop.simps) simp
  then show ?thesis using s d(3) by auto
qed

lemma handle_unusual_safe:
  assumes "unknown_law L" "tag_read c p q tag"
  shows "\<exists>r. handle_unusual L msg tag q c = Some r \<and> step_ok c p r"
proof (cases "tag = 0 \<or> tag AND 7 = 4")
  case True
  then show ?thesis by (auto simp: handle_unusual_def step_ok_def split: option.splits)
next
  case False
  then obtain q' where q: "q = Some q'" "p < q'" "q' \<le> p + 5" using assms(2) by (auto simp: tag_read_def split: option.splits)
  have l: "left c q' < left c p" using q by (simp add: left_def)
  obtain u' r c' where u: "pl_UnknownFieldParse L tag (case msg_unknown msg of Some u \<Rightarrow> u | None \<Rightarrow> pl_UnknownFieldSet_new L) q' c = (u', r, c')"
    by (cases "pl_UnknownFieldParse L tag (case msg_unknown msg of Some u \<Rightarrow> u | None \<Rightarrow> pl_UnknownFieldSet_new L) q' c")
  have "eis_wf c" "q' \<le> is_buffer_end c + 5" using assms(2) q by (auto simp: tag_read_def)
  then have "eis_wf c' \<and> x \<le> is_buffer_end c' + kSlopBytes \<and> left c' x \<le> left c q'" if "r = Some x" for x
    using assms(1) u that unfolding unknown_law_def by blast
  then show ?thesis using False q u l by (cases r) (fastforce simp: handle_unusual_def step_ok_def)+
qed

section \<open>Properties\<close>

text \<open>
  C19: the branch-free decoder \<open>ParseBigVarint\<close>, which takes two bytes at a time and cancels the
  continuation bits by borrows, inverts the byte-wise encoder for every 64-bit number: it
  returns the number and the place behind it.
\<close>

theorem ParseBigVarint_inverts_UnsafeVarint:
  assumes "p + 10 \<le> length m"
  shows "\<exists>m' q. UnsafeVarint (v :: u64) m p = Some (m', q) \<and> ParseBigVarint m' p = Some (Some q, v)"
proof -
  let ?e = "varint (unat v)"
  have b: "unat v < 18446744073709551616" using unsigned_less [of v, where ?'a = nat] by simp
  have "length ?e \<le> 10" using b by (intro length_varint_le) simp_all
  then have l: "p + length ?e \<le> length m" using assms by simp
  have "holds (overwrite m p ?e) p ?e" using l by (simp add: holds_def overwrite_def)
  then have "ParseBigVarint (overwrite m p ?e) p = Some (Some (p + length ?e), v)"
    using ParseBigVarint_reads [of "overwrite m p ?e" p "unat v"] b l assms by simp
  then show ?thesis using UnsafeVarint_writes [OF l] by simp
qed

theorem ParseBigVarint_inverts_UnsafeVarint_witness:
  "\<exists>m' q. UnsafeVarint (18446744073709551615 :: u64) (replicate 12 7) 1 = Some (m', q) \<and>
     ParseBigVarint m' 1 = Some (Some q, 18446744073709551615)"
  using ParseBigVarint_inverts_UnsafeVarint [of 1 "replicate 12 7"] by simp

end
