(* ===== verification/Flat_Stream.thy ===== *)
theory Flat_Stream
  imports Parse_Context
begin

text \<open>
  A library as \<open>Parse_Context\<close> and \<open>Wire_Format\<close> need it, for flat arrays, put together from the
  functions in the headers: long integers by \<open>ParseBigVarint\<close>, strings by \<open>ReadSize\<close> and
  \<open>ReadString\<close>, and a switch to a buffer with the last bytes. It satisfies \<open>pb_lib_law\<close>, so that
  what is shown under this hypothesis is not vacuous.
\<close>

section \<open>A library over flat arrays\<close>

definition flat_VarintParseSlow :: "bytes \<Rightarrow> nat \<Rightarrow> u32 \<Rightarrow> nat option \<times> u64" where
  "flat_VarintParseSlow m p res = (case ParseBigVarint m p of Some r \<Rightarrow> r | None \<Rightarrow> (None, 0))"

definition flat_ReadSizeFallback :: "bytes \<Rightarrow> nat \<Rightarrow> u32 \<Rightarrow> nat option \<times> u32" where
  "flat_ReadSizeFallback m p res = (case ParseBigVarint m p of
     Some (Some q, v) \<Rightarrow> if q \<le> p + 5 \<and> v < 2147483632 then (Some q, ucast v) else (None, 0)
   | _ \<Rightarrow> (None, 0))"

definition flat_DoneFallback :: "int \<Rightarrow> eis \<Rightarrow> nat option \<times> bool \<times> eis" where
  "flat_DoneFallback overrun c =
     (if is_limit c < overrun then (None, True, c)
      else (Some (nat overrun), False,
        c\<lparr>is_buf := take kSlopBytes (drop (is_buffer_end c) (is_buf c)) @ replicate kSlopBytes 0,
          is_limit_end := kSlopBytes, is_buffer_end := kSlopBytes, is_next_chunk := False, is_limit := 0\<rparr>))"

text \<open>Unknown integers are kept; fields of other kinds end the parse.\<close>

type_synonym flat_unknown = "(u32 \<times> u64) list"

definition flat_UnknownFieldParse :: "u32 \<Rightarrow> flat_unknown \<Rightarrow> nat \<Rightarrow> eis \<Rightarrow> flat_unknown \<times> nat option \<times> eis" where
  "flat_UnknownFieldParse tag u p c =
     (if tag AND 7 = 0
      then (case VarintParse flat_VarintParseSlow (is_buf c) p of
              Some (Some q, v) \<Rightarrow> (u @ [(drop_bit 3 tag, v)], Some q, c)
            | _ \<Rightarrow> (u, None, c))
      else (u, None, c))"

definition flat_base :: "flat_unknown pb_lib" where
  "flat_base = out_lib.extend flat_out_lib \<lparr>pl_DoneFallback = flat_DoneFallback,
     pl_VarintParseSlow32 = (\<lambda>m p res. case flat_VarintParseSlow m p res of (q, v) \<Rightarrow> (q, ucast v)),
     pl_VarintParseSlow64 = flat_VarintParseSlow, pl_ReadSizeFallback = flat_ReadSizeFallback,
     pl_ReadStringFallback = (\<lambda>p len c. ([], None, c)),
     pl_ReadTagFallback = (\<lambda>m p res. (None, 0)), pl_InlineGreedyStringParser = (\<lambda>s p c. (s, None, c)),
     pl_UnknownFieldParse = flat_UnknownFieldParse, pl_UnknownFieldSet_new = [], pl_UnknownFieldSet_Clear = (\<lambda>_. []),
     pl_UnknownFieldSet_MergeFrom = (@), pl_InternalSerializeUnknownFieldsToArray = (\<lambda>_ _. None),
     pl_MaybeComputeUnknownFieldsSize = (\<lambda>u n. (n, ucast n))\<rparr>"

definition flat_InlineGreedyStringParser :: "bytes \<Rightarrow> nat \<Rightarrow> eis \<Rightarrow> bytes \<times> nat option \<times> eis" where
  "flat_InlineGreedyStringParser s p c =
     (case ReadSize flat_base (is_buf c) p of
        Some (Some q, n) \<Rightarrow> (case ReadString flat_base q (uint n) c of Some r \<Rightarrow> r | None \<Rightarrow> (s, None, c))
      | _ \<Rightarrow> (s, None, c))"

definition flat_lib :: "flat_unknown pb_lib" where
  "flat_lib = flat_base\<lparr>pl_InlineGreedyStringParser := flat_InlineGreedyStringParser\<rparr>"

lemma flat_lib_sel [simp]:
  "pl_DoneFallback flat_lib = flat_DoneFallback"
  "pl_VarintParseSlow32 flat_lib m p res = (case flat_VarintParseSlow m p res of (q, v) \<Rightarrow> (q, ucast v))"
  "pl_VarintParseSlow64 flat_lib = flat_VarintParseSlow" "pl_ReadTagFallback flat_lib m p res = (None, 0)"
  "pl_InlineGreedyStringParser flat_lib = flat_InlineGreedyStringParser" "pl_UnknownFieldParse flat_lib = flat_UnknownFieldParse"
  "pl_MaybeComputeUnknownFieldsSize flat_lib u n = (n, ucast n)"
  "pl_ReadSizeFallback flat_base = flat_ReadSizeFallback" "pl_ReadStringFallback flat_base q len c = ([], None, c)"
  "ol_WriteStringMaybeAliasedOutline flat_lib = ol_WriteStringMaybeAliasedOutline flat_out_lib"
  by (simp_all add: flat_lib_def flat_base_def out_lib.extend_def)

lemma DecodeTwoBytes_bound: "DecodeTwoBytes m p = Some (tmp, q) \<Longrightarrow> p < q \<and> q \<le> p + 2"
  by (auto simp: DecodeTwoBytes_def Let_def bind_eq_Some_conv split: if_splits)

lemma ParseBigVarint_loop_bound:
  "ParseBigVarint_loop n i m p res = Some (Some q, v) \<Longrightarrow> n + i = 5 \<Longrightarrow> p < q \<and> q \<le> p + 10"
proof (induction n arbitrary: i res)
  case (Suc n)
  then obtain tmp q' where d: "DecodeTwoBytes m (p + 2 * i) = Some (tmp, q')" by (auto simp: bind_eq_Some_conv)
  show ?case using Suc.prems d DecodeTwoBytes_bound [OF d] Suc.IH [of "i + 1"] by (auto simp: Let_def split: if_splits)
qed simp

lemma ParseBigVarint_bound:
  assumes "ParseBigVarint m p = Some (Some q, v)"
  shows "p < q \<and> q \<le> p + 10"
proof -
  obtain tmp q' where d: "DecodeTwoBytes m p = Some (tmp, q')" using assms by (auto simp: ParseBigVarint_def bind_eq_Some_conv)
  show ?thesis using assms d DecodeTwoBytes_bound [OF d] ParseBigVarint_loop_bound [of 4 1 m p _ q v]
    by (auto simp: ParseBigVarint_def Let_def split: if_splits)
qed

lemma flat_Slow_bound: "fst (flat_VarintParseSlow m p res) = Some q \<Longrightarrow> p < q \<and> q \<le> p + 10"
  using ParseBigVarint_bound [of m p q] by (auto simp: flat_VarintParseSlow_def split: option.splits)

lemma flat_Slow_reads:
  "holds m p (varint n) \<Longrightarrow> n < 18446744073709551616 \<Longrightarrow> p + 10 \<le> length m \<Longrightarrow>
     flat_VarintParseSlow m p res = (Some (p + length (varint n)), word_of_nat n)"
  by (simp add: flat_VarintParseSlow_def ParseBigVarint_reads)

lemma flat_varint_law: "varint_law flat_lib"
proof -
  have "unat (word_of_nat n :: u64) = n" if "n < 18446744073709551616" for n using that by (rule unat_of_nat_u64)
  then have u: "(ucast (word_of_nat n :: u64) :: u32) = word_of_nat n" if "n < 18446744073709551616" for n
    using that ucast_word_of_nat [of "word_of_nat n :: u64", where ?'b = 32] by simp
  have b: "fst (case flat_VarintParseSlow m p res of (q, v) \<Rightarrow> (q, ucast v :: u32)) = fst (flat_VarintParseSlow m p res)" for m p res
    by (simp split: prod.split)
  show ?thesis unfolding varint_law_def
    using flat_Slow_bound u by (auto simp: b flat_Slow_reads simp del: split_paired_All of_nat_add)
qed

lemma flat_done_law: "done_law flat_lib"
  unfolding done_law_def
proof (intro allI impI conjI)
  fix c p assume a: "eis_wf c \<and> is_buffer_end c \<le> p \<and> p \<le> is_buffer_end c + kSlopBytes"
  show "\<exists>c'. pl_DoneFallback flat_lib (int p - int (is_buffer_end c)) c = (None, True, c')" if "left c p < 0"
    using that a by (auto simp: flat_DoneFallback_def left_def)
  assume l: "0 < left c p"
  let ?o = "p - is_buffer_end c"
  let ?c = "c\<lparr>is_buf := take kSlopBytes (drop (is_buffer_end c) (is_buf c)) @ replicate kSlopBytes 0,
          is_limit_end := kSlopBytes, is_buffer_end := kSlopBytes, is_next_chunk := False, is_limit := 0\<rparr>"
  have n: "is_next_chunk c" "is_limit c = 16" "?o < 16" using a l by (auto simp: eis_wf_def left_def kSlopBytes_def split: if_splits)
  have o: "int p - int (is_buffer_end c) = int ?o" using a by simp
  have f: "pl_DoneFallback flat_lib (int p - int (is_buffer_end c)) c = (Some ?o, False, ?c)"
    unfolding o using n by (simp add: flat_DoneFallback_def)
  have "eis_at ?c ?o xs" if "eis_at c p xs" for xs
  proof -
    have x: "holds (is_buf c) p xs" "p + length xs = is_buffer_end c + 16"
      using that n by (auto simp: eis_at_def left_def)
    have bl: "is_buffer_end c + 16 \<le> length (is_buf c)" using a by (simp add: eis_wf_def kSlopBytes_def)
    have "take (length xs) (drop ?o (take 16 (drop (is_buffer_end c) (is_buf c)) @ replicate 16 0)) = xs"
    proof -
      have "drop ?o (take 16 (drop (is_buffer_end c) (is_buf c))) = take (16 - ?o) (drop p (is_buf c))"
        using a by (simp add: drop_take)
      moreover have "16 - ?o = length xs" using x(2) a by simp
      ultimately show ?thesis using x(1) n bl by (simp add: holds_def)
    qed
    then have "holds (is_buf ?c) ?o xs" using x a n bl by (simp add: holds_def kSlopBytes_def)
    moreover have "left ?c ?o = int (length xs)" using x(2) a n by (auto simp: left_def kSlopBytes_def)
    ultimately show ?thesis using bl by (simp add: eis_at_def eis_wf_def kSlopBytes_def)
  qed
  then show "\<exists>q c'. pl_DoneFallback flat_lib (int p - int (is_buffer_end c)) c = (Some q, False, c') \<and> q < is_buffer_end c' \<and>
      is_last_tag_minus_1 c' = is_last_tag_minus_1 c \<and> (\<forall>xs. eis_at c p xs \<longrightarrow> eis_at c' q xs)"
    unfolding f using n(3) by (auto simp: kSlopBytes_def)
qed

lemma flat_ReadSize_bound:
  "ReadSize flat_base m p = Some (Some q, n) \<Longrightarrow> p < q \<and> q \<le> p + 5"
  using ParseBigVarint_bound [of m p q]
  by (auto simp: ReadSize_def flat_ReadSizeFallback_def bind_eq_Some_conv split: if_splits option.splits)

lemma flat_ReadSize_reads:
  assumes "holds m p (varint n)" "n < 2147483632" "p + 10 \<le> length m"
  shows "ReadSize flat_base m p = Some (Some (p + length (varint n)), word_of_nat n)"
proof (cases "n < 128")
  case True
  then have m: "p < length m" "m ! p = word_of_nat n" using assms(1) by (simp_all add: varint_small holds_Cons)
  have u: "unat (ucast (word_of_nat n :: u8) :: u32) = n"
    unfolding unat_ucast_u8_u32 using True by (simp add: unat_of_nat take_bit_eq_mod)
  then have "(ucast (word_of_nat n :: u8) :: u32) = word_of_nat n" by (rule eq_word_of_nat)
  moreover have "(ucast (word_of_nat n :: u8) :: u32) < 128" using u True by (simp add: word_less_nat_alt)
  ultimately show ?thesis using m True by (simp add: ReadSize_def load_u8_Some varint_small)
next
  case False
  have v: "varint n = word_of_nat (n mod 128 + 128) # varint (n div 128)" using False by (simp add: varint_big)
  then have m: "p < length m" "m ! p = word_of_nat (n mod 128 + 128)" using assms(1) by (simp_all add: holds_Cons)
  have "unat (ucast (m ! p) :: u32) = n mod 128 + 128"
    unfolding unat_ucast_u8_u32 m(2) by (simp add: unat_of_nat take_bit_eq_mod del: of_nat_add)
  then have b: "\<not> (ucast (m ! p) :: u32) < 128" by (simp add: word_less_nat_alt)
  have n: "n < 18446744073709551616" using assms(2) by simp
  have u: "unat (word_of_nat n :: u64) = n" using n by (rule unat_of_nat_u64)
  have "(word_of_nat n :: u64) < 2147483632" "(ucast (word_of_nat n :: u64) :: u32) = word_of_nat n"
    using assms(2) u ucast_word_of_nat [of "word_of_nat n :: u64", where ?'b = 32] by (simp_all add: word_less_nat_alt)
  moreover have "length (varint n) \<le> 5" using assms(2) by (intro length_varint_le) simp_all
  ultimately show ?thesis using m(1) b ParseBigVarint_reads [OF assms(1) n assms(3)]
    by (simp add: ReadSize_def load_u8_Some flat_ReadSizeFallback_def)
qed

lemma flat_string_law: "string_law flat_lib"
  unfolding string_law_def
proof (intro allI impI conjI)
  fix s0 :: bytes and c p assume a: "eis_wf c \<and> p \<le> is_buffer_end c + 5"
  have buf: "is_buffer_end c + 16 \<le> length (is_buf c)" using a by (simp add: eis_wf_def kSlopBytes_def)
  {
    fix s q c' assume "pl_InlineGreedyStringParser flat_lib s0 p c = (s, Some q, c')"
    then obtain q0 n where r: "ReadSize flat_base (is_buf c) p = Some (Some q0, n)" "q = q0 + nat (uint n)" "c' = c"
      "uint n \<le> int (is_buffer_end c + kSlopBytes) - int q0"
      by (auto simp: flat_InlineGreedyStringParser_def ReadString_def bind_eq_Some_conv split: option.splits if_splits)
    have z: "0 \<le> uint n" by simp
    show "eis_wf c'" using a r by simp
    have iq: "int q = int q0 + uint n" using r(2) z by simp
    then have "int q \<le> int (is_buffer_end c + kSlopBytes)" using r(4) by linarith
    then show "q \<le> is_buffer_end c' + kSlopBytes" using r(3) by simp
    show "left c' q < left c p" using iq z flat_ReadSize_bound [OF r(1)] unfolding left_def r(3) by linarith
  }
  fix s xs assume e: "eis_at c p (varint (length s) @ s @ xs) \<and> length s < 2147483632"
  let ?q = "p + length (varint (length s))"
  have h: "holds (is_buf c) p (varint (length s))" "holds (is_buf c) ?q s" "eis_at c (?q + length s) xs" "eis_at c ?q (s @ xs)"
    using e eis_at_append [of c p "varint (length s)" "s @ xs"] eis_at_append [of c ?q s xs] by (auto simp: eis_at_def holds_append)
  have rs: "ReadSize flat_base (is_buf c) p = Some (Some ?q, word_of_nat (length s))"
    using h(1) e a buf by (intro flat_ReadSize_reads) simp_all
  have u: "uint (word_of_nat (length s) :: u32) = int (length s)"
    using e unat_of_nat_u32 [of "length s"] by (simp add: uint_nat)
  have "int (length s) \<le> int (is_buffer_end c + kSlopBytes) - int ?q"
    using h(4) by (auto simp: eis_at_def left_def eis_wf_def split: if_splits)
  moreover have "mem_read (is_buf c) ?q (length s) = Some s" using h(2) by (simp add: holds_def mem_read_def)
  ultimately have "pl_InlineGreedyStringParser flat_lib s0 p c = (s, Some (?q + length s), c)"
    using rs u by (simp add: flat_InlineGreedyStringParser_def ReadString_def)
  then show "\<exists>q c'. pl_InlineGreedyStringParser flat_lib s0 p c = (s, Some q, c') \<and> eis_at c' q xs \<and>
      is_last_tag_minus_1 c' = is_last_tag_minus_1 c" using h(3) by auto
qed

lemma flat_unknown_law: "unknown_law flat_lib"
  unfolding unknown_law_def
proof (intro allI impI, elim conjE)
  fix tag u c p u' q c'
  assume a: "eis_wf c" "p \<le> is_buffer_end c + 5" "pl_UnknownFieldParse flat_lib tag u p c = (u', Some q, c')"
  have l: "p + 2 \<le> length (is_buf c)" using a(1,2) by (simp add: eis_wf_def kSlopBytes_def)
  obtain q' v where v: "VarintParse flat_VarintParseSlow (is_buf c) p = Some (q', v)" "\<forall>x. q' = Some x \<longrightarrow> p < x \<and> x \<le> p + 10"
    using VarintParse_safe [OF l, of flat_VarintParseSlow] flat_Slow_bound by blast
  then have "c' = c" "q' = Some q"
    using a(3) by (auto simp: flat_UnknownFieldParse_def split: if_splits option.splits)
  then show "eis_wf c' \<and> q \<le> is_buffer_end c' + kSlopBytes \<and> left c' q \<le> left c p"
    using a v(2) by (auto simp: left_def kSlopBytes_def)
qed

lemma flat_lib_law: "pb_lib_law flat_lib"
  using flat_outline_law flat_done_law flat_varint_law flat_string_law flat_unknown_law
  by (simp add: pb_lib_law_def tag_law_def size_law_def outline_law_def)

end
