(* ===== verification/Proto_Messages.thy ===== *)
theory Proto_Messages
  imports Flat_Stream
begin

text \<open>
  The generated messages of \<open>src/proto\<close>: \<open>HeartbeatProto\<close> and \<open>ClientMsgProto\<close>
  (\<open>shm_messages.pb.h\<close>, \<open>shm_messages.pb.cc\<close>): constructors, \<open>Clear\<close>, copying, merging and
  swapping, the loop of \<open>_InternalParse\<close>, \<open>_InternalSerialize\<close> and \<open>ByteSizeLong\<close>. An
  \<open>int32\<close> or \<open>int64\<close> field is a word. The set of unknown fields has the type \<open>'u\<close>, and the functions
  on it are fields of \<open>pb_lib\<close>.

  Shown here: the bytes \<open>_InternalSerialize\<close> writes, and that \<open>ByteSizeLong\<close> is their
  number; copying and moving messages. Parsing is in \<open>Proto_Parse\<close>.
\<close>

section \<open>The model\<close>

record 'u HeartbeatProto = "'u message" +
  hp_client_id :: u32
  hp_seq :: u32
  hp_timestamp :: u64
  hp_cached_size :: u32

record 'u ClientMsgProto = "'u message" +
  cp_payload :: bytes
  cp_seq :: u32
  cp_tick :: u32
  cp_timestamp :: u64
  cp_cached_size :: u32

definition HeartbeatProto_new :: "'u HeartbeatProto" where
  "HeartbeatProto_new = \<lparr>msg_unknown = None, hp_client_id = 0, hp_seq = 0, hp_timestamp = 0, hp_cached_size = 0\<rparr>"

definition ClientMsgProto_new :: "'u ClientMsgProto" where
  "ClientMsgProto_new = \<lparr>msg_unknown = None, cp_payload = [], cp_seq = 0, cp_tick = 0, cp_timestamp = 0, cp_cached_size = 0\<rparr>"

text \<open>The unknown fields of the message base: \<open>InternalMetadata\<close>.\<close>

definition metadata_Clear :: "('u, 'l) pb_lib_scheme \<Rightarrow> 'u option \<Rightarrow> 'u option" where
  "metadata_Clear L u = map_option (pl_UnknownFieldSet_Clear L) u"

definition metadata_MergeFrom :: "('u, 'l) pb_lib_scheme \<Rightarrow> 'u option \<Rightarrow> 'u option \<Rightarrow> 'u option" where
  "metadata_MergeFrom L u from_u = (case from_u of None \<Rightarrow> u
     | Some f \<Rightarrow> Some (pl_UnknownFieldSet_MergeFrom L (case u of Some x \<Rightarrow> x | None \<Rightarrow> pl_UnknownFieldSet_new L) f))"

text \<open>
  One field of \<open>_InternalSerialize\<close>; and the end of a case of \<open>_InternalParse\<close>: \<open>CHK_(ptr)\<close> and
  \<open>continue\<close>.
\<close>

definition put_int32 :: "'l out_lib_scheme \<Rightarrow> u32 \<Rightarrow> u32 \<Rightarrow> out \<Rightarrow> out option" where
  "put_int32 L num v o0 = (if v \<noteq> 0 then do {
     (st, m, p) \<leftarrow> EnsureSpace L o0;
     (m, p) \<leftarrow> WriteInt32ToArray num v m p;
     Some (st, m, p)
   } else Some o0)"

definition put_int64 :: "'l out_lib_scheme \<Rightarrow> u32 \<Rightarrow> u64 \<Rightarrow> out \<Rightarrow> out option" where
  "put_int64 L num v o0 = (if v \<noteq> 0 then do {
     (st, m, p) \<leftarrow> EnsureSpace L o0;
     (m, p) \<leftarrow> WriteInt64ToArray num v m p;
     Some (st, m, p)
   } else Some o0)"

definition put_bytes :: "'l out_lib_scheme \<Rightarrow> u32 \<Rightarrow> bytes \<Rightarrow> out \<Rightarrow> out option" where
  "put_bytes L num s o0 = (if s \<noteq> [] then WriteBytesMaybeAliased L num s o0 else Some o0)"

definition check_ptr :: "'m \<Rightarrow> nat option \<Rightarrow> eis \<Rightarrow> 'm pstep" where
  "check_ptr msg ptr c = (case ptr of None \<Rightarrow> Return msg None c | Some p \<Rightarrow> Continue msg p c)"

subsection \<open>HeartbeatProto\<close>

definition HeartbeatProto_set_client_id :: "u32 \<Rightarrow> 'u HeartbeatProto \<Rightarrow> 'u HeartbeatProto" where
  "HeartbeatProto_set_client_id v msg = msg\<lparr>hp_client_id := v\<rparr>"

definition HeartbeatProto_set_seq :: "u32 \<Rightarrow> 'u HeartbeatProto \<Rightarrow> 'u HeartbeatProto" where
  "HeartbeatProto_set_seq v msg = msg\<lparr>hp_seq := v\<rparr>"

definition HeartbeatProto_set_timestamp :: "u64 \<Rightarrow> 'u HeartbeatProto \<Rightarrow> 'u HeartbeatProto" where
  "HeartbeatProto_set_timestamp v msg = msg\<lparr>hp_timestamp := v\<rparr>"

definition HeartbeatProto_Clear :: "('u, 'l) pb_lib_scheme \<Rightarrow> 'u HeartbeatProto \<Rightarrow> 'u HeartbeatProto" where
  "HeartbeatProto_Clear L msg = msg\<lparr>hp_client_id := 0, hp_seq := 0, hp_timestamp := 0,
     msg_unknown := metadata_Clear L (msg_unknown msg)\<rparr>"

definition HeartbeatProto_copy :: "('u, 'l) pb_lib_scheme \<Rightarrow> 'u HeartbeatProto \<Rightarrow> 'u HeartbeatProto" where
  "HeartbeatProto_copy L from = HeartbeatProto_new\<lparr>msg_unknown := metadata_MergeFrom L None (msg_unknown from),
     hp_client_id := hp_client_id from, hp_seq := hp_seq from, hp_timestamp := hp_timestamp from\<rparr>"

definition HeartbeatProto_field ::
    "('u, 'l) pb_lib_scheme \<Rightarrow> 'u HeartbeatProto \<Rightarrow> u32 \<Rightarrow> nat option \<Rightarrow> eis \<Rightarrow> 'u HeartbeatProto pstep option" where
  "HeartbeatProto_field L msg tag ptr c =
     (if drop_bit 3 tag = 1 \<and> (ucast tag :: u8) = 8 then do {
        p \<leftarrow> ptr;
        (q, v) \<leftarrow> ReadVarint32 L (is_buf c) p;
        Some (check_ptr (msg\<lparr>hp_client_id := v\<rparr>) q c)
      } else if drop_bit 3 tag = 2 \<and> (ucast tag :: u8) = 16 then do {
        p \<leftarrow> ptr;
        (q, v) \<leftarrow> ReadVarint32 L (is_buf c) p;
        Some (check_ptr (msg\<lparr>hp_seq := v\<rparr>) q c)
      } else if drop_bit 3 tag = 3 \<and> (ucast tag :: u8) = 24 then do {
        p \<leftarrow> ptr;
        (q, v) \<leftarrow> ReadVarint64 L (is_buf c) p;
        Some (check_ptr (msg\<lparr>hp_timestamp := v\<rparr>) q c)
      } else handle_unusual L msg tag ptr c)"

definition HeartbeatProto_InternalParse ::
    "('u, 'l) pb_lib_scheme \<Rightarrow> 'u HeartbeatProto \<Rightarrow> nat \<Rightarrow> eis \<Rightarrow> ('u HeartbeatProto \<times> nat option \<times> eis) option" where
  "HeartbeatProto_InternalParse L msg ptr c = parse_loop L (HeartbeatProto_field L) msg ptr c"

definition HeartbeatProto_InternalSerialize ::
    "('u, 'l) pb_lib_scheme \<Rightarrow> 'u HeartbeatProto \<Rightarrow> out \<Rightarrow> out option" where
  "HeartbeatProto_InternalSerialize L msg o0 = do {
     o1 \<leftarrow> put_int32 L 1 (hp_client_id msg) o0;
     o2 \<leftarrow> put_int32 L 2 (hp_seq msg) o1;
     o3 \<leftarrow> put_int64 L 3 (hp_timestamp msg) o2;
     (case msg_unknown msg of None \<Rightarrow> Some o3 | Some u \<Rightarrow> pl_InternalSerializeUnknownFieldsToArray L u o3)
   }"

definition HeartbeatProto_ByteSizeLong ::
    "('u, 'l) pb_lib_scheme \<Rightarrow> 'u HeartbeatProto \<Rightarrow> u64 \<times> 'u HeartbeatProto" where
  "HeartbeatProto_ByteSizeLong L msg =
     (let t0 = 0;
          t1 = (if hp_client_id msg \<noteq> 0 then t0 + Int32SizePlusOne (hp_client_id msg) else t0);
          t2 = (if hp_seq msg \<noteq> 0 then t1 + Int32SizePlusOne (hp_seq msg) else t1);
          t3 = (if hp_timestamp msg \<noteq> 0 then t2 + Int64SizePlusOne (hp_timestamp msg) else t2);
          (total, cached) = pl_MaybeComputeUnknownFieldsSize L (msg_unknown msg) t3
      in (total, msg\<lparr>hp_cached_size := cached\<rparr>))"

definition HeartbeatProto_MergeFrom ::
    "('u, 'l) pb_lib_scheme \<Rightarrow> 'u HeartbeatProto \<Rightarrow> 'u HeartbeatProto \<Rightarrow> 'u HeartbeatProto" where
  "HeartbeatProto_MergeFrom L this from =
     (let m1 = (if hp_client_id from \<noteq> 0 then HeartbeatProto_set_client_id (hp_client_id from) this else this);
          m2 = (if hp_seq from \<noteq> 0 then HeartbeatProto_set_seq (hp_seq from) m1 else m1);
          m3 = (if hp_timestamp from \<noteq> 0 then HeartbeatProto_set_timestamp (hp_timestamp from) m2 else m2)
      in m3\<lparr>msg_unknown := metadata_MergeFrom L (msg_unknown this) (msg_unknown from)\<rparr>)"

text \<open>\<open>same\<close>: both sides are one object.\<close>

definition HeartbeatProto_CopyFrom ::
    "('u, 'l) pb_lib_scheme \<Rightarrow> bool \<Rightarrow> 'u HeartbeatProto \<Rightarrow> 'u HeartbeatProto \<Rightarrow> 'u HeartbeatProto" where
  "HeartbeatProto_CopyFrom L same this from =
     (if same then this else HeartbeatProto_MergeFrom L (HeartbeatProto_Clear L this) from)"

definition HeartbeatProto_InternalSwap :: "'u HeartbeatProto \<Rightarrow> 'u HeartbeatProto \<Rightarrow> 'u HeartbeatProto \<times> 'u HeartbeatProto" where
  "HeartbeatProto_InternalSwap this other =
     (this\<lparr>msg_unknown := msg_unknown other, hp_client_id := hp_client_id other, hp_seq := hp_seq other, hp_timestamp := hp_timestamp other\<rparr>,
      other\<lparr>msg_unknown := msg_unknown this, hp_client_id := hp_client_id this, hp_seq := hp_seq this, hp_timestamp := hp_timestamp this\<rparr>)"

subsection \<open>ClientMsgProto\<close>

definition ClientMsgProto_set_seq :: "u32 \<Rightarrow> 'u ClientMsgProto \<Rightarrow> 'u ClientMsgProto" where
  "ClientMsgProto_set_seq v msg = msg\<lparr>cp_seq := v\<rparr>"

definition ClientMsgProto_set_tick :: "u32 \<Rightarrow> 'u ClientMsgProto \<Rightarrow> 'u ClientMsgProto" where
  "ClientMsgProto_set_tick v msg = msg\<lparr>cp_tick := v\<rparr>"

definition ClientMsgProto_set_timestamp :: "u64 \<Rightarrow> 'u ClientMsgProto \<Rightarrow> 'u ClientMsgProto" where
  "ClientMsgProto_set_timestamp v msg = msg\<lparr>cp_timestamp := v\<rparr>"

definition ClientMsgProto_set_payload :: "bytes \<Rightarrow> 'u ClientMsgProto \<Rightarrow> 'u ClientMsgProto" where
  "ClientMsgProto_set_payload s msg = msg\<lparr>cp_payload := s\<rparr>"

definition ClientMsgProto_Clear :: "('u, 'l) pb_lib_scheme \<Rightarrow> 'u ClientMsgProto \<Rightarrow> 'u ClientMsgProto" where
  "ClientMsgProto_Clear L msg = msg\<lparr>cp_payload := [], cp_seq := 0, cp_tick := 0, cp_timestamp := 0,
     msg_unknown := metadata_Clear L (msg_unknown msg)\<rparr>"

definition ClientMsgProto_copy :: "('u, 'l) pb_lib_scheme \<Rightarrow> 'u ClientMsgProto \<Rightarrow> 'u ClientMsgProto" where
  "ClientMsgProto_copy L from = ClientMsgProto_new\<lparr>msg_unknown := metadata_MergeFrom L None (msg_unknown from),
     cp_payload := (if cp_payload from \<noteq> [] then cp_payload from else []),
     cp_seq := cp_seq from, cp_tick := cp_tick from, cp_timestamp := cp_timestamp from\<rparr>"

definition ClientMsgProto_field ::
    "('u, 'l) pb_lib_scheme \<Rightarrow> 'u ClientMsgProto \<Rightarrow> u32 \<Rightarrow> nat option \<Rightarrow> eis \<Rightarrow> 'u ClientMsgProto pstep option" where
  "ClientMsgProto_field L msg tag ptr c =
     (if drop_bit 3 tag = 1 \<and> (ucast tag :: u8) = 8 then do {
        p \<leftarrow> ptr;
        (q, v) \<leftarrow> ReadVarint32 L (is_buf c) p;
        Some (check_ptr (msg\<lparr>cp_seq := v\<rparr>) q c)
      } else if drop_bit 3 tag = 2 \<and> (ucast tag :: u8) = 16 then do {
        p \<leftarrow> ptr;
        (q, v) \<leftarrow> ReadVarint32 L (is_buf c) p;
        Some (check_ptr (msg\<lparr>cp_tick := v\<rparr>) q c)
      } else if drop_bit 3 tag = 3 \<and> (ucast tag :: u8) = 24 then do {
        p \<leftarrow> ptr;
        (q, v) \<leftarrow> ReadVarint64 L (is_buf c) p;
        Some (check_ptr (msg\<lparr>cp_timestamp := v\<rparr>) q c)
      } else if drop_bit 3 tag = 4 \<and> (ucast tag :: u8) = 34 then do {
        p \<leftarrow> ptr;
        (case pl_InlineGreedyStringParser L (cp_payload msg) p c of
           (s, q, c') \<Rightarrow> Some (check_ptr (msg\<lparr>cp_payload := s\<rparr>) q c'))
      } else handle_unusual L msg tag ptr c)"

definition ClientMsgProto_InternalParse ::
    "('u, 'l) pb_lib_scheme \<Rightarrow> 'u ClientMsgProto \<Rightarrow> nat \<Rightarrow> eis \<Rightarrow> ('u ClientMsgProto \<times> nat option \<times> eis) option" where
  "ClientMsgProto_InternalParse L msg ptr c = parse_loop L (ClientMsgProto_field L) msg ptr c"

definition ClientMsgProto_InternalSerialize ::
    "('u, 'l) pb_lib_scheme \<Rightarrow> 'u ClientMsgProto \<Rightarrow> out \<Rightarrow> out option" where
  "ClientMsgProto_InternalSerialize L msg o0 = do {
     o1 \<leftarrow> put_int32 L 1 (cp_seq msg) o0;
     o2 \<leftarrow> put_int32 L 2 (cp_tick msg) o1;
     o3 \<leftarrow> put_int64 L 3 (cp_timestamp msg) o2;
     o4 \<leftarrow> put_bytes L 4 (cp_payload msg) o3;
     (case msg_unknown msg of None \<Rightarrow> Some o4 | Some u \<Rightarrow> pl_InternalSerializeUnknownFieldsToArray L u o4)
   }"

definition ClientMsgProto_ByteSizeLong ::
    "('u, 'l) pb_lib_scheme \<Rightarrow> 'u ClientMsgProto \<Rightarrow> u64 \<times> 'u ClientMsgProto" where
  "ClientMsgProto_ByteSizeLong L msg =
     (let t0 = 0;
          t1 = (if cp_payload msg \<noteq> [] then t0 + (1 + BytesSize (cp_payload msg)) else t0);
          t2 = (if cp_seq msg \<noteq> 0 then t1 + Int32SizePlusOne (cp_seq msg) else t1);
          t3 = (if cp_tick msg \<noteq> 0 then t2 + Int32SizePlusOne (cp_tick msg) else t2);
          t4 = (if cp_timestamp msg \<noteq> 0 then t3 + Int64SizePlusOne (cp_timestamp msg) else t3);
          (total, cached) = pl_MaybeComputeUnknownFieldsSize L (msg_unknown msg) t4
      in (total, msg\<lparr>cp_cached_size := cached\<rparr>))"

definition ClientMsgProto_MergeFrom ::
    "('u, 'l) pb_lib_scheme \<Rightarrow> 'u ClientMsgProto \<Rightarrow> 'u ClientMsgProto \<Rightarrow> 'u ClientMsgProto" where
  "ClientMsgProto_MergeFrom L this from =
     (let m1 = (if cp_payload from \<noteq> [] then ClientMsgProto_set_payload (cp_payload from) this else this);
          m2 = (if cp_seq from \<noteq> 0 then ClientMsgProto_set_seq (cp_seq from) m1 else m1);
          m3 = (if cp_tick from \<noteq> 0 then ClientMsgProto_set_tick (cp_tick from) m2 else m2);
          m4 = (if cp_timestamp from \<noteq> 0 then ClientMsgProto_set_timestamp (cp_timestamp from) m3 else m3)
      in m4\<lparr>msg_unknown := metadata_MergeFrom L (msg_unknown this) (msg_unknown from)\<rparr>)"

definition ClientMsgProto_CopyFrom ::
    "('u, 'l) pb_lib_scheme \<Rightarrow> bool \<Rightarrow> 'u ClientMsgProto \<Rightarrow> 'u ClientMsgProto \<Rightarrow> 'u ClientMsgProto" where
  "ClientMsgProto_CopyFrom L same this from =
     (if same then this else ClientMsgProto_MergeFrom L (ClientMsgProto_Clear L this) from)"

definition ClientMsgProto_InternalSwap :: "'u ClientMsgProto \<Rightarrow> 'u ClientMsgProto \<Rightarrow> 'u ClientMsgProto \<times> 'u ClientMsgProto" where
  "ClientMsgProto_InternalSwap this other =
     (this\<lparr>msg_unknown := msg_unknown other, cp_payload := cp_payload other, cp_seq := cp_seq other,
        cp_tick := cp_tick other, cp_timestamp := cp_timestamp other\<rparr>,
      other\<lparr>msg_unknown := msg_unknown this, cp_payload := cp_payload this, cp_seq := cp_seq this,
        cp_tick := cp_tick this, cp_timestamp := cp_timestamp this\<rparr>)"

subsection \<open>Names and move assignment\<close>

definition ascii :: "string \<Rightarrow> bytes" where
  "ascii s = map (\<lambda>c. word_of_nat (of_char c)) s"

definition HeartbeatProto_FullMessageName :: bytes where
  "HeartbeatProto_FullMessageName = ascii ''shm_ipc.HeartbeatProto''"

definition ClientMsgProto_FullMessageName :: bytes where
  "ClientMsgProto_FullMessageName = ascii ''shm_ipc.ClientMsgProto''"

text \<open>\<open>same_arena\<close>: \<open>GetOwningArena() == from.GetOwningArena()\<close>. The result is \<open>*this\<close> and \<open>from\<close>.\<close>

definition HeartbeatProto_move_assign ::
    "('u, 'l) pb_lib_scheme \<Rightarrow> bool \<Rightarrow> bool \<Rightarrow> 'u HeartbeatProto \<Rightarrow> 'u HeartbeatProto \<Rightarrow> 'u HeartbeatProto \<times> 'u HeartbeatProto" where
  "HeartbeatProto_move_assign L same same_arena this from =
     (if same then (this, from)
      else if same_arena then HeartbeatProto_InternalSwap this from
      else (HeartbeatProto_CopyFrom L False this from, from))"

definition ClientMsgProto_move_assign ::
    "('u, 'l) pb_lib_scheme \<Rightarrow> bool \<Rightarrow> bool \<Rightarrow> 'u ClientMsgProto \<Rightarrow> 'u ClientMsgProto \<Rightarrow> 'u ClientMsgProto \<times> 'u ClientMsgProto" where
  "ClientMsgProto_move_assign L same same_arena this from =
     (if same then (this, from)
      else if same_arena then ClientMsgProto_InternalSwap this from
      else (ClientMsgProto_CopyFrom L False this from, from))"

section \<open>Field values\<close>

text \<open>What a message says: the values of its declared fields.\<close>

definition HeartbeatProto_fields :: "'u HeartbeatProto \<Rightarrow> u32 \<times> u32 \<times> u64" where
  "HeartbeatProto_fields msg = (hp_client_id msg, hp_seq msg, hp_timestamp msg)"

definition ClientMsgProto_fields :: "'u ClientMsgProto \<Rightarrow> u32 \<times> u32 \<times> u64 \<times> bytes" where
  "ClientMsgProto_fields msg = (cp_seq msg, cp_tick msg, cp_timestamp msg, cp_payload msg)"

lemma HeartbeatProto_copies:
  "HeartbeatProto_fields (HeartbeatProto_copy L from) = HeartbeatProto_fields from"
  "HeartbeatProto_fields (HeartbeatProto_CopyFrom L False this from) = HeartbeatProto_fields from"
  "HeartbeatProto_fields (fst (HeartbeatProto_move_assign L False same_arena this from)) = HeartbeatProto_fields from"
  by (simp_all add: HeartbeatProto_fields_def HeartbeatProto_copy_def HeartbeatProto_CopyFrom_def HeartbeatProto_MergeFrom_def
      HeartbeatProto_Clear_def HeartbeatProto_set_client_id_def HeartbeatProto_set_seq_def HeartbeatProto_set_timestamp_def
      HeartbeatProto_move_assign_def HeartbeatProto_InternalSwap_def Let_def)

lemma ClientMsgProto_copies:
  "ClientMsgProto_fields (ClientMsgProto_copy L from) = ClientMsgProto_fields from"
  "ClientMsgProto_fields (ClientMsgProto_CopyFrom L False this from) = ClientMsgProto_fields from"
  "ClientMsgProto_fields (fst (ClientMsgProto_move_assign L False same_arena this from)) = ClientMsgProto_fields from"
  by (simp_all add: ClientMsgProto_fields_def ClientMsgProto_copy_def ClientMsgProto_CopyFrom_def ClientMsgProto_MergeFrom_def
      ClientMsgProto_Clear_def ClientMsgProto_set_payload_def ClientMsgProto_set_seq_def ClientMsgProto_set_tick_def
      ClientMsgProto_set_timestamp_def ClientMsgProto_move_assign_def ClientMsgProto_InternalSwap_def Let_def)

section \<open>Serializing\<close>

text \<open>An operation on the stream over an array that appends exactly \<open>f\<close>, if it fits.\<close>

definition writes :: "bytes \<Rightarrow> (out \<Rightarrow> out option) \<Rightarrow> bool" where
  "writes f wr \<longleftrightarrow> (\<forall>st m p. eo_end st = length m \<and> \<not> eo_aliasing_enabled st \<and> p + length f \<le> length m \<longrightarrow>
     wr (st, m, p) = Some (st, overwrite m p f, p + length f))"

lemma writesD:
  "writes f wr \<Longrightarrow> eo_end st = length m \<Longrightarrow> \<not> eo_aliasing_enabled st \<Longrightarrow> p + length f \<le> length m \<Longrightarrow>
     wr (st, m, p) = Some (st, overwrite m p f, p + length f)"
  by (simp add: writes_def)

lemma writes_nothing: "writes [] Some"
  by (simp add: writes_def overwrite_def)

lemma writes_bind:
  assumes "writes f a" "writes g b"
  shows "writes (f @ g) (\<lambda>o0. a o0 \<bind> b)"
  unfolding writes_def
proof (intro allI impI, elim conjE)
  fix st :: eos and m :: bytes and p :: nat
  assume h: "eo_end st = length m" "\<not> eo_aliasing_enabled st" "p + length (f @ g) \<le> length m"
  have l: "p + length f \<le> length m" using h(3) by simp
  have "b (st, overwrite m p f, p + length f) = Some (st, overwrite (overwrite m p f) (p + length f) g, p + length f + length g)"
    using h l by (intro writesD [OF assms(2)]) simp_all
  then show "a (st, m, p) \<bind> b = Some (st, overwrite m p (f @ g), p + length (f @ g))"
    using writesD [OF assms(1) h(1,2) l] overwrite_overwrite [OF l] by (simp add: add.assoc)
qed

definition int32_wire :: "u32 \<Rightarrow> u32 \<Rightarrow> bytes" where
  "int32_wire num v = (if v \<noteq> 0 then varint_field num (scast v) else [])"

definition int64_wire :: "u32 \<Rightarrow> u64 \<Rightarrow> bytes" where
  "int64_wire num v = (if v \<noteq> 0 then varint_field num v else [])"

definition bytes_wire :: "u32 \<Rightarrow> bytes \<Rightarrow> bytes" where
  "bytes_wire num s = (if s \<noteq> [] then bytes_field num s else [])"

definition HeartbeatProto_wire :: "'u HeartbeatProto \<Rightarrow> bytes" where
  "HeartbeatProto_wire msg = int32_wire 1 (hp_client_id msg) @ int32_wire 2 (hp_seq msg) @ int64_wire 3 (hp_timestamp msg)"

definition ClientMsgProto_wire :: "'u ClientMsgProto \<Rightarrow> bytes" where
  "ClientMsgProto_wire msg = int32_wire 1 (cp_seq msg) @ int32_wire 2 (cp_tick msg) @ int64_wire 3 (cp_timestamp msg) @
     bytes_wire 4 (cp_payload msg)"

lemma varint_field_pos: "0 < length (varint_field num v)"
  by (simp add: varint_field_def)

lemma writes_int32: "writes (int32_wire num v) (put_int32 L num v)"
  unfolding writes_def
proof (intro allI impI, elim conjE)
  fix st :: eos and m :: bytes and p :: nat
  assume h: "eo_end st = length m" "p + length (int32_wire num v) \<le> length m"
  show "put_int32 L num v (st, m, p) = Some (st, overwrite m p (int32_wire num v), p + length (int32_wire num v))"
  proof (cases "v = 0")
    case False
    then have l: "p + length (varint_field num (scast v)) \<le> length m" using h by (simp add: int32_wire_def)
    then have "p < length m" using varint_field_pos [of num "scast v"] by linarith
    then show ?thesis using False h(1) WriteInt_writes(1) [OF l] by (simp add: put_int32_def int32_wire_def EnsureSpace_def)
  qed (simp add: put_int32_def int32_wire_def overwrite_def)
qed

lemma writes_int64: "writes (int64_wire num v) (put_int64 L num v)"
  unfolding writes_def
proof (intro allI impI, elim conjE)
  fix st :: eos and m :: bytes and p :: nat
  assume h: "eo_end st = length m" "p + length (int64_wire num v) \<le> length m"
  show "put_int64 L num v (st, m, p) = Some (st, overwrite m p (int64_wire num v), p + length (int64_wire num v))"
  proof (cases "v = 0")
    case False
    then have l: "p + length (varint_field num v) \<le> length m" using h by (simp add: int64_wire_def)
    then have "p < length m" using varint_field_pos [of num v] by linarith
    then show ?thesis using False h(1) WriteInt_writes(2) [OF l] by (simp add: put_int64_def int64_wire_def EnsureSpace_def)
  qed (simp add: put_int64_def int64_wire_def overwrite_def)
qed

lemma writes_bytes: "outline_law L \<Longrightarrow> length s < 4294967296 \<Longrightarrow> writes (bytes_wire num s) (put_bytes L num s)"
  by (auto simp: writes_def put_bytes_def bytes_wire_def WriteBytes_writes overwrite_def)

lemma HeartbeatProto_writes:
  assumes "msg_unknown msg = None"
  shows "writes (HeartbeatProto_wire msg) (HeartbeatProto_InternalSerialize L msg)"
proof -
  have "writes (int32_wire 1 (hp_client_id msg) @ int32_wire 2 (hp_seq msg) @ int64_wire 3 (hp_timestamp msg) @ [])
      (\<lambda>o0. put_int32 L 1 (hp_client_id msg) o0 \<bind> (\<lambda>o1. put_int32 L 2 (hp_seq msg) o1 \<bind>
        (\<lambda>o2. put_int64 L 3 (hp_timestamp msg) o2 \<bind> Some)))"
    by (intro writes_bind writes_int32 writes_int64 writes_nothing)
  then show ?thesis using assms
    by (simp add: HeartbeatProto_wire_def HeartbeatProto_InternalSerialize_def [abs_def])
qed

lemma ClientMsgProto_writes:
  assumes "outline_law L" "msg_unknown msg = None" "length (cp_payload msg) < 4294967296"
  shows "writes (ClientMsgProto_wire msg) (ClientMsgProto_InternalSerialize L msg)"
proof -
  have "writes (int32_wire 1 (cp_seq msg) @ int32_wire 2 (cp_tick msg) @ int64_wire 3 (cp_timestamp msg) @ bytes_wire 4 (cp_payload msg) @ [])
      (\<lambda>o0. put_int32 L 1 (cp_seq msg) o0 \<bind> (\<lambda>o1. put_int32 L 2 (cp_tick msg) o1 \<bind>
        (\<lambda>o2. put_int64 L 3 (cp_timestamp msg) o2 \<bind> (\<lambda>o3. put_bytes L 4 (cp_payload msg) o3 \<bind> Some))))"
    using assms by (intro writes_bind writes_int32 writes_int64 writes_bytes writes_nothing)
  then show ?thesis using assms(2)
    by (simp add: ClientMsgProto_wire_def ClientMsgProto_InternalSerialize_def [abs_def])
qed

section \<open>Sizes\<close>

lemma tags [simp]:
  "MakeTag 1 WIRETYPE_VARINT = 8" "MakeTag 2 WIRETYPE_VARINT = 16" "MakeTag 3 WIRETYPE_VARINT = 24"
  "MakeTag 4 WIRETYPE_LENGTH_DELIMITED = 34"
  by (simp_all add: MakeTag_def WIRETYPE_VARINT_def WIRETYPE_LENGTH_DELIMITED_def kTagTypeBits_def)

lemma wire_lengths:
  "length (int32_wire 1 v) = (if v \<noteq> 0 then unat (Int32SizePlusOne v) else 0)"
  "length (int32_wire 2 v) = (if v \<noteq> 0 then unat (Int32SizePlusOne v) else 0)"
  "length (int64_wire 3 w) = (if w \<noteq> 0 then unat (Int64SizePlusOne w) else 0)"
  by (simp_all add: int32_wire_def int64_wire_def varint_field_def Int32SizePlusOne_def Int64SizePlusOne_def VarintSize_correct varint_small)

lemma unat_u64_lt: "unat (v :: u64) < 128 ^ 10"
  using unsigned_less [of v, where ?'a = nat] by simp

lemma SizePlusOne_le: "unat (Int32SizePlusOne v) \<le> 11" "unat (Int64SizePlusOne w) \<le> 11"
  using length_varint_le [of 10 "unat (scast v :: u64)"] length_varint_le [of 10 "unat w"] unat_u64_lt
  by (simp_all add: Int32SizePlusOne_def Int64SizePlusOne_def VarintSize_correct)

lemma BytesSize_eq:
  assumes "length s < 2147483648"
  shows "unat (BytesSize s) = length (varint (length s)) + length s" "length (varint (length s)) \<le> 5"
proof -
  show l: "length (varint (length s)) \<le> 5" using assms by (intro length_varint_le) simp_all
  have u: "unat (word_of_nat (length s) :: u64) = length s" using assms by (intro unat_of_nat_u64) simp
  have c: "(ucast (word_of_nat (length s) :: u64) :: u32) = word_of_nat (length s)"
    using u ucast_word_of_nat [of "word_of_nat (length s) :: u64", where ?'b = 32] by simp
  have "unat (VarintSize32 (word_of_nat (length s))) = length (varint (length s))"
    using assms by (simp add: VarintSize_correct unat_of_nat_u32)
  then show "unat (BytesSize s) = length (varint (length s)) + length s"
    using assms l u unfolding BytesSize_def LengthDelimitedSize_def c by (subst unat_add_u64) simp_all
qed

lemma unat_add_if:
  assumes "unat (a :: u64) + n < 18446744073709551616" "unat b \<le> n"
  shows "unat (if t then a + b else a) = unat a + (if t then unat b else 0)"
  using assms unat_add_u64 [of a b] by simp

lemma HeartbeatProto_size:
  assumes "size_law L" "msg_unknown msg = None"
  shows "unat (fst (HeartbeatProto_ByteSizeLong L msg)) = length (HeartbeatProto_wire msg)"
proof -
  note le = SizePlusOne_le(1) [of "hp_client_id msg"] SizePlusOne_le(1) [of "hp_seq msg"] SizePlusOne_le(2) [of "hp_timestamp msg"]
  let ?t1 = "if hp_client_id msg \<noteq> 0 then 0 + Int32SizePlusOne (hp_client_id msg) else 0"
  let ?t2 = "if hp_seq msg \<noteq> 0 then ?t1 + Int32SizePlusOne (hp_seq msg) else ?t1"
  let ?t3 = "if hp_timestamp msg \<noteq> 0 then ?t2 + Int64SizePlusOne (hp_timestamp msg) else ?t2"
  have t1: "unat ?t1 = length (int32_wire 1 (hp_client_id msg))" by (simp add: wire_lengths)
  have t2: "unat ?t2 = length (int32_wire 1 (hp_client_id msg)) + length (int32_wire 2 (hp_seq msg))"
    using le t1 by (subst unat_add_if [where n = 11]) (auto simp: wire_lengths)
  have "unat ?t3 = length (HeartbeatProto_wire msg)"
    using le t2 by (subst unat_add_if [where n = 11]) (auto simp: wire_lengths HeartbeatProto_wire_def)
  moreover have "fst (HeartbeatProto_ByteSizeLong L msg) = ?t3"
    using assms by (simp add: HeartbeatProto_ByteSizeLong_def Let_def size_law_def)
  ultimately show ?thesis by simp
qed

lemma ClientMsgProto_size:
  assumes "size_law L" "msg_unknown msg = None" "length (cp_payload msg) < 2147483648"
  shows "unat (fst (ClientMsgProto_ByteSizeLong L msg)) = length (ClientMsgProto_wire msg)"
proof -
  note le = SizePlusOne_le(1) [of "cp_seq msg"] SizePlusOne_le(1) [of "cp_tick msg"] SizePlusOne_le(2) [of "cp_timestamp msg"]
  note bs = BytesSize_eq [OF assms(3)]
  let ?t1 = "if cp_payload msg \<noteq> [] then 0 + (1 + BytesSize (cp_payload msg)) else 0"
  let ?t2 = "if cp_seq msg \<noteq> 0 then ?t1 + Int32SizePlusOne (cp_seq msg) else ?t1"
  let ?t3 = "if cp_tick msg \<noteq> 0 then ?t2 + Int32SizePlusOne (cp_tick msg) else ?t2"
  let ?t4 = "if cp_timestamp msg \<noteq> 0 then ?t3 + Int64SizePlusOne (cp_timestamp msg) else ?t3"
  have "unat (1 + BytesSize (cp_payload msg)) = 1 + unat (BytesSize (cp_payload msg))"
    using bs assms(3) by (subst unat_add_u64) simp_all
  then have t1: "unat ?t1 = length (bytes_wire 4 (cp_payload msg))"
    using bs by (simp add: bytes_wire_def bytes_field_def varint_small)
  have b: "length (bytes_wire 4 (cp_payload msg)) \<le> 2147483654"
    using bs(2) assms(3) by (simp add: bytes_wire_def bytes_field_def varint_small)
  have t2: "unat ?t2 = length (bytes_wire 4 (cp_payload msg)) + length (int32_wire 1 (cp_seq msg))"
    using le t1 b by (subst unat_add_if [where n = 11]) (auto simp: wire_lengths)
  have t3: "unat ?t3 = length (bytes_wire 4 (cp_payload msg)) + length (int32_wire 1 (cp_seq msg)) + length (int32_wire 2 (cp_tick msg))"
    using le t2 b by (subst unat_add_if [where n = 11]) (auto simp: wire_lengths)
  have "unat ?t4 = length (ClientMsgProto_wire msg)"
    using le t3 b by (subst unat_add_if [where n = 11]) (auto simp: wire_lengths ClientMsgProto_wire_def)
  moreover have "fst (ClientMsgProto_ByteSizeLong L msg) = ?t4"
    using assms by (simp add: ClientMsgProto_ByteSizeLong_def Let_def size_law_def)
  ultimately show ?thesis by simp
qed

end
