(* ===== verification/Proto_Parse.thy ===== *)
theory Proto_Parse
  imports Proto_Messages
begin

text \<open>
  \<open>_InternalParse\<close> of the generated messages. On every input it returns and stays in bounds (the
  interpretations of \<open>message_parser\<close>); on the bytes that \<open>_InternalSerialize\<close> wrote it
  restores the fields. \<open>reads\<close> composes the parser field by field.
\<close>

section \<open>Parsing\<close>

lemma check_ptr_ok:
  assumes "tag_read c p (Some p') tag" "\<forall>q'. q = Some q' \<longrightarrow> p' < q' \<and> q' \<le> p' + 10"
  shows "step_ok c p (check_ptr msg q c)"
  using assms by (auto simp: step_ok_def check_ptr_def tag_read_def left_def kSlopBytes_def split: option.splits)

lemma varint_case_safe:
  assumes "varint_law L" "tag_read c p ptr tag" "tag \<noteq> 0"
  shows "\<exists>r. (do { p \<leftarrow> ptr; (q, v) \<leftarrow> ReadVarint32 L (is_buf c) p; Some (check_ptr (f v) q c) }) = Some r \<and> step_ok c p r"
    "\<exists>r. (do { p \<leftarrow> ptr; (q, v) \<leftarrow> ReadVarint64 L (is_buf c) p; Some (check_ptr (g v) q c) }) = Some r \<and> step_ok c p r"
proof -
  obtain p' where p': "ptr = Some p'" using assms(2,3) by (auto simp: tag_read_def split: option.splits)
  have l: "p' + 2 \<le> length (is_buf c)" using assms(2) p' by (auto simp: tag_read_def eis_wf_def kSlopBytes_def)
  obtain q v q2 v2 where
    v: "ReadVarint32 L (is_buf c) p' = Some (q, v)" "\<forall>q'. q = Some q' \<longrightarrow> p' < q' \<and> q' \<le> p' + 10"
      "ReadVarint64 L (is_buf c) p' = Some (q2, v2)" "\<forall>q'. q2 = Some q' \<longrightarrow> p' < q' \<and> q' \<le> p' + 10"
    using ReadVarint_safe [OF assms(1) l] by blast
  note t = assms(2) [unfolded p']
  show "\<exists>r. (do { p \<leftarrow> ptr; (q, v) \<leftarrow> ReadVarint32 L (is_buf c) p; Some (check_ptr (f v) q c) }) = Some r \<and> step_ok c p r"
    using p' v(1) check_ptr_ok [OF t v(2)] by simp
  show "\<exists>r. (do { p \<leftarrow> ptr; (q, v) \<leftarrow> ReadVarint64 L (is_buf c) p; Some (check_ptr (g v) q c) }) = Some r \<and> step_ok c p r"
    using p' v(3) check_ptr_ok [OF t v(4)] by simp
qed

lemma string_case_safe:
  assumes "string_law L" "tag_read c p ptr tag" "tag \<noteq> 0"
  shows "\<exists>r. (do { p \<leftarrow> ptr; (case pl_InlineGreedyStringParser L s0 p c of (s, q, c') \<Rightarrow> Some (check_ptr (f s) q c')) }) = Some r \<and> step_ok c p r"
proof -
  obtain p' where p': "ptr = Some p'" "p < p'" "p' \<le> p + 5" "eis_wf c" "p < is_buffer_end c"
    using assms(2,3) by (auto simp: tag_read_def split: option.splits)
  obtain s q c' where g: "pl_InlineGreedyStringParser L s0 p' c = (s, q, c')" by (cases "pl_InlineGreedyStringParser L s0 p' c")
  have "eis_wf c' \<and> x \<le> is_buffer_end c' + kSlopBytes \<and> left c' x < left c p" if "q = Some x" for x
  proof -
    have "eis_wf c \<and> p' \<le> is_buffer_end c + 5" using p' by simp
    then have "eis_wf c' \<and> x \<le> is_buffer_end c' + kSlopBytes \<and> left c' x < left c p'"
      using assms(1) g that unfolding string_law_def by blast
    moreover have "left c p' < left c p" using p' by (simp add: left_def)
    ultimately show ?thesis by linarith
  qed
  then show ?thesis using p'(1) g by (cases q) (auto simp: step_ok_def check_ptr_def)
qed

lemma HeartbeatProto_field_safe:
  assumes "pb_lib_law L" "tag_read c p q tag"
  shows "\<exists>r. HeartbeatProto_field L msg tag q c = Some r \<and> step_ok c p r"
proof (cases "tag = 0")
  case True
  then show ?thesis using handle_unusual_safe [of L] assms by (simp add: HeartbeatProto_field_def pb_lib_law_def)
next
  case False
  note v = varint_case_safe [OF _ assms(2) False, of L] and u = handle_unusual_safe [OF _ assms(2), of L msg]
  show ?thesis
    using v(1) [of "\<lambda>v. msg\<lparr>hp_client_id := v\<rparr>"] v(1) [of "\<lambda>v. msg\<lparr>hp_seq := v\<rparr>"] v(2) [of "\<lambda>v. msg\<lparr>hp_timestamp := v\<rparr>"] u assms(1)
    unfolding HeartbeatProto_field_def pb_lib_law_def by presburger
qed

lemma ClientMsgProto_field_safe:
  assumes "pb_lib_law L" "tag_read c p q tag"
  shows "\<exists>r. ClientMsgProto_field L msg tag q c = Some r \<and> step_ok c p r"
proof (cases "tag = 0")
  case True
  then show ?thesis using handle_unusual_safe [of L] assms by (simp add: ClientMsgProto_field_def pb_lib_law_def)
next
  case False
  note v = varint_case_safe [OF _ assms(2) False, of L] and u = handle_unusual_safe [OF _ assms(2), of L msg]
    and s = string_case_safe [OF _ assms(2) False, of L]
  show ?thesis
    using v(1) [of "\<lambda>v. msg\<lparr>cp_seq := v\<rparr>"] v(1) [of "\<lambda>v. msg\<lparr>cp_tick := v\<rparr>"] v(2) [of "\<lambda>v. msg\<lparr>cp_timestamp := v\<rparr>"] u
      s [of "\<lambda>s. msg\<lparr>cp_payload := s\<rparr>" "cp_payload msg"] assms(1)
    unfolding ClientMsgProto_field_def pb_lib_law_def by presburger
qed

interpretation hbp: message_parser L "HeartbeatProto_field L" for L :: "('u, 'l) pb_lib_scheme"
  by unfold_locales (rule HeartbeatProto_field_safe)

interpretation cmp: message_parser L "ClientMsgProto_field L" for L :: "('u, 'l) pb_lib_scheme"
  by unfold_locales (rule ClientMsgProto_field_safe)

section \<open>Reading back\<close>

text \<open>
  \<open>reads L field msg wire msg'\<close>: on a stream that begins with \<open>wire\<close> the loop goes from \<open>msg\<close>
  to \<open>msg'\<close> and to the rest of the stream.
\<close>

definition reads :: "('u, 'l) pb_lib_scheme \<Rightarrow> ('m \<Rightarrow> u32 \<Rightarrow> nat option \<Rightarrow> eis \<Rightarrow> 'm pstep option) \<Rightarrow> 'm \<Rightarrow> bytes \<Rightarrow> 'm \<Rightarrow> bool" where
  "reads L field msg wire msg' \<longleftrightarrow> (\<forall>c p xs. eis_at c p (wire @ xs) \<and> p \<le> is_buffer_end c + kSlopBytes \<longrightarrow>
     (\<exists>q c'. parse_loop L field msg p c = parse_loop L field msg' q c' \<and> eis_at c' q xs \<and>
        q \<le> is_buffer_end c' + kSlopBytes \<and> is_last_tag_minus_1 c' = is_last_tag_minus_1 c))"

lemma reads_nothing: "reads L field msg [] msg"
  by (auto simp: reads_def)

lemma reads_append:
  assumes "reads L field m1 xs m2" "reads L field m2 ys m3"
  shows "reads L field m1 (xs @ ys) m3"
  unfolding reads_def
proof (intro allI impI, elim conjE)
  fix c p zs assume h: "eis_at c p ((xs @ ys) @ zs)" "p \<le> is_buffer_end c + kSlopBytes"
  obtain q c1 where 1: "parse_loop L field m1 p c = parse_loop L field m2 q c1" "eis_at c1 q (ys @ zs)"
      "q \<le> is_buffer_end c1 + kSlopBytes" "is_last_tag_minus_1 c1 = is_last_tag_minus_1 c"
    using assms(1) h unfolding reads_def append.assoc by blast
  obtain q' c2 where "parse_loop L field m2 q c1 = parse_loop L field m3 q' c2" "eis_at c2 q' zs"
      "q' \<le> is_buffer_end c2 + kSlopBytes" "is_last_tag_minus_1 c2 = is_last_tag_minus_1 c1"
    using assms(2) 1(2,3) unfolding reads_def by blast
  then show "\<exists>q c'. parse_loop L field m1 p c = parse_loop L field m3 q c' \<and> eis_at c' q zs \<and>
      q \<le> is_buffer_end c' + kSlopBytes \<and> is_last_tag_minus_1 c' = is_last_tag_minus_1 c" using 1 by auto
qed

lemma reads_tag:
  assumes "pb_lib_law L" "t < 128"
    and step: "\<And>c q xs. eis_at c q (wire @ xs) \<Longrightarrow> q \<le> is_buffer_end c \<Longrightarrow> \<exists>q' c2. field msg (word_of_nat t) (Some q) c
       = Some (Continue msg' q' c2) \<and> eis_at c2 q' xs \<and> q' \<le> is_buffer_end c2 + kSlopBytes \<and> is_last_tag_minus_1 c2 = is_last_tag_minus_1 c"
  shows "reads L field msg (varint t @ wire) msg'"
  unfolding reads_def
proof (intro allI impI, elim conjE)
  fix c p xs assume h: "eis_at c p ((varint t @ wire) @ xs)" "p \<le> is_buffer_end c + kSlopBytes"
  then have "eis_at c p (varint t @ (wire @ xs))" by simp
  from parse_loop_field [OF assms(1) this assms(2) h(2), of field msg msg' xs] step
  show "\<exists>q c'. parse_loop L field msg p c = parse_loop L field msg' q c' \<and> eis_at c' q xs \<and>
      q \<le> is_buffer_end c' + kSlopBytes \<and> is_last_tag_minus_1 c' = is_last_tag_minus_1 c" by blast
qed

lemma eis_at_bound: "eis_at c p xs \<Longrightarrow> p \<le> is_buffer_end c + kSlopBytes"
  by (auto simp: eis_at_def eis_wf_def left_def split: if_splits)

lemma unat_u64_bound [simp]: "unat (w :: u64) < 18446744073709551616"
  using unsigned_less [of w, where ?'a = nat] by simp

lemma reads_varint:
  assumes "pb_lib_law L" "unat (MakeTag num WIRETYPE_VARINT) = t" "t < 128"
    and "(\<forall>q c. field msg (word_of_nat t) (Some q) c = (do { (q, v) \<leftarrow> ReadVarint32 L (is_buf c) q; Some (check_ptr (f v) q c) })) \<and>
         msg' = f (word_of_nat (unat w)) \<or>
         (\<forall>q c. field msg (word_of_nat t) (Some q) c = (do { (q, v) \<leftarrow> ReadVarint64 L (is_buf c) q; Some (check_ptr (g v) q c) })) \<and>
         msg' = g w"
  shows "reads L field msg (varint_field num w) msg'"
  unfolding varint_field_def assms(2)
proof (rule reads_tag [OF assms(1,3)])
  fix c q xs assume h: "eis_at c q (varint (unat w) @ xs)" "q \<le> is_buffer_end c"
  have "varint_law L" using assms(1) by (simp add: pb_lib_law_def)
  note r = ReadVarint_at [OF this h(1) unat_u64_bound h(2)]
  let ?q = "q + length (varint (unat w))"
  have "field msg (word_of_nat t) (Some q) c = Some (Continue msg' ?q c)"
    using assms(4) r(1,2) by (auto simp: check_ptr_def)
  then show "\<exists>q' c2. field msg (word_of_nat t) (Some q) c = Some (Continue msg' q' c2) \<and> eis_at c2 q' xs \<and>
      q' \<le> is_buffer_end c2 + kSlopBytes \<and> is_last_tag_minus_1 c2 = is_last_tag_minus_1 c"
    using r(3) eis_at_bound by blast
qed

lemma scast_back: "(word_of_nat (unat (scast (v :: u32) :: u64)) :: u32) = v"
proof -
  have "(ucast (scast v :: u64) :: u32) = v" by (rule bit_word_eqI) (auto simp: bit_simps)
  then show ?thesis by (simp only: ucast_word_of_nat)
qed

lemma reads_bytes:
  assumes "pb_lib_law L" "unat (MakeTag num WIRETYPE_LENGTH_DELIMITED) = t" "t < 128" "length s < 2147483632"
    and f: "\<And>q c. field msg (word_of_nat t) (Some q) c
       = (case pl_InlineGreedyStringParser L s0 q c of (s, q, c') \<Rightarrow> Some (check_ptr (f s) q c'))"
  shows "reads L field msg (bytes_field num s) (f s)"
  unfolding bytes_field_def assms(2)
proof (rule reads_tag [OF assms(1,3)])
  fix c q xs assume h: "eis_at c q ((varint (length s) @ s) @ xs)" "q \<le> is_buffer_end c"
  have "string_law L" "eis_wf c \<and> q \<le> is_buffer_end c + 5" using assms(1) h by (auto simp: pb_lib_law_def eis_at_def)
  then obtain q' c' where "pl_InlineGreedyStringParser L s0 q c = (s, Some q', c')" "eis_at c' q' xs"
      "is_last_tag_minus_1 c' = is_last_tag_minus_1 c"
    using assms(4) h(1) unfolding string_law_def append.assoc by blast
  then show "\<exists>q' c2. field msg (word_of_nat t) (Some q) c = Some (Continue (f s) q' c2) \<and> eis_at c2 q' xs \<and>
      q' \<le> is_buffer_end c2 + kSlopBytes \<and> is_last_tag_minus_1 c2 = is_last_tag_minus_1 c"
    using eis_at_bound f by (auto simp: check_ptr_def)
qed

text \<open>A field that is left out when it has its default value.\<close>

lemma reads_int32:
  assumes "pb_lib_law L" "unat (MakeTag num WIRETYPE_VARINT) = t" "t < 128" "upd 0 = msg"
    and "\<And>q c. field msg (word_of_nat t) (Some q) c = (do { (q, v) \<leftarrow> ReadVarint32 L (is_buf c) q; Some (check_ptr (upd v) q c) })"
  shows "reads L field msg (int32_wire num v) (upd v)"
proof (cases "v = 0")
  case False
  have "reads L field msg (varint_field num (scast v)) (upd v)"
    by (rule reads_varint [OF assms(1-3), where f = upd]) (simp only: assms(5) scast_back, simp)
  then show ?thesis using False by (simp add: int32_wire_def)
qed (simp add: int32_wire_def assms(4) reads_nothing)

lemma reads_int64:
  assumes "pb_lib_law L" "unat (MakeTag num WIRETYPE_VARINT) = t" "t < 128" "upd 0 = msg"
    and "\<And>q c. field msg (word_of_nat t) (Some q) c = (do { (q, v) \<leftarrow> ReadVarint64 L (is_buf c) q; Some (check_ptr (upd v) q c) })"
  shows "reads L field msg (int64_wire num v) (upd v)"
proof (cases "v = 0")
  case False
  have "reads L field msg (varint_field num v) (upd v)"
    by (rule reads_varint [OF assms(1-3), where g = upd]) (simp add: assms(5))
  then show ?thesis using False by (simp add: int64_wire_def)
qed (simp add: int64_wire_def assms(4) reads_nothing)

lemma reads_payload:
  assumes "pb_lib_law L" "unat (MakeTag num WIRETYPE_LENGTH_DELIMITED) = t" "t < 128" "length s < 2147483632" "upd [] = msg"
    and "\<And>q c. field msg (word_of_nat t) (Some q) c
       = (case pl_InlineGreedyStringParser L s0 q c of (s, q, c') \<Rightarrow> Some (check_ptr (upd s) q c'))"
  shows "reads L field msg (bytes_wire num s) (upd s)"
proof (cases "s = []")
  case False
  have "reads L field msg (bytes_field num s) (upd s)" by (rule reads_bytes [OF assms(1-4)]) (rule assms(6))
  then show ?thesis using False by (simp add: bytes_wire_def)
qed (simp add: bytes_wire_def assms(5) reads_nothing)

lemma HeartbeatProto_reads:
  assumes law: "pb_lib_law L" and z: "hp_client_id m0 = 0" "hp_seq m0 = 0" "hp_timestamp m0 = 0"
  shows "reads L (HeartbeatProto_field L) m0 (HeartbeatProto_wire msg)
     (m0\<lparr>hp_client_id := hp_client_id msg, hp_seq := hp_seq msg, hp_timestamp := hp_timestamp msg\<rparr>)"
proof -
  let ?F = "HeartbeatProto_field L"
  have 1: "reads L ?F m (int32_wire 1 v) (m\<lparr>hp_client_id := v\<rparr>)" if "hp_client_id m = 0" for m v
    using that by (intro reads_int32 [OF law, where t = 8]) (simp_all add: HeartbeatProto_field_def)
  have 2: "reads L ?F m (int32_wire 2 v) (m\<lparr>hp_seq := v\<rparr>)" if "hp_seq m = 0" for m v
    using that by (intro reads_int32 [OF law, where t = 16]) (simp_all add: HeartbeatProto_field_def)
  have 3: "reads L ?F m (int64_wire 3 v) (m\<lparr>hp_timestamp := v\<rparr>)" if "hp_timestamp m = 0" for m v
    using that by (intro reads_int64 [OF law, where t = 24]) (simp_all add: HeartbeatProto_field_def)
  show ?thesis unfolding HeartbeatProto_wire_def by (intro reads_append, rule 1, simp add: z, rule 2, simp add: z, rule 3, simp add: z)
qed

lemma ClientMsgProto_reads:
  assumes law: "pb_lib_law L" and z: "cp_payload m0 = []" "cp_seq m0 = 0" "cp_tick m0 = 0" "cp_timestamp m0 = 0"
    and l: "length (cp_payload msg) < 2147483632"
  shows "reads L (ClientMsgProto_field L) m0 (ClientMsgProto_wire msg)
     (m0\<lparr>cp_seq := cp_seq msg, cp_tick := cp_tick msg, cp_timestamp := cp_timestamp msg, cp_payload := cp_payload msg\<rparr>)"
proof -
  let ?F = "ClientMsgProto_field L"
  have 1: "reads L ?F m (int32_wire 1 v) (m\<lparr>cp_seq := v\<rparr>)" if "cp_seq m = 0" for m v
    using that by (intro reads_int32 [OF law, where t = 8]) (simp_all add: ClientMsgProto_field_def)
  have 2: "reads L ?F m (int32_wire 2 v) (m\<lparr>cp_tick := v\<rparr>)" if "cp_tick m = 0" for m v
    using that by (intro reads_int32 [OF law, where t = 16]) (simp_all add: ClientMsgProto_field_def)
  have 3: "reads L ?F m (int64_wire 3 v) (m\<lparr>cp_timestamp := v\<rparr>)" if "cp_timestamp m = 0" for m v
    using that by (intro reads_int64 [OF law, where t = 24]) (simp_all add: ClientMsgProto_field_def)
  have 4: "reads L ?F m (bytes_wire 4 (cp_payload msg)) (m\<lparr>cp_payload := cp_payload msg\<rparr>)" if "cp_payload m = []" for m
    using that l by (intro reads_payload [OF law, where t = 34]) (simp_all add: ClientMsgProto_field_def)
  show ?thesis unfolding ClientMsgProto_wire_def
    by (intro reads_append, rule 1, simp add: z, rule 2, simp add: z, rule 3, simp add: z, rule 4, simp add: z)
qed

text \<open>The loop on an array that holds exactly the fields.\<close>

lemma reads_all:
  assumes "reads L field msg d msg'" "EpsCopyInputStream_InitFrom d = (p, c)"
  shows "\<exists>q c'. parse_loop L field msg p c = Some (msg', Some q, c') \<and> EndedAtLimit c'"
proof -
  note i = InitFrom_at [OF assms(2)]
  have "p \<le> is_buffer_end c + kSlopBytes" using i(2) by simp
  then obtain q c' where "parse_loop L field msg p c = parse_loop L field msg' q c'" "eis_at c' q []" "is_last_tag_minus_1 c' = 0"
    using assms(1) i unfolding reads_def by (metis append_Nil2)
  then show ?thesis by (auto simp: parse_loop_end EndedAtLimit_def)
qed

text \<open>Writing a message into an array of the computed size and parsing the array.\<close>

definition HeartbeatProto_restored :: "('u, 'l) pb_lib_scheme \<Rightarrow> 'u HeartbeatProto \<Rightarrow> bytes \<Rightarrow> bool" where
  "HeartbeatProto_restored L msg d \<longleftrightarrow> (\<forall>p c. EpsCopyInputStream_InitFrom d = (p, c) \<longrightarrow>
     (\<exists>m' q c'. HeartbeatProto_InternalParse L HeartbeatProto_new p c = Some (m', Some q, c') \<and> EndedAtLimit c' \<and>
        HeartbeatProto_fields m' = HeartbeatProto_fields msg))"

definition ClientMsgProto_restored :: "('u, 'l) pb_lib_scheme \<Rightarrow> 'u ClientMsgProto \<Rightarrow> bytes \<Rightarrow> bool" where
  "ClientMsgProto_restored L msg d \<longleftrightarrow> (\<forall>p c. EpsCopyInputStream_InitFrom d = (p, c) \<longrightarrow>
     (\<exists>m' q c'. ClientMsgProto_InternalParse L ClientMsgProto_new p c = Some (m', Some q, c') \<and> EndedAtLimit c' \<and>
        ClientMsgProto_fields m' = ClientMsgProto_fields msg))"

lemma HeartbeatProto_write_parse:
  assumes "pb_lib_law L" "msg_unknown msg = None" "length a = unat (fst (HeartbeatProto_ByteSizeLong L msg))"
  shows "HeartbeatProto_InternalSerialize L msg (EpsCopyOutputStream_array (length a), a, 0)
     = Some (EpsCopyOutputStream_array (length a), HeartbeatProto_wire msg, length a)"
    and "length (HeartbeatProto_wire msg) = length a"
    and "HeartbeatProto_restored L msg (HeartbeatProto_wire msg)"
proof -
  have "size_law L" using assms(1) by (simp add: pb_lib_law_def)
  from HeartbeatProto_size [OF this assms(2)] show n: "length (HeartbeatProto_wire msg) = length a" using assms(3) by simp
  show "HeartbeatProto_InternalSerialize L msg (EpsCopyOutputStream_array (length a), a, 0)
     = Some (EpsCopyOutputStream_array (length a), HeartbeatProto_wire msg, length a)"
    using writesD [OF HeartbeatProto_writes [OF assms(2), of L], of "EpsCopyOutputStream_array (length a)" a 0] n
    by (simp add: EpsCopyOutputStream_array_def overwrite_all)
  have "reads L (HeartbeatProto_field L) HeartbeatProto_new (HeartbeatProto_wire msg)
      (HeartbeatProto_new\<lparr>hp_client_id := hp_client_id msg, hp_seq := hp_seq msg, hp_timestamp := hp_timestamp msg\<rparr>)"
    using assms(1) by (intro HeartbeatProto_reads) (simp_all add: HeartbeatProto_new_def)
  from reads_all [OF this] show "HeartbeatProto_restored L msg (HeartbeatProto_wire msg)"
    by (fastforce simp: HeartbeatProto_restored_def HeartbeatProto_InternalParse_def HeartbeatProto_fields_def)
qed

lemma ClientMsgProto_write_parse:
  assumes "pb_lib_law L" "msg_unknown msg = None" "length (cp_payload msg) < 2147483632"
    and "length a = unat (fst (ClientMsgProto_ByteSizeLong L msg))"
  shows "ClientMsgProto_InternalSerialize L msg (EpsCopyOutputStream_array (length a), a, 0)
     = Some (EpsCopyOutputStream_array (length a), ClientMsgProto_wire msg, length a)"
    and "length (ClientMsgProto_wire msg) = length a"
    and "ClientMsgProto_restored L msg (ClientMsgProto_wire msg)"
proof -
  have laws: "size_law L" "outline_law L" using assms(1) by (auto simp: pb_lib_law_def)
  from ClientMsgProto_size [OF laws(1) assms(2)] show n: "length (ClientMsgProto_wire msg) = length a" using assms(3,4) by simp
  show "ClientMsgProto_InternalSerialize L msg (EpsCopyOutputStream_array (length a), a, 0)
     = Some (EpsCopyOutputStream_array (length a), ClientMsgProto_wire msg, length a)"
    using writesD [OF ClientMsgProto_writes [OF laws(2) assms(2)], of "EpsCopyOutputStream_array (length a)" a 0] n assms(3)
    by (simp add: EpsCopyOutputStream_array_def overwrite_all)
  have "reads L (ClientMsgProto_field L) ClientMsgProto_new (ClientMsgProto_wire msg)
      (ClientMsgProto_new\<lparr>cp_seq := cp_seq msg, cp_tick := cp_tick msg, cp_timestamp := cp_timestamp msg, cp_payload := cp_payload msg\<rparr>)"
    using assms(1,3) by (intro ClientMsgProto_reads) (simp_all add: ClientMsgProto_new_def)
  from reads_all [OF this] show "ClientMsgProto_restored L msg (ClientMsgProto_wire msg)"
    by (fastforce simp: ClientMsgProto_restored_def ClientMsgProto_InternalParse_def ClientMsgProto_fields_def)
qed

section \<open>Properties\<close>

text \<open>
  C18: parsing is total: whatever bytes arrive, \<open>_InternalParse\<close> of both messages returns, as
  a success or an error; neither the generated code nor the inline code of the runtime it calls
  loops or reads outside its buffers. The compiled functions of the runtime are a parameter, of
  which \<open>pb_lib_law\<close> is assumed; what they read inside is not part of the claim.
\<close>

theorem InternalParse_total:
  assumes "pb_lib_law L" "EpsCopyInputStream_InitFrom d = (p, c)"
  shows "(\<exists>r. HeartbeatProto_InternalParse L hb p c = Some r) \<and> (\<exists>r. ClientMsgProto_InternalParse L cm p c = Some r)"
proof -
  have "eis_wf c" "p \<le> is_buffer_end c + kSlopBytes" using InitFrom_at [OF assms(2)] by (auto simp: eis_at_def)
  then show ?thesis
    unfolding HeartbeatProto_InternalParse_def ClientMsgProto_InternalParse_def
    using hbp.parse_returns [OF assms(1)] cmp.parse_returns [OF assms(1)] by blast
qed

theorem InternalParse_total_witness:
  "\<exists>r. ClientMsgProto_InternalParse flat_lib ClientMsgProto_new (fst (EpsCopyInputStream_InitFrom [8, 255, 255, 34, 200]))
     (snd (EpsCopyInputStream_InitFrom [8, 255, 255, 34, 200])) = Some r"
  using InternalParse_total [OF flat_lib_law, of "[8, 255, 255, 34, 200]"] by (simp add: prod_eq_iff)

text \<open>
  C17: the generated code round-trips. \<open>_InternalSerialize\<close> fills an array of \<open>ByteSizeLong\<close>
  bytes exactly, and \<open>_InternalParse\<close> of those bytes into a new message succeeds at the end of the array
  with the same field values, for all values of the fields, negative numbers included, as long as
  the payload field has less than 2147483632 bytes and the messages carry no unknown fields.
\<close>

theorem messages_roundtrip:
  assumes "pb_lib_law L" "msg_unknown hb = None" "msg_unknown cm = None" "length (cp_payload cm) < 2147483632"
    and "length a = unat (fst (HeartbeatProto_ByteSizeLong L hb))" "length b = unat (fst (ClientMsgProto_ByteSizeLong L cm))"
  shows "(\<exists>d. HeartbeatProto_InternalSerialize L hb (EpsCopyOutputStream_array (length a), a, 0)
        = Some (EpsCopyOutputStream_array (length a), d, length a) \<and> length d = length a \<and> HeartbeatProto_restored L hb d) \<and>
     (\<exists>d. ClientMsgProto_InternalSerialize L cm (EpsCopyOutputStream_array (length b), b, 0)
        = Some (EpsCopyOutputStream_array (length b), d, length b) \<and> length d = length b \<and> ClientMsgProto_restored L cm d)"
  using HeartbeatProto_write_parse [OF assms(1,2,5)] ClientMsgProto_write_parse [OF assms(1,3,4,6)] by blast

theorem messages_roundtrip_witness:
  "\<exists>n d. ClientMsgProto_InternalSerialize flat_lib (ClientMsgProto_set_payload [1, 2] (ClientMsgProto_set_seq 4294967295 ClientMsgProto_new))
        (EpsCopyOutputStream_array n, replicate n 0, 0) = Some (EpsCopyOutputStream_array n, d, n) \<and> length d = n \<and>
      ClientMsgProto_restored flat_lib (ClientMsgProto_set_payload [1, 2] (ClientMsgProto_set_seq 4294967295 ClientMsgProto_new)) d"
proof -
  let ?hb = "HeartbeatProto_new :: flat_unknown HeartbeatProto"
  let ?cm = "ClientMsgProto_set_payload [1, 2] (ClientMsgProto_set_seq 4294967295 ClientMsgProto_new) :: flat_unknown ClientMsgProto"
  let ?n = "unat (fst (ClientMsgProto_ByteSizeLong flat_lib ?cm))"
  have "msg_unknown ?hb = None" "msg_unknown ?cm = None" "length (cp_payload ?cm) < 2147483632"
    by (simp_all add: HeartbeatProto_new_def ClientMsgProto_new_def ClientMsgProto_set_payload_def ClientMsgProto_set_seq_def)
  from messages_roundtrip [OF flat_lib_law this, of "replicate (unat (fst (HeartbeatProto_ByteSizeLong flat_lib ?hb))) 0" "replicate ?n 0"]
  show ?thesis by (metis length_replicate)
qed

end
