(* ===== verification/Pod_Codec.thy ===== *)
theory Pod_Codec
  imports Recv_Loop
begin

text \<open>
  \<open>PodCodec<T>\<close> of \<open>include/shm_ipc/pod_codec.hpp\<close>: messages are the object bytes of a
  trivially copyable type behind a 4-byte type tag. The type \<open>T\<close> is its registered tag
  \<open>TypeTag<T>::value\<close> and its size; an object is a byte string of that size.
\<close>

section \<open>The model\<close>

record pod_type =
  pt_tag :: u32
  pt_size :: nat

definition kTagSize :: u32 where "kTagSize = 4"

definition CheckTag :: "pod_type \<Rightarrow> bytes \<Rightarrow> u32 \<Rightarrow> bool option" where
  "CheckTag T payload payload_len =
     (if payload_len < kTagSize then Some False
      else do {
        t \<leftarrow> mem_read payload 0 (unat kTagSize);
        Some (bytes_u32 t = pt_tag T)
      })"

text \<open>The data pointer is returned as an offset from the payload pointer.\<close>

definition PodCodec_DecodePayload :: "pod_type \<Rightarrow> bytes \<Rightarrow> u32 \<Rightarrow> (nat \<times> u32) option option" where
  "PodCodec_DecodePayload T payload payload_len = do {
     ok \<leftarrow> CheckTag T payload payload_len;
     Some (if ok then Some (unat kTagSize, payload_len - kTagSize) else None)
   }"

definition PodCodec_Decode :: "pod_type \<Rightarrow> bytes \<Rightarrow> u32 \<Rightarrow> (nat \<times> u32 \<times> u32) option option" where
  "PodCodec_Decode T buf buf_len = do {
     r \<leftarrow> Decode buf buf_len;
     (case r of
        None \<Rightarrow> Some None
      | Some (off, raw_len, seq) \<Rightarrow> do {
          ok \<leftarrow> CheckTag T (drop off buf) raw_len;
          Some (if ok then Some (off + unat kTagSize, raw_len - kTagSize, seq) else None)
        })
   }"

text \<open>\<open>snprintf\<close> with the format \<open>0x%08X\<close>.\<close>

definition hex_digit :: "nat \<Rightarrow> char" where
  "hex_digit d = ''0123456789ABCDEF'' ! (d mod 16)"

definition PodCodec_TypeName :: "pod_type \<Rightarrow> string" where
  "PodCodec_TypeName T = ''0x'' @ map (\<lambda>i. hex_digit (unat (pt_tag T) div 16 ^ (7 - i))) [0..<8]"

definition PodCodec_EncodeTo :: "pod_type \<Rightarrow> bytes \<Rightarrow> bytes \<Rightarrow> u32 \<Rightarrow> u32 \<Rightarrow> (u32 \<times> bytes) option" where
  "PodCodec_EncodeTo T obj buf buf_size seq =
     (let payload_len = kTagSize + word_of_nat (pt_size T) in do {
        (p, buf1) \<leftarrow> EncodeFrame buf buf_size payload_len seq;
        (case p of
           None \<Rightarrow> Some (0, buf1)
         | Some off \<Rightarrow> do {
             buf2 \<leftarrow> mem_write buf1 off (u32_bytes (pt_tag T));
             src \<leftarrow> mem_read obj 0 (pt_size T);
             buf3 \<leftarrow> mem_write buf2 (off + unat kTagSize) src;
             Some (kMsgHeaderSize + payload_len, buf3)
           })
      })"

definition PodCodec_DecodeFrom :: "pod_type \<Rightarrow> bytes \<Rightarrow> u32 \<Rightarrow> bytes option option" where
  "PodCodec_DecodeFrom T payload payload_len =
     (if unat payload_len \<noteq> pt_size T then Some None
      else do {
        d \<leftarrow> mem_read payload 0 (pt_size T);
        Some (Some d)
      })"

text \<open>The lambda of \<open>Send\<close> and \<open>SendBatch\<close>: the tag, then the object.\<close>

definition Pod_payload :: "nat \<Rightarrow> pod_type \<Rightarrow> bytes \<Rightarrow> payload_fn" where
  "Pod_payload cap T obj s = do {
     (_, s1) \<leftarrow> ChannelBatchWriter_TryWrite cap s (Some (u32_bytes (pt_tag T))) kTagSize;
     (_, s2) \<leftarrow> ChannelBatchWriter_TryWrite cap s1 (Some obj) (word_of_nat (pt_size T));
     Some (True, s2)
   }"

definition PodCodec_Send :: "nat \<Rightarrow> pod_type \<Rightarrow> channel \<Rightarrow> bytes \<Rightarrow> u32 \<Rightarrow> (int outcome \<times> channel) option" where
  "PodCodec_Send cap T ch obj seq =
     SendFrame cap ch (kTagSize + word_of_nat (pt_size T)) seq (Pod_payload cap T obj)"

definition PodCodec_SendBatch ::
    "nat \<Rightarrow> pod_type \<Rightarrow> chan_batch \<Rightarrow> bytes \<Rightarrow> u32 \<Rightarrow> (int outcome \<times> chan_batch) option" where
  "PodCodec_SendBatch cap T s obj seq =
     SendFrameBatch cap s (kTagSize + word_of_nat (pt_size T)) seq (Pod_payload cap T obj)"

text \<open>
  What the body of the loop of \<open>Recv\<close> makes of a payload: \<open>None\<close> for a read outside the
  payload, \<open>Some None\<close> for a frame that is dropped, the object bytes copied to \<open>*out\<close>
  otherwise.
\<close>

definition Pod_dec :: "pod_type \<Rightarrow> bytes \<Rightarrow> bytes option option" where
  "Pod_dec T payload = do {
     r \<leftarrow> PodCodec_DecodePayload T payload (word_of_nat (length payload));
     (case r of
        None \<Rightarrow> Some None
      | Some (off, data_len) \<Rightarrow>
          if unat data_len \<noteq> pt_size T then Some None
          else do {
            d \<leftarrow> mem_read payload off (pt_size T);
            Some (Some d)
          })
   }"

definition PodCodec_Recv :: "nat \<Rightarrow> pod_type \<Rightarrow> channel \<times> frame_reader
    \<Rightarrow> (int \<times> bytes option \<times> channel \<times> frame_reader) option" where
  "PodCodec_Recv cap T s = Recv_loop cap (Pod_dec T) s"

definition PodCodec_Commit :: "channel \<times> frame_reader \<Rightarrow> (channel \<times> frame_reader) option" where
  "PodCodec_Commit s = FrameReader_Commit s"

section \<open>Encoding and decoding a payload\<close>

definition Pod_enc :: "pod_type \<Rightarrow> bytes \<Rightarrow> bytes" where
  "Pod_enc T obj = u32_bytes (pt_tag T) @ obj"

definition Pod_valid :: "pod_type \<Rightarrow> bytes \<Rightarrow> bool" where
  "Pod_valid T obj \<longleftrightarrow> length obj = pt_size T \<and> pt_size T + 12 < 4294967296"

lemma length_Pod_enc [simp]: "length (Pod_enc T obj) = 4 + length obj"
  by (simp add: Pod_enc_def)

text \<open>Decoding stays inside the payload, whatever its length and bytes are.\<close>

lemma Pod_dec_safe: "Pod_dec T payload \<noteq> None"
proof -
  let ?n = "word_of_nat (length payload) :: u32"
  have n: "unat ?n \<le> length payload" by (rule unat_word_length_le)
  have "unat (?n - 4) = unat ?n - 4" if "\<not> ?n < 4"
    using that by (subst unat_sub) (simp_all add: word_le_nat_alt word_less_nat_alt)
  with n show ?thesis
    by (auto simp: Pod_dec_def PodCodec_DecodePayload_def CheckTag_def kTagSize_def mem_read_def word_less_nat_alt
        split: Option.bind_splits if_splits)
qed

lemma Pod_dec_iff:
  assumes "length payload < 4294967296"
  shows "Pod_dec T payload = Some (Some obj) \<longleftrightarrow> payload = Pod_enc T obj \<and> length obj = pt_size T"
proof -
  have n: "unat (word_of_nat (length payload) :: u32) = length payload" using assms by (rule unat_of_nat_u32)
  show ?thesis
  proof (cases "length payload < 4")
    case True
    then show ?thesis
      using n by (auto simp: Pod_dec_def PodCodec_DecodePayload_def CheckTag_def kTagSize_def word_less_nat_alt)
  next
    case False
    have d: "unat (word_of_nat (length payload) - kTagSize :: u32) = length payload - 4"
      using n False by (subst unat_sub) (simp_all add: kTagSize_def word_le_nat_alt)
    have "\<not> (word_of_nat (length payload) :: u32) < kTagSize"
      using n False by (simp add: kTagSize_def word_less_nat_alt)
    moreover have "mem_read payload 0 (unat kTagSize) = Some (take 4 payload)"
      using False by (simp add: kTagSize_def)
    moreover have "bytes_u32 (take 4 payload) = pt_tag T \<longleftrightarrow> take 4 payload = u32_bytes (pt_tag T)"
      using False u32_bytes_bytes [of "take 4 payload"] by fastforce
    ultimately have "Pod_dec T payload = Some (if take 4 payload = u32_bytes (pt_tag T) \<and> length payload - 4 = pt_size T
        then Some (drop 4 payload) else None)"
      using d False by (auto simp: Pod_dec_def PodCodec_DecodePayload_def CheckTag_def mem_read_def kTagSize_def)
    moreover have "payload = Pod_enc T obj \<longleftrightarrow> take 4 payload = u32_bytes (pt_tag T) \<and> drop 4 payload = obj"
      by (metis Pod_enc_def append_eq_conv_conj append_take_drop_id length_u32_bytes)
    ultimately show ?thesis by auto
  qed
qed

interpretation podc: payload_codec "Pod_valid T" "Pod_enc T" "Pod_dec T" for T :: pod_type
proof
  fix T x assume "Pod_valid T x"
  then show "Pod_dec T (Pod_enc T x) = Some (Some x)"
    by (subst Pod_dec_iff) (auto simp: Pod_valid_def)
qed (rule Pod_dec_safe)

section \<open>The payload callback\<close>

lemma Pod_payload_appends:
  assumes wf: "cbw_wf cap s" and sz: "length obj = pt_size T"
  shows "\<exists>s' xs. Pod_payload cap T obj s = Some (True, s') \<and> cbw_appends cap s xs s' \<and>
     (pt_size T \<le> max_write_size cap \<longrightarrow> cb_used (snd s) + 4 + pt_size T \<le> cap \<longrightarrow> xs = Pod_enc T obj)"
proof -
  obtain ch w where s: "s = (ch, w)" by (cases s)
  have cap: "1024 \<le> cap" "cap < 4294967296" using batch_wfD(7,8) [OF cbw_wf_batch] wf s by blast+
  let ?n = "word_of_nat (pt_size T) :: u32"
  have le: "unat ?n \<le> length obj" using unat_word_length_le [of obj] sz by simp
  have n: "unat ?n = pt_size T" if "pt_size T \<le> max_write_size cap"
    using that cap by (intro unat_of_nat_u32) (simp add: max_write_size_def)
  have mx4: "unat kTagSize = 4" "4 \<le> max_write_size cap" using cap by (auto simp: kTagSize_def max_write_size_def)
  from cbw_TryWrite_maybe [OF wf, of kTagSize "u32_bytes (pt_tag T)"] mx4 s obtain s1 rc1 xs1 where
    t: "ChannelBatchWriter_TryWrite cap s (Some (u32_bytes (pt_tag T))) kTagSize = Some (rc1, s1)"
      "cbw_appends cap s xs1 s1" "cb_used w + 4 \<le> cap \<longrightarrow> xs1 = u32_bytes (pt_tag T)" by auto
  obtain ch1 w1 where s1: "s1 = (ch1, w1)" by (cases s1)
  have u1: "cb_used w1 = cb_used w + length xs1" using cbw_appends_used [of cap ch w xs1 ch1 w1] wf t(2) s s1 by simp
  from cbw_TryWrite_maybe [OF cbw_appends_wf [OF t(2)] le] n sz s1 obtain s2 rc2 xs2 where
    o: "ChannelBatchWriter_TryWrite cap s1 (Some obj) ?n = Some (rc2, s2)" "cbw_appends cap s1 xs2 s2"
      "pt_size T \<le> max_write_size cap \<longrightarrow> cb_used w1 + pt_size T \<le> cap \<longrightarrow> xs2 = obj" by fastforce
  have "Pod_payload cap T obj s = Some (True, s2)" using t o by (simp add: Pod_payload_def)
  moreover have "cbw_appends cap s (xs1 @ xs2) s2" using t(2) o(2) by (rule cbw_appends_trans)
  moreover have "pt_size T \<le> max_write_size cap \<longrightarrow> cb_used (snd s) + 4 + pt_size T \<le> cap \<longrightarrow> xs1 @ xs2 = Pod_enc T obj"
    using t(3) o(3) u1 s by (auto simp: Pod_enc_def)
  ultimately show ?thesis by blast
qed

interpretation podp: exact_payload_writer cap "Pod_payload cap \<lparr>pt_tag = tag, pt_size = length obj\<rparr> obj"
  "Pod_enc \<lparr>pt_tag = tag, pt_size = length obj\<rparr> obj" "max_write_size cap + 4"
  for cap :: nat and tag :: u32 and obj :: bytes
proof unfold_locales
  fix cap :: nat and tag :: u32 and obj :: bytes and s :: chan_batch
  let ?T = "\<lparr>pt_tag = tag, pt_size = length obj\<rparr>"
  assume wf: "cbw_wf cap s"
  note ap = Pod_payload_appends [OF wf, of obj ?T]
  show "\<exists>ok s' xs. Pod_payload cap ?T obj s = Some (ok, s') \<and> cbw_appends cap s xs s'" using ap by auto
  assume "length (Pod_enc ?T obj) \<le> max_write_size cap + 4" "cb_used (snd s) + length (Pod_enc ?T obj) \<le> cap"
  then show "\<exists>s'. Pod_payload cap ?T obj s = Some (True, s') \<and> cbw_appends cap s (Pod_enc ?T obj) s'"
    using ap by auto
qed

lemma PodCodec_Send_cases:
  assumes wf: "ring_wf cap (ch_wr ch)" and v: "Pod_valid T obj" and mx: "pt_size T \<le> max_write_size cap"
  shows "\<exists>ch'. PodCodec_Send cap T ch obj seq
      = Some (if used (ch_wr ch) + 12 + pt_size T \<le> cap then Ret 0 else Ret (-1), ch') \<and>
     ring_wf cap (ch_wr ch') \<and> ch_rd ch' = ch_rd ch \<and> read_pos (ch_wr ch') = read_pos (ch_wr ch) \<and>
     (if used (ch_wr ch) + 12 + pt_size T \<le> cap
      then contents (ch_wr ch') = contents (ch_wr ch) @ frame (Pod_enc T obj) seq \<and>
           ch_peer_evt ch' = eventfd_write (ch_peer_evt ch) 1
      else ch' = ch)"
proof -
  have T: "\<lparr>pt_tag = pt_tag T, pt_size = length obj\<rparr> = T" using v by (cases T) (simp add: Pod_valid_def)
  have len: "word_of_nat (length (Pod_enc T obj)) = kTagSize + (word_of_nat (pt_size T) :: u32)"
    using v by (simp add: Pod_valid_def kTagSize_def)
  show ?thesis
    using podp.SendFrame_exact [OF wf, of "pt_tag T" obj seq] v mx len
    unfolding T PodCodec_Send_def by (auto simp: Pod_valid_def add.commute add.left_commute)
qed

section \<open>Properties\<close>

text \<open>A heartbeat-like type of three bytes, and a reader at the end of its stream.\<close>

definition pod3 :: pod_type where "pod3 = \<lparr>pt_tag = 0x0A0B0C0D, pt_size = 3\<rparr>"

lemma Pod_valid_pod3: "length obj = 3 \<Longrightarrow> Pod_valid pod3 obj"
  by (simp add: Pod_valid_def pod3_def)

text \<open>
  C14: \<open>PodCodec<T>\<close> end to end. An object that \<open>Send\<close> accepted is returned by the peer's
  next \<open>Recv\<close> with its sequence number, whatever frames that do not carry a \<open>T\<close> lie before
  it in the stream (those are dropped), provided its frame lies in one piece in the ring or
  the tag and the object fit into the fallback buffer of the reader. A larger frame that wraps
  around the end of the ring is dropped: \<open>Recv\<close> then returns -1 with nothing left unread.
  (\<open>T\<close> has at most \<open>max_write_size\<close> bytes.)
\<close>

theorem PodCodec_Send_Recv:
  assumes "reader_wf cap (b, fr)" "ch_wr a = ch_rd b" "Pod_valid T obj" "pt_size T \<le> max_write_size cap"
    and "unread (b, fr) = concat (map (\<lambda>(p, q). frame p q) bad)" "list_all (\<lambda>(p, q). Pod_dec T p = Some None) bad"
    and "PodCodec_Send cap T a obj seq = Some (Ret 0, a')"
  shows "if in_one_piece cap (write_pos (ch_wr a)) (pt_size T + 4) \<or> pt_size T + 4 \<le> length (fr_buf fr)
    then \<exists>b' fr'. PodCodec_Recv cap T (b\<lparr>ch_rd := ch_wr a'\<rparr>, fr) = Some (0, Some obj, b', fr') \<and>
           FrameReader_LastSeq fr' = seq \<and> unread (b', fr') = []
    else \<exists>b' fr'. PodCodec_Recv cap T (b\<lparr>ch_rd := ch_wr a'\<rparr>, fr) = Some (-1, None, b', fr') \<and> unread (b', fr') = []"
proof -
  have wf: "ring_wf cap (ch_wr a)" using assms(1,2) by (simp add: reader_wf_def)
  from PodCodec_Send_cases [OF wf assms(3,4), of seq] assms(7)
  have a': "ring_wf cap (ch_wr a')" "contents (ch_wr a') = contents (ch_wr a) @ frame (Pod_enc T obj) seq"
    "read_pos (ch_wr a') = read_pos (ch_wr a)"
    by (auto split: if_splits)
  have len: "length (Pod_enc T obj) = pt_size T + 4" using assms(3) by (simp add: Pod_valid_def)
  show ?thesis using podc.Recv_sent [OF assms(1,2) a' assms(5,6,3)] unfolding len PodCodec_Recv_def .
qed

theorem PodCodec_Send_Recv_witness:
  "\<exists>a'. PodCodec_Send 1024 pod3 chan_near_wrap [1, 2, 3] 9 = Some (Ret 0, a') \<and>
     (\<exists>b' fr'. PodCodec_Recv 1024 pod3 (chan_near_wrap\<lparr>ch_rd := ch_wr a'\<rparr>, (FrameReader_new 64)\<lparr>fr_pending_commit := 2\<rparr>)
         = Some (0, Some [1, 2, 3], b', fr') \<and> FrameReader_LastSeq fr' = 9 \<and> unread (b', fr') = [])"
proof -
  let ?fr = "(FrameReader_new 64)\<lparr>fr_pending_commit := 2\<rparr>"
  have v: "Pod_valid pod3 [1, 2, 3]" by (simp add: Pod_valid_pod3)
  from PodCodec_Send_cases [of 1024 chan_near_wrap, OF _ v, of 9] obtain a' where
    s: "PodCodec_Send 1024 pod3 chan_near_wrap [1, 2, 3] 9 = Some (Ret 0, a')"
    using ring_near_wrap_wf by (auto simp: max_write_size_def chan_near_wrap_sel pod3_def)
  have wf: "reader_wf 1024 (chan_near_wrap\<lparr>ch_rd := ring_near_wrap\<rparr>, ?fr)"
    by (simp add: reader_wf_def ring_near_wrap_wf)
  show ?thesis
    using PodCodec_Send_Recv [OF wf _ v, of chan_near_wrap "[]" 9 a'] s
    by (simp add: unread_def ring_near_wrap_contents chan_near_wrap_sel FrameReader_new_def pod3_def max_write_size_def)
qed

text \<open>
  C15: \<open>PodCodec<T>::Recv\<close> always returns (its loop ends on every well-formed reader), it
  reads only inside the payloads of the frames, whatever tags and lengths they have, and it
  never confuses types: with 0 it returns an object of the size of \<open>T\<close> that stood in a
  frame of the stream behind the tag of \<open>T\<close>, and the stream continues right after that
  frame; otherwise it returns -1 or -3 and no object.
\<close>

theorem PodCodec_Recv_returns:
  assumes "reader_wf cap s"
  shows "\<exists>rc x ch fr. PodCodec_Recv cap T s = Some (rc, x, ch, fr) \<and> reader_wf cap (ch, fr) \<and>
     (case x of
        None \<Rightarrow> rc = -1 \<or> rc = -3
      | Some obj \<Rightarrow> rc = 0 \<and> length obj = pt_size T \<and>
          (\<exists>k h. parse_frame cap (drop k (unread s)) = Frame h (Pod_enc T obj) \<and>
             FrameReader_LastSeq fr = mh_seq h \<and> unread (ch, fr) = drop (k + 12 + pt_size T) (unread s)))"
proof -
  from Recv_loop_returns [OF assms, of "Pod_dec T", OF Pod_dec_safe] obtain rc x ch fr where
    r: "Recv_loop cap (Pod_dec T) s = Some (rc, x, ch, fr)" "reader_wf cap (ch, fr)"
    and c: "case x of
        None \<Rightarrow> (rc = -1 \<or> rc = -3) \<and> (\<exists>k. unread (ch, fr) = drop k (unread s))
      | Some y \<Rightarrow> rc = 0 \<and> (\<exists>k h p. parse_frame cap (drop k (unread s)) = Frame h p \<and> Pod_dec T p = Some (Some y) \<and>
          FrameReader_LastSeq fr = mh_seq h \<and> unread (ch, fr) = drop (k + 8 + length p) (unread s))" by blast
  show ?thesis
  proof (cases x)
    case None
    then show ?thesis using r c by (auto simp: PodCodec_Recv_def)
  next
    case (Some obj)
    with c obtain k h p where f: "rc = 0" "parse_frame cap (drop k (unread s)) = Frame h p" "Pod_dec T p = Some (Some obj)"
      "FrameReader_LastSeq fr = mh_seq h" "unread (ch, fr) = drop (k + 8 + length p) (unread s)" by auto
    have "used (ch_rd (fst s)) < 4294967296" using assms ring_wfD(4) by (cases s) (auto simp: reader_wf_def)
    then have "length (unread s) < 4294967296" by (cases s) (simp add: unread_def)
    then have "length p < 4294967296" using parse_frame_length [OF f(2)] by simp
    with f(3) have "p = Pod_enc T obj" "length obj = pt_size T" by (auto simp: Pod_dec_iff)
    with f r Some show ?thesis
      by (intro exI [of _ rc] exI [of _ x] exI [of _ ch] exI [of _ fr]) (auto simp: PodCodec_Recv_def add.commute add.left_commute)
  qed
qed

theorem PodCodec_Recv_returns_witness:
  "\<exists>a' rc ch fr. Send 1024 chan_near_wrap (Some [1, 2, 3]) 3 9 = Some (Ret 0, a') \<and>
     PodCodec_Recv 1024 pod3 (chan_near_wrap\<lparr>ch_rd := ch_wr a'\<rparr>, (FrameReader_new 64)\<lparr>fr_pending_commit := 2\<rparr>) = Some (rc, None, ch, fr) \<and>
     (rc = -1 \<or> rc = -3) \<and> reader_wf 1024 (ch, fr)"
proof -
  from near_wrap_send obtain a' where
    s: "Send 1024 chan_near_wrap (Some [1, 2, 3]) 3 9 = Some (Ret 0, a')" and a': "ring_wf 1024 (ch_wr a')"
      "contents (ch_wr a') = [7, 7] @ frame [1, 2, 3] 9" by blast
  let ?s = "(chan_near_wrap\<lparr>ch_rd := ch_wr a'\<rparr>, (FrameReader_new 64)\<lparr>fr_pending_commit := 2\<rparr>)"
  have "used (ch_wr a') = 13" using arg_cong [OF a'(2), of length] by simp
  then have wf: "reader_wf 1024 ?s" using a' by (simp add: reader_wf_def)
  have "parse_frame 1024 (drop k (unread ?s)) \<noteq> Frame h (Pod_enc pod3 obj)" if "length obj = 3" for k h obj
    using parse_frame_length [of 1024 "drop k (unread ?s)" h "Pod_enc pod3 obj"] that a' by (auto simp: unread_def)
  then show ?thesis using PodCodec_Recv_returns [OF wf, of pod3] s by (fastforce simp: pod3_def split: option.splits)
qed

lemma PodCodec_EncodeTo_frame:
  assumes "Pod_valid T obj" "pt_size T + 12 \<le> unat buf_size" "unat buf_size \<le> length buf"
  shows "PodCodec_EncodeTo T obj buf buf_size seq
    = Some (kMsgHeaderSize + (4 + word_of_nat (pt_size T)), frame (Pod_enc T obj) seq @ drop (12 + pt_size T) buf)"
proof -
  let ?n = "4 + word_of_nat (pt_size T) :: u32"
  let ?h = "MsgHeader_bytes \<lparr>mh_len = ?n, mh_seq = seq\<rparr>" and ?t = "u32_bytes (pt_tag T)"
  have "unat (word_of_nat (pt_size T) :: u32) = pt_size T" using assms(1) by (intro unat_of_nat_u32) (simp add: Pod_valid_def)
  then have "unat ?n = 4 + pt_size T" using assms(1) by (simp add: Pod_valid_def unat_word_ariths)
  then have nl: "\<not> buf_size < kMsgHeaderSize + ?n" using unat_frame_size [of ?n] assms(1,2) by (simp add: Pod_valid_def word_less_nat_alt)
  have len: "length obj = pt_size T" "word_of_nat (length (Pod_enc T obj)) = ?n" using assms(1) by (simp_all add: Pod_valid_def)
  have l: "12 + pt_size T \<le> length buf" using assms(2,3) by linarith
  have "mem_write buf 0 ?h = Some (?h @ drop 8 buf)"
    using mem_write_append [of "[]" 0 ?h buf] l by simp
  moreover have "mem_write (?h @ drop 8 buf) 8 ?t = Some (?h @ ?t @ drop 12 buf)"
    using mem_write_append [of ?h 8 ?t "drop 8 buf"] l by simp
  moreover have "mem_write (?h @ ?t @ drop 12 buf) 12 obj = Some (?h @ ?t @ obj @ drop (12 + pt_size T) buf)"
    using mem_write_append [of "?h @ ?t" 12 obj "drop 12 buf"] l len(1) by (simp add: add.commute)
  ultimately show ?thesis
    using nl len by (simp add: PodCodec_EncodeTo_def EncodeFrame_def kTagSize_def frame_def Pod_enc_def Let_def)
qed

text \<open>
  The in-memory codec of a registered type: what \<open>EncodeTo\<close> writes into a large
  enough buffer is accepted by \<open>Decode\<close>, which returns the sequence number and a pointer
  to exactly the object's bytes; \<open>Decode\<close> for a type with another tag rejects it.
\<close>

theorem PodCodec_EncodeTo_Decode:
  assumes "Pod_valid T obj" "pt_size T + 12 \<le> unat buf_size" "unat buf_size \<le> length buf"
  shows "\<exists>n buf'. PodCodec_EncodeTo T obj buf buf_size seq = Some (n, buf') \<and> unat n = pt_size T + 12 \<and>
     PodCodec_Decode T buf' n = Some (Some (12, word_of_nat (pt_size T), seq)) \<and>
     mem_read buf' 12 (pt_size T) = Some obj \<and>
     (\<forall>T'. pt_tag T' \<noteq> pt_tag T \<longrightarrow> PodCodec_Decode T' buf' n = Some None)"
proof -
  let ?n = "4 + word_of_nat (pt_size T) :: u32"
  have sz: "unat (word_of_nat (pt_size T) :: u32) = pt_size T"
    using assms(1) by (intro unat_of_nat_u32) (simp add: Pod_valid_def)
  have n: "unat ?n = 4 + pt_size T" using assms(1) sz by (simp add: Pod_valid_def unat_word_ariths)
  have fs: "unat (kMsgHeaderSize + ?n) = 12 + pt_size T"
    using unat_frame_size [of ?n] n assms(1) by (simp add: Pod_valid_def)
  let ?buf = "frame (Pod_enc T obj) seq @ drop (12 + pt_size T) buf"
  have len: "length obj = pt_size T" "word_of_nat (length (Pod_enc T obj)) = ?n"
    using assms(1) by (simp_all add: Pod_valid_def)
  note e = PodCodec_EncodeTo_frame [OF assms, of seq]
  have d: "Decode ?buf (kMsgHeaderSize + ?n) = Some (Some (8, ?n, seq))"
    using Decode_frame [of "Pod_enc T obj" "kMsgHeaderSize + ?n" seq "drop (12 + pt_size T) buf"] fs len
    by simp
  have t: "mem_read (drop 8 ?buf) 0 4 = Some (u32_bytes (pt_tag T))"
    by (simp add: frame_def Pod_enc_def mem_read_def)
  have k: "\<not> ?n < kTagSize" "?n - kTagSize = word_of_nat (pt_size T)"
    using n by (simp_all add: kTagSize_def word_less_nat_alt)
  have ct: "CheckTag T' (drop 8 ?buf) ?n = Some (pt_tag T = pt_tag T')" for T'
    using t k by (simp add: CheckTag_def kTagSize_def)
  have "PodCodec_Decode T ?buf (kMsgHeaderSize + ?n) = Some (Some (12, word_of_nat (pt_size T), seq))"
    using d ct [of T] k by (simp add: PodCodec_Decode_def kTagSize_def)
  moreover have "mem_read ?buf 12 (pt_size T) = Some obj"
    using len(1) by (simp add: mem_read_def frame_def Pod_enc_def)
  moreover have "PodCodec_Decode T' ?buf (kMsgHeaderSize + ?n) = Some None" if "pt_tag T' \<noteq> pt_tag T" for T'
    using d ct [of T'] that by (auto simp: PodCodec_Decode_def)
  ultimately show ?thesis using e fs
    by (intro exI [of _ "kMsgHeaderSize + ?n"] exI [of _ ?buf]) simp
qed

theorem PodCodec_EncodeTo_Decode_witness:
  "\<exists>n buf'. PodCodec_EncodeTo pod3 [1, 2, 3] (replicate 20 0) 20 7 = Some (n, buf') \<and> unat n = 15 \<and>
     PodCodec_Decode pod3 buf' n = Some (Some (12, 3, 7)) \<and> mem_read buf' 12 3 = Some [1, 2, 3]"
  using PodCodec_EncodeTo_Decode [OF Pod_valid_pod3 [of "[1, 2, 3]"], of 20 "replicate 20 0" 7]
  by (auto simp: pod3_def)

end
