(* ===== verification/Event_Loop.thy ===== *)
theory Event_Loop
  imports Shm_Prelude "HOL-Library.Sublist" "HOL-Library.Monad_Syntax"
begin

text \<open>
  The poll loop of \<open>include/shm_ipc/event_loop.hpp\<close>. A user callback is a number; what it
  does when called is given by an environment, a function to the list of loop operations it
  performs (each callback may register and remove descriptors and timers, stop the loop or
  throw). System calls are inputs: the number a new timerfd gets is an argument of the
  operation that creates it, and each \<open>poll\<close> has an outcome. \<open>lp_closed\<close> records the
  descriptors the loop has closed.
\<close>

section \<open>The model\<close>

type_synonym fd = int

text \<open>An entry's \<open>std::function\<close>: empty, a user callback, or the wrapper of a one-shot timer.\<close>

datatype callback = NoCb | UserCb nat | OneShotCb fd callback

record entry =
  en_fd :: fd
  en_events :: u16
  en_dead :: bool
  en_cb :: callback

text \<open>
  \<open>lp_expir\<close> is the kernel's count of expirations of each timerfd that nobody has read yet.
\<close>

record loop =
  lp_entries :: "entry list"
  lp_timerfds :: "fd list"
  lp_running :: bool
  lp_closed :: "fd list"
  lp_expir :: "fd \<Rightarrow> u64"

definition EventLoop_new :: loop where
  "EventLoop_new = \<lparr>lp_entries = [], lp_timerfds = [], lp_running = False, lp_closed = [], lp_expir = (\<lambda>_. 0)\<rparr>"

definition POLLIN :: u16 where "POLLIN = 1"

definition AddFd :: "fd \<Rightarrow> callback \<Rightarrow> u16 \<Rightarrow> loop \<Rightarrow> loop" where
  "AddFd d cb ev lp = lp\<lparr>lp_entries := lp_entries lp @ [\<lparr>en_fd = d, en_events = ev, en_dead = False, en_cb = cb\<rparr>]\<rparr>"

definition RemoveFd :: "fd \<Rightarrow> loop \<Rightarrow> loop" where
  "RemoveFd d lp = lp\<lparr>lp_entries := map (\<lambda>e. if en_fd e = d then e\<lparr>en_dead := True\<rparr> else e) (lp_entries lp)\<rparr>"

text \<open>
  \<open>timer_spec\<close>: the \<open>itimerspec\<close> that \<open>CreateTimerfd\<close> arms a timer with, as seconds and
  nanoseconds of the first expiration and of the interval. C++ division truncates, but is
  only reached with positive arguments. The outcome of the two system calls is an input:
  \<open>timerfd_create\<close> fails, \<open>timerfd_settime\<close> fails on the new descriptor, or both succeed.
\<close>

record itimerspec =
  it_value_sec :: int
  it_value_nsec :: int
  it_interval_sec :: int
  it_interval_nsec :: int

definition timer_spec :: "int \<Rightarrow> int \<Rightarrow> itimerspec" where
  "timer_spec initial_ms interval_ms =
     \<lparr>it_value_sec = (if initial_ms > 0 then initial_ms div 1000 else 0),
      it_value_nsec = (if initial_ms > 0 then (initial_ms mod 1000) * 1000000 else 1),
      it_interval_sec = (if interval_ms > 0 then interval_ms div 1000 else 0),
      it_interval_nsec = (if interval_ms > 0 then (interval_ms mod 1000) * 1000000 else 0)\<rparr>"

datatype timerfd_sys = CreateFails | SettimeFails fd | TimerOk fd

text \<open>The descriptor and how it is armed; a failure throws, after closing the descriptor.\<close>

fun CreateTimerfd :: "timerfd_sys \<Rightarrow> int \<Rightarrow> int \<Rightarrow> loop \<Rightarrow> (fd \<times> itimerspec) option \<times> loop" where
  "CreateTimerfd CreateFails initial_ms interval_ms lp = (None, lp)"
| "CreateTimerfd (SettimeFails tfd) initial_ms interval_ms lp = (None, lp\<lparr>lp_closed := lp_closed lp @ [tfd]\<rparr>)"
| "CreateTimerfd (TimerOk tfd) initial_ms interval_ms lp = (Some (tfd, timer_spec initial_ms interval_ms), lp)"

definition AddTimer :: "timerfd_sys \<Rightarrow> int \<Rightarrow> callback \<Rightarrow> loop \<Rightarrow> fd option \<times> loop" where
  "AddTimer sys interval_ms cb lp = (case CreateTimerfd sys interval_ms interval_ms lp of
     (None, lp1) \<Rightarrow> (None, lp1)
   | (Some (tfd, _), lp1) \<Rightarrow>
       (Some tfd, AddFd tfd cb POLLIN (lp1\<lparr>lp_timerfds := lp_timerfds lp1 @ [tfd]\<rparr>)))"

definition AddOneShotTimer :: "timerfd_sys \<Rightarrow> int \<Rightarrow> callback \<Rightarrow> loop \<Rightarrow> fd option \<times> loop" where
  "AddOneShotTimer sys delay_ms cb lp = (case CreateTimerfd sys delay_ms 0 lp of
     (None, lp1) \<Rightarrow> (None, lp1)
   | (Some (tfd, _), lp1) \<Rightarrow>
       (Some tfd, AddFd tfd (OneShotCb tfd cb) POLLIN (lp1\<lparr>lp_timerfds := lp_timerfds lp1 @ [tfd]\<rparr>)))"

definition RemoveTimer :: "fd \<Rightarrow> loop \<Rightarrow> loop" where
  "RemoveTimer tfd lp =
     (let lp1 = RemoveFd tfd lp in
      if tfd \<in> set (lp_timerfds lp1)
      then lp1\<lparr>lp_timerfds := remove1 tfd (lp_timerfds lp1), lp_closed := lp_closed lp1 @ [tfd]\<rparr>
      else lp1)"

definition Stop :: "loop \<Rightarrow> loop" where
  "Stop lp = lp\<lparr>lp_running := False\<rparr>"

text \<open>
  Reading a timerfd returns its count and clears it; an interrupted read changes nothing and
  is repeated.
\<close>

definition DrainTimerfd :: "fd \<Rightarrow> loop \<Rightarrow> u64 \<times> loop" where
  "DrainTimerfd tfd lp = (lp_expir lp tfd, lp\<lparr>lp_expir := (lp_expir lp)(tfd := 0)\<rparr>)"

definition CompactDead :: "loop \<Rightarrow> loop" where
  "CompactDead lp = lp\<lparr>lp_entries := filter (\<lambda>e. \<not> en_dead e) (lp_entries lp)\<rparr>"

text \<open>What user code does inside a callback.\<close>

datatype loop_op = OpAddFd fd callback u16 | OpRemoveFd fd | OpAddTimer timerfd_sys int callback
  | OpAddOneShot timerfd_sys int callback | OpRemoveTimer fd | OpDrain fd | OpStop | OpThrow

text \<open>Each operation tells whether it returned.\<close>

fun do_op :: "loop_op \<Rightarrow> loop \<Rightarrow> bool \<times> loop" where
  "do_op (OpAddFd d cb ev) lp = (True, AddFd d cb ev lp)"
| "do_op (OpRemoveFd d) lp = (True, RemoveFd d lp)"
| "do_op (OpAddTimer sys ms cb) lp = (let (r, lp1) = AddTimer sys ms cb lp in (r \<noteq> None, lp1))"
| "do_op (OpAddOneShot sys ms cb) lp = (let (r, lp1) = AddOneShotTimer sys ms cb lp in (r \<noteq> None, lp1))"
| "do_op (OpRemoveTimer d) lp = (True, RemoveTimer d lp)"
| "do_op (OpDrain d) lp = (True, snd (DrainTimerfd d lp))"
| "do_op OpStop lp = (True, Stop lp)"
| "do_op OpThrow lp = (False, lp)"

fun do_ops :: "loop_op list \<Rightarrow> loop \<Rightarrow> bool \<times> loop" where
  "do_ops [] lp = (True, lp)"
| "do_ops (x # xs) lp = (case do_op x lp of (False, lp1) \<Rightarrow> (False, lp1) | (True, lp1) \<Rightarrow> do_ops xs lp1)"

type_synonym cb_env = "nat \<Rightarrow> fd \<Rightarrow> u16 \<Rightarrow> loop_op list"

text \<open>Calling an empty \<open>std::function\<close> throws; the loop does so only inside a one-shot wrapper.\<close>

fun run_callback :: "cb_env \<Rightarrow> callback \<Rightarrow> fd \<Rightarrow> u16 \<Rightarrow> loop \<Rightarrow> bool \<times> loop" where
  "run_callback env NoCb d revents lp = (False, lp)"
| "run_callback env (UserCb c) d revents lp = do_ops (env c d revents) lp"
| "run_callback env (OneShotCb tfd cb) d revents lp =
     run_callback env cb d revents (RemoveTimer tfd (snd (DrainTimerfd d lp)))"

text \<open>
  The snapshot \<open>pfds\<close> / \<open>idx\<close> of a round: position in \<open>entries_\<close> and descriptor of the
  entries that are not tombstones, from position \<open>k\<close> on.
\<close>

fun snapshot_from :: "nat \<Rightarrow> entry list \<Rightarrow> (nat \<times> fd) list" where
  "snapshot_from k [] = []"
| "snapshot_from k (e # es) =
     (if en_dead e then snapshot_from (Suc k) es else (k, en_fd e) # snapshot_from (Suc k) es)"

text \<open>
  The dispatch loop over the snapshot with the \<open>revents\<close> of each element. The log lists
  the positions and entries whose callback was called. An index beyond \<open>entries_\<close> would be
  undefined.
\<close>

fun dispatch :: "cb_env \<Rightarrow> (nat \<times> fd \<times> u16) list \<Rightarrow> loop \<Rightarrow> (bool \<times> loop \<times> (nat \<times> entry) list) option" where
  "dispatch env [] lp = Some (True, lp, [])"
| "dispatch env ((k, d, revents) # rest) lp =
     (if \<not> lp_running lp then Some (True, lp, [])
      else if k \<ge> length (lp_entries lp) then None
      else let e = lp_entries lp ! k in
        if \<not> en_dead e \<and> revents \<noteq> 0 \<and> en_cb e \<noteq> NoCb then
          (case run_callback env (en_cb e) d revents lp of
             (False, lp1) \<Rightarrow> Some (False, lp1, [(k, e)])
           | (True, lp1) \<Rightarrow> do {
               (ok, lp2, log) \<leftarrow> dispatch env rest lp1;
               Some (ok, lp2, (k, e) # log)
             })
        else dispatch env rest lp)"

text \<open>
  An outcome of \<open>poll\<close>: interrupted by a signal (whose handler may call \<open>Stop\<close>), another
  error, or the \<open>revents\<close> of each polled entry (given by its position in \<open>entries_\<close>, the \<open>idx[i]\<close>
  of \<open>pfds[i]\<close>), with the expirations counted meanwhile for each timer descriptor.
\<close>

datatype poll_outcome = PollIntr bool | PollError | PollReady "nat \<Rightarrow> u16" "fd \<Rightarrow> u64"

definition Run_round :: "cb_env \<Rightarrow> poll_outcome \<Rightarrow> loop \<Rightarrow> (bool \<times> loop \<times> (nat \<times> entry) list) option" where
  "Run_round env p lp = (case p of
     PollIntr stop \<Rightarrow> Some (True, if stop then Stop lp else lp, [])
   | PollError \<Rightarrow> Some (False, lp, [])
   | PollReady revents expd \<Rightarrow> do {
       let lp0 = lp\<lparr>lp_expir := (\<lambda>d. lp_expir lp d + expd d)\<rparr>;
       (ok, lp1, log) \<leftarrow> dispatch env (map (\<lambda>(k, d). (k, d, revents k)) (snapshot_from 0 (lp_entries lp))) lp0;
       Some (ok, CompactDead lp1, log)
     })"

text \<open>
  \<open>Run\<close> for a sequence of poll outcomes: it ends when the loop was stopped or a callback
  threw, or when the outcomes given are used up. Each round contributes its log.
\<close>

fun Run_rounds :: "cb_env \<Rightarrow> poll_outcome list \<Rightarrow> loop \<Rightarrow> (bool \<times> loop \<times> (nat \<times> entry) list list) option" where
  "Run_rounds env [] lp = Some (True, lp, [])"
| "Run_rounds env (p # ps) lp =
     (if \<not> lp_running lp then Some (True, lp, [])
      else do {
        (ok, lp1, log) \<leftarrow> Run_round env p lp;
        if \<not> ok then Some (False, lp1, [log])
        else do {
          (ok2, lp2, logs) \<leftarrow> Run_rounds env ps lp1;
          Some (ok2, lp2, log # logs)
        }
      })"

definition Run :: "cb_env \<Rightarrow> poll_outcome list \<Rightarrow> loop \<Rightarrow> (bool \<times> loop \<times> (nat \<times> entry) list list) option" where
  "Run env ps lp = Run_rounds env ps (lp\<lparr>lp_running := True\<rparr>)"

section \<open>Dispatch keeps positions stable\<close>

text \<open>
  \<open>later lp lp'\<close>: what operations during a dispatch may do to the entries: append new ones
  and turn existing ones into tombstones; descriptor and callback of an entry stay.
\<close>

definition later :: "loop \<Rightarrow> loop \<Rightarrow> bool" where
  "later lp lp' \<longleftrightarrow> length (lp_entries lp) \<le> length (lp_entries lp') \<and>
     (\<forall>k < length (lp_entries lp). en_fd (lp_entries lp' ! k) = en_fd (lp_entries lp ! k) \<and>
        en_cb (lp_entries lp' ! k) = en_cb (lp_entries lp ! k) \<and>
        (en_dead (lp_entries lp ! k) \<longrightarrow> en_dead (lp_entries lp' ! k)))"

lemma later_refl: "later lp lp"
  by (simp add: later_def)

lemma later_trans: "later a b \<Longrightarrow> later b c \<Longrightarrow> later a c"
  by (auto simp: later_def)

lemma later_RemoveFd: "later lp (RemoveFd d lp)"
  by (auto simp: later_def RemoveFd_def)

lemma later_RemoveTimer: "later lp (RemoveTimer d lp)"
  using later_RemoveFd [of lp d] by (simp add: RemoveTimer_def Let_def later_def)

lemma CreateTimerfd_entries: "lp_entries (snd (CreateTimerfd sys a b lp)) = lp_entries lp"
  by (cases sys) simp_all

lemma later_AddFd: "later lp (AddFd d cb ev lp)"
  by (simp add: later_def AddFd_def nth_append)

lemma later_same: "lp_entries lp' = lp_entries lp \<Longrightarrow> later lp lp'"
  by (simp add: later_def)

lemma later_AddTimer: "later lp (snd (AddTimer sys ms cb lp))"
  by (cases sys) (simp_all add: AddTimer_def later_same later_def AddFd_def nth_append)

lemma later_AddOneShotTimer: "later lp (snd (AddOneShotTimer sys ms cb lp))"
  by (cases sys) (simp_all add: AddOneShotTimer_def later_same later_def AddFd_def nth_append)

lemma later_op: "later lp (snd (do_op x lp))"
proof (cases x)
  case (OpAddTimer sys ms cb)
  then show ?thesis using later_AddTimer [of lp sys ms cb] by (simp add: split_beta)
next
  case (OpAddOneShot sys ms cb)
  then show ?thesis using later_AddOneShotTimer [of lp sys ms cb] by (simp add: split_beta)
qed (simp_all add: later_refl later_RemoveFd later_RemoveTimer later_AddFd later_same Stop_def DrainTimerfd_def)

lemma later_ops: "later lp (snd (do_ops xs lp))"
proof (induction xs lp rule: do_ops.induct)
  case (2 x xs lp)
  obtain ok lp1 where r: "do_op x lp = (ok, lp1)" by fastforce
  have "later lp lp1" using later_op [of lp x] r by simp
  then show ?case using 2 r later_trans by (cases ok) auto
qed (simp add: later_refl)

lemma later_callback: "later lp (snd (run_callback env cb d revents lp))"
proof (induction env cb d revents lp rule: run_callback.induct)
  case (3 env tfd cb d revents lp)
  have "later lp (RemoveTimer tfd (snd (DrainTimerfd d lp)))"
    using later_RemoveTimer [of "snd (DrainTimerfd d lp)" tfd] by (simp add: DrainTimerfd_def later_def)
  then show ?case using 3 later_trans by simp
qed (simp_all add: later_refl later_ops)

section \<open>Dispatch\<close>

text \<open>
  Over positions that exist a dispatch is defined, and the callbacks it makes are, in the
  order of the snapshot and each position at most once, those of entries which were alive
  when it started, whose descriptor and callback have not changed, with events.
\<close>

definition fired_ok :: "(nat \<times> fd \<times> u16) list \<Rightarrow> loop \<Rightarrow> (nat \<times> entry) list \<Rightarrow> bool" where
  "fired_ok ps lp log \<longleftrightarrow> subseq (map fst log) (map fst ps) \<and>
     (\<forall>(k, e) \<in> set log. \<not> en_dead (lp_entries lp ! k) \<and> en_fd e = en_fd (lp_entries lp ! k) \<and>
        en_cb e = en_cb (lp_entries lp ! k) \<and> (\<exists>d revents. (k, d, revents) \<in> set ps \<and> revents \<noteq> 0))"

lemma fired_ok_later:
  assumes "fired_ok ps lp1 log" "later lp lp1" "\<forall>x \<in> set ps. fst x < length (lp_entries lp)"
  shows "fired_ok ps lp log"
proof -
  have "fst x < length (lp_entries lp)" if "x \<in> set log" for x
    using assms that unfolding fired_ok_def by fastforce
  then show ?thesis using assms unfolding fired_ok_def later_def by fastforce
qed

lemma dispatch_spec:
  assumes "\<forall>x \<in> set ps. fst x < length (lp_entries lp)"
  shows "\<exists>ok lp' log. dispatch env ps lp = Some (ok, lp', log) \<and> later lp lp' \<and> fired_ok ps lp log"
  using assms
proof (induction ps arbitrary: lp)
  case Nil
  then show ?case using later_refl [of lp] by (auto simp: fired_ok_def)
next
  case (Cons p ps)
  obtain k d revents where p: "p = (k, d, revents)" by (metis prod_cases3)
  let ?e = "lp_entries lp ! k"
  have k: "k < length (lp_entries lp)" using Cons.prems p by simp
  have skip: "fired_ok (p # ps) lp log" if "fired_ok ps lp log" for log
    using that unfolding fired_ok_def by fastforce
  show ?case
  proof (cases "lp_running lp")
    case False
    then show ?thesis using p by (auto simp: later_refl fired_ok_def)
  next
    case run: True
    show ?thesis
    proof (cases "\<not> en_dead ?e \<and> revents \<noteq> 0 \<and> en_cb ?e \<noteq> NoCb")
      case False
      then have "dispatch env (p # ps) lp = dispatch env ps lp" using run k p by (auto simp: Let_def)
      then show ?thesis using Cons.IH [of lp] Cons.prems skip by auto
    next
      case fire: True
      obtain ok1 lp1 where r: "run_callback env (en_cb ?e) d revents lp = (ok1, lp1)" by (metis surj_pair)
      have l1: "later lp lp1" using later_callback [of lp env "en_cb ?e" d revents] r by simp
      have b: "\<forall>x \<in> set ps. fst x < length (lp_entries lp)" using Cons.prems by simp
      then have "\<forall>x \<in> set ps. fst x < length (lp_entries lp1)" using l1 by (auto simp: later_def)
      from Cons.IH [OF this] obtain ok lp' log where
        d: "dispatch env ps lp1 = Some (ok, lp', log)" "later lp1 lp'" "fired_ok ps lp1 log" by blast
      have f: "fired_ok ps lp log" using fired_ok_later [OF d(3) l1 b] .
      have hd: "fired_ok (p # ps) lp ((k, ?e) # log)" "fired_ok (p # ps) lp [(k, ?e)]"
        using f fire p unfolding fired_ok_def by fastforce+
      show ?thesis
      proof (cases ok1)
        case True
        then have "dispatch env (p # ps) lp = Some (ok, lp', (k, ?e) # log)"
          using run k p fire r d(1) by (simp add: Let_def)
        then show ?thesis using later_trans [OF l1 d(2)] hd by blast
      next
        case False
        then have "dispatch env (p # ps) lp = Some (False, lp1, [(k, ?e)])"
          using run k p fire r by (simp add: Let_def)
        then show ?thesis using l1 hd by blast
      qed
    qed
  qed
qed

lemma snapshot_from_spec:
  "sorted_wrt (<) (map fst (snapshot_from k es)) \<and>
   (\<forall>(j, d) \<in> set (snapshot_from k es). k \<le> j \<and> j < k + length es \<and> d = en_fd (es ! (j - k)))"
proof (induction k es rule: snapshot_from.induct)
  case (2 k e es)
  have ih: "sorted_wrt (<) (map fst (snapshot_from (Suc k) es))"
    "\<forall>(j, d) \<in> set (snapshot_from (Suc k) es). Suc k \<le> j \<and> j < Suc k + length es \<and> d = en_fd (es ! (j - Suc k))"
    using 2 by (cases "en_dead e"; simp)+
  have "Suc k \<le> j \<and> j < k + length (e # es) \<and> d = en_fd ((e # es) ! (j - k)) \<and> k < j"
    if "(j, d) \<in> set (snapshot_from (Suc k) es)" for j d
  proof -
    have jd: "Suc k \<le> j" "j < Suc k + length es" "d = en_fd (es ! (j - Suc k))"
      using ih that by blast+
    then have "j - k = Suc (j - Suc k)" by simp
    then show ?thesis using jd by simp
  qed
  then show ?case using ih(1) by (cases "en_dead e") (fastforce simp: less_imp_le)+
qed simp

lemma sorted_wrt_subseq: "subseq xs ys \<Longrightarrow> sorted_wrt P ys \<Longrightarrow> sorted_wrt P xs"
proof (induction rule: list_emb.induct)
  case (list_emb_Cons2 x y xs ys)
  then show ?case by (auto dest: list_emb_set)
qed auto

section \<open>Properties\<close>

lemma CompactDead_alive: "list_all (\<lambda>e. \<not> en_dead e) (lp_entries (CompactDead lp))"
  by (simp add: CompactDead_def list_all_iff)

text \<open>
  C21: A round of \<open>Run\<close> whose \<open>poll\<close> succeeded never indexes outside \<open>entries_\<close>, whatever
  the callbacks register, remove or throw. It calls back at most once per entry and in
  registration order, and only entries that existed and were not tombstones when the round
  began and for which \<open>poll\<close> reported events. Afterwards, also when a callback threw, no
  tombstone is left.
\<close>

theorem Run_round_sound:
  "\<exists>ok lp' log. Run_round env (PollReady revents expd) lp = Some (ok, lp', log) \<and>
     sorted_wrt (<) (map fst log) \<and>
     list_all (\<lambda>(k, e). k < length (lp_entries lp) \<and> \<not> en_dead (lp_entries lp ! k) \<and>
       en_fd e = en_fd (lp_entries lp ! k) \<and> en_cb e = en_cb (lp_entries lp ! k) \<and>
       revents k \<noteq> 0) log \<and>
     list_all (\<lambda>e. \<not> en_dead e) (lp_entries lp')"
proof -
  let ?lp0 = "lp\<lparr>lp_expir := \<lambda>d. lp_expir lp d + expd d\<rparr>"
  let ?sn = "snapshot_from 0 (lp_entries lp)"
  let ?ps = "map (\<lambda>(k, d). (k, d, revents k)) ?sn"
  note sn = snapshot_from_spec [of 0 "lp_entries lp"]
  have "fst x < length (lp_entries ?lp0)" if "x \<in> set ?ps" for x
    using that sn by auto
  then obtain ok lp1 log where
    d: "dispatch env ?ps ?lp0 = Some (ok, lp1, log)" "fired_ok ?ps ?lp0 log"
    using dispatch_spec [of ?ps ?lp0 env] by blast
  have "map fst ?ps = map fst ?sn" by (simp add: split_beta)
  then have srt: "sorted_wrt (<) (map fst log)"
    using d(2) sn sorted_wrt_subseq unfolding fired_ok_def by metis
  have "k < length (lp_entries lp) \<and> \<not> en_dead (lp_entries lp ! k) \<and> en_fd e = en_fd (lp_entries lp ! k) \<and>
      en_cb e = en_cb (lp_entries lp ! k) \<and> revents k \<noteq> 0" if "(k, e) \<in> set log" for k e
  proof -
    obtain d r where "(k, d, r) \<in> set ?ps" "r \<noteq> 0" using d(2) \<open>(k, e) \<in> set log\<close> unfolding fired_ok_def by blast
    then have "(k, d) \<in> set ?sn" "revents k \<noteq> 0" by auto
    then show ?thesis using sn d(2) that unfolding fired_ok_def by fastforce
  qed
  then show ?thesis using d(1) srt by (auto simp: Run_round_def Let_def list_all_iff CompactDead_def)
qed

lemma RemoveFd_filter:
  "filter (\<lambda>e. \<not> en_dead e \<and> en_fd e = d) (map (\<lambda>e. if en_fd e = d then e\<lparr>en_dead := True\<rparr> else e) es) = []"
  by (induction es) simp_all

text \<open>
  C22: Once \<open>RemoveFd\<close> was called, the rest of the dispatch calls no entry registered for
  that descriptor before the call, even if its events were already captured; and when the
  descriptor number is registered again in the same round, the recycling of tombstones
  keeps exactly the new entry for it.
\<close>

theorem RemoveFd_final:
  assumes "\<forall>x \<in> set ps. fst x < length (lp_entries lp)"
    and "dispatch env ps (RemoveFd d lp) = Some (ok, lp', log)"
  shows "list_all (\<lambda>(k, e). en_fd e \<noteq> d) log \<and>
    filter (\<lambda>e. en_fd e = d) (lp_entries (CompactDead (AddFd d cb ev (RemoveFd d lp)))) =
      [\<lparr>en_fd = d, en_events = ev, en_dead = False, en_cb = cb\<rparr>]"
proof
  have "\<forall>x \<in> set ps. fst x < length (lp_entries (RemoveFd d lp))" using assms(1) by (simp add: RemoveFd_def)
  then have f: "fired_ok ps (RemoveFd d lp) log"
    using dispatch_spec [of ps "RemoveFd d lp" env] assms(2) by auto
  have "en_fd e \<noteq> d" if "(k, e) \<in> set log" for k e
  proof -
    have "k < length (lp_entries lp)" using f that assms(1) unfolding fired_ok_def by fastforce
    moreover have "\<not> en_dead (lp_entries (RemoveFd d lp) ! k)" "en_fd e = en_fd (lp_entries (RemoveFd d lp) ! k)"
      using f that unfolding fired_ok_def by blast+
    ultimately show ?thesis by (auto simp: RemoveFd_def)
  qed
  then show "list_all (\<lambda>(k, e). en_fd e \<noteq> d) log" by (auto simp: list_all_iff)
  show "filter (\<lambda>e. en_fd e = d) (lp_entries (CompactDead (AddFd d cb ev (RemoveFd d lp)))) =
      [\<lparr>en_fd = d, en_events = ev, en_dead = False, en_cb = cb\<rparr>]"
    by (simp add: CompactDead_def AddFd_def RemoveFd_def RemoveFd_filter)
qed

definition demo_loop :: loop where
  "demo_loop = AddFd 7 (UserCb 1) POLLIN (AddFd 6 (UserCb 0) POLLIN (EventLoop_new\<lparr>lp_running := True\<rparr>))"

theorem RemoveFd_final_witness:
  "list_all (\<lambda>(k, e). en_fd e \<noteq> 7) [(0::nat, lp_entries demo_loop ! 0)] \<and>
    filter (\<lambda>e. en_fd e = 7) (lp_entries (CompactDead (AddFd 7 (UserCb 2) POLLIN (RemoveFd 7 demo_loop)))) =
      [\<lparr>en_fd = 7, en_events = POLLIN, en_dead = False, en_cb = UserCb 2\<rparr>]"
proof -
  have "\<forall>x \<in> set [(0::nat, 6::fd, POLLIN), (1, 7, POLLIN)]. fst x < length (lp_entries demo_loop)"
    by (simp add: demo_loop_def AddFd_def EventLoop_new_def)
  moreover have "dispatch (\<lambda>_ _ _. []) [(0, 6, POLLIN), (1, 7, POLLIN)] (RemoveFd 7 demo_loop) =
      Some (True, RemoveFd 7 demo_loop, [(0, lp_entries demo_loop ! 0)])"
    by (simp add: demo_loop_def AddFd_def RemoveFd_def EventLoop_new_def POLLIN_def Let_def)
  ultimately show ?thesis using RemoveFd_final by blast
qed

text \<open>
  The timer specification that \<open>CreateTimerfd\<close> passes to the kernel is always valid and
  armed: nanoseconds are in range, the first expiration is never all zero (which would
  disarm the timer), and it is exactly the given number of milliseconds when that is
  positive; a timer repeats exactly when its interval is positive.
\<close>

theorem timer_spec_armed:
  "it_value_sec (timer_spec i p) * 10 ^ 9 + it_value_nsec (timer_spec i p) = (if i > 0 then i * 10 ^ 6 else 1) \<and>
   it_interval_sec (timer_spec i p) * 10 ^ 9 + it_interval_nsec (timer_spec i p) = max 0 p * 10 ^ 6 \<and>
   0 \<le> it_value_nsec (timer_spec i p) \<and> it_value_nsec (timer_spec i p) < 10 ^ 9 \<and>
   0 \<le> it_interval_nsec (timer_spec i p) \<and> it_interval_nsec (timer_spec i p) < 10 ^ 9"
proof -
  have e: "x div 1000 * 1000000000 + x mod 1000 * 1000000 = x * 1000000" for x :: int
    using div_mult_mod_eq [of x 1000] by linarith
  have b: "0 \<le> x mod 1000" "x mod 1000 < 1000" for x :: int by simp_all
  show ?thesis using e [of i] e [of p] b [of i] b [of p] by (simp add: timer_spec_def max_def)
qed

text \<open>
  A one-shot timer removes its own entry and closes its descriptor before the user's
  callback runs, so it cannot fire a second time.
\<close>

lemma one_shot_removed:
  assumes "k < length (lp_entries lp)" "en_fd (lp_entries lp ! k) = tfd" "tfd \<in> set (lp_timerfds lp)"
  shows "en_dead (lp_entries (snd (run_callback env (OneShotCb tfd cb) d revents lp)) ! k)"
proof -
  let ?lp = "RemoveTimer tfd (snd (DrainTimerfd d lp))"
  have "en_dead (lp_entries ?lp ! k)" "k < length (lp_entries ?lp)"
    using assms by (auto simp: RemoveTimer_def RemoveFd_def DrainTimerfd_def Let_def)
  then show ?thesis using later_callback [of ?lp env cb d revents] by (simp add: later_def)
qed

end
