(* ===== verification/Realtime.thy ===== *)
theory Realtime
  imports Pod_Codec Event_Loop
begin

text \<open>
  The stand-alone programs \<open>src/server.cpp\<close> and \<open>src/client.cpp\<close> with \<open>client_state.hpp\<close> and
  \<open>messages.hpp\<close>: a server that reads its clients' messages when their eventfd fires and
  sends each a limited number of heartbeats, and a client that writes a message per timer tick.
  They use channels, codecs and the event loop directly. How received payloads are decoded is
  the argument \<open>dec\<close>: \<open>Pod_dec ClientMsg_type\<close>, or the protobuf decoder when the program runs with
  \<open>--cmd proto\<close>; likewise how a message is sent. Output is not modelled.
\<close>

section \<open>Messages and client state\<close>

definition Heartbeat_type :: pod_type where
  "Heartbeat_type = \<lparr>pt_tag = 0x48425454, pt_size = 16\<rparr>"

definition ClientMsg_type :: pod_type where
  "ClientMsg_type = \<lparr>pt_tag = 0x434C4D47, pt_size = 4104\<rparr>"

text \<open>The object bytes; the last four of a \<open>ClientMsg\<close> are padding.\<close>

definition i64_bytes :: "int \<Rightarrow> bytes" where
  "i64_bytes x = le_bytes 8 (unat (word_of_int x :: u64))"

definition Heartbeat_bytes :: "int \<Rightarrow> int \<Rightarrow> int \<Rightarrow> bytes" where
  "Heartbeat_bytes client_id seq timestamp =
     u32_bytes (word_of_int client_id) @ u32_bytes (word_of_int seq) @ i64_bytes timestamp"

text \<open>\<open>memset\<close> with more than the 4080 bytes of the payload array would write beyond it.\<close>

definition ClientMsg_bytes :: "int \<Rightarrow> int \<Rightarrow> int \<Rightarrow> u32 \<Rightarrow> bytes option" where
  "ClientMsg_bytes seq tick timestamp payload_len =
     (if unat payload_len > 4080 then None
      else Some (u32_bytes (word_of_int seq) @ u32_bytes (word_of_int tick) @ i64_bytes timestamp @ u32_bytes payload_len @
        replicate (unat payload_len) 67 @ replicate (4084 - unat payload_len) 0))"

record ClientState =
  cs_id :: int
  cs_socket_fd :: fd
  cs_channel :: channel
  cs_timer_fd :: fd
  cs_notify_efd :: fd
  cs_tick :: int
  cs_total_read :: int
  cs_reader :: frame_reader

section \<open>The server\<close>

definition kMaxTicks :: int where "kMaxTicks = 40"
definition kMaxClients :: int where "kMaxClients = 16"
definition kHeartbeatMs :: int where "kHeartbeatMs = 300"

text \<open>The loop, the table of clients, the next identifier, and the sockets closed so far.\<close>

record rts =
  rs_loop :: loop
  rs_clients :: "(fd \<times> ClientState) list"
  rs_next_id :: int
  rs_closed :: "fd list"

definition rt_find :: "fd \<Rightarrow> rts \<Rightarrow> ClientState option" where
  "rt_find d s = map_of (rs_clients s) d"

definition rt_put :: "fd \<Rightarrow> ClientState \<Rightarrow> rts \<Rightarrow> rts" where
  "rt_put d cs s = s\<lparr>rs_clients := map (\<lambda>(k, c). (k, if k = d then cs else c)) (rs_clients s)\<rparr>"

text \<open>Erasing the entry destroys the state, which closes the socket.\<close>

definition RemoveClient :: "fd \<Rightarrow> ClientState \<Rightarrow> rts \<Rightarrow> rts" where
  "RemoveClient client_fd cs s = s\<lparr>rs_loop := RemoveFd client_fd (RemoveFd (cs_notify_efd cs) (RemoveTimer (cs_timer_fd cs) (rs_loop s))),
     rs_clients := filter (\<lambda>(k, _). k \<noteq> client_fd) (rs_clients s),
     rs_closed := rs_closed s @ map (\<lambda>(_, c). cs_socket_fd c) (filter (\<lambda>(k, _). k = client_fd) (rs_clients s))\<rparr>"

partial_function (option) DrainClientRing_loop :: "nat \<Rightarrow> (bytes \<Rightarrow> 'm option option) \<Rightarrow> int \<Rightarrow> ClientState \<Rightarrow> (int \<times> ClientState) option" where
  "DrainClientRing_loop cap dec count cs = do {
     (rc, x, ch, fr) \<leftarrow> Recv_loop cap dec (cs_channel cs, cs_reader cs);
     if rc = -3 then Some (-1, cs\<lparr>cs_channel := ch, cs_reader := fr\<rparr>)
     else if rc \<noteq> 0 then Some (count, cs\<lparr>cs_channel := ch, cs_reader := fr\<rparr>)
     else DrainClientRing_loop cap dec (count + 1) (cs\<lparr>cs_channel := ch, cs_reader := fr, cs_total_read := cs_total_read cs + 1\<rparr>)
   }"

definition DrainClientRing :: "nat \<Rightarrow> (bytes \<Rightarrow> 'm option option) \<Rightarrow> ClientState \<Rightarrow> (int \<times> ClientState) option" where
  "DrainClientRing cap dec cs = DrainClientRing_loop cap dec 0 cs"

text \<open>
  The handlers. \<open>send\<close> is how the heartbeat with the given fields is sent (the flag of the result
  tells whether the call returned or threw; the return value is only reported).
\<close>

type_synonym send_fn = "channel \<Rightarrow> int \<Rightarrow> int \<Rightarrow> int \<Rightarrow> u32 \<Rightarrow> (int outcome \<times> channel) option"

definition pod_heartbeat :: "nat \<Rightarrow> send_fn" where
  "pod_heartbeat cap ch client_id seq timestamp n = PodCodec_Send cap Heartbeat_type ch (Heartbeat_bytes client_id seq timestamp) n"

definition OnHeartbeatTimer :: "send_fn \<Rightarrow> int \<Rightarrow> fd \<Rightarrow> fd \<Rightarrow> rts \<Rightarrow> (bool \<times> rts) option" where
  "OnHeartbeatTimer send now timer_fd client_fd s0 =
     (let s = s0\<lparr>rs_loop := snd (DrainTimerfd timer_fd (rs_loop s0))\<rparr> in
      case rt_find client_fd s of
        None \<Rightarrow> Some (True, s)
      | Some cs0 \<Rightarrow>
          let cs = cs0\<lparr>cs_tick := cs_tick cs0 + 1\<rparr> in
          if cs_tick cs > kMaxTicks then Some (True, RemoveClient client_fd cs (rt_put client_fd cs s))
          else (case send (cs_channel cs) (cs_id cs) (cs_tick cs) now (word_of_int (cs_tick cs)) of
                  None \<Rightarrow> None
                | Some (r, ch) \<Rightarrow> Some (r \<noteq> Throw, rt_put client_fd (cs\<lparr>cs_channel := ch\<rparr>) s)))"

definition OnClientNotify :: "nat \<Rightarrow> (bytes \<Rightarrow> 'm option option) \<Rightarrow> fd \<Rightarrow> rts \<Rightarrow> rts option" where
  "OnClientNotify cap dec client_fd s = (case rt_find client_fd s of
     None \<Rightarrow> Some s
   | Some cs0 \<Rightarrow> (case DrainClientRing cap dec (cs0\<lparr>cs_channel := snd (DrainNotify (cs_channel cs0))\<rparr>) of
       None \<Rightarrow> None
     | Some (count, cs) \<Rightarrow>
         let s1 = rt_put client_fd cs s in
         Some (if count < 0 then RemoveClient client_fd cs s1 else s1)))"

text \<open>\<open>hup\<close> and \<open>inp\<close>: the bits of \<open>revents\<close>; \<open>n\<close> and \<open>buf\<close>: what \<open>read\<close> returns and reads.\<close>

definition OnClientSocket :: "nat \<Rightarrow> (bytes \<Rightarrow> 'm option option) \<Rightarrow> bool \<Rightarrow> bool \<Rightarrow> int \<Rightarrow> u8 \<Rightarrow> fd \<Rightarrow> rts \<Rightarrow> rts option" where
  "OnClientSocket cap dec hup inp n buf client_fd s = (case rt_find client_fd s of
     None \<Rightarrow> Some s
   | Some cs0 \<Rightarrow>
       if hup then Some (RemoveClient client_fd cs0 s)
       else if inp \<and> (n \<le> 0 \<or> buf = 0) then
         (case DrainClientRing cap dec cs0 of
            None \<Rightarrow> None
          | Some (_, cs) \<Rightarrow> Some (RemoveClient client_fd cs (rt_put client_fd cs s)))
       else Some s)"

definition cb_heartbeat :: "fd \<Rightarrow> callback" where "cb_heartbeat d = UserCb (3 * nat d + 1)"
definition cb_client_notify :: "fd \<Rightarrow> callback" where "cb_client_notify d = UserCb (3 * nat d + 2)"
definition cb_client_socket :: "fd \<Rightarrow> callback" where "cb_client_socket d = UserCb (3 * nat d + 3)"

text \<open>
  The inputs: what \<open>accept\<close> returns, the channel and its notification descriptor if the handshake
  succeeds, and the outcome of creating the timer. A socket that is not stored is closed, as
  is one whose entry is overwritten.
\<close>

definition Rt_OnAccept :: "fd \<Rightarrow> (fd \<times> channel) option \<Rightarrow> timerfd_sys \<Rightarrow> rts \<Rightarrow> rts" where
  "Rt_OnAccept afd hs tsys s =
     (if int (length (rs_clients s)) \<ge> kMaxClients then (if afd \<ge> 0 then s\<lparr>rs_closed := rs_closed s @ [afd]\<rparr> else s)
      else if afd < 0 then s
      else let cid = rs_next_id s; s1 = s\<lparr>rs_next_id := cid + 1\<rparr> in
        (case hs of
           None \<Rightarrow> s1\<lparr>rs_closed := rs_closed s1 @ [afd]\<rparr>
         | Some (nfd, ch) \<Rightarrow>
             (case AddTimer tsys kHeartbeatMs (cb_heartbeat afd) (rs_loop s1) of
                (None, lp) \<Rightarrow> s1\<lparr>rs_loop := RemoveFd afd (RemoveFd nfd lp), rs_closed := rs_closed s1 @ [afd]\<rparr>
              | (Some tfd, lp) \<Rightarrow>
                  let cs = \<lparr>cs_id = cid, cs_socket_fd = afd, cs_channel = ch, cs_timer_fd = tfd, cs_notify_efd = nfd, cs_tick = 0,
                            cs_total_read = 0, cs_reader = FrameReader_new (64 * 1024)\<rparr>
                  in s1\<lparr>rs_loop := AddFd afd (cb_client_socket afd) POLLIN (AddFd nfd (cb_client_notify afd) POLLIN lp),
                       rs_clients := filter (\<lambda>(k, _). k \<noteq> afd) (rs_clients s1) @ [(afd, cs)],
                       rs_closed := rs_closed s1 @ map (\<lambda>(_, c). cs_socket_fd c) (filter (\<lambda>(k, _). k = afd) (rs_clients s1))\<rparr>)))"

section \<open>The client\<close>

definition kClientMaxTicks :: int where "kClientMaxTicks = 100"

record rtc =
  rc_loop :: loop
  rc_state :: ClientState
  rc_ok :: int
  rc_full :: int

text \<open>
  \<open>OnWriteTimer\<close>; the payload length is drawn from 16 to 4080. \<open>send\<close> is how the message goes out: the
  POD object, or a protobuf message built from the same tick, time and payload length.
\<close>

type_synonym write_fn = "channel \<Rightarrow> bytes \<Rightarrow> int \<Rightarrow> int \<Rightarrow> u32 \<Rightarrow> (int outcome \<times> channel) option"

definition pod_client_msg :: "nat \<Rightarrow> write_fn" where
  "pod_client_msg cap ch msg tick now payload_len = PodCodec_Send cap ClientMsg_type ch msg (word_of_int tick)"

definition OnWriteTimer :: "write_fn \<Rightarrow> int \<Rightarrow> u32 \<Rightarrow> fd \<Rightarrow> rtc \<Rightarrow> (bool \<times> rtc) option" where
  "OnWriteTimer send now payload_len tfd s0 =
     (let cs = (rc_state s0)\<lparr>cs_tick := cs_tick (rc_state s0) + 1\<rparr>;
          s = s0\<lparr>rc_loop := snd (DrainTimerfd tfd (rc_loop s0)), rc_state := cs\<rparr> in
      if cs_tick cs > kClientMaxTicks then Some (True, s\<lparr>rc_loop := Stop (rc_loop s)\<rparr>)
      else do {
        msg \<leftarrow> ClientMsg_bytes (cs_tick cs) (cs_tick cs) now payload_len;
        (r, ch) \<leftarrow> send (cs_channel cs) msg (cs_tick cs) now payload_len;
        let s1 = s\<lparr>rc_state := cs\<lparr>cs_channel := ch\<rparr>\<rparr>;
        Some (case r of
            Throw \<Rightarrow> (False, s1)
          | Ret v \<Rightarrow> (True, if v = 0 then s1\<lparr>rc_ok := rc_ok s1 + 1\<rparr> else s1\<lparr>rc_full := rc_full s1 + 1\<rparr>))
      })"

text \<open>The loop of \<open>OnServerNotify\<close> is the one of \<open>DrainClientRing\<close>; a protocol error stops the client.\<close>

definition OnServerNotify :: "nat \<Rightarrow> (bytes \<Rightarrow> 'm option option) \<Rightarrow> rtc \<Rightarrow> rtc option" where
  "OnServerNotify cap dec s =
     (let cs0 = (rc_state s)\<lparr>cs_channel := snd (DrainNotify (cs_channel (rc_state s)))\<rparr> in
      case DrainClientRing cap dec cs0 of
        None \<Rightarrow> None
      | Some (count, cs) \<Rightarrow>
          Some (if count < 0 then s\<lparr>rc_state := cs, rc_loop := Stop (rc_loop s)\<rparr> else s\<lparr>rc_state := cs\<rparr>))"

definition OnServerSocket :: "bool \<Rightarrow> bool \<Rightarrow> int \<Rightarrow> u8 \<Rightarrow> rtc \<Rightarrow> rtc" where
  "OnServerSocket hup inp n buf s =
     (if hup \<or> (inp \<and> (n \<le> 0 \<or> buf = 0)) then s\<lparr>rc_loop := Stop (rc_loop s)\<rparr> else s)"

section \<open>Draining\<close>

definition cs_wf :: "nat \<Rightarrow> ClientState \<Rightarrow> bool" where
  "cs_wf cap cs \<longleftrightarrow> reader_wf cap (cs_channel cs, cs_reader cs) \<and> ring_wf cap (ch_wr (cs_channel cs))"

definition cs_unread :: "ClientState \<Rightarrow> bytes" where
  "cs_unread cs = unread (cs_channel cs, cs_reader cs)"

text \<open>When \<open>Recv\<close> returns no message, the stream does not start with a complete frame.\<close>

lemma Recv_loop_stop:
  assumes "reader_wf cap s" "Recv_loop cap dec s = Some (rc, None, ch, fr)" and safe: "\<And>p. dec p \<noteq> None"
  shows "rc = -1 \<and> parse_frame cap (unread (ch, fr)) = Incomplete \<or> rc = -3 \<and> parse_frame cap (unread (ch, fr)) = BadLength"
  using assms(1,2)
proof (induction "length (unread s)" arbitrary: s rule: less_induct)
  case less
  from less.prems(1) safe show ?case
  proof (cases rule: Recv_loop_round [where dec = dec])
    case (stop rc' ch' fr')
    then show ?thesis using less.prems(2) by auto
  next
    case (msg h p x ch' fr')
    then show ?thesis using less.prems(2) by simp
  next
    case (skip h p s')
    have "length (unread s') < length (unread s)" using skip(1,5) parse_frame_length by fastforce
    then show ?thesis using less.hyps [OF _ skip(4)] skip(3) less.prems(2) by simp
  qed
qed

text \<open>The write ring is not touched by reading.\<close>

lemma TryRecv_ch_wr: "FrameReader_TryRecv cap (ch, fr) = Some (res, ch', fr') \<Longrightarrow> ch_wr ch' = ch_wr ch"
  by (auto simp: FrameReader_TryRecv_def FrameReader_Commit_def RingChannel_CommitRead_def Let_def
      TryRecv_header_def TryRecv_body_def split: Option.bind_splits option.splits if_splits prod.splits peek_result.splits)

lemma Commit_ch_wr: "FrameReader_Commit (ch, fr) = Some (ch', fr') \<Longrightarrow> ch_wr ch' = ch_wr ch"
  by (auto simp: FrameReader_Commit_def RingChannel_CommitRead_def split: Option.bind_splits if_splits)

lemma Recv_loop_ch_wr:
  fixes dec :: "bytes \<Rightarrow> 'a option option"
  shows "Recv_loop cap dec s = Some y \<Longrightarrow> ch_wr (fst (snd (snd y))) = ch_wr (fst s)"
proof (erule Recv_loop.raw_induct [where P = "\<lambda>cap dec s y. ch_wr (fst (snd (snd y))) = ch_wr (fst s)", rotated])
  fix loop :: "nat \<Rightarrow> (bytes \<Rightarrow> 'a option option) \<Rightarrow> channel \<times> frame_reader \<Rightarrow> (int \<times> 'a option \<times> channel \<times> frame_reader) option"
  fix cap dec s y
  assume ih: "\<And>cap dec s y. loop cap dec s = Some y \<Longrightarrow> ch_wr (fst (snd (snd y))) = ch_wr (fst s)"
  assume b: "(do {
     (res, ch, fr) \<leftarrow> FrameReader_TryRecv cap s;
     (case res of
        RecvErr rc \<Rightarrow>
          if rc = -1 \<or> rc = -3 then Some (rc, None, ch, fr)
          else do {
            s' \<leftarrow> FrameReader_Commit (ch, fr);
            loop cap dec s'
          }
      | RecvOk ptr n \<Rightarrow> do {
          p \<leftarrow> payload_at ch fr ptr n;
          r \<leftarrow> dec p;
          (case r of
             None \<Rightarrow> do {
               s' \<leftarrow> FrameReader_Commit (ch, fr);
               loop cap dec s'
             }
           | Some x \<Rightarrow> Some (0, Some x, ch, fr))
        })
   }) = Some y"
  obtain ch0 fr0 where s: "s = (ch0, fr0)" by (cases s)
  show "ch_wr (fst (snd (snd y))) = ch_wr (fst s)"
    using b s by (auto split: Option.bind_splits recv_result.splits option.splits if_splits dest!: TryRecv_ch_wr Commit_ch_wr ih)
qed

text \<open>What is left of a client state when its ring has been drained.\<close>

definition cs_drained :: "nat \<Rightarrow> ClientState \<Rightarrow> int \<Rightarrow> ClientState \<Rightarrow> bool" where
  "cs_drained cap cs n cs' \<longleftrightarrow> cs_wf cap cs' \<and> (\<exists>k. cs_unread cs' = drop k (cs_unread cs)) \<and>
     cs_total_read cs' = cs_total_read cs + n \<and> 0 \<le> n \<and>
     cs_id cs' = cs_id cs \<and> cs_socket_fd cs' = cs_socket_fd cs \<and> cs_timer_fd cs' = cs_timer_fd cs \<and>
     cs_notify_efd cs' = cs_notify_efd cs \<and> cs_tick cs' = cs_tick cs \<and> ch_wr (cs_channel cs') = ch_wr (cs_channel cs)"

lemma cs_drained_trans: "cs_drained cap a m b \<Longrightarrow> cs_drained cap b n c \<Longrightarrow> cs_drained cap a (m + n) c"
  by (auto simp: cs_drained_def)

lemma Recv_step:
  assumes "cs_wf cap cs" and safe: "\<And>p. dec p \<noteq> None"
  obtains (stop) rc ch fr where "Recv_loop cap dec (cs_channel cs, cs_reader cs) = Some (rc, None, ch, fr)"
      "rc = -1 \<and> parse_frame cap (unread (ch, fr)) = Incomplete \<or> rc = -3 \<and> parse_frame cap (unread (ch, fr)) = BadLength"
      "cs_drained cap cs 0 (cs\<lparr>cs_channel := ch, cs_reader := fr\<rparr>)"
  | (msg) x ch fr where "Recv_loop cap dec (cs_channel cs, cs_reader cs) = Some (0, Some x, ch, fr)"
      "cs_drained cap cs 1 (cs\<lparr>cs_channel := ch, cs_reader := fr, cs_total_read := cs_total_read cs + 1\<rparr>)"
      "length (unread (ch, fr)) < length (cs_unread cs)"
proof -
  have wf: "reader_wf cap (cs_channel cs, cs_reader cs)" "ring_wf cap (ch_wr (cs_channel cs))" using assms(1) by (simp_all add: cs_wf_def)
  obtain rc x ch fr where r: "Recv_loop cap dec (cs_channel cs, cs_reader cs) = Some (rc, x, ch, fr)" "reader_wf cap (ch, fr)"
    and c: "case x of
        None \<Rightarrow> (rc = -1 \<or> rc = -3) \<and> (\<exists>k. unread (ch, fr) = drop k (cs_unread cs))
      | Some y \<Rightarrow> rc = 0 \<and> (\<exists>k h p. parse_frame cap (drop k (cs_unread cs)) = Frame h p \<and> dec p = Some (Some y) \<and>
          FrameReader_LastSeq fr = mh_seq h \<and> unread (ch, fr) = drop (k + 8 + length p) (cs_unread cs))"
    using Recv_loop_returns [OF wf(1), of dec, OF safe] unfolding cs_unread_def by blast
  have w: "ch_wr ch = ch_wr (cs_channel cs)" using Recv_loop_ch_wr [OF r(1)] by simp
  show thesis
  proof (cases x)
    case None
    then show thesis
      using stop [of rc ch fr] r Recv_loop_stop [OF wf(1) _ safe] c w wf(2) by (auto simp: cs_drained_def cs_wf_def cs_unread_def)
  next
    case (Some y)
    then obtain k h p where f: "rc = 0" "parse_frame cap (drop k (cs_unread cs)) = Frame h p" "unread (ch, fr) = drop (k + 8 + length p) (cs_unread cs)"
      using c by auto
    have "8 + length p \<le> length (drop k (cs_unread cs))" by (rule parse_frame_length [OF f(2)])
    then have "length (unread (ch, fr)) < length (cs_unread cs)" using f(3) by simp
    moreover have "cs_drained cap cs 1 (cs\<lparr>cs_channel := ch, cs_reader := fr, cs_total_read := cs_total_read cs + 1\<rparr>)"
      using r(2) f(3) w wf(2) by (auto simp: cs_drained_def cs_wf_def cs_unread_def)
    ultimately show thesis using msg [of y ch fr] r(1) f(1) Some by simp
  qed
qed

lemma DrainClientRing_loop_returns:
  assumes "cs_wf cap cs" and safe: "\<And>p. dec p \<noteq> None"
  shows "\<exists>n r cs'. DrainClientRing_loop cap dec count cs = Some (r, cs') \<and> cs_drained cap cs n cs' \<and>
     (r = count + n \<and> parse_frame cap (cs_unread cs') = Incomplete \<or> r = -1 \<and> parse_frame cap (cs_unread cs') = BadLength)"
  using assms(1)
proof (induction "length (cs_unread cs)" arbitrary: cs count rule: less_induct)
  case less
  note loop = DrainClientRing_loop.simps [of cap dec count cs]
  from less.prems safe show ?case
  proof (cases rule: Recv_step [where dec = dec])
    case (stop rc ch fr)
    have u: "cs_unread (cs\<lparr>cs_channel := ch, cs_reader := fr\<rparr>) = unread (ch, fr)" by (simp add: cs_unread_def)
    show ?thesis
      using stop loop u by (intro exI [of _ 0] exI [of _ "if rc = -3 then -1 else count"] exI [of _ "cs\<lparr>cs_channel := ch, cs_reader := fr\<rparr>"]) auto
  next
    case (msg x ch fr)
    let ?cs = "cs\<lparr>cs_channel := ch, cs_reader := fr, cs_total_read := cs_total_read cs + 1\<rparr>"
    have "length (cs_unread ?cs) < length (cs_unread cs)" "cs_wf cap ?cs"
      using msg(2,3) by (simp_all add: cs_unread_def cs_drained_def)
    from less.hyps [OF this, of "count + 1"] obtain n r cs' where
      h: "DrainClientRing_loop cap dec (count + 1) ?cs = Some (r, cs')" "cs_drained cap ?cs n cs'"
        "r = count + 1 + n \<and> parse_frame cap (cs_unread cs') = Incomplete \<or> r = -1 \<and> parse_frame cap (cs_unread cs') = BadLength" by blast
    have "DrainClientRing_loop cap dec count cs = Some (r, cs')" using loop msg(1) h(1) by simp
    then show ?thesis
      using cs_drained_trans [OF msg(2) h(2)] h(3) by (intro exI [of _ "1 + n"] exI [of _ r] exI [of _ cs']) auto
  qed
qed

section \<open>Runs of the server\<close>

text \<open>
  The handlers in any order. Between them a client may write to its ring and read from the
  other one (\<open>peer\<close>), which keeps both rings well formed. A handshake returns well-formed rings.
\<close>

inductive rt_step :: "nat \<Rightarrow> send_fn \<Rightarrow> (bytes \<Rightarrow> 'm option option) \<Rightarrow> rts \<Rightarrow> rts \<Rightarrow> bool" for cap send dec where
  heartbeat: "OnHeartbeatTimer send now t d s = Some (ok, s') \<Longrightarrow> rt_step cap send dec s s'"
| notify: "OnClientNotify cap dec d s = Some s' \<Longrightarrow> rt_step cap send dec s s'"
| socket: "OnClientSocket cap dec hup inp n buf d s = Some s' \<Longrightarrow> rt_step cap send dec s s'"
| accept: "(\<And>nfd ch. hs = Some (nfd, ch) \<Longrightarrow> ring_wf cap (ch_rd ch) \<and> ring_wf cap (ch_wr ch)) \<Longrightarrow> rt_step cap send dec s (Rt_OnAccept afd hs tsys s)"
| peer: "rt_find d s = Some cs \<Longrightarrow> cs_wf cap (cs\<lparr>cs_channel := ch\<rparr>) \<Longrightarrow> rt_step cap send dec s (rt_put d (cs\<lparr>cs_channel := ch\<rparr>) s)"

inductive rt_reach :: "nat \<Rightarrow> send_fn \<Rightarrow> (bytes \<Rightarrow> 'm option option) \<Rightarrow> rts \<Rightarrow> rts \<Rightarrow> bool" for cap send dec s0 where
  init: "rt_reach cap send dec s0 s0"
| step: "rt_reach cap send dec s0 s \<Longrightarrow> rt_step cap send dec s s' \<Longrightarrow> rt_reach cap send dec s0 s'"

definition cs_ok :: "nat \<Rightarrow> fd \<Rightarrow> ClientState \<Rightarrow> bool" where
  "cs_ok cap d cs \<longleftrightarrow> cs_wf cap cs \<and> 0 \<le> cs_tick cs \<and> cs_tick cs \<le> kMaxTicks \<and> cs_socket_fd cs = d"

definition rt_inv :: "nat \<Rightarrow> rts \<Rightarrow> bool" where
  "rt_inv cap s \<longleftrightarrow> int (length (rs_clients s)) \<le> kMaxClients \<and> distinct (map fst (rs_clients s)) \<and>
     list_all (\<lambda>(d, cs). cs_ok cap d cs) (rs_clients s)"

lemma rt_inv_find: "rt_inv cap s \<Longrightarrow> rt_find d s = Some cs \<Longrightarrow> cs_ok cap d cs"
  by (auto simp: rt_inv_def rt_find_def list_all_iff dest: map_of_SomeD)

lemma rt_inv_put: "rt_inv cap s \<Longrightarrow> cs_ok cap d cs \<Longrightarrow> rt_inv cap (rt_put d cs s)"
  by (auto simp: rt_inv_def rt_put_def list_all_iff comp_def split_beta)

text \<open>Removing a client, also one whose state has just changed.\<close>

lemma rt_inv_remove:
  assumes "rt_inv cap s"
  shows "rt_inv cap (RemoveClient d cs (rt_put d cs' s))" "rt_inv cap (RemoveClient d cs s)"
proof -
  have f: "filter (\<lambda>(k, _). k \<noteq> d) (rs_clients (rt_put d cs' s)) = filter (\<lambda>(k, _). k \<noteq> d) (rs_clients s)"
  proof -
    have "filter (\<lambda>(k, _). k \<noteq> d) (map (\<lambda>(k, c). (k, if k = d then cs' else c)) xs) = filter (\<lambda>(k, _). k \<noteq> d) xs" for xs
      by (induction xs) auto
    then show ?thesis by (simp add: rt_put_def)
  qed
  have l: "int (length (filter (\<lambda>(k, _). k \<noteq> d) (rs_clients s))) \<le> kMaxClients"
    using assms length_filter_le [of "\<lambda>(k, _). k \<noteq> d" "rs_clients s"] unfolding rt_inv_def by linarith
  have "list_all (\<lambda>(d, cs). cs_ok cap d cs) (filter (\<lambda>(k, _). k \<noteq> d) (rs_clients s))" "distinct (map fst (filter (\<lambda>(k, _). k \<noteq> d) (rs_clients s)))"
    using assms by (auto simp: rt_inv_def list_all_iff distinct_map_filter)
  then show "rt_inv cap (RemoveClient d cs (rt_put d cs' s))" "rt_inv cap (RemoveClient d cs s)"
    using assms f l unfolding rt_inv_def RemoveClient_def by simp_all
qed

lemma cs_ok_drained: "cs_ok cap d cs \<Longrightarrow> cs_drained cap cs n cs' \<Longrightarrow> cs_ok cap d cs'"
  by (auto simp: cs_ok_def cs_drained_def)

lemma cs_ok_DrainNotify: "cs_ok cap d cs \<Longrightarrow> cs_ok cap d (cs\<lparr>cs_channel := snd (DrainNotify (cs_channel cs))\<rparr>)"
  by (simp add: cs_ok_def cs_wf_def reader_wf_def DrainNotify_def eventfd_read_def)

lemma DrainClientRing_ok:
  assumes "cs_ok cap d cs" and safe: "\<And>p. dec p \<noteq> None"
  shows "\<exists>r cs'. DrainClientRing cap dec cs = Some (r, cs') \<and> cs_ok cap d cs'"
proof -
  have "cs_wf cap cs" using assms(1) by (simp add: cs_ok_def)
  from DrainClientRing_loop_returns [OF this, of dec 0, OF safe] show ?thesis
    using cs_ok_drained [OF assms(1)] unfolding DrainClientRing_def by blast
qed

lemma OnClientNotify_ok:
  assumes "rt_inv cap s" and safe: "\<And>p. dec p \<noteq> None"
  shows "\<exists>s'. OnClientNotify cap dec d s = Some s' \<and> rt_inv cap s'"
proof (cases "rt_find d s")
  case (Some cs)
  obtain r cs' where "DrainClientRing cap dec (cs\<lparr>cs_channel := snd (DrainNotify (cs_channel cs))\<rparr>) = Some (r, cs')" "cs_ok cap d cs'"
    using DrainClientRing_ok [OF cs_ok_DrainNotify [OF rt_inv_find [OF assms(1) Some]], of dec, OF safe] by blast
  then show ?thesis using Some rt_inv_put [OF assms(1)] rt_inv_remove(1) [OF assms(1)] by (simp add: OnClientNotify_def Let_def)
qed (use assms(1) in \<open>simp add: OnClientNotify_def\<close>)

lemma OnClientSocket_ok:
  assumes "rt_inv cap s" and safe: "\<And>p. dec p \<noteq> None"
  shows "\<exists>s'. OnClientSocket cap dec hup inp n buf d s = Some s' \<and> rt_inv cap s'"
proof (cases "rt_find d s")
  case (Some cs)
  obtain r cs' where "DrainClientRing cap dec cs = Some (r, cs')" using DrainClientRing_ok [OF rt_inv_find [OF assms(1) Some], of dec, OF safe] by blast
  then show ?thesis using Some assms(1) rt_inv_remove [OF assms(1)] by (auto simp: OnClientSocket_def)
qed (use assms(1) in \<open>simp add: OnClientSocket_def\<close>)

lemma Rt_OnAccept_inv:
  assumes "rt_inv cap s" "\<And>nfd ch. hs = Some (nfd, ch) \<Longrightarrow> ring_wf cap (ch_rd ch) \<and> ring_wf cap (ch_wr ch)"
  shows "rt_inv cap (Rt_OnAccept afd hs tsys s)"
proof (cases "int (length (rs_clients s)) \<ge> kMaxClients \<or> afd < 0 \<or> hs = None \<or> fst (AddTimer tsys kHeartbeatMs (cb_heartbeat afd) (rs_loop s)) = None")
  case True
  then show ?thesis using assms(1) by (auto simp: Rt_OnAccept_def rt_inv_def Let_def split: option.splits prod.splits)
next
  case False
  then obtain nfd ch tfd lp where h: "hs = Some (nfd, ch)" "AddTimer tsys kHeartbeatMs (cb_heartbeat afd) (rs_loop s) = (Some tfd, lp)"
    by (cases "AddTimer tsys kHeartbeatMs (cb_heartbeat afd) (rs_loop s)") auto
  let ?xs = "filter (\<lambda>(k, _). k \<noteq> afd) (rs_clients s)"
  let ?cs = "\<lparr>cs_id = rs_next_id s, cs_socket_fd = afd, cs_channel = ch, cs_timer_fd = tfd, cs_notify_efd = nfd, cs_tick = 0,
      cs_total_read = 0, cs_reader = FrameReader_new (64 * 1024)\<rparr>"
  have "cs_ok cap afd ?cs" using assms(2) [OF h(1)] by (simp add: cs_ok_def cs_wf_def reader_wf_def FrameReader_new_def kMaxTicks_def)
  moreover have "int (length ?xs) + 1 \<le> kMaxClients"
    using False length_filter_le [of "\<lambda>(k, _). k \<noteq> afd" "rs_clients s"] by linarith
  moreover have "rs_clients (Rt_OnAccept afd hs tsys s) = ?xs @ [(afd, ?cs)]" using False h by (simp add: Rt_OnAccept_def Let_def)
  moreover have "list_all (\<lambda>(d, cs). cs_ok cap d cs) ?xs" "distinct (map fst ?xs)" "afd \<notin> fst ` set ?xs"
    using assms(1) by (auto simp: rt_inv_def list_all_iff distinct_map_filter)
  ultimately show ?thesis using False by (simp add: rt_inv_def)
qed

text \<open>
  What the runs need of the way a heartbeat is sent: from a client's state it is always defined, it
  does not throw, and it leaves the state well formed.
\<close>

locale heartbeat_sender =
  fixes cap :: nat and send :: send_fn
  assumes send_ok: "cs_ok cap d cs \<Longrightarrow>
     \<exists>r ch. send (cs_channel cs) i q now n = Some (Ret r, ch) \<and> cs_ok cap d (cs\<lparr>cs_channel := ch\<rparr>)"
begin

lemma OnHeartbeatTimer_ok:
  assumes "rt_inv cap s"
  shows "\<exists>s'. OnHeartbeatTimer send now t d s = Some (True, s') \<and> rt_inv cap s'"
proof -
  let ?s = "s\<lparr>rs_loop := snd (DrainTimerfd t (rs_loop s))\<rparr>"
  have i: "rt_inv cap ?s" using assms by (simp add: rt_inv_def)
  show ?thesis
  proof (cases "rt_find d ?s")
    case None
    then show ?thesis using i by (simp add: OnHeartbeatTimer_def)
  next
    case (Some cs0)
    let ?cs = "cs0\<lparr>cs_tick := cs_tick cs0 + 1\<rparr>"
    have o: "cs_ok cap d cs0" by (rule rt_inv_find [OF i Some])
    show ?thesis
    proof (cases "cs_tick ?cs > kMaxTicks")
      case True
      then show ?thesis using Some rt_inv_remove(1) [OF i] by (simp add: OnHeartbeatTimer_def Let_def)
    next
      case False
      then have "cs_ok cap d ?cs" using o by (simp add: cs_ok_def cs_wf_def)
      from send_ok [OF this, of "cs_id cs0" "cs_tick ?cs" now "word_of_int (cs_tick ?cs)"] obtain r ch where
        "send (cs_channel cs0) (cs_id cs0) (cs_tick ?cs) now (word_of_int (cs_tick ?cs)) = Some (Ret r, ch)"
        "cs_ok cap d (?cs\<lparr>cs_channel := ch\<rparr>)" by auto
      then show ?thesis using Some False rt_inv_put [OF i] by (simp add: OnHeartbeatTimer_def Let_def)
    qed
  qed
qed

end

text \<open>With a way to decode the clients' messages that stays inside their payloads.\<close>

locale realtime_io = heartbeat_sender +
  fixes dec :: "bytes \<Rightarrow> 'm option option"
  assumes dec_safe: "dec p \<noteq> None"
begin

lemma rt_inv_step: "rt_step cap send dec s s' \<Longrightarrow> rt_inv cap s \<Longrightarrow> rt_inv cap s'"
proof (induction rule: rt_step.induct)
  case (heartbeat now t d s ok s')
  then show ?case using OnHeartbeatTimer_ok [of s now t d] by auto
next
  case (notify d s s')
  then show ?case using OnClientNotify_ok [of cap s dec d] dec_safe by auto
next
  case (socket hup inp n buf d s s')
  then show ?case using OnClientSocket_ok [of cap s dec hup inp n buf d] dec_safe by auto
next
  case (accept hs s afd tsys)
  then show ?case using Rt_OnAccept_inv by blast
next
  case (peer d s cs ch)
  have "cs_ok cap d (cs\<lparr>cs_channel := ch\<rparr>)" using rt_inv_find [OF peer(3,1)] peer(2) by (simp add: cs_ok_def)
  then show ?case using rt_inv_put [OF peer(3)] by blast
qed

lemma rt_inv_reach: "rt_reach cap send dec s0 s \<Longrightarrow> rt_inv cap s0 \<Longrightarrow> rt_inv cap s"
  by (induction rule: rt_reach.induct) (auto intro: rt_inv_step)

lemma handlers_run:
  assumes "rs_clients s0 = []" "rt_reach cap send dec s0 s"
  shows "length (rs_clients s) \<le> 16 \<and> list_all (\<lambda>(_, cs). cs_tick cs \<le> 40) (rs_clients s) \<and>
    (\<exists>s'. OnHeartbeatTimer send now t d s = Some (True, s')) \<and>
    (\<exists>s'. OnClientNotify cap dec d s = Some s') \<and> (\<exists>s'. OnClientSocket cap dec hup inp n buf d s = Some s')"
proof -
  have i: "rt_inv cap s" by (rule rt_inv_reach [OF assms(2)]) (simp add: rt_inv_def assms(1) kMaxClients_def)
  then have "length (rs_clients s) \<le> 16" "list_all (\<lambda>(_, cs). cs_tick cs \<le> 40) (rs_clients s)"
    by (auto simp: rt_inv_def kMaxClients_def cs_ok_def kMaxTicks_def list_all_iff)
  then show ?thesis
    using OnHeartbeatTimer_ok [OF i, of now t d] OnClientNotify_ok [OF i, of dec d] OnClientSocket_ok [OF i, of dec hup inp n buf d] dec_safe by blast
qed

end

text \<open>Sending a POD heartbeat.\<close>

lemma pod_heartbeat_ok:
  assumes "cs_ok cap d cs"
  shows "\<exists>r ch. pod_heartbeat cap (cs_channel cs) i q now n = Some (Ret r, ch) \<and> cs_ok cap d (cs\<lparr>cs_channel := ch\<rparr>)"
proof -
  have wf: "ring_wf cap (ch_wr (cs_channel cs))" using assms by (simp add: cs_ok_def cs_wf_def)
  have v: "Pod_valid Heartbeat_type (Heartbeat_bytes i q now)"
    by (simp add: Pod_valid_def Heartbeat_type_def Heartbeat_bytes_def i64_bytes_def)
  have "pt_size Heartbeat_type \<le> max_write_size cap"
    using cap_ok_bounds ring_wfD(1) [OF wf] by (fastforce simp: Heartbeat_type_def max_write_size_def)
  from PodCodec_Send_cases [OF wf v this, of n] obtain r ch where
    "PodCodec_Send cap Heartbeat_type (cs_channel cs) (Heartbeat_bytes i q now) n = Some (Ret r, ch)"
    "ring_wf cap (ch_wr ch)" "ch_rd ch = ch_rd (cs_channel cs)" by (auto split: if_splits)
  then show ?thesis using assms by (auto simp: pod_heartbeat_def cs_ok_def cs_wf_def reader_wf_def)
qed

interpretation podrt: realtime_io cap "pod_heartbeat cap" "Pod_dec T" for cap T
  by unfold_locales (rule pod_heartbeat_ok, assumption, rule Pod_dec_safe)

text \<open>Removing a client kills all entries of its three descriptors in the loop.\<close>

lemma RemoveClient_dead:
  assumes "k < length (lp_entries (rs_loop s))"
    "en_fd (lp_entries (rs_loop s) ! k) \<in> {d, cs_notify_efd cs, cs_timer_fd cs}"
  shows "en_dead (lp_entries (rs_loop (RemoveClient d cs s)) ! k)" "rt_find d (RemoveClient d cs s) = None"
proof -
  have e: "lp_entries (RemoveTimer t lp) = lp_entries (RemoveFd t lp)" for t lp by (simp add: RemoveTimer_def Let_def)
  show "en_dead (lp_entries (rs_loop (RemoveClient d cs s)) ! k)"
    using assms by (auto simp: RemoveClient_def RemoveFd_def e [unfolded RemoveFd_def])
  show "rt_find d (RemoveClient d cs s) = None" by (auto simp: rt_find_def RemoveClient_def map_of_eq_None_iff)
qed

definition demo_rts :: rts where
  "demo_rts = \<lparr>rs_loop = EventLoop_new, rs_clients = [], rs_next_id = 1, rs_closed = []\<rparr>"

text \<open>
  C38: the stand-alone server in POD mode, in any sequence of its handlers and of its clients'
  writing and reading: it never has more than 16 clients, counts at most 40 heartbeats for each
  of them, and its timer, notification and socket handlers always run to their end without
  throwing (which would end the program), whatever frames the clients send; in particular the
  handlers read only inside the rings, and decoding a frame, of whatever tag and length, reads
  only inside its payload. (Between the handlers the clients keep the positions of their rings
  within the capacity.)
\<close>

theorem rt_server_safe:
  assumes "rs_clients s0 = []" "rt_reach cap (pod_heartbeat cap) (Pod_dec ClientMsg_type) s0 s"
  shows "length (rs_clients s) \<le> 16 \<and> list_all (\<lambda>(_, cs). cs_tick cs \<le> 40) (rs_clients s) \<and>
    (\<exists>s'. OnHeartbeatTimer (pod_heartbeat cap) now t d s = Some (True, s')) \<and>
    (\<exists>s'. OnClientNotify cap (Pod_dec ClientMsg_type) d s = Some s') \<and>
    (\<exists>s'. OnClientSocket cap (Pod_dec ClientMsg_type) hup inp n buf d s = Some s')"
  using assms by (rule podrt.handlers_run)

lemma demo_rings_ok: "ring_wf 1024 (RingBuf_Init 1024)"
  by (simp add: ring_wf_def cap_ok_def RingBuf_Init_def used_def dist_def)

definition demo_rt_channel :: channel where
  "demo_rt_channel = \<lparr>ch_wr = RingBuf_Init 1024, ch_rd = RingBuf_Init 1024, ch_peer_evt = 0, ch_own_evt = 0\<rparr>"

theorem rt_server_safe_witness:
  "length (rs_clients (Rt_OnAccept 7 (Some (8, demo_rt_channel)) (TimerOk 9) demo_rts)) = 1 \<and>
   (\<exists>s'. OnHeartbeatTimer (pod_heartbeat 1024) 0 9 7 (Rt_OnAccept 7 (Some (8, demo_rt_channel)) (TimerOk 9) demo_rts) = Some (True, s'))"
proof -
  let ?s = "Rt_OnAccept 7 (Some (8, demo_rt_channel)) (TimerOk 9) demo_rts"
  have "rt_reach 1024 (pod_heartbeat 1024) (Pod_dec ClientMsg_type) demo_rts ?s"
    by (rule rt_reach.step [OF rt_reach.init rt_step.accept]) (auto simp: demo_rt_channel_def demo_rings_ok)
  moreover have "rs_clients demo_rts = []" by (simp add: demo_rts_def)
  moreover have "length (rs_clients ?s) = 1" by (simp add: Rt_OnAccept_def demo_rts_def kMaxClients_def AddTimer_def Let_def)
  ultimately show ?thesis using rt_server_safe [of demo_rts 1024 ?s 0 9 7] by blast
qed

section \<open>The client's messages\<close>

lemma length_ClientMsg_bytes: "ClientMsg_bytes q t now n = Some msg \<Longrightarrow> length msg = 4104"
  by (auto simp: ClientMsg_bytes_def i64_bytes_def split: if_splits)

text \<open>
  A tick of the client: up to the hundredth, one more message is in the stream or one more is
  counted as refused; the next one stops the loop.
\<close>

lemma OnWriteTimer_tick:
  assumes "cs_wf cap (rc_state s)" "unat payload_len \<le> 4080" "4104 \<le> max_write_size cap"
  defines "cs \<equiv> rc_state s" and "q \<equiv> cs_tick (rc_state s) + 1"
  shows "\<exists>s'. OnWriteTimer (pod_client_msg cap) now payload_len tfd s = Some (True, s') \<and> cs_wf cap (rc_state s') \<and> cs_tick (rc_state s') = q \<and>
    (if q > kClientMaxTicks then \<not> lp_running (rc_loop s') \<and> cs_channel (rc_state s') = cs_channel cs
     else if used (ch_wr (cs_channel cs)) + 4116 \<le> cap
     then rc_ok s' = rc_ok s + 1 \<and> rc_full s' = rc_full s \<and>
       contents (ch_wr (cs_channel (rc_state s'))) = contents (ch_wr (cs_channel cs)) @
         frame (Pod_enc ClientMsg_type (the (ClientMsg_bytes q q now payload_len))) (word_of_int q)
     else rc_full s' = rc_full s + 1 \<and> rc_ok s' = rc_ok s \<and> cs_channel (rc_state s') = cs_channel cs)"
proof -
  obtain msg where m: "ClientMsg_bytes q q now payload_len = Some msg" using assms(2) by (simp add: ClientMsg_bytes_def)
  have v: "Pod_valid ClientMsg_type msg" using length_ClientMsg_bytes [OF m] by (simp add: Pod_valid_def ClientMsg_type_def)
  have wf: "ring_wf cap (ch_wr (cs_channel cs))" using assms(1) by (simp add: cs_wf_def cs_def)
  from PodCodec_Send_cases [OF wf v, of "word_of_int q"] assms(3) obtain ch where
    "PodCodec_Send cap ClientMsg_type (cs_channel cs) msg (word_of_int q)
       = Some (if used (ch_wr (cs_channel cs)) + 4116 \<le> cap then Ret 0 else Ret (-1), ch)"
    "ring_wf cap (ch_wr ch)" "ch_rd ch = ch_rd (cs_channel cs)"
    "if used (ch_wr (cs_channel cs)) + 4116 \<le> cap
     then contents (ch_wr ch) = contents (ch_wr (cs_channel cs)) @ frame (Pod_enc ClientMsg_type msg) (word_of_int q)
     else ch = cs_channel cs"
    by (auto simp: ClientMsg_type_def split: if_splits)
  then show ?thesis
    using assms(1) m by (auto simp: OnWriteTimer_def pod_client_msg_def Let_def cs_def q_def cs_wf_def reader_wf_def Stop_def)
qed

end
