(* ===== verification/Message_Codec.thy ===== *)
theory Message_Codec
  imports Proto_Codec Proto_Parse Realtime
begin

text \<open>
  \<open>ProtoCodec<HeartbeatProto>\<close> and \<open>ProtoCodec<ClientMsgProto>\<close>: the codec of \<open>Proto_Codec\<close> on the
  generated messages of \<open>Proto_Messages\<close>. What is left of the protobuf library are the
  wrappers around the generated functions (\<open>HeartbeatProto_lite\<close>, \<open>ClientMsgProto_lite\<close>):
  \<open>SerializeToArray\<close> stores what \<open>_InternalSerialize\<close> leaves in an array of \<open>ByteSizeLong\<close> bytes,
  \<open>ParseFromArray\<close> succeeds when \<open>_InternalParse\<close> on a cleared message ends without an
  error at the end of the input, and the name of the type is \<open>FullMessageName\<close>.
  The programs \<open>server.cpp\<close> and \<open>client.cpp\<close> use these codecs when they run with \<open>--cmd proto\<close>.
\<close>

section \<open>The messages as the programs fill them\<close>

definition HeartbeatProto_of :: "u32 \<times> u32 \<times> u64 \<Rightarrow> 'u HeartbeatProto" where
  "HeartbeatProto_of v = (case v of (client_id, seq, timestamp) \<Rightarrow>
     HeartbeatProto_set_timestamp timestamp (HeartbeatProto_set_seq seq (HeartbeatProto_set_client_id client_id HeartbeatProto_new)))"

definition ClientMsgProto_of :: "u32 \<times> u32 \<times> u64 \<times> bytes \<Rightarrow> 'u ClientMsgProto" where
  "ClientMsgProto_of v = (case v of (seq, tick, timestamp, payload) \<Rightarrow>
     ClientMsgProto_set_payload payload (ClientMsgProto_set_timestamp timestamp
       (ClientMsgProto_set_tick tick (ClientMsgProto_set_seq seq ClientMsgProto_new))))"

lemma HeartbeatProto_of_fields: "HeartbeatProto_fields (HeartbeatProto_of v) = v" "msg_unknown (HeartbeatProto_of v) = None"
  by (simp_all add: HeartbeatProto_of_def HeartbeatProto_fields_def HeartbeatProto_new_def HeartbeatProto_set_client_id_def
      HeartbeatProto_set_seq_def HeartbeatProto_set_timestamp_def split: prod.split)

lemma ClientMsgProto_of_fields: "ClientMsgProto_fields (ClientMsgProto_of v) = v" "msg_unknown (ClientMsgProto_of v) = None"
  by (simp_all add: ClientMsgProto_of_def ClientMsgProto_fields_def ClientMsgProto_new_def ClientMsgProto_set_payload_def
      ClientMsgProto_set_seq_def ClientMsgProto_set_tick_def ClientMsgProto_set_timestamp_def split: prod.split)

text \<open>The protobuf branches of \<open>OnHeartbeatTimer\<close> and \<open>OnWriteTimer\<close>; the payload is a string of \<open>C\<close>.\<close>

definition proto_heartbeat :: "nat \<Rightarrow> (u32 \<times> u32 \<times> u64) proto \<Rightarrow> send_fn" where
  "proto_heartbeat cap P ch client_id seq timestamp n =
     ProtoCodec_Send cap P ch (word_of_int client_id, word_of_int seq, word_of_int timestamp) n"

definition proto_client_msg :: "nat \<Rightarrow> (u32 \<times> u32 \<times> u64 \<times> bytes) proto \<Rightarrow> write_fn" where
  "proto_client_msg cap P ch msg tick now payload_len =
     ProtoCodec_Send cap P ch (word_of_int tick, word_of_int tick, word_of_int now, replicate (unat payload_len) 0x43) (word_of_int tick)"

section \<open>The wrappers of the library\<close>

definition HeartbeatProto_lite :: "('u, 'l) pb_lib_scheme \<Rightarrow> (u32 \<times> u32 \<times> u64) proto \<Rightarrow> bool" where
  "HeartbeatProto_lite L P \<longleftrightarrow> pb_name P = HeartbeatProto_FullMessageName \<and>
     (\<forall>v n st d q. n = unat (fst (HeartbeatProto_ByteSizeLong L (HeartbeatProto_of v))) \<and>
        HeartbeatProto_InternalSerialize L (HeartbeatProto_of v) (EpsCopyOutputStream_array n, replicate n 0, 0) = Some (st, d, q)
        \<longrightarrow> pb_ser P v = d) \<and>
     (\<forall>d p c m q c'. EpsCopyInputStream_InitFrom d = (p, c) \<and>
        HeartbeatProto_InternalParse L HeartbeatProto_new p c = Some (m, Some q, c') \<and> EndedAtLimit c'
        \<longrightarrow> pb_parse P d = Some (HeartbeatProto_fields m))"

definition ClientMsgProto_lite :: "('u, 'l) pb_lib_scheme \<Rightarrow> (u32 \<times> u32 \<times> u64 \<times> bytes) proto \<Rightarrow> bool" where
  "ClientMsgProto_lite L P \<longleftrightarrow> pb_name P = ClientMsgProto_FullMessageName \<and>
     (\<forall>v n st d q. n = unat (fst (ClientMsgProto_ByteSizeLong L (ClientMsgProto_of v))) \<and>
        ClientMsgProto_InternalSerialize L (ClientMsgProto_of v) (EpsCopyOutputStream_array n, replicate n 0, 0) = Some (st, d, q)
        \<longrightarrow> pb_ser P v = d) \<and>
     (\<forall>d p c m q c'. EpsCopyInputStream_InitFrom d = (p, c) \<and>
        ClientMsgProto_InternalParse L ClientMsgProto_new p c = Some (m, Some q, c') \<and> EndedAtLimit c'
        \<longrightarrow> pb_parse P d = Some (ClientMsgProto_fields m))"

text \<open>With them the codec's hypothesis holds for the generated messages.\<close>

lemma HeartbeatProto_codec:
  assumes law: "pb_lib_law (L :: ('u, 'l) pb_lib_scheme)" and P: "HeartbeatProto_lite L P"
  shows "pb_ser P v = HeartbeatProto_wire (HeartbeatProto_of v :: 'u HeartbeatProto)" "proto_law P v"
proof -
  let ?m = "HeartbeatProto_of v :: 'u HeartbeatProto"
  let ?a = "replicate (unat (fst (HeartbeatProto_ByteSizeLong L ?m))) (0 :: u8)"
  note w = HeartbeatProto_write_parse [OF law HeartbeatProto_of_fields(2), of ?a v, OF length_replicate]
  show s: "pb_ser P v = HeartbeatProto_wire ?m"
    using P w(1) unfolding HeartbeatProto_lite_def length_replicate by blast
  obtain p c where i: "EpsCopyInputStream_InitFrom (HeartbeatProto_wire ?m) = (p, c)" by (cases "EpsCopyInputStream_InitFrom (HeartbeatProto_wire ?m)")
  with w(3) obtain m' q c' where "HeartbeatProto_InternalParse L HeartbeatProto_new p c = Some (m', Some q, c')" "EndedAtLimit c'"
    "HeartbeatProto_fields m' = v" by (auto simp: HeartbeatProto_restored_def HeartbeatProto_of_fields)
  then have "pb_parse P (HeartbeatProto_wire ?m) = Some v" using P i unfolding HeartbeatProto_lite_def by blast
  then show "proto_law P v" by (simp add: proto_law_def s)
qed

lemma ClientMsgProto_codec:
  assumes law: "pb_lib_law (L :: ('u, 'l) pb_lib_scheme)" and P: "ClientMsgProto_lite L P" and l: "length (cp_payload (ClientMsgProto_of v)) < 2147483632"
  shows "pb_ser P v = ClientMsgProto_wire (ClientMsgProto_of v :: 'u ClientMsgProto)" "proto_law P v"
proof -
  let ?m = "ClientMsgProto_of v :: 'u ClientMsgProto"
  let ?a = "replicate (unat (fst (ClientMsgProto_ByteSizeLong L ?m))) (0 :: u8)"
  have l': "length (cp_payload ?m) < 2147483632" using l by (auto simp: ClientMsgProto_of_def ClientMsgProto_set_payload_def split: prod.splits)
  note w = ClientMsgProto_write_parse [OF law ClientMsgProto_of_fields(2) l', of ?a, OF length_replicate]
  show s: "pb_ser P v = ClientMsgProto_wire ?m"
    using P w(1) unfolding ClientMsgProto_lite_def length_replicate by blast
  obtain p c where i: "EpsCopyInputStream_InitFrom (ClientMsgProto_wire ?m) = (p, c)" by (cases "EpsCopyInputStream_InitFrom (ClientMsgProto_wire ?m)")
  with w(3) obtain m' q c' where "ClientMsgProto_InternalParse L ClientMsgProto_new p c = Some (m', Some q, c')" "EndedAtLimit c'"
    "ClientMsgProto_fields m' = v" by (auto simp: ClientMsgProto_restored_def ClientMsgProto_of_fields)
  then have "pb_parse P (ClientMsgProto_wire ?m) = Some v" using P i unfolding ClientMsgProto_lite_def by blast
  then show "proto_law P v" by (simp add: proto_law_def s)
qed

text \<open>How long the frames get.\<close>

lemma HeartbeatProto_wire_le: "length (HeartbeatProto_wire msg) \<le> 33"
  using SizePlusOne_le(1) [of "hp_client_id msg"] SizePlusOne_le(1) [of "hp_seq msg"] SizePlusOne_le(2) [of "hp_timestamp msg"]
  by (simp add: HeartbeatProto_wire_def wire_lengths)

lemma ClientMsgProto_wire_le: "length (cp_payload msg) < 2147483632 \<Longrightarrow> length (ClientMsgProto_wire msg) \<le> length (cp_payload msg) + 39"
  using SizePlusOne_le(1) [of "cp_seq msg"] SizePlusOne_le(1) [of "cp_tick msg"] SizePlusOne_le(2) [of "cp_timestamp msg"]
    BytesSize_eq(2) [of "cp_payload msg"]
  by (simp add: ClientMsgProto_wire_def wire_lengths bytes_wire_def bytes_field_def varint_small)

lemma name_lengths: "length HeartbeatProto_FullMessageName = 22" "length ClientMsgProto_FullMessageName = 22"
  by (simp_all add: HeartbeatProto_FullMessageName_def ClientMsgProto_FullMessageName_def ascii_def)

lemma names_differ: "HeartbeatProto_FullMessageName \<noteq> ClientMsgProto_FullMessageName"
proof -
  have "HeartbeatProto_FullMessageName ! 8 \<noteq> ClientMsgProto_FullMessageName ! 8"
    by (simp add: HeartbeatProto_FullMessageName_def ClientMsgProto_FullMessageName_def ascii_def of_char_def)
  then show ?thesis by metis
qed

lemma HeartbeatProto_sizes:
  assumes "pb_lib_law (L :: ('u, 'l) pb_lib_scheme)" "HeartbeatProto_lite L P"
  shows "Proto_fits P v" "length (pb_name P) = 22" "length (Proto_enc P v) \<le> 57"
  using HeartbeatProto_codec(1) [OF assms, of v] HeartbeatProto_wire_le [of "HeartbeatProto_of v :: 'u HeartbeatProto"] assms(2)
  by (simp_all add: Proto_fits_def HeartbeatProto_lite_def name_lengths Proto_enc_def)

lemma ClientMsgProto_sizes:
  assumes "pb_lib_law (L :: ('u, 'l) pb_lib_scheme)" "ClientMsgProto_lite L P" "length payload < 2147483632"
  shows "proto_law P (seq, tick, ts, payload)" "Proto_fits P (seq, tick, ts, payload)" "length (pb_name P) = 22"
    "length (Proto_enc P (seq, tick, ts, payload)) \<le> length payload + 63"
proof -
  have p: "cp_payload (ClientMsgProto_of (seq, tick, ts, payload) :: 'v ClientMsgProto) = payload" for seq tick ts
    by (simp add: ClientMsgProto_of_def ClientMsgProto_set_payload_def)
  note c = ClientMsgProto_codec [OF assms(1,2), of "(seq, tick, ts, payload)", unfolded p, OF assms(3)]
  show "proto_law P (seq, tick, ts, payload)" by (rule c(2))
  show "Proto_fits P (seq, tick, ts, payload)" "length (pb_name P) = 22" "length (Proto_enc P (seq, tick, ts, payload)) \<le> length payload + 63"
    using ClientMsgProto_wire_le [of "ClientMsgProto_of (seq, tick, ts, payload) :: 'u ClientMsgProto"] assms(2,3)
    by (simp_all add: p c(1) Proto_fits_def ClientMsgProto_lite_def name_lengths Proto_enc_def)
qed

lemma name_fits: "ring_wf cap r \<Longrightarrow> 22 \<le> max_write_size cap"
  using cap_ok_bounds ring_wfD(1) by (fastforce simp: max_write_size_def)

text \<open>A frame of the other type is not decoded.\<close>

lemma other_type_rejected:
  assumes "ClientMsgProto_lite L P" "HeartbeatProto_lite L Q" "length (Proto_enc P v) < 4294967296"
  shows "Proto_dec Q (Proto_enc P v) = Some None"
proof (rule ccontr)
  assume "Proto_dec Q (Proto_enc P v) \<noteq> Some None"
  then obtain m where m: "Proto_dec Q (Proto_enc P v) = Some (Some m)"
    using Proto_dec_safe [of Q "Proto_enc P v"] by auto
  have n: "length (pb_name P) = 22" "length (pb_name Q) = 22" "pb_name P \<noteq> pb_name Q"
    using assms name_lengths names_differ by (auto simp: ClientMsgProto_lite_def HeartbeatProto_lite_def)
  obtain d where "Proto_enc P v = name_prefix (pb_name Q) @ d" using m Proto_dec_iff [of "Proto_enc P v" Q m] assms(3) n by auto
  then have "take 24 (Proto_enc P v) = name_prefix (pb_name Q)" using n by simp
  then show False using n by (simp add: Proto_enc_def name_prefix_def)
qed

text \<open>Such wrappers over flat arrays exist.\<close>

definition flat_HeartbeatProto :: "(u32 \<times> u32 \<times> u64) proto" where
  "flat_HeartbeatProto = \<lparr>pb_name = HeartbeatProto_FullMessageName,
     pb_ser = (\<lambda>v. let n = unat (fst (HeartbeatProto_ByteSizeLong flat_lib (HeartbeatProto_of v))) in
       case HeartbeatProto_InternalSerialize flat_lib (HeartbeatProto_of v) (EpsCopyOutputStream_array n, replicate n 0, 0) of
         Some (_, d, _) \<Rightarrow> d | None \<Rightarrow> []),
     pb_parse = (\<lambda>d. case EpsCopyInputStream_InitFrom d of (p, c) \<Rightarrow>
       case HeartbeatProto_InternalParse flat_lib HeartbeatProto_new p c of
         Some (m, Some _, c') \<Rightarrow> if EndedAtLimit c' then Some (HeartbeatProto_fields m) else None
       | _ \<Rightarrow> None)\<rparr>"

definition flat_ClientMsgProto :: "(u32 \<times> u32 \<times> u64 \<times> bytes) proto" where
  "flat_ClientMsgProto = \<lparr>pb_name = ClientMsgProto_FullMessageName,
     pb_ser = (\<lambda>v. let n = unat (fst (ClientMsgProto_ByteSizeLong flat_lib (ClientMsgProto_of v))) in
       case ClientMsgProto_InternalSerialize flat_lib (ClientMsgProto_of v) (EpsCopyOutputStream_array n, replicate n 0, 0) of
         Some (_, d, _) \<Rightarrow> d | None \<Rightarrow> []),
     pb_parse = (\<lambda>d. case EpsCopyInputStream_InitFrom d of (p, c) \<Rightarrow>
       case ClientMsgProto_InternalParse flat_lib ClientMsgProto_new p c of
         Some (m, Some _, c') \<Rightarrow> if EndedAtLimit c' then Some (ClientMsgProto_fields m) else None
       | _ \<Rightarrow> None)\<rparr>"

lemma flat_HeartbeatProto_lite: "HeartbeatProto_lite flat_lib flat_HeartbeatProto"
  by (auto simp: HeartbeatProto_lite_def flat_HeartbeatProto_def Let_def)

lemma flat_ClientMsgProto_lite: "ClientMsgProto_lite flat_lib flat_ClientMsgProto"
  by (auto simp: ClientMsgProto_lite_def flat_ClientMsgProto_def Let_def)

section \<open>Heartbeats of the server\<close>

lemma proto_heartbeat_sender:
  assumes "pb_lib_law L" "HeartbeatProto_lite L P"
  shows "heartbeat_sender cap (proto_heartbeat cap P)"
proof
  fix d cs i q now n assume o: "cs_ok cap d cs"
  have wf: "ring_wf cap (ch_wr (cs_channel cs))" using o by (simp add: cs_ok_def cs_wf_def)
  let ?v = "(word_of_int i, word_of_int q, word_of_int now) :: u32 \<times> u32 \<times> u64"
  have "length (pb_name P) \<le> max_write_size cap" using HeartbeatProto_sizes(2) [OF assms] name_fits [OF wf] by simp
  from ProtoCodec_Send_cases [OF wf HeartbeatProto_sizes(1) [OF assms, of ?v] this, of n] obtain r ch where
    "ProtoCodec_Send cap P (cs_channel cs) ?v n = Some (Ret r, ch)" "ring_wf cap (ch_wr ch)" "ch_rd ch = ch_rd (cs_channel cs)"
    by (auto split: if_splits)
  then show "\<exists>r ch. proto_heartbeat cap P (cs_channel cs) i q now n = Some (Ret r, ch) \<and> cs_ok cap d (cs\<lparr>cs_channel := ch\<rparr>)"
    using o by (auto simp: proto_heartbeat_def cs_ok_def cs_wf_def reader_wf_def)
qed

lemma proto_realtime_io:
  assumes "pb_lib_law L" "HeartbeatProto_lite L P"
  shows "realtime_io cap (proto_heartbeat cap P) (Proto_dec Q)"
  using proto_heartbeat_sender [OF assms] Proto_dec_safe by (intro realtime_io.intro realtime_io_axioms.intro) auto

text \<open>So the server's handlers run to their end in protobuf mode too.\<close>

lemma proto_server_safe:
  assumes "pb_lib_law L" "HeartbeatProto_lite L P" "rs_clients s0 = []"
    and "rt_reach cap (proto_heartbeat cap P) (Proto_dec Q) s0 s"
  shows "length (rs_clients s) \<le> 16 \<and> list_all (\<lambda>(_, cs). cs_tick cs \<le> 40) (rs_clients s) \<and>
    (\<exists>s'. OnHeartbeatTimer (proto_heartbeat cap P) now t d s = Some (True, s')) \<and>
    (\<exists>s'. OnClientNotify cap (Proto_dec Q) d s = Some s') \<and> (\<exists>s'. OnClientSocket cap (Proto_dec Q) hup inp n buf d s = Some s')"
  using realtime_io.handlers_run [OF proto_realtime_io [OF assms(1,2)] assms(3,4)] .

text \<open>The client receives a heartbeat that the server sent.\<close>

lemma HeartbeatProto_Send_Recv:
  assumes "pb_lib_law L" "HeartbeatProto_lite L P" "reader_wf cap (b, fr)" "ch_wr a = ch_rd b" "57 \<le> length (fr_buf fr)"
    and "unread (b, fr) = concat (map (\<lambda>(p, q). frame p q) bad)" "list_all (\<lambda>(p, q). Proto_dec P p = Some None) bad"
    and "proto_heartbeat cap P a i q now n = Some (Ret 0, a')"
  shows "\<exists>b' fr'. ProtoCodec_Recv cap P (b\<lparr>ch_rd := ch_wr a'\<rparr>, fr)
       = Some (0, Some (word_of_int i, word_of_int q, word_of_int now), b', fr') \<and>
     FrameReader_LastSeq fr' = n \<and> unread (b', fr') = []"
proof -
  let ?v = "(word_of_int i, word_of_int q, word_of_int now) :: u32 \<times> u32 \<times> u64"
  have "length (pb_name P) \<le> max_write_size cap"
    using name_fits [of cap "ch_rd b"] assms(3) HeartbeatProto_sizes(2) [OF assms(1,2)] by (simp add: reader_wf_def)
  from ProtoCodec_Send_Recv [OF HeartbeatProto_codec(2) [OF assms(1,2)] assms(3,4) HeartbeatProto_sizes(1) [OF assms(1,2)] this
      assms(6,7) assms(8) [unfolded proto_heartbeat_def]]
  show ?thesis using HeartbeatProto_sizes(3) [OF assms(1,2), of ?v] assms(5) by (simp del: length_Proto_enc)
qed

section \<open>Messages of the client\<close>

lemma ClientMsgProto_delivered:
  assumes "pb_lib_law L" "ClientMsgProto_lite L P" "reader_wf cap (b, fr)" "ch_wr a = ch_rd b" "length payload < 2147483632"
    and "unread (b, fr) = concat (map (\<lambda>(p, q). frame p q) bad)" "list_all (\<lambda>(p, q). Proto_dec P p = Some None) bad"
    and "ProtoCodec_Send cap P a (seq, tick, ts, payload) n = Some (Ret 0, a')"
  shows "length (Proto_enc P (seq, tick, ts, payload)) \<le> length payload + 63 \<and>
    (if in_one_piece cap (write_pos (ch_wr a)) (length (Proto_enc P (seq, tick, ts, payload))) \<or>
        length (Proto_enc P (seq, tick, ts, payload)) \<le> length (fr_buf fr)
     then \<exists>b' fr'. ProtoCodec_Recv cap P (b\<lparr>ch_rd := ch_wr a'\<rparr>, fr) = Some (0, Some (seq, tick, ts, payload), b', fr') \<and>
            FrameReader_LastSeq fr' = n \<and> unread (b', fr') = []
     else \<exists>b' fr'. ProtoCodec_Recv cap P (b\<lparr>ch_rd := ch_wr a'\<rparr>, fr) = Some (-1, None, b', fr') \<and> unread (b', fr') = [])"
proof -
  note z = ClientMsgProto_sizes [OF assms(1,2,5)]
  have "length (pb_name P) \<le> max_write_size cap"
    using name_fits [of cap "ch_rd b"] assms(3) z(3) by (simp add: reader_wf_def)
  from ProtoCodec_Send_Recv [OF z(1) assms(3,4) z(2) this assms(6,7,8)] z(4) show ?thesis by blast
qed

text \<open>A tick of the client in protobuf mode that counts as sent: the server receives that tick's message.\<close>

lemma proto_client_msg_delivered:
  assumes "pb_lib_law L" "ClientMsgProto_lite L P" "reader_wf cap (b, fr)" "ch_wr (cs_channel (rc_state s)) = ch_rd b"
    and "unat payload_len \<le> 4080" "4143 \<le> length (fr_buf fr)"
    and "unread (b, fr) = concat (map (\<lambda>(p, q). frame p q) bad)" "list_all (\<lambda>(p, q). Proto_dec P p = Some None) bad"
    and "OnWriteTimer (proto_client_msg cap P) now payload_len tfd s = Some (ok, s')" "rc_ok s' = rc_ok s + 1"
  defines "q \<equiv> cs_tick (rc_state s) + 1"
  shows "\<exists>b' fr'. ProtoCodec_Recv cap P (b\<lparr>ch_rd := ch_wr (cs_channel (rc_state s'))\<rparr>, fr)
       = Some (0, Some (word_of_int q, word_of_int q, word_of_int now, replicate (unat payload_len) 0x43), b', fr') \<and>
     FrameReader_LastSeq fr' = word_of_int q \<and> unread (b', fr') = []"
proof -
  let ?d = "replicate (unat payload_len) (0x43 :: u8)"
  have s: "ProtoCodec_Send cap P (cs_channel (rc_state s)) (word_of_int q, word_of_int q, word_of_int now, ?d) (word_of_int q)
      = Some (Ret 0, cs_channel (rc_state s'))"
    using assms(9,10) unfolding q_def OnWriteTimer_def proto_client_msg_def
    by (auto simp: Let_def split: if_splits Option.bind_splits outcome.splits)
  have l: "length ?d < 2147483632" "length ?d + 63 \<le> length (fr_buf fr)" using assms(5,6) by simp_all
  show ?thesis using ClientMsgProto_delivered [OF assms(1-4) l(1) assms(7,8) s] l(2)
    by (auto simp del: length_Proto_enc split: if_splits)
qed

section \<open>Properties\<close>

text \<open>
  C16: \<open>ProtoCodec<ClientMsgProto>\<close> end to end, on the generated code: a message that \<open>Send\<close>
  accepted, with a payload field of less than 2147483632 bytes, is returned by the peer's next
  \<open>Recv\<close> with all its fields and its sequence number, behind any frames of other types, which are
  dropped, provided its frame lies in one piece in the ring or the encoded message, at most 63
  bytes longer than the payload field, fits into the reader's fallback buffer. A larger
  message that wraps around the end of the ring is dropped: \<open>Recv\<close> then returns -1.
  Of the protobuf library only the wrappers around the generated functions and the
  fallbacks of its streams are assumed.
\<close>

theorem ClientMsgProto_Send_Recv:
  assumes "pb_lib_law L" "ClientMsgProto_lite L P" "reader_wf cap (b, fr)" "ch_wr a = ch_rd b" "length payload < 2147483632"
    and "unread (b, fr) = concat (map (\<lambda>(p, q). frame p q) bad)" "list_all (\<lambda>(p, q). Proto_dec P p = Some None) bad"
    and "ProtoCodec_Send cap P a (seq, tick, ts, payload) n = Some (Ret 0, a')"
  shows "length (Proto_enc P (seq, tick, ts, payload)) \<le> length payload + 63 \<and>
    (if in_one_piece cap (write_pos (ch_wr a)) (length (Proto_enc P (seq, tick, ts, payload))) \<or>
        length (Proto_enc P (seq, tick, ts, payload)) \<le> length (fr_buf fr)
     then \<exists>b' fr'. ProtoCodec_Recv cap P (b\<lparr>ch_rd := ch_wr a'\<rparr>, fr) = Some (0, Some (seq, tick, ts, payload), b', fr') \<and>
            FrameReader_LastSeq fr' = n \<and> unread (b', fr') = []
     else \<exists>b' fr'. ProtoCodec_Recv cap P (b\<lparr>ch_rd := ch_wr a'\<rparr>, fr) = Some (-1, None, b', fr') \<and> unread (b', fr') = [])"
  using assms by (rule ClientMsgProto_delivered)

theorem ClientMsgProto_Send_Recv_witness:
  "\<exists>a'. ProtoCodec_Send 1024 flat_ClientMsgProto chan_near_wrap (4294967295, 2, 3, [1, 2]) 9 = Some (Ret 0, a') \<and>
     (\<exists>b' fr'. ProtoCodec_Recv 1024 flat_ClientMsgProto (chan_near_wrap\<lparr>ch_rd := ch_wr a'\<rparr>, (FrameReader_new 128)\<lparr>fr_pending_commit := 2\<rparr>)
         = Some (0, Some (4294967295, 2, 3, [1, 2]), b', fr') \<and> FrameReader_LastSeq fr' = 9 \<and> unread (b', fr') = [])"
proof -
  let ?fr = "(FrameReader_new 128)\<lparr>fr_pending_commit := 2\<rparr>" and ?P = flat_ClientMsgProto
  let ?v = "(4294967295, 2, 3, [1, 2]) :: u32 \<times> u32 \<times> u64 \<times> bytes"
  have "length [1 :: u8, 2] < 2147483632" by simp
  note z = ClientMsgProto_sizes [OF flat_lib_law flat_ClientMsgProto_lite this]
  have e: "length (Proto_enc ?P ?v) \<le> 65" using z(4) [of 4294967295 2 3] by simp
  from ProtoCodec_Send_cases [of 1024 chan_near_wrap, OF _ z(2), of 4294967295 2 3 9] e obtain a' where
    s: "ProtoCodec_Send 1024 ?P chan_near_wrap ?v 9 = Some (Ret 0, a')"
    using ring_near_wrap_wf z(3) by (auto simp: max_write_size_def chan_near_wrap_sel)
  have wf: "reader_wf 1024 (chan_near_wrap\<lparr>ch_rd := ring_near_wrap\<rparr>, ?fr)"
    by (simp add: reader_wf_def ring_near_wrap_wf)
  have u: "unread (chan_near_wrap\<lparr>ch_rd := ring_near_wrap\<rparr>, ?fr) = concat (map (\<lambda>(p, q). frame p q) [])"
    by (simp add: unread_def ring_near_wrap_contents)
  have b: "length (fr_buf ?fr) = 128" by (simp add: FrameReader_new_def)
  show ?thesis
    using ClientMsgProto_Send_Recv [OF flat_lib_law flat_ClientMsgProto_lite wf _ _ u _ s] s e b
    by (simp add: chan_near_wrap_sel del: length_Proto_enc)
qed

end
