(* ===== verification/Comm_Types.thy ===== *)
theory Comm_Types
  imports Shm_Prelude
begin

text \<open>
  The vocabulary of \<open>include/comm/types.h\<close> and \<open>include/comm/codec.h\<close>: return codes,
  connection states and close types, the dynamically typed message (\<open>std::any\<close>) and the
  virtual codec interface with its duck-typing adapter.
\<close>

definition kCodecNeedMoreBuffer :: int where "kCodecNeedMoreBuffer = 0"
definition kCodecDisconnect :: int where "kCodecDisconnect = -1"
definition kCodecSkipPackage :: int where "kCodecSkipPackage = -2"

lemmas codec_codes = kCodecNeedMoreBuffer_def kCodecDisconnect_def kCodecSkipPackage_def

datatype CloseType = Unknow | Active | Passive | KeepLiveTimeOut

datatype TcpConnType = UnknownConn | TcpConn_Task | TcpConn_Client

datatype conn_state = verifing | established | closeing | closeed

datatype client_state = cl_established | cl_connecting | cl_closeing | cl_close

text \<open>
  A \<open>std::any\<close> holding a trivially copyable object: its dynamic type (a
  \<open>std::type_index\<close>) and the object's bytes. An empty \<open>std::any\<close> is \<open>None\<close> where one
  can occur.
\<close>

record any_val =
  any_type :: nat
  any_data :: bytes

text \<open>
  The virtual functions of \<open>comm::codec::Codec\<close>, as functions that are undefined where the
  call would access memory outside its arguments: \<open>Encode\<close> and \<open>SendKeepAlive\<close> get the
  buffer they may fill and return their return value, \<open>*size\<close> (which callers initialise to 0)
  and the buffer after the call; \<open>Decode\<close> gets the input bytes and returns its return
  value, the package (empty if it did not set it) and \<open>*size\<close>.
\<close>

type_synonym encode_fn = "bytes \<Rightarrow> (int \<times> nat \<times> bytes) option"
type_synonym decode_fn = "bytes \<Rightarrow> (int \<times> any_val option \<times> nat) option"

record codec =
  cd_Encode :: "any_val \<Rightarrow> encode_fn"
  cd_Decode :: decode_fn
  cd_SendKeepAlive :: encode_fn
  cd_ParseKeepAlive :: "bytes \<Rightarrow> bool \<times> nat"

text \<open>The defaults of the base class.\<close>

definition Codec_default :: codec where
  "Codec_default = \<lparr>cd_Encode = (\<lambda>pkg buf. Some (kCodecNeedMoreBuffer, 0, buf)), cd_Decode = (\<lambda>buf. Some (kCodecNeedMoreBuffer, None, 0)),
     cd_SendKeepAlive = (\<lambda>buf. Some (kCodecNeedMoreBuffer, 0, buf)), cd_ParseKeepAlive = (\<lambda>buf. (False, 0))\<rparr>"

text \<open>
  \<open>detail::Adapter<T>\<close>: the wrapped class always has \<open>Encode\<close> and \<open>Decode\<close>, and the
  keep-alive functions only if \<open>HasSendKeepAlive\<close> and \<open>HasParseKeepAlive\<close> find them.
\<close>

record inner_codec =
  in_Encode :: "any_val \<Rightarrow> encode_fn"
  in_Decode :: decode_fn
  in_SendKeepAlive :: "encode_fn option"
  in_ParseKeepAlive :: "(bytes \<Rightarrow> bool \<times> nat) option"

definition Adapt :: "inner_codec \<Rightarrow> codec" where
  "Adapt c = \<lparr>cd_Encode = in_Encode c, cd_Decode = in_Decode c,
     cd_SendKeepAlive = (\<lambda>buf. case in_SendKeepAlive c of Some f \<Rightarrow> f buf | None \<Rightarrow> Some (kCodecNeedMoreBuffer, 0, buf)),
     cd_ParseKeepAlive = (\<lambda>buf. case in_ParseKeepAlive c of Some f \<Rightarrow> f buf | None \<Rightarrow> (False, 0))\<rparr>"

end
