(* ===== verification/Connection.thy ===== *)
theory Connection
  imports Event_Loop Ring_Channel Comm_Types
begin

text \<open>
  \<open>ShmConnection\<close> of \<open>include/shm_ipc/shm_connection.hpp\<close> (interface \<open>comm/connection.h\<close>):
  state machine, sending through the codec, and \<open>DrainRing\<close>, which decodes and dispatches
  what the peer wrote. Operations work on the connection and the event loop that owns its
  verification timer.

  An application callback is a list of connection operations, computed from the callbacks
  the connection made before and, for messages, the package. The codec is a pure function
  of its arguments. \<open>cn_events\<close> records the callbacks made, \<open>cn_shutdown\<close> whether
  \<open>shutdown\<close> was called on the socket.
\<close>

section \<open>The model\<close>

datatype conn_event = ConnectionCb | MessageCb "any_val option" | CloseCb | VerifyCb | VerifyTimeout

text \<open>What application code does to a connection from a callback.\<close>

datatype conn_op = CoSendCmd any_val | CoClose | CoOnVerify bool | CoStartVerifyTimer timerfd_sys int "conn_op list"
  | CoSetKeepAlive bool | CoResizeBuffer nat nat | CoSetContext "any_val option" | CoSetRpcContext "any_val option" | CoThrow

type_synonym conn_cb = "conn_event list \<Rightarrow> conn_op list"

record conn =
  cn_id :: u64
  cn_state :: conn_state
  cn_socket :: fd
  cn_shutdown :: bool
  cn_channel :: channel
  cn_codec :: "codec option"
  cn_connectioncb :: "conn_cb option"
  cn_messagecb :: "(any_val option \<Rightarrow> conn_cb) option"
  cn_closecb :: "conn_cb option"
  cn_verifycb :: "conn_cb option"
  cn_context :: "any_val option"
  cn_rpc_context :: "any_val option"
  cn_verify_timer :: int
  cn_verify_action :: "conn_op list"
  cn_close_type :: CloseType
  cn_conntype :: TcpConnType
  cn_keepalive :: bool
  cn_encode_buf :: bytes
  cn_staging :: bytes
  cn_max_buffer_size :: nat
  cn_events :: "conn_event list"

type_synonym cst = "conn \<times> loop"

definition ShmConnection_new :: "u64 \<Rightarrow> fd \<Rightarrow> channel \<Rightarrow> conn" where
  "ShmConnection_new i sock ch = \<lparr>cn_id = i, cn_state = closeed, cn_socket = sock, cn_shutdown = False, cn_channel = ch,
     cn_codec = None, cn_connectioncb = None, cn_messagecb = None, cn_closecb = None, cn_verifycb = None,
     cn_context = None, cn_rpc_context = None, cn_verify_timer = 0, cn_verify_action = [], cn_close_type = Passive,
     cn_conntype = UnknownConn, cn_keepalive = False, cn_encode_buf = replicate (128 * 1024) 0, cn_staging = [],
     cn_max_buffer_size = 1024 * 1024, cn_events = []\<rparr>"

definition conn_open :: "conn \<Rightarrow> bool" where
  "conn_open c \<longleftrightarrow> cn_state c = established \<or> cn_state c = verifing"

fun RemoveVerifyTimer :: "cst \<Rightarrow> cst" where
  "RemoveVerifyTimer (c, lp) = (if cn_verify_timer c \<noteq> 0
     then (c\<lparr>cn_verify_timer := 0\<rparr>, RemoveTimer (cn_verify_timer c) lp) else (c, lp))"

fun Close :: "cst \<Rightarrow> cst" where
  "Close (c, lp) = RemoveVerifyTimer
     (if conn_open c then c\<lparr>cn_close_type := Active, cn_state := closeing, cn_shutdown := True\<rparr> else c, lp)"

fun OnVerify :: "bool \<Rightarrow> cst \<Rightarrow> cst" where
  "OnVerify succ s = (let (c, lp) = RemoveVerifyTimer s in
     if succ then (c\<lparr>cn_state := established\<rparr>, lp) else Close (c, lp))"

text \<open>
  \<open>StartVerifyTimer\<close>: the delay is a 64-bit number converted to \<open>int\<close>. The flag is whether
  the call returned; creating the timer may throw. \<open>verify_cb\<close> numbers the timer's callback.
\<close>

definition verify_cb :: "u64 \<Rightarrow> nat" where "verify_cb i = 3 * unat i + 2"

definition to_int :: "int \<Rightarrow> int" where
  "to_int x = sint (word_of_int x :: u32)"

fun StartVerifyTimer :: "timerfd_sys \<Rightarrow> int \<Rightarrow> conn_op list \<Rightarrow> cst \<Rightarrow> bool \<times> cst" where
  "StartVerifyTimer sys expired_ms action (c, lp) =
     (if cn_verify_timer c \<noteq> 0 then (True, c, lp)
      else case AddOneShotTimer sys (to_int expired_ms) (UserCb (verify_cb (cn_id c))) lp of
        (None, lp1) \<Rightarrow> (False, c, lp1)
      | (Some tfd, lp1) \<Rightarrow> (True, c\<lparr>cn_verify_timer := tfd, cn_verify_action := action\<rparr>, lp1))"

definition SetKeepAlive :: "bool \<Rightarrow> conn \<Rightarrow> conn" where
  "SetKeepAlive b c = c\<lparr>cn_keepalive := b\<rparr>"

text \<open>\<open>std::vector::resize\<close>.\<close>

definition vec_resize :: "nat \<Rightarrow> bytes \<Rightarrow> bytes" where
  "vec_resize n v = take n v @ replicate (n - length v) 0"

definition ResizeBuffer :: "nat \<Rightarrow> nat \<Rightarrow> conn \<Rightarrow> conn" where
  "ResizeBuffer sz mx c = (let c1 = c\<lparr>cn_max_buffer_size := mx\<rparr> in
     if length (cn_encode_buf c1) < sz then c1\<lparr>cn_encode_buf := vec_resize sz (cn_encode_buf c1)\<rparr> else c1)"

definition GrowEncodeBuffer :: "nat \<Rightarrow> conn \<Rightarrow> bool \<times> conn" where
  "GrowEncodeBuffer need c =
     (if need > cn_max_buffer_size c then (False, c)
      else (True, if need > length (cn_encode_buf c) then c\<lparr>cn_encode_buf := vec_resize need (cn_encode_buf c)\<rparr> else c))"

subsection \<open>Sending\<close>

text \<open>The chunk loop of \<open>WriteRaw\<close>: a chunk is at most \<open>max_write_size\<close>.\<close>

function WriteRaw_loop :: "nat \<Rightarrow> bytes \<Rightarrow> u32 \<Rightarrow> channel \<Rightarrow> (bool \<times> channel) option" where
  "WriteRaw_loop cap p left ch =
     (if left = 0 then Some (True, NotifyPeer ch)
      else let chunk = min left (word_of_nat (max_write_size cap)) in
        (case RingChannel_TryWrite cap ch (Some p) chunk of
           None \<Rightarrow> None
         | Some (rc, ch1) \<Rightarrow>
             if rc \<noteq> 0 then Some (False, ch1)
             else WriteRaw_loop cap (drop (unat chunk) p) (left - chunk) ch1))"
  by pat_completeness auto

lemma RingChannel_TryWrite_pos: "RingChannel_TryWrite cap ch d len = Some (0, ch') \<Longrightarrow> len \<noteq> 0"
  by (auto simp: RingChannel_TryWrite_def RingBuf_TryWrite_def)

lemma min_chunk_less:
  assumes "(left :: u32) \<noteq> 0" "min left m \<noteq> 0"
  shows "unat (left - min left m) < unat left"
proof -
  have "unat (left - min left m) = unat left - unat (min left m)" by (intro unat_sub) simp
  moreover have "unat (min left m) > 0" using assms(2) by (simp add: unat_gt_0)
  moreover have "unat left > 0" using assms(1) by (simp add: unat_gt_0)
  ultimately show ?thesis by simp
qed

termination WriteRaw_loop
  by (relation "measure (\<lambda>(cap, p, left, ch). unat left)")
    (auto dest: RingChannel_TryWrite_pos intro: min_chunk_less)

definition WriteRaw :: "nat \<Rightarrow> bytes \<Rightarrow> u32 \<Rightarrow> channel \<Rightarrow> (bool \<times> channel) option" where
  "WriteRaw cap data len ch =
     (if len = 0 then Some (True, ch)
      else if RingChannel_WritableBytes cap ch < ucast len then Some (False, ch)
      else WriteRaw_loop cap data len ch)"

text \<open>
  A call of \<open>Encode\<close> or \<open>SendKeepAlive\<close> on the encode buffer, which cannot change the size
  of the vector.
\<close>

definition call_encode :: "encode_fn \<Rightarrow> conn \<Rightarrow> (int \<times> nat \<times> conn) option" where
  "call_encode f c = (case f (cn_encode_buf c) of
     None \<Rightarrow> None
   | Some (len, out, buf) \<Rightarrow>
       if length buf = length (cn_encode_buf c) then Some (len, out, c\<lparr>cn_encode_buf := buf\<rparr>) else None)"

definition write_encoded :: "nat \<Rightarrow> int \<Rightarrow> conn \<Rightarrow> (bool \<times> conn) option" where
  "write_encoded cap len c = (case WriteRaw cap (cn_encode_buf c) (word_of_int len) (cn_channel c) of
     None \<Rightarrow> None
   | Some (ok, ch) \<Rightarrow> Some (ok, c\<lparr>cn_channel := ch\<rparr>))"

lemma call_encode_sel:
  "call_encode f c = Some (len, out, c1) \<Longrightarrow>
     length (cn_encode_buf c1) = length (cn_encode_buf c) \<and> cn_max_buffer_size c1 = cn_max_buffer_size c"
  by (auto simp: call_encode_def split: option.splits if_splits)

lemma length_vec_resize [simp]: "length (vec_resize n v) = n"
  by (simp add: vec_resize_def)

text \<open>A retry has a larger buffer, still within the maximum.\<close>

lemma grow_step:
  "call_encode f c = Some (len, out, c1) \<Longrightarrow> \<not> out \<le> length (cn_encode_buf c1) \<Longrightarrow> GrowEncodeBuffer out c1 = (True, c2) \<Longrightarrow>
     cn_max_buffer_size c2 - length (cn_encode_buf c2) < cn_max_buffer_size c - length (cn_encode_buf c)"
  by (drule call_encode_sel) (auto simp: GrowEncodeBuffer_def split: if_splits)

function SendCmd_loop :: "nat \<Rightarrow> encode_fn \<Rightarrow> cst \<Rightarrow> (bool \<times> cst) option" where
  "SendCmd_loop cap enc (c, lp) = (case call_encode enc c of
     None \<Rightarrow> None
   | Some (len, out, c1) \<Rightarrow>
       if len = kCodecSkipPackage then Some (True, c1, lp)
       else if len = kCodecDisconnect then Some (False, Close (c1, lp))
       else if len = kCodecNeedMoreBuffer then
         (if out = 0 \<or> out \<le> length (cn_encode_buf c1) then Some (False, c1, lp)
          else case GrowEncodeBuffer out c1 of
            (False, c2) \<Rightarrow> Some (False, c2, lp)
          | (True, c2) \<Rightarrow> SendCmd_loop cap enc (c2, lp))
       else (case write_encoded cap len c1 of None \<Rightarrow> None | Some (ok, c2) \<Rightarrow> Some (ok, c2, lp)))"
  by pat_completeness auto

termination SendCmd_loop
  by (relation "measure (\<lambda>(cap, enc, c, lp). cn_max_buffer_size c - length (cn_encode_buf c))")
    (auto intro: grow_step)

fun SendCmd :: "nat \<Rightarrow> any_val \<Rightarrow> cst \<Rightarrow> (bool \<times> cst) option" where
  "SendCmd cap pkg (c, lp) =
     (if \<not> conn_open c then Some (False, c, lp)
      else case cn_codec c of
        None \<Rightarrow> Some (False, c, lp)
      | Some cd \<Rightarrow> SendCmd_loop cap (cd_Encode cd pkg) (c, lp))"

function SendKeepalive_loop :: "nat \<Rightarrow> encode_fn \<Rightarrow> conn \<Rightarrow> conn option" where
  "SendKeepalive_loop cap enc c = (case call_encode enc c of
     None \<Rightarrow> None
   | Some (len, sz, c1) \<Rightarrow>
       if len > 0 then (case write_encoded cap len c1 of None \<Rightarrow> None | Some (ok, c2) \<Rightarrow> Some c2)
       else if len \<noteq> kCodecNeedMoreBuffer then Some c1
       else if sz = 0 \<or> sz \<le> length (cn_encode_buf c1) then Some c1
       else (case GrowEncodeBuffer sz c1 of
           (False, c2) \<Rightarrow> Some c2
         | (True, c2) \<Rightarrow> SendKeepalive_loop cap enc c2))"
  by pat_completeness auto

termination SendKeepalive_loop
  by (relation "measure (\<lambda>(cap, enc, c). cn_max_buffer_size c - length (cn_encode_buf c))")
    (auto intro: grow_step)

definition SendKeepaliveResponse :: "nat \<Rightarrow> conn \<Rightarrow> conn option" where
  "SendKeepaliveResponse cap c = (case cn_codec c of
     None \<Rightarrow> Some c
   | Some cd \<Rightarrow> SendKeepalive_loop cap (cd_SendKeepAlive cd) c)"

subsection \<open>Callbacks\<close>

text \<open>The flag is whether the operation returned (or threw).\<close>

fun do_conn_op :: "nat \<Rightarrow> conn_op \<Rightarrow> cst \<Rightarrow> (bool \<times> cst) option" where
  "do_conn_op cap (CoSendCmd pkg) s = (case SendCmd cap pkg s of None \<Rightarrow> None | Some (_, s1) \<Rightarrow> Some (True, s1))"
| "do_conn_op cap CoClose s = Some (True, Close s)"
| "do_conn_op cap (CoOnVerify succ) s = Some (True, OnVerify succ s)"
| "do_conn_op cap (CoStartVerifyTimer sys ms action) s = Some (StartVerifyTimer sys ms action s)"
| "do_conn_op cap (CoSetKeepAlive b) (c, lp) = Some (True, SetKeepAlive b c, lp)"
| "do_conn_op cap (CoResizeBuffer sz mx) (c, lp) = Some (True, ResizeBuffer sz mx c, lp)"
| "do_conn_op cap (CoSetContext a) (c, lp) = Some (True, c\<lparr>cn_context := a\<rparr>, lp)"
| "do_conn_op cap (CoSetRpcContext a) (c, lp) = Some (True, c\<lparr>cn_rpc_context := a\<rparr>, lp)"
| "do_conn_op cap CoThrow s = Some (False, s)"

fun do_conn_ops :: "nat \<Rightarrow> conn_op list \<Rightarrow> cst \<Rightarrow> (bool \<times> cst) option" where
  "do_conn_ops cap [] s = Some (True, s)"
| "do_conn_ops cap (x # xs) s = (case do_conn_op cap x s of
     None \<Rightarrow> None
   | Some (False, s1) \<Rightarrow> Some (False, s1)
   | Some (True, s1) \<Rightarrow> do_conn_ops cap xs s1)"

text \<open>Calling a callback records it and runs what it does.\<close>

fun invoke :: "nat \<Rightarrow> conn_event \<Rightarrow> conn_cb \<Rightarrow> cst \<Rightarrow> (bool \<times> cst) option" where
  "invoke cap ev cb (c, lp) = do_conn_ops cap (cb (cn_events c)) (c\<lparr>cn_events := cn_events c @ [ev]\<rparr>, lp)"

fun invoke_opt :: "nat \<Rightarrow> conn_event \<Rightarrow> conn_cb option \<Rightarrow> cst \<Rightarrow> (bool \<times> cst) option" where
  "invoke_opt cap ev None s = Some (True, s)"
| "invoke_opt cap ev (Some cb) s = invoke cap ev cb s"

fun OnConnection :: "nat \<Rightarrow> cst \<Rightarrow> (bool \<times> cst) option" where
  "OnConnection cap (c, lp) = do {
     (ok, c1, lp1) \<leftarrow> (case cn_verifycb c of
        Some cb \<Rightarrow> invoke cap VerifyCb cb (c\<lparr>cn_state := verifing\<rparr>, lp)
      | None \<Rightarrow> Some (True, c\<lparr>cn_state := established\<rparr>, lp));
     if ok then invoke_opt cap ConnectionCb (cn_connectioncb c1) (c1, lp1) else Some (False, c1, lp1)
   }"

fun OnMessage :: "nat \<Rightarrow> any_val option \<Rightarrow> cst \<Rightarrow> (bool \<times> cst) option" where
  "OnMessage cap pkg (c, lp) = (case cn_messagecb c of
     Some cb \<Rightarrow> if conn_open c then invoke cap (MessageCb pkg) (cb pkg) (c, lp) else Some (True, c, lp)
   | None \<Rightarrow> Some (True, c, lp))"

fun OnClose :: "nat \<Rightarrow> cst \<Rightarrow> (bool \<times> cst) option" where
  "OnClose cap (c, lp) = do {
     (ok, c1, lp1) \<leftarrow> (if cn_state c \<noteq> closeed
        then invoke_opt cap CloseCb (cn_closecb c) (c\<lparr>cn_state := closeed\<rparr>, lp) else Some (True, c, lp));
     if ok then Some (True, RemoveVerifyTimer (c1\<lparr>cn_context := None, cn_rpc_context := None\<rparr>, lp1))
     else Some (False, c1, lp1)
   }"

text \<open>The one-shot timer's callback, after the loop has removed the timer.\<close>

fun OnVerifyTimeout :: "nat \<Rightarrow> cst \<Rightarrow> (bool \<times> cst) option" where
  "OnVerifyTimeout cap (c, lp) =
     invoke cap VerifyTimeout (\<lambda>_. cn_verify_action c) (c\<lparr>cn_verify_timer := 0\<rparr>, lp)"

subsection \<open>Receiving\<close>

text \<open>
  The bytes \<open>Decode\<close> gets: the single segment of the ring, or both segments copied into the
  staging buffer.
\<close>

definition linearise :: "bytes \<Rightarrow> nat \<Rightarrow> u32 \<Rightarrow> nat option \<Rightarrow> u32 \<Rightarrow> bytes \<Rightarrow> (bytes \<times> bytes) option" where
  "linearise mem o1 l1 s2 l2 staging = do {
     a \<leftarrow> mem_read mem o1 (unat l1);
     if l2 > 0 then do {
       o2 \<leftarrow> s2;
       b \<leftarrow> mem_read mem o2 (unat l2);
       let total = unat (l1 + l2);
       let st = (if length staging < total then vec_resize total staging else staging);
       st1 \<leftarrow> mem_write st 0 a;
       st2 \<leftarrow> mem_write st1 (unat l1) b;
       buf \<leftarrow> mem_read st2 0 total;
       Some (buf, st2)
     } else Some (a, staging)
   }"

definition conn_commit :: "conn \<Rightarrow> u32 \<Rightarrow> conn option" where
  "conn_commit c n = (case RingChannel_CommitRead (cn_channel c) n of
     None \<Rightarrow> None | Some ch \<Rightarrow> Some (c\<lparr>cn_channel := ch\<rparr>))"

text \<open>
  One pass of the loop: \<open>Inl\<close> the value the function returns (or an exception), \<open>Inr\<close> the
  count and state of the next pass.
\<close>

fun DrainRing_body :: "nat \<Rightarrow> codec \<Rightarrow> int \<Rightarrow> cst \<Rightarrow> ((int outcome \<times> cst) + (int \<times> cst)) option" where
  "DrainRing_body cap cd count (c, lp) =
     (case RingChannel_Peek cap (cn_channel c) of
        PeekEmpty \<Rightarrow> Some (Inl (Ret count, c, lp))
      | PeekSegs o1 l1 s2 l2 \<Rightarrow> do {
          (buf, st) \<leftarrow> linearise (ring_bytes (ch_rd (cn_channel c))) o1 l1 s2 l2 (cn_staging c);
          (len, pkg, out) \<leftarrow> cd_Decode cd buf;
          let c1 = c\<lparr>cn_staging := st\<rparr>;
          if len = kCodecDisconnect then Some (Inl (Ret (-1), c1, lp))
          else if len = kCodecNeedMoreBuffer then Some (Inl (Ret count, c1, lp))
          else if len = kCodecSkipPackage then
            (if out = 0 \<or> out > length buf then Some (Inl (Ret (-1), c1, lp))
             else do {
               c2 \<leftarrow> conn_commit c1 (word_of_nat out);
               c3 \<leftarrow> (if cn_keepalive c2 then SendKeepaliveResponse cap c2 else Some c2);
               Some (Inr (count, c3, lp))
             })
          else if len < 0 then Some (Inl (Ret (-1), c1, lp))
          else if unat (word_of_int len :: u32) > length buf then Some (Inl (Ret (-1), c1, lp))
          else do {
            c2 \<leftarrow> conn_commit c1 (word_of_int len);
            (ok, s3) \<leftarrow> OnMessage cap pkg (c2, lp);
            Some (if ok then Inr (count + 1, s3) else Inl (Throw, s3))
          }
        })"

partial_function (option) DrainRing_loop :: "nat \<Rightarrow> codec \<Rightarrow> int \<Rightarrow> cst \<Rightarrow> (int outcome \<times> cst) option" where
  "DrainRing_loop cap cd count s = (case DrainRing_body cap cd count s of
     None \<Rightarrow> None
   | Some (Inl res) \<Rightarrow> Some res
   | Some (Inr (count1, s1)) \<Rightarrow> DrainRing_loop cap cd count1 s1)"

definition DrainRing :: "nat \<Rightarrow> cst \<Rightarrow> (int outcome \<times> cst) option" where
  "DrainRing cap s = (case cn_codec (fst s) of
     None \<Rightarrow> Some (Ret (-1), s)
   | Some cd \<Rightarrow> DrainRing_loop cap cd 0 s)"

declare WriteRaw_loop.simps [simp del] SendCmd_loop.simps [simp del] SendKeepalive_loop.simps [simp del]
  RemoveVerifyTimer.simps [simp del] Close.simps [simp del] OnVerify.simps [simp del]

section \<open>Writing\<close>

lemma max_write_word:
  assumes "cap_ok cap"
  shows "unat (word_of_nat (max_write_size cap) :: u32) = cap div 2"
proof -
  have "cap div 2 < 4294967296" using cap_ok_bounds [OF assms] by linarith
  then show ?thesis by (simp add: max_write_size_def unat_of_nat_u32)
qed

text \<open>The channel after bytes were appended for the peer.\<close>

definition wrote :: "nat \<Rightarrow> channel \<Rightarrow> bytes \<Rightarrow> channel \<Rightarrow> bool" where
  "wrote cap ch xs ch' \<longleftrightarrow> ring_wf cap (ch_wr ch') \<and> contents (ch_wr ch') = contents (ch_wr ch) @ xs \<and>
     read_pos (ch_wr ch') = read_pos (ch_wr ch) \<and> ch_rd ch' = ch_rd ch \<and> ch_own_evt ch' = ch_own_evt ch"

lemma wrote_refl: "ring_wf cap (ch_wr ch) \<Longrightarrow> wrote cap ch [] ch"
  by (simp add: wrote_def)

lemma wrote_trans: "wrote cap a xs b \<Longrightarrow> wrote cap b ys c \<Longrightarrow> wrote cap a (xs @ ys) c"
  by (simp add: wrote_def)

lemma RingChannel_TryWrite_wrote:
  assumes "ring_wf cap (ch_wr ch)" "len \<noteq> 0" "unat len \<le> max_write_size cap"
    "used (ch_wr ch) + unat len \<le> cap" "unat len \<le> length p"
  shows "\<exists>ch'. RingChannel_TryWrite cap ch (Some p) len = Some (0, ch') \<and> wrote cap ch (take (unat len) p) ch' \<and>
     ch_peer_evt ch' = ch_peer_evt ch"
  using RingBuf_TryWrite_accept [OF assms] by (auto simp: RingChannel_TryWrite_def wrote_def)

lemma WriteRaw_loop_complete:
  assumes "ring_wf cap (ch_wr ch)" "used (ch_wr ch) + unat left \<le> cap" "unat left \<le> length p"
  shows "\<exists>ch'. WriteRaw_loop cap p left ch = Some (True, ch') \<and> wrote cap ch (take (unat left) p) ch' \<and>
     ch_peer_evt ch' = eventfd_write (ch_peer_evt ch) 1"
  using assms
proof (induction cap p left ch rule: WriteRaw_loop.induct)
  case (1 cap p left ch)
  show ?case
  proof (cases "left = 0")
    case True
    then show ?thesis using 1(2) by (simp add: wrote_def NotifyPeer_def WriteRaw_loop.simps [of cap p 0])
  next
    case False
    define chunk where "chunk = min left (word_of_nat (max_write_size cap))"
    note wfD = ring_wfD [OF 1(2)]
    have m: "unat (word_of_nat (max_write_size cap) :: u32) = cap div 2" using max_write_word [OF wfD(1)] .
    have le: "chunk \<le> left" by (simp add: chunk_def)
    then have cl: "unat chunk \<le> unat left" by (simp add: word_le_nat_alt)
    have cm: "unat chunk \<le> max_write_size cap"
      using m by (simp add: chunk_def min_def word_le_nat_alt max_write_size_def)
    have nz: "chunk \<noteq> 0"
      using False m wfD(6) by (auto simp: chunk_def min_def)
    obtain ch1 where t: "RingChannel_TryWrite cap ch (Some p) chunk = Some (0, ch1)"
      "wrote cap ch (take (unat chunk) p) ch1" "ch_peer_evt ch1 = ch_peer_evt ch"
      using RingChannel_TryWrite_wrote [OF 1(2) nz cm, of p] 1(3,4) cl by (meson add_le_mono le_refl le_trans)
    have next_pass: "WriteRaw_loop cap p left ch = WriteRaw_loop cap (drop (unat chunk) p) (left - chunk) ch1"
      unfolding WriteRaw_loop.simps [of cap p left ch] Let_def using False t(1) by (simp flip: chunk_def)
    have sub: "unat (left - chunk) = unat left - unat chunk" using le by (rule unat_sub)
    have "used (ch_wr ch1) = used (ch_wr ch) + unat chunk"
      using arg_cong [of _ _ length, OF conjunct1 [OF conjunct2 [OF t(2) [unfolded wrote_def]]]] cl 1(4) by simp
    moreover have room: "unat left - unat chunk \<le> length p - unat chunk" using 1(4) by simp
    moreover have "ring_wf cap (ch_wr ch1)" using t(2) by (simp add: wrote_def)
    ultimately obtain ch2 where "WriteRaw_loop cap (drop (unat chunk) p) (left - chunk) ch1 = Some (True, ch2)"
      "wrote cap ch1 (take (unat left - unat chunk) (drop (unat chunk) p)) ch2"
      "ch_peer_evt ch2 = eventfd_write (ch_peer_evt ch) 1"
      using 1(1) [OF False chunk_def t(1) refl] 1(3,4) sub cl t(3) room by auto
    moreover have "take (unat chunk) p @ take (unat left - unat chunk) (drop (unat chunk) p) = take (unat left) p"
      using cl by (metis le_add_diff_inverse take_add)
    ultimately show ?thesis
      using wrote_trans [OF t(2)] next_pass by fastforce
  qed
qed

lemma WriteRaw_cases:
  assumes wf: "ring_wf cap (ch_wr ch)" and len: "unat len \<le> length data"
  shows "if used (ch_wr ch) + unat len \<le> cap
    then \<exists>ch'. WriteRaw cap data len ch = Some (True, ch') \<and> wrote cap ch (take (unat len) data) ch' \<and>
         (len \<noteq> 0 \<longrightarrow> ch_peer_evt ch' = eventfd_write (ch_peer_evt ch) 1)
    else WriteRaw cap data len ch = Some (False, ch)"
proof -
  have f: "unat (RingChannel_WritableBytes cap ch) = cap - used (ch_wr ch)"
    using RingBuf_FreeSpace_used [OF wf] by (simp add: RingChannel_WritableBytes_def)
  then have lt: "RingChannel_WritableBytes cap ch < ucast len \<longleftrightarrow> \<not> used (ch_wr ch) + unat len \<le> cap"
    using ring_wfD(3) [OF wf] by (auto simp: word_less_nat_alt)
  show ?thesis
  proof (cases "len = 0")
    case True
    then show ?thesis using wf ring_wfD(3) [OF wf] by (simp add: WriteRaw_def wrote_refl)
  next
    case False
    then show ?thesis using lt WriteRaw_loop_complete [OF wf _ len] by (auto simp: WriteRaw_def)
  qed
qed

section \<open>Sending through a codec\<close>

text \<open>
  What the connection relies on when it calls \<open>Encode\<close> or \<open>SendKeepAlive\<close>: the call stays
  inside the buffer and returns one of the codes or a number of bytes of the buffer.
\<close>

definition encode_ok :: "encode_fn \<Rightarrow> bool" where
  "encode_ok f \<longleftrightarrow> (\<forall>buf. \<exists>len out buf'. f buf = Some (len, out, buf') \<and> length buf' = length buf \<and>
     -2 \<le> len \<and> len \<le> int (length buf) \<and> len < 2147483648)"

definition encodes :: "encode_fn \<Rightarrow> bytes \<Rightarrow> bool" where
  "encodes f xs \<longleftrightarrow> (\<exists>b len out b'. f b = Some (len, out, b') \<and> 0 < len \<and> xs = take (nat len) b')"

definition skips :: "encode_fn \<Rightarrow> bool" where
  "skips f \<longleftrightarrow> (\<exists>b out b'. f b = Some (kCodecSkipPackage, out, b'))"

lemma call_encode_ok:
  assumes "encode_ok f"
  obtains len out buf where "call_encode f c = Some (len, out, c\<lparr>cn_encode_buf := buf\<rparr>)"
    "f (cn_encode_buf c) = Some (len, out, buf)" "length buf = length (cn_encode_buf c)"
    "-2 \<le> len" "len \<le> int (length buf)" "len < 2147483648"
proof -
  obtain len out buf where "f (cn_encode_buf c) = Some (len, out, buf)" "length buf = length (cn_encode_buf c)"
    "-2 \<le> len" "len \<le> int (length (cn_encode_buf c))" "len < 2147483648"
    using assms unfolding encode_ok_def by metis
  then show thesis using that [of len out buf] by (simp add: call_encode_def)
qed

lemma unat_len:
  assumes "0 \<le> len" "len < 2147483648"
  shows "unat (word_of_int len :: u32) = nat len"
proof -
  have "(word_of_int len :: u32) = word_of_nat (nat len)" using assms(1) by simp
  then show ?thesis using assms by (simp only:) (subst unat_of_nat_u32, simp_all)
qed

text \<open>Writing an encoding: all of it, with a notification, or nothing.\<close>

lemma write_encoded_cases:
  assumes wf: "ring_wf cap (ch_wr (cn_channel c))" and len: "0 < len" "len \<le> int (length (cn_encode_buf c))" "len < 2147483648"
  obtains
    (all) ch where "used (ch_wr (cn_channel c)) + nat len \<le> cap" "write_encoded cap len c = Some (True, c\<lparr>cn_channel := ch\<rparr>)"
      "wrote cap (cn_channel c) (take (nat len) (cn_encode_buf c)) ch"
      "ch_peer_evt ch = eventfd_write (ch_peer_evt (cn_channel c)) 1"
  | (none) "cap < used (ch_wr (cn_channel c)) + nat len" "write_encoded cap len c = Some (False, c)"
proof -
  have u: "unat (word_of_int len :: u32) = nat len" using len by (intro unat_len) auto
  then have nz: "(word_of_int len :: u32) \<noteq> 0" using len(1) by (metis nat_0_iff not_less unat_0)
  have "nat len \<le> length (cn_encode_buf c)" using len(2) by simp
  then have w: "if used (ch_wr (cn_channel c)) + nat len \<le> cap
    then \<exists>ch'. WriteRaw cap (cn_encode_buf c) (word_of_int len) (cn_channel c) = Some (True, ch') \<and>
         wrote cap (cn_channel c) (take (nat len) (cn_encode_buf c)) ch' \<and>
         ch_peer_evt ch' = eventfd_write (ch_peer_evt (cn_channel c)) 1
    else WriteRaw cap (cn_encode_buf c) (word_of_int len) (cn_channel c) = Some (False, cn_channel c)"
    using WriteRaw_cases [OF wf, of "word_of_int len" "cn_encode_buf c"] nz unfolding u by (auto split: if_splits)
  show thesis
  proof (cases "used (ch_wr (cn_channel c)) + nat len \<le> cap")
    case True
    with w obtain ch where "WriteRaw cap (cn_encode_buf c) (word_of_int len) (cn_channel c) = Some (True, ch)"
      "wrote cap (cn_channel c) (take (nat len) (cn_encode_buf c)) ch"
      "ch_peer_evt ch = eventfd_write (ch_peer_evt (cn_channel c)) 1" by (simp only: if_True) blast
    then show thesis using all [of ch] True by (simp add: write_encoded_def)
  next
    case False
    then show thesis using none w by (simp add: write_encoded_def)
  qed
qed

text \<open>
  How a call of \<open>SendCmd\<close> ends. If it returns true, the package was either dropped by the
  codec or appended as a whole; if it returns false, nothing was written.
\<close>

inductive send_result :: "nat \<Rightarrow> encode_fn \<Rightarrow> cst \<Rightarrow> bool \<Rightarrow> cst \<Rightarrow> bool" for cap f where
  dropped: "skips f \<Longrightarrow> send_result cap f (c, lp) True (c\<lparr>cn_encode_buf := buf\<rparr>, lp)"
| written: "encodes f xs \<Longrightarrow> wrote cap (cn_channel c) xs ch \<Longrightarrow>
    ch_peer_evt ch = eventfd_write (ch_peer_evt (cn_channel c)) 1 \<Longrightarrow>
    send_result cap f (c, lp) True (c\<lparr>cn_encode_buf := buf, cn_channel := ch\<rparr>, lp)"
| refused: "send_result cap f (c, lp) False (c\<lparr>cn_encode_buf := buf\<rparr>, lp)"
| closed: "send_result cap f (c, lp) False (Close (c\<lparr>cn_encode_buf := buf\<rparr>, lp))"

inductive_cases send_resultE: "send_result cap f (c, lp) ok s'"

lemma send_result_buf:
  assumes "send_result cap f (c\<lparr>cn_encode_buf := b\<rparr>, lp) ok s'"
  shows "send_result cap f (c, lp) ok s'"
  using assms
proof cases
  case (dropped buf)
  then show ?thesis using send_result.dropped [of f cap c lp buf] by simp
next
  case (written xs ch buf)
  then show ?thesis using send_result.written [of f xs cap c ch lp buf] by simp
next
  case (refused buf)
  then show ?thesis using send_result.refused [of cap f c lp buf] by simp
next
  case (closed buf)
  then show ?thesis using send_result.closed [of cap f c lp buf] by simp
qed

lemma GrowEncodeBuffer_buf:
  assumes "GrowEncodeBuffer need c = (ok, c')"
  shows "c' = c\<lparr>cn_encode_buf := cn_encode_buf c'\<rparr>"
  using assms by (auto simp: GrowEncodeBuffer_def split: if_splits)

lemma SendCmd_loop_result:
  assumes f: "encode_ok f" and wf: "ring_wf cap (ch_wr (cn_channel (fst s)))"
  shows "\<exists>ok s'. SendCmd_loop cap f s = Some (ok, s') \<and> send_result cap f s ok s'"
  using assms
proof (induction cap f s rule: SendCmd_loop.induct)
  case (1 cap f c lp)
  from 1(2) obtain len out buf where
    e: "call_encode f c = Some (len, out, c\<lparr>cn_encode_buf := buf\<rparr>)" "f (cn_encode_buf c) = Some (len, out, buf)"
      "length buf = length (cn_encode_buf c)" "-2 \<le> len" "len \<le> int (length buf)" "len < 2147483648"
    by (rule call_encode_ok)
  let ?c1 = "c\<lparr>cn_encode_buf := buf\<rparr>"
  note loop = SendCmd_loop.simps [of cap f c lp]
  consider (skip) "len = -2" | (disc) "len = -1" | (more) "len = 0" | (ok) "len > 0" using e(4) by linarith
  then show ?case
  proof cases
    case skip
    then have "skips f" using e(2) by (auto simp: skips_def codec_codes)
    then have "send_result cap f (c, lp) True (?c1, lp)" by (rule dropped)
    then show ?thesis using skip loop e(1) by (auto simp: codec_codes)
  next
    case disc
    have "send_result cap f (c, lp) False (Close (?c1, lp))" by (rule closed)
    then show ?thesis using disc loop e(1) by (auto simp: codec_codes)
  next
    case ok
    have en: "encodes f (take (nat len) buf)" using e(2) ok by (auto simp: encodes_def)
    have wf: "ring_wf cap (ch_wr (cn_channel ?c1))" "len \<le> int (length (cn_encode_buf ?c1))" using 1(3) e(5) by simp_all
    from wf(1) ok wf(2) e(6) show ?thesis
    proof (cases rule: write_encoded_cases)
      case (all ch)
      then have "send_result cap f (c, lp) True (?c1\<lparr>cn_channel := ch\<rparr>, lp)"
        using written [OF en, of cap c ch lp buf] by simp
      then show ?thesis using ok loop e(1) all(2) by (auto simp: codec_codes)
    next
      case none
      then show ?thesis using refused [of cap f c lp buf] ok loop e(1) by (auto simp: codec_codes)
    qed
  next
    case more
    have stop: "send_result cap f (c, lp) False (?c1, lp)" by (rule refused)
    show ?thesis
    proof (cases "out = 0 \<or> out \<le> length buf")
      case True
      then show ?thesis using more loop e(1) stop by (auto simp: codec_codes)
    next
      case False
      obtain g c2 where g: "GrowEncodeBuffer out ?c1 = (g, c2)" by fastforce
      define b where "b = cn_encode_buf c2"
      have c2: "c2 = ?c1\<lparr>cn_encode_buf := b\<rparr>" using GrowEncodeBuffer_buf [OF g] by (simp add: b_def)
      show ?thesis
      proof (cases g)
        case True
        have "\<exists>ok s'. SendCmd_loop cap f (c2, lp) = Some (ok, s') \<and> send_result cap f (c2, lp) ok s'"
          using 1(1) [OF e(1) refl refl] 1(2,3) more False g c2 True by (auto simp: codec_codes)
        then show ?thesis
          using more loop e(1) False g True c2 send_result_buf by (auto simp: codec_codes)
      next
        case False
        then have "send_result cap f (c, lp) False (c2, lp)" using c2 refused [of cap f c lp b] by simp
        then show ?thesis using more loop e(1) \<open>\<not> (out = 0 \<or> out \<le> length buf)\<close> g False by (auto simp: codec_codes)
      qed
    qed
  qed
qed

section \<open>Callbacks\<close>

lemma RemoveVerifyTimer_fst: "fst (RemoveVerifyTimer s) = (fst s)\<lparr>cn_verify_timer := 0\<rparr>"
  by (cases s) (simp add: RemoveVerifyTimer.simps)

lemma Close_fst:
  "fst (Close s) = (if conn_open (fst s)
     then (fst s)\<lparr>cn_close_type := Active, cn_state := closeing, cn_shutdown := True, cn_verify_timer := 0\<rparr>
     else (fst s)\<lparr>cn_verify_timer := 0\<rparr>)"
  by (cases s) (simp add: Close.simps RemoveVerifyTimer_fst)

lemma OnVerify_fst:
  "fst (OnVerify succ s) = (if succ then (fst s)\<lparr>cn_verify_timer := 0, cn_state := established\<rparr>
     else fst (Close (RemoveVerifyTimer s)))"
  using RemoveVerifyTimer_fst [of s] by (cases "RemoveVerifyTimer s") (simp add: OnVerify.simps)

text \<open>What no callback touches: the ring this endpoint reads, the codec and the message callback.\<close>

definition keeps :: "nat \<Rightarrow> conn \<Rightarrow> conn \<Rightarrow> bool" where
  "keeps cap c c' \<longleftrightarrow> ring_wf cap (ch_wr (cn_channel c')) \<and> ch_rd (cn_channel c') = ch_rd (cn_channel c) \<and>
     cn_codec c' = cn_codec c \<and> cn_messagecb c' = cn_messagecb c"

lemma keeps_refl: "ring_wf cap (ch_wr (cn_channel c)) \<Longrightarrow> keeps cap c c"
  by (simp add: keeps_def)

lemma keeps_trans: "keeps cap a b \<Longrightarrow> keeps cap b c \<Longrightarrow> keeps cap a c"
  by (simp add: keeps_def)

lemma keeps_wf: "keeps cap a b \<Longrightarrow> ring_wf cap (ch_wr (cn_channel b))"
  by (simp add: keeps_def)

lemma keeps_Close: "ring_wf cap (ch_wr (cn_channel (fst s))) \<Longrightarrow> keeps cap (fst s) (fst (Close s))"
  by (simp add: Close_fst keeps_def)

lemma keeps_OnVerify: "ring_wf cap (ch_wr (cn_channel (fst s))) \<Longrightarrow> keeps cap (fst s) (fst (OnVerify b s))"
  using keeps_Close [of cap "RemoveVerifyTimer s"] by (simp add: OnVerify_fst RemoveVerifyTimer_fst keeps_def)

lemma keeps_StartVerifyTimer:
  assumes "ring_wf cap (ch_wr (cn_channel (fst s)))"
  shows "keeps cap (fst s) (fst (snd (StartVerifyTimer sys ms act s)))"
proof (cases s)
  case (Pair c lp)
  obtain r lp1 where "AddOneShotTimer sys (to_int ms) (UserCb (verify_cb (cn_id c))) lp = (r, lp1)" by fastforce
  then show ?thesis using assms Pair by (cases r) (simp_all add: keeps_def)
qed

lemma keeps_send_result:
  assumes "send_result cap f (c, lp) ok s'" "ring_wf cap (ch_wr (cn_channel c))"
  shows "keeps cap c (fst s')"
  using assms(1)
proof cases
  case (closed buf)
  then show ?thesis using assms(2) keeps_Close [of cap "(c\<lparr>cn_encode_buf := buf\<rparr>, lp)"] by (simp add: keeps_def)
qed (use assms(2) in \<open>simp_all add: keeps_def wrote_def\<close>)

lemma SendKeepalive_loop_keeps:
  assumes "encode_ok f" "ring_wf cap (ch_wr (cn_channel c))"
  shows "\<exists>c'. SendKeepalive_loop cap f c = Some c' \<and> keeps cap c c' \<and> cn_state c' = cn_state c \<and> cn_events c' = cn_events c"
  using assms
proof (induction cap f c rule: SendKeepalive_loop.induct)
  case (1 cap f c)
  from 1(2) obtain len out buf where
    e: "call_encode f c = Some (len, out, c\<lparr>cn_encode_buf := buf\<rparr>)" "f (cn_encode_buf c) = Some (len, out, buf)"
      "length buf = length (cn_encode_buf c)" "-2 \<le> len" "len \<le> int (length buf)" "len < 2147483648"
    by (rule call_encode_ok)
  let ?c1 = "c\<lparr>cn_encode_buf := buf\<rparr>"
  note loop = SendKeepalive_loop.simps [of cap f c]
  have k1: "keeps cap c ?c1" using 1(3) by (simp add: keeps_def)
  consider (ok) "0 < len" | (give_up) "len \<le> 0" "len \<noteq> kCodecNeedMoreBuffer \<or> out = 0 \<or> out \<le> length buf"
    | (more) "len = kCodecNeedMoreBuffer" "\<not> (out = 0 \<or> out \<le> length buf)" by linarith
  then show ?case
  proof cases
    case ok
    have wf: "ring_wf cap (ch_wr (cn_channel ?c1))" "len \<le> int (length (cn_encode_buf ?c1))" using 1(3) e(5) by simp_all
    from wf(1) ok wf(2) e(6) show ?thesis
    proof (cases rule: write_encoded_cases)
      case (all ch)
      then have "keeps cap c (?c1\<lparr>cn_channel := ch\<rparr>)" by (simp add: keeps_def wrote_def)
      then show ?thesis using ok loop e(1) all(2) by simp
    next
      case none
      then show ?thesis using ok loop e(1) k1 by simp
    qed
  next
    case give_up
    then show ?thesis using loop e(1) k1 by (auto simp: codec_codes)
  next
    case more
    obtain g c2 where g: "GrowEncodeBuffer out ?c1 = (g, c2)" by fastforce
    define b where "b = cn_encode_buf c2"
    have c2: "c2 = ?c1\<lparr>cn_encode_buf := b\<rparr>" using GrowEncodeBuffer_buf [OF g] by (simp add: b_def)
    have k2: "keeps cap c c2" using 1(3) c2 by (simp add: keeps_def)
    show ?thesis
    proof (cases g)
      case True
      have "\<exists>c'. SendKeepalive_loop cap f c2 = Some c' \<and> keeps cap c2 c' \<and> cn_state c' = cn_state c2 \<and> cn_events c' = cn_events c2"
        using 1(1) [OF e(1) refl refl] 1(2,3) more g True c2 by (simp add: codec_codes)
      then show ?thesis using loop e(1) more g True keeps_trans [OF k2] c2 by (auto simp: codec_codes)
    next
      case False
      then show ?thesis using loop e(1) more g k2 c2 by (simp add: codec_codes)
    qed
  qed
qed

section \<open>Receiving\<close>

lemma linearise_contents:
  assumes wf: "ring_wf cap rg" and ne: "0 < used rg" and pk: "RingBuf_Peek cap rg = PeekSegs o1 l1 s2 l2"
  shows "\<exists>st'. linearise (ring_bytes rg) o1 l1 s2 l2 st = Some (contents rg, st')"
  using wf ne
proof (cases rule: RingBuf_Peek_segs)
  case (one o1' l1')
  then show ?thesis using pk by (simp add: linearise_def)
next
  case (two o1' l1' l2')
  have pos: "0 < l2" using two(1,3) pk by (metis peek_result.inject unat_gt_0 word_neq_0_conv)
  have len: "unat l1 + unat l2 = used rg" using two(1,2) pk by simp
  have "unat (l1 + l2) = used rg"
    using len ring_wfD(4) [OF wf] by (simp add: unat_word_ariths)
  moreover define st0 where "st0 = (if length st < used rg then vec_resize (used rg) st else st)"
  moreover have "used rg \<le> length st0" by (simp add: st0_def)
  moreover have w1: "mem_write st0 0 (take (unat l1) (contents rg)) = Some (take (unat l1) (contents rg) @ drop (unat l1) st0)"
    using calculation(3) len by (simp add: mem_write_def)
  moreover have "mem_write (take (unat l1) (contents rg) @ drop (unat l1) st0) (unat l1) (drop (unat l1) (contents rg))
      = Some (contents rg @ drop (used rg) st0)"
    using calculation(3) len by (subst mem_write_append) (simp_all add: add.commute flip: append_assoc)
  ultimately show ?thesis
    using two pk pos len by (simp add: linearise_def Let_def flip: st0_def)
qed

lemma conn_commit_contents:
  assumes "channel_wf cap (cn_channel c)" "unat n \<le> used (ch_rd (cn_channel c))"
  obtains ch where "conn_commit c n = Some (c\<lparr>cn_channel := ch\<rparr>)" "channel_wf cap ch" "ch_wr ch = ch_wr (cn_channel c)"
    "contents (ch_rd ch) = drop (unat n) (contents (ch_rd (cn_channel c)))"
proof -
  have wf: "ring_wf cap (ch_rd (cn_channel c))" using assms(1) by (simp add: channel_wf_def)
  note cr = RingBuf_CommitRead_contents [OF wf assms(2)]
  let ?ch = "(cn_channel c)\<lparr>ch_rd := (ch_rd (cn_channel c))\<lparr>read_pos := read_pos (ch_rd (cn_channel c)) + ucast n\<rparr>\<rparr>"
  show thesis
    using that [of ?ch] cr assms(1) by (simp add: conn_commit_def RingChannel_CommitRead_def channel_wf_def)
qed

text \<open>One pass of the loop on a non-empty ring, after \<open>Peek\<close>, linearisation and \<open>Decode\<close>.\<close>

definition drain_decoded :: "nat \<Rightarrow> int \<Rightarrow> nat \<Rightarrow> int \<Rightarrow> any_val option \<Rightarrow> nat \<Rightarrow> cst \<Rightarrow> ((int outcome \<times> cst) + (int \<times> cst)) option" where
  "drain_decoded cap count buflen len pkg out s = (case s of (c, lp) \<Rightarrow>
     if len = kCodecDisconnect then Some (Inl (Ret (-1), c, lp))
     else if len = kCodecNeedMoreBuffer then Some (Inl (Ret count, c, lp))
     else if len = kCodecSkipPackage then
       (if out = 0 \<or> out > buflen then Some (Inl (Ret (-1), c, lp))
        else do {
          c2 \<leftarrow> conn_commit c (word_of_nat out);
          c3 \<leftarrow> (if cn_keepalive c2 then SendKeepaliveResponse cap c2 else Some c2);
          Some (Inr (count, c3, lp))
        })
     else if len < 0 then Some (Inl (Ret (-1), c, lp))
     else if unat (word_of_int len :: u32) > buflen then Some (Inl (Ret (-1), c, lp))
     else do {
       c2 \<leftarrow> conn_commit c (word_of_int len);
       (ok, s3) \<leftarrow> OnMessage cap pkg (c2, lp);
       Some (if ok then Inr (count + 1, s3) else Inl (Throw, s3))
     })"

lemma drain_stop:
  "\<not> (len = kCodecSkipPackage \<and> 0 < out \<and> out \<le> n) \<Longrightarrow> \<not> (0 < len \<and> unat (word_of_int len :: u32) \<le> n) \<Longrightarrow>
     \<exists>res. drain_decoded cap count n len pkg out s = Some (Inl (res, s))"
  by (cases s) (auto simp: drain_decoded_def codec_codes)

lemma DrainRing_body_decoded:
  assumes wf: "ring_wf cap (ch_rd (cn_channel c))" and ne: "0 < used (ch_rd (cn_channel c))"
    and d: "cd_Decode cd (contents (ch_rd (cn_channel c))) = Some (len, pkg, out)"
  shows "\<exists>st. DrainRing_body cap cd count (c, lp) =
     drain_decoded cap count (used (ch_rd (cn_channel c))) len pkg out (c\<lparr>cn_staging := st\<rparr>, lp)"
proof (cases "RingBuf_Peek cap (ch_rd (cn_channel c))")
  case PeekEmpty
  then show ?thesis using ne RingBuf_Peek_empty [of cap "ch_rd (cn_channel c)"] by simp
next
  case (PeekSegs o1 l1 s2 l2)
  obtain st' where l: "linearise (ring_bytes (ch_rd (cn_channel c))) o1 l1 s2 l2 (cn_staging c)
      = Some (contents (ch_rd (cn_channel c)), st')" using linearise_contents [OF wf ne PeekSegs] by blast
  show ?thesis by (rule exI [of _ st']) (simp add: RingChannel_Peek_def PeekSegs l d drain_decoded_def Let_def)
qed

lemma DrainRing_body_empty:
  "used (ch_rd (cn_channel c)) = 0 \<Longrightarrow> DrainRing_body cap cd count (c, lp) = Some (Inl (Ret count, c, lp))"
  by (simp add: RingChannel_Peek_def RingBuf_Peek_empty [THEN iffD2])

declare DrainRing_body.simps [simp del]

text \<open>What a drain may do: it consumes a prefix of the ring and leaves the connection intact.\<close>

definition drained :: "nat \<Rightarrow> nat \<Rightarrow> conn \<Rightarrow> conn \<Rightarrow> bool" where
  "drained cap n c c' \<longleftrightarrow> channel_wf cap (cn_channel c') \<and> n \<le> used (ch_rd (cn_channel c)) \<and>
     contents (ch_rd (cn_channel c')) = drop n (contents (ch_rd (cn_channel c))) \<and>
     cn_codec c' = cn_codec c \<and> cn_messagecb c' = cn_messagecb c"

lemma drained_used: "drained cap n c c' \<Longrightarrow> used (ch_rd (cn_channel c')) = used (ch_rd (cn_channel c)) - n"
  unfolding drained_def by (metis length_contents length_drop)

lemma drained_trans: "drained cap m a b \<Longrightarrow> drained cap n b c \<Longrightarrow> drained cap (m + n) a c"
  using drained_used [of cap m a b] unfolding drained_def by (auto simp: add.commute)

lemma drained_keeps:
  "drained cap n a b \<Longrightarrow> keeps cap b c \<Longrightarrow> drained cap n a c"
  by (simp add: drained_def keeps_def channel_wf_def)

lemma drained_commit:
  assumes "channel_wf cap (cn_channel c)" "unat n \<le> used (ch_rd (cn_channel c))"
  shows "\<exists>c2. conn_commit c n = Some c2 \<and> drained cap (unat n) c c2 \<and> cn_state c2 = cn_state c \<and>
    cn_events c2 = cn_events c"
  using assms by (rule conn_commit_contents) (use assms in \<open>auto simp: drained_def\<close>)

section \<open>The contract between connection and codec\<close>

text \<open>
  What a connection needs of its codec: \<open>Encode\<close> of an acceptable package, \<open>SendKeepAlive\<close>
  and \<open>Decode\<close> stay inside the memory they are given. \<open>Decode\<close> may return any \<open>int32_t\<close>.
\<close>

fun op_ok :: "(any_val \<Rightarrow> bool) \<Rightarrow> conn_op \<Rightarrow> bool" where
  "op_ok pok (CoSendCmd pkg) = pok pkg"
| "op_ok pok _ = True"

definition cb_ok :: "(any_val \<Rightarrow> bool) \<Rightarrow> conn \<Rightarrow> bool" where
  "cb_ok pok c \<longleftrightarrow> (\<forall>cb pkg h. cn_messagecb c = Some cb \<longrightarrow> list_all (op_ok pok) (cb pkg h))"

locale conn_codec =
  fixes cd :: codec and ready :: bool and pok :: "any_val \<Rightarrow> bool"
  assumes Encode_ok: "ready \<Longrightarrow> pok pkg \<Longrightarrow> encode_ok (cd_Encode cd pkg)"
    and KeepAlive_ok: "ready \<Longrightarrow> encode_ok (cd_SendKeepAlive cd)"
    and Decode_defined: "ready \<Longrightarrow> \<exists>len pkg out. cd_Decode cd buf = Some (len, pkg, out) \<and> len < 2147483648"
begin

lemma SendCmd_result:
  assumes "ready" "pok pkg" "cn_codec c = Some cd" "ring_wf cap (ch_wr (cn_channel c))"
  shows "\<exists>ok s'. SendCmd cap pkg (c, lp) = Some (ok, s') \<and>
     (if conn_open c then send_result cap (cd_Encode cd pkg) (c, lp) ok s' else \<not> ok \<and> s' = (c, lp))"
  using SendCmd_loop_result [OF Encode_ok [OF assms(1,2)], of cap "(c, lp)"] assms(3,4)
  by (cases "conn_open c") auto

lemma do_conn_op_keeps:
  assumes "ready" "op_ok pok x" "cn_codec (fst s) = Some cd" "ring_wf cap (ch_wr (cn_channel (fst s)))"
  shows "\<exists>ok s'. do_conn_op cap x s = Some (ok, s') \<and> keeps cap (fst s) (fst s')"
proof (cases x)
  case (CoSendCmd pkg)
  obtain c lp where s: "s = (c, lp)" by fastforce
  then obtain ok s' where r: "SendCmd cap pkg s = Some (ok, s')"
    "if conn_open c then send_result cap (cd_Encode cd pkg) (c, lp) ok s' else \<not> ok \<and> s' = (c, lp)"
    using SendCmd_result [of pkg c cap lp] assms CoSendCmd by auto
  have "keeps cap c (fst s')"
    using r(2) keeps_send_result [of cap "cd_Encode cd pkg" c lp ok s'] keeps_refl [of cap c] assms(4) s
    by (cases "conn_open c") auto
  then show ?thesis using CoSendCmd r(1) s by simp
next
  case (CoStartVerifyTimer sys ms act)
  then show ?thesis
    using keeps_StartVerifyTimer [OF assms(4), of sys ms act] by (cases "StartVerifyTimer sys ms act s") simp
qed (use assms keeps_Close keeps_OnVerify in \<open>cases s; simp add: keeps_def SetKeepAlive_def ResizeBuffer_def Let_def\<close>)+

lemma do_conn_ops_keeps:
  assumes "ready" "list_all (op_ok pok) xs" "cn_codec (fst s) = Some cd" "ring_wf cap (ch_wr (cn_channel (fst s)))"
  shows "\<exists>ok s'. do_conn_ops cap xs s = Some (ok, s') \<and> keeps cap (fst s) (fst s')"
  using assms
proof (induction xs arbitrary: s)
  case Nil
  then show ?case using keeps_refl by simp
next
  case (Cons x xs)
  obtain ok s1 where 1: "do_conn_op cap x s = Some (ok, s1)" "keeps cap (fst s) (fst s1)"
    using do_conn_op_keeps [of x s cap] Cons.prems by auto
  show ?case
  proof (cases ok)
    case True
    have "cn_codec (fst s1) = Some cd" using 1(2) Cons.prems(3) by (simp add: keeps_def)
    then show ?thesis using Cons.IH [of s1] Cons.prems 1 True keeps_wf [OF 1(2)] keeps_trans [OF 1(2)] by auto
  next
    case False
    then show ?thesis using 1 by simp
  qed
qed

lemma OnMessage_keeps:
  assumes "ready" "cb_ok pok c" "cn_codec c = Some cd" "ring_wf cap (ch_wr (cn_channel c))"
  shows "\<exists>ok s'. OnMessage cap pkg (c, lp) = Some (ok, s') \<and> keeps cap c (fst s')"
proof (cases "cn_messagecb c")
  case None
  then show ?thesis using keeps_refl assms(4) by simp
next
  case (Some cb)
  have "list_all (op_ok pok) (cb pkg (cn_events c))" using assms(2) Some by (simp add: cb_ok_def)
  then obtain ok s' where "do_conn_ops cap (cb pkg (cn_events c)) (c\<lparr>cn_events := cn_events c @ [MessageCb pkg]\<rparr>, lp) = Some (ok, s')"
      "keeps cap (c\<lparr>cn_events := cn_events c @ [MessageCb pkg]\<rparr>) (fst s')"
    using do_conn_ops_keeps [OF assms(1), of "cb pkg (cn_events c)" "(c\<lparr>cn_events := cn_events c @ [MessageCb pkg]\<rparr>, lp)" cap] assms(3,4)
    by auto
  then show ?thesis using Some keeps_refl [OF assms(4)] by (cases "conn_open c") (auto simp: keeps_def)
qed

text \<open>A pass of the drain loop returns and, unless it ends the loop, consumes something.\<close>

definition drain_step :: "nat \<Rightarrow> conn \<Rightarrow> (int outcome \<times> cst) + (int \<times> cst) \<Rightarrow> bool" where
  "drain_step cap c r \<longleftrightarrow> (case r of
     Inl (res, s') \<Rightarrow> \<exists>n. drained cap n c (fst s')
   | Inr (k, s') \<Rightarrow> \<exists>n > 0. drained cap n c (fst s'))"

lemma drain_heartbeat:
  assumes rdy: "ready" and cd: "cn_codec c = Some cd" and wf: "channel_wf cap (cn_channel c)"
    and out: "0 < out" "out \<le> used (ch_rd (cn_channel c))"
  shows "\<exists>r. drain_decoded cap count (used (ch_rd (cn_channel c))) kCodecSkipPackage pkg out (c, lp) = Some r \<and> drain_step cap c r"
proof -
  have "out < 4294967296" using out(2) wf ring_wfD(4) by (fastforce simp: channel_wf_def)
  then have u: "unat (word_of_nat out :: u32) = out" by (rule unat_of_nat_u32)
  then obtain c2 where c2: "conn_commit c (word_of_nat out) = Some c2" "drained cap out c c2"
    using drained_commit [OF wf, of "word_of_nat out"] out(2) by auto
  have "ring_wf cap (ch_wr (cn_channel c2))" "cn_codec c2 = Some cd" using c2(2) cd by (simp_all add: drained_def channel_wf_def)
  then obtain c3 where "(if cn_keepalive c2 then SendKeepaliveResponse cap c2 else Some c2) = Some c3" "keeps cap c2 c3"
    using SendKeepalive_loop_keeps [OF KeepAlive_ok [OF rdy], of cap c2] keeps_refl [of cap c2]
    by (cases "cn_keepalive c2") (auto simp: SendKeepaliveResponse_def)
  then show ?thesis
    using c2 out drained_keeps [OF c2(2)] by (auto simp: drain_decoded_def codec_codes drain_step_def)
qed

lemma drain_message:
  assumes rdy: "ready" and cb: "cb_ok pok c" and cd: "cn_codec c = Some cd" and wf: "channel_wf cap (cn_channel c)"
    and len: "0 < unat (word_of_int len :: u32)" "unat (word_of_int len :: u32) \<le> used (ch_rd (cn_channel c))" "0 < len"
  shows "\<exists>r. drain_decoded cap count (used (ch_rd (cn_channel c))) len pkg out (c, lp) = Some r \<and> drain_step cap c r"
proof -
  obtain c2 where c2: "conn_commit c (word_of_int len) = Some c2" "drained cap (unat (word_of_int len :: u32)) c c2"
    using drained_commit [OF wf len(2)] by auto
  have w2: "cb_ok pok c2" "ring_wf cap (ch_wr (cn_channel c2))" "cn_codec c2 = Some cd"
    using c2(2) cd cb by (simp_all add: drained_def channel_wf_def cb_ok_def)
  obtain ok s3 where "OnMessage cap pkg (c2, lp) = Some (ok, s3)" "keeps cap c2 (fst s3)"
    using OnMessage_keeps [OF rdy w2(1) w2(3) w2(2)] by blast
  then show ?thesis
    using c2 len drained_keeps [OF c2(2)] by (cases ok) (auto simp: drain_decoded_def codec_codes drain_step_def)
qed

lemma DrainRing_body_progress:
  assumes "ready" "cb_ok pok c" "cn_codec c = Some cd" "channel_wf cap (cn_channel c)"
  shows "\<exists>r. DrainRing_body cap cd count (c, lp) = Some r \<and> drain_step cap c r"
proof (cases "used (ch_rd (cn_channel c)) = 0")
  case True
  have "drained cap 0 c c" using assms(4) by (simp add: drained_def)
  then show ?thesis using DrainRing_body_empty [OF True] by (auto simp: drain_step_def)
next
  case False
  obtain len pkg out where d: "cd_Decode cd (contents (ch_rd (cn_channel c))) = Some (len, pkg, out)" "len < 2147483648"
    using Decode_defined [OF assms(1)] by blast
  have wf: "ring_wf cap (ch_rd (cn_channel c))" using assms(4) by (simp add: channel_wf_def)
  obtain st where b: "DrainRing_body cap cd count (c, lp) =
      drain_decoded cap count (used (ch_rd (cn_channel c))) len pkg out (c\<lparr>cn_staging := st\<rparr>, lp)"
    using DrainRing_body_decoded [where count = count, OF wf _ d(1)] False by blast
  let ?c = "c\<lparr>cn_staging := st\<rparr>"
  have same: "drain_step cap ?c r = drain_step cap c r" for r
    by (simp add: drain_step_def drained_def split: sum.split)
  have stop: "drain_step cap c (Inl (res, ?c, lp))" for res
    using assms(4) by (auto simp: drain_step_def drained_def intro!: exI [of _ 0])
  consider (skip) "len = kCodecSkipPackage" "0 < out" "out \<le> used (ch_rd (cn_channel c))"
    | (msg) "0 < len" "unat (word_of_int len :: u32) \<le> used (ch_rd (cn_channel c))"
    | (stop) "\<exists>res. drain_decoded cap count (used (ch_rd (cn_channel c))) len pkg out (?c, lp) = Some (Inl (res, ?c, lp))"
    using drain_stop by blast
  then show ?thesis
  proof cases
    case skip
    then show ?thesis using drain_heartbeat [of ?c cap out count pkg lp] assms same b by simp
  next
    case msg
    then have "0 < unat (word_of_int len :: u32)" using unat_len [of len] d(2) by simp
    then show ?thesis
      using drain_message [of ?c cap len count pkg out lp] assms same b msg by (simp add: cb_ok_def)
  next
    case stop
    then show ?thesis using b \<open>\<And>res. drain_step cap c (Inl (res, ?c, lp))\<close> by auto
  qed
qed

text \<open>The drain loop returns.\<close>

lemma DrainRing_loop_returns:
  assumes "ready" "cb_ok pok c" "cn_codec c = Some cd" "channel_wf cap (cn_channel c)"
  shows "\<exists>res s' n. DrainRing_loop cap cd count (c, lp) = Some (res, s') \<and> drained cap n c (fst s')"
  using assms
proof (induction "used (ch_rd (cn_channel c))" arbitrary: c lp count rule: less_induct)
  case less
  obtain r where r: "DrainRing_body cap cd count (c, lp) = Some r" "drain_step cap c r"
    using DrainRing_body_progress [OF less.prems] by blast
  note loop = DrainRing_loop.simps [of cap cd count "(c, lp)"]
  show ?case
  proof (cases r)
    case (Inl res)
    then show ?thesis using r loop by (cases res) (auto simp: drain_step_def)
  next
    case (Inr x)
    obtain k c' lp' where x: "x = (k, c', lp')" by (metis prod_cases3)
    obtain m where m: "0 < m" "drained cap m c c'" using r(2) Inr x by (auto simp: drain_step_def)
    have lt: "used (ch_rd (cn_channel c')) < used (ch_rd (cn_channel c))"
      using m drained_used [OF m(2)] by (simp add: drained_def)
    have inv: "cb_ok pok c'" "cn_codec c' = Some cd" "channel_wf cap (cn_channel c')"
      using m(2) less.prems by (simp_all add: drained_def cb_ok_def)
    obtain res s' n where "DrainRing_loop cap cd k (c', lp') = Some (res, s')" "drained cap n c' (fst s')"
      using less.hyps [OF lt less.prems(1) inv] by blast
    then show ?thesis using loop r(1) Inr x drained_trans [OF m(2)] by auto
  qed
qed

end

section \<open>Closed connections\<close>

lemma do_conn_op_quiet:
  assumes "\<not> conn_open (fst s)" "x \<noteq> CoOnVerify True" "do_conn_op cap x s = Some (ok, s')"
  shows "\<not> conn_open (fst s') \<and> cn_channel (fst s') = cn_channel (fst s) \<and> cn_events (fst s') = cn_events (fst s) \<and>
     cn_state (fst s') = cn_state (fst s)"
proof -
  obtain c lp where s: "s = (c, lp)" by fastforce
  show ?thesis
  proof (cases x)
    case (CoStartVerifyTimer sys ms act)
    then show ?thesis using assms s by (auto simp: conn_open_def split: if_splits prod.splits option.splits)
  next
    case (CoOnVerify b)
    then show ?thesis using assms by (auto simp: OnVerify_fst Close_fst RemoveVerifyTimer_fst conn_open_def)
  qed (use assms s in \<open>auto simp: Close_fst SetKeepAlive_def ResizeBuffer_def Let_def conn_open_def split: if_splits\<close>)
qed

lemma do_conn_ops_quiet:
  assumes "\<not> conn_open (fst s)" "list_all (\<lambda>x. x \<noteq> CoOnVerify True) xs" "do_conn_ops cap xs s = Some (ok, s')"
  shows "\<not> conn_open (fst s') \<and> cn_channel (fst s') = cn_channel (fst s) \<and> cn_events (fst s') = cn_events (fst s) \<and>
     cn_state (fst s') = cn_state (fst s)"
  using assms
proof (induction xs arbitrary: s)
  case (Cons x xs)
  obtain k s1 where 1: "do_conn_op cap x s = Some (k, s1)" using Cons.prems(3) by (auto split: option.splits)
  have q: "\<not> conn_open (fst s1) \<and> cn_channel (fst s1) = cn_channel (fst s) \<and> cn_events (fst s1) = cn_events (fst s) \<and>
     cn_state (fst s1) = cn_state (fst s)"
    using do_conn_op_quiet [OF _ _ 1] Cons.prems by simp
  then show ?case using Cons.IH [of s1] Cons.prems 1 by (cases k) auto
qed simp

text \<open>On a connection that is not open every operation is defined, whatever the codec.\<close>

lemma do_conn_op_closed_defined: "\<not> conn_open (fst s) \<Longrightarrow> do_conn_op cap x s \<noteq> None"
  by (cases s; cases x) auto

lemma do_conn_ops_closed_defined:
  assumes "\<not> conn_open (fst s)" "list_all (\<lambda>x. x \<noteq> CoOnVerify True) xs"
  shows "\<exists>ok s'. do_conn_ops cap xs s = Some (ok, s')"
  using assms
proof (induction xs arbitrary: s)
  case (Cons x xs)
  obtain k s1 where 1: "do_conn_op cap x s = Some (k, s1)" using do_conn_op_closed_defined [OF Cons.prems(1), of cap x] by auto
  then show ?case using do_conn_op_quiet [OF Cons.prems(1) _ 1] Cons by (cases k) auto
qed simp

section \<open>What operations keep\<close>

text \<open>
  Every operation keeps the identity and the socket of its connection, and changes the loop
  only by adding entries and marking entries dead.
\<close>

definition evolves :: "cst \<Rightarrow> cst \<Rightarrow> bool" where
  "evolves s s' \<longleftrightarrow> cn_id (fst s') = cn_id (fst s) \<and> cn_socket (fst s') = cn_socket (fst s) \<and> later (snd s) (snd s')"

lemma evolves_refl [simp]: "evolves s s"
  by (simp add: evolves_def later_refl)

lemma evolves_trans: "evolves a b \<Longrightarrow> evolves b c \<Longrightarrow> evolves a c"
  using later_trans by (auto simp: evolves_def)

lemma evolves_conn: "cn_id c' = cn_id c \<Longrightarrow> cn_socket c' = cn_socket c \<Longrightarrow> evolves (c, lp) (c', lp)"
  by (simp add: evolves_def later_refl)

lemma evolves_from:
  "cn_id c' = cn_id c \<Longrightarrow> cn_socket c' = cn_socket c \<Longrightarrow> evolves (c', lp) s \<Longrightarrow> evolves (c, lp) s"
  by (simp add: evolves_def)

lemma evolves_RemoveVerifyTimer: "evolves s (RemoveVerifyTimer s)"
  by (cases s) (simp add: evolves_def RemoveVerifyTimer.simps later_refl later_RemoveTimer)

lemma evolves_Close: "evolves s (Close s)"
proof (cases s)
  case (Pair c lp)
  then show ?thesis by (auto simp: Close.simps intro!: evolves_from [OF _ _ evolves_RemoveVerifyTimer])
qed

lemma evolves_OnVerify: "evolves s (OnVerify b s)"
proof (cases "RemoveVerifyTimer s")
  case (Pair c lp)
  then have 1: "evolves s (c, lp)" using evolves_RemoveVerifyTimer [of s] by simp
  show ?thesis
    using Pair evolves_trans [OF 1 evolves_Close] evolves_trans [OF 1 evolves_conn [of "c\<lparr>cn_state := established\<rparr>" c lp]]
    by (auto simp: OnVerify.simps)
qed

lemma evolves_StartVerifyTimer: "evolves s (snd (StartVerifyTimer sys ms act s))"
proof (cases s)
  case (Pair c lp)
  then show ?thesis
    using later_AddOneShotTimer [of lp sys "to_int ms" "UserCb (verify_cb (cn_id c))"]
    by (auto simp: evolves_def later_refl split: prod.splits option.splits)
qed

lemma call_encode_same: "call_encode f c = Some (len, out, c1) \<Longrightarrow> cn_id c1 = cn_id c \<and> cn_socket c1 = cn_socket c"
  by (auto simp: call_encode_def split: option.splits if_splits)

lemma GrowEncodeBuffer_same: "GrowEncodeBuffer n c = (b, c1) \<Longrightarrow> cn_id c1 = cn_id c \<and> cn_socket c1 = cn_socket c"
  by (auto simp: GrowEncodeBuffer_def split: if_splits)

lemma write_encoded_same: "write_encoded cap len c = Some (b, c1) \<Longrightarrow> cn_id c1 = cn_id c \<and> cn_socket c1 = cn_socket c"
  by (auto simp: write_encoded_def split: option.splits)

lemma evolves_SendCmd_loop: "SendCmd_loop cap f s = Some (ok, s') \<Longrightarrow> evolves s s'"
proof (induction cap f s rule: SendCmd_loop.induct)
  case (1 cap f c lp)
  obtain len out c1 where e: "call_encode f c = Some (len, out, c1)"
    using 1(2) by (auto simp: SendCmd_loop.simps split: option.splits)
  have c1: "cn_id c1 = cn_id c" "cn_socket c1 = cn_socket c" using call_encode_same [OF e] by auto
  show ?case
  proof (cases "len = kCodecNeedMoreBuffer \<and> \<not> (out = 0 \<or> out \<le> length (cn_encode_buf c1)) \<and> fst (GrowEncodeBuffer out c1)")
    case True
    obtain c2 where g: "GrowEncodeBuffer out c1 = (True, c2)" using True by (cases "GrowEncodeBuffer out c1") auto
    have "SendCmd_loop cap f (c, lp) = SendCmd_loop cap f (c2, lp)"
      using True e g by (simp add: SendCmd_loop.simps [of cap f c] codec_codes)
    then have "evolves (c2, lp) s'" using 1(1) [OF e refl refl] 1(2) True g by (auto simp: codec_codes)
    then show ?thesis by (rule evolves_from [rotated 2]) (use GrowEncodeBuffer_same [OF g] c1 in simp_all)
  next
    case False
    have "evolves (c1, lp) s'"
      using False 1(2) e evolves_Close [of "(c1, lp)"]
      by (auto simp: SendCmd_loop.simps [of cap f c] codec_codes split: if_splits option.splits prod.splits
          dest!: GrowEncodeBuffer_same write_encoded_same intro!: evolves_conn)
    then show ?thesis by (rule evolves_from [OF c1])
  qed
qed

lemma evolves_SendCmd: "SendCmd cap pkg s = Some (ok, s') \<Longrightarrow> evolves s s'"
  by (cases s) (auto split: if_splits option.splits dest: evolves_SendCmd_loop)

lemma evolves_do_conn_op:
  assumes "do_conn_op cap x s = Some (ok, s')"
  shows "evolves s s'"
proof (cases x)
  case (CoSendCmd pkg)
  then show ?thesis using assms evolves_SendCmd [of cap pkg s] by (auto simp del: SendCmd.simps split: option.splits)
next
  case (CoStartVerifyTimer sys ms act)
  then show ?thesis using assms evolves_StartVerifyTimer [of s sys ms act] by (auto simp del: StartVerifyTimer.simps)
next
  case (CoResizeBuffer sz mx)
  then show ?thesis using assms by (cases s) (auto simp: ResizeBuffer_def Let_def intro: evolves_conn)
qed (use assms evolves_Close evolves_OnVerify in \<open>cases s; auto simp: SetKeepAlive_def intro: evolves_conn\<close>)+

lemma evolves_do_conn_ops: "do_conn_ops cap xs s = Some (ok, s') \<Longrightarrow> evolves s s'"
proof (induction xs arbitrary: s)
  case (Cons x xs)
  obtain k s1 where 1: "do_conn_op cap x s = Some (k, s1)" using Cons.prems by (auto split: option.splits)
  show ?case using Cons 1 evolves_do_conn_op [OF 1] evolves_trans by (cases k) auto
qed simp

lemma evolves_invoke: "invoke cap ev cb s = Some (ok, s') \<Longrightarrow> evolves s s'"
  by (cases s) (auto simp: evolves_def dest!: evolves_do_conn_ops)

lemma evolves_invoke_opt: "invoke_opt cap ev cb s = Some (ok, s') \<Longrightarrow> evolves s s'"
  by (cases cb) (auto dest: evolves_invoke simp del: invoke.simps)

lemma evolves_OnConnection:
  assumes "OnConnection cap s = Some (ok, s')"
  shows "evolves s s'"
proof -
  obtain c lp where s: "s = (c, lp)" by fastforce
  obtain k c1 lp1 where 1: "(case cn_verifycb c of
        Some cb \<Rightarrow> invoke cap VerifyCb cb (c\<lparr>cn_state := verifing\<rparr>, lp)
      | None \<Rightarrow> Some (True, c\<lparr>cn_state := established\<rparr>, lp)) = Some (k, c1, lp1)"
    "(if k then invoke_opt cap ConnectionCb (cn_connectioncb c1) (c1, lp1) else Some (False, c1, lp1)) = Some (ok, s')"
    using assms s by (auto simp del: invoke.simps split: Option.bind_splits)
  have "evolves s (c1, lp1)" unfolding s
    using 1(1) by (auto simp: evolves_def later_refl simp del: invoke.simps split: option.splits dest!: evolves_invoke)
  moreover have "evolves (c1, lp1) s'" using 1(2) by (auto split: if_splits dest: evolves_invoke_opt)
  ultimately show ?thesis by (rule evolves_trans)
qed

lemma evolves_OnMessage: "OnMessage cap pkg s = Some (ok, s') \<Longrightarrow> evolves s s'"
  by (cases s) (auto simp del: invoke.simps split: option.splits if_splits dest: evolves_invoke)

lemma evolves_OnClose:
  assumes "OnClose cap s = Some (ok, s')"
  shows "evolves s s'"
proof -
  obtain c lp where s: "s = (c, lp)" by fastforce
  obtain k c1 lp1 where 1: "(if cn_state c \<noteq> closeed
        then invoke_opt cap CloseCb (cn_closecb c) (c\<lparr>cn_state := closeed\<rparr>, lp) else Some (True, c, lp)) = Some (k, c1, lp1)"
    "(if k then Some (True, RemoveVerifyTimer (c1\<lparr>cn_context := None, cn_rpc_context := None\<rparr>, lp1)) else Some (False, c1, lp1)) = Some (ok, s')"
    using assms s by (auto split: Option.bind_splits)
  have "evolves s (c1, lp1)" unfolding s
    using 1(1) by (auto simp: evolves_def later_refl split: if_splits dest!: evolves_invoke_opt)
  moreover have "evolves (c1, lp1) s'"
    using 1(2) evolves_RemoveVerifyTimer [of "(c1\<lparr>cn_context := None, cn_rpc_context := None\<rparr>, lp1)"]
    by (auto simp: evolves_def later_refl simp del: RemoveVerifyTimer.simps split: if_splits)
  ultimately show ?thesis by (rule evolves_trans)
qed

lemma SendKeepalive_loop_same: "SendKeepalive_loop cap f c = Some c' \<Longrightarrow> cn_id c' = cn_id c \<and> cn_socket c' = cn_socket c"
proof (induction cap f c rule: SendKeepalive_loop.induct)
  case (1 cap f c)
  obtain len sz c1 where e: "call_encode f c = Some (len, sz, c1)"
    using 1(2) by (auto simp: SendKeepalive_loop.simps split: option.splits)
  show ?case
  proof (cases "\<not> 0 < len \<and> len = kCodecNeedMoreBuffer \<and> \<not> (sz = 0 \<or> sz \<le> length (cn_encode_buf c1)) \<and> fst (GrowEncodeBuffer sz c1)")
    case True
    obtain c2 where g: "GrowEncodeBuffer sz c1 = (True, c2)" using True by (cases "GrowEncodeBuffer sz c1") auto
    have "SendKeepalive_loop cap f c = SendKeepalive_loop cap f c2"
      using True e g by (simp add: SendKeepalive_loop.simps [of cap f c] codec_codes)
    then show ?thesis using 1(1) [OF e refl refl] 1(2) True g call_encode_same [OF e] GrowEncodeBuffer_same [OF g] by (auto simp: codec_codes)
  next
    case False
    then show ?thesis
      using 1(2) e call_encode_same [OF e]
      by (auto simp: SendKeepalive_loop.simps [of cap f c] codec_codes split: if_splits option.splits prod.splits
          dest!: GrowEncodeBuffer_same write_encoded_same)
  qed
qed

lemma evolves_DrainRing_body:
  assumes "DrainRing_body cap cd n s = Some r"
  shows "evolves s (case r of Inl (_, s') \<Rightarrow> s' | Inr (_, s') \<Rightarrow> s')"
proof -
  obtain c lp where s: "s = (c, lp)" by fastforce
  have k: "conn_commit c1 m = Some c2 \<Longrightarrow> cn_id c2 = cn_id c1 \<and> cn_socket c2 = cn_socket c1" for c1 c2 m
    by (auto simp: conn_commit_def split: option.splits)
  have r: "SendKeepaliveResponse cap c1 = Some c2 \<Longrightarrow> cn_id c2 = cn_id c1 \<and> cn_socket c2 = cn_socket c1" for c1 c2
    by (auto simp: SendKeepaliveResponse_def split: option.splits dest: SendKeepalive_loop_same)
  show ?thesis
  proof (cases "RingChannel_Peek cap (cn_channel c)")
    case PeekEmpty
    then show ?thesis using assms s by (auto simp: DrainRing_body.simps)
  next
    case (PeekSegs o1 l1 s2 l2)
    obtain buf st len pkg out where d: "linearise (ring_bytes (ch_rd (cn_channel c))) o1 l1 s2 l2 (cn_staging c) = Some (buf, st)"
      "cd_Decode cd buf = Some (len, pkg, out)"
      using assms s PeekSegs by (auto simp: DrainRing_body.simps split: Option.bind_splits)
    show ?thesis
      using assms s PeekSegs d
      by (auto simp: DrainRing_body.simps Let_def evolves_def later_refl simp del: OnMessage.simps split: Option.bind_splits if_splits
          dest!: k r evolves_OnMessage)
  qed
qed

lemma evolves_DrainRing_loop: "DrainRing_loop cap cd n s = Some y \<Longrightarrow> evolves s (snd y)"
proof (erule DrainRing_loop.raw_induct [where P = "\<lambda>cap cd n s y. evolves s (snd y)", rotated])
  fix loop cap cd n s y
  assume 1: "\<And>cap cd n s y. loop cap cd n s = Some y \<Longrightarrow> evolves s (snd y)"
    "(case DrainRing_body cap cd n s of None \<Rightarrow> None | Some (Inl res) \<Rightarrow> Some res | Some (Inr (count1, s1)) \<Rightarrow> loop cap cd count1 s1) = Some y"
  obtain b where b: "DrainRing_body cap cd n s = Some b" using 1(2) by (auto split: option.splits)
  have e: "evolves s (case b of Inl (_, s') \<Rightarrow> s' | Inr (_, s') \<Rightarrow> s')" by (rule evolves_DrainRing_body [OF b])
  show "evolves s (snd y)"
  proof (cases b)
    case (Inl x)
    then have "x = y" using 1(2) b by simp
    then show ?thesis using e Inl by (simp add: split_beta)
  next
    case (Inr x)
    obtain m s1 where x: "x = (m, s1)" by (cases x)
    then have "evolves s1 (snd y)" using 1(1) [of cap cd m s1] 1(2) b Inr by simp
    then show ?thesis using e Inr x evolves_trans by auto
  qed
qed

lemma evolves_DrainRing: "DrainRing cap s = Some (r, s') \<Longrightarrow> evolves s s'"
  by (cases "cn_codec (fst s)") (auto simp: DrainRing_def dest: evolves_DrainRing_loop)

lemma later_RemoveVerifyTimer: "later (snd s) (snd (RemoveVerifyTimer s))"
  using evolves_RemoveVerifyTimer by (simp add: evolves_def)

lemma later_do_conn_ops: "do_conn_ops cap xs s = Some (ok, s') \<Longrightarrow> later (snd s) (snd s')"
  using evolves_do_conn_ops by (simp add: evolves_def)

text \<open>A close callback that does not report a successful verification.\<close>

definition close_ok :: "conn_cb option \<Rightarrow> bool" where
  "close_ok cbo \<longleftrightarrow> (\<forall>cb h. cbo = Some cb \<longrightarrow> list_all (\<lambda>x. x \<noteq> CoOnVerify True) (cb h))"

text \<open>\<open>OnClose\<close> is always defined, closes the connection and calls back at most once.\<close>

lemma OnClose_result:
  assumes "close_ok (cn_closecb c)"
  shows "\<exists>ok c' lp'. OnClose cap (c, lp) = Some (ok, c', lp') \<and> cn_state c' = closeed \<and> cn_channel c' = cn_channel c \<and>
     cn_events c' = cn_events c @ (if cn_state c \<noteq> closeed \<and> cn_closecb c \<noteq> None then [CloseCb] else []) \<and> later lp lp'"
proof -
  have "\<exists>ok c1 lp1. (if cn_state c \<noteq> closeed then invoke_opt cap CloseCb (cn_closecb c) (c\<lparr>cn_state := closeed\<rparr>, lp)
        else Some (True, c, lp)) = Some (ok, c1, lp1) \<and> cn_state c1 = closeed \<and> cn_channel c1 = cn_channel c \<and>
     cn_events c1 = cn_events c @ (if cn_state c \<noteq> closeed \<and> cn_closecb c \<noteq> None then [CloseCb] else []) \<and> later lp lp1"
  proof (cases "cn_state c \<noteq> closeed \<and> cn_closecb c \<noteq> None")
    case True
    then obtain cb where cb: "cn_closecb c = Some cb" by auto
    let ?s = "(c\<lparr>cn_state := closeed, cn_events := cn_events c @ [CloseCb]\<rparr>, lp)"
    have n: "\<not> conn_open (fst ?s)" by (simp add: conn_open_def)
    have l: "list_all (\<lambda>x. x \<noteq> CoOnVerify True) (cb (cn_events c))" using assms cb by (simp add: close_ok_def)
    obtain ok s' where r: "do_conn_ops cap (cb (cn_events c)) ?s = Some (ok, s')" using do_conn_ops_closed_defined [OF n l] by blast
    show ?thesis using True cb r do_conn_ops_quiet [OF n l r] later_do_conn_ops [OF r] by (cases s') auto
  next
    case False
    then show ?thesis by (cases "cn_state c = closeed") (auto simp: later_refl)
  qed
  then obtain ok c1 lp1 where r: "(if cn_state c \<noteq> closeed then invoke_opt cap CloseCb (cn_closecb c) (c\<lparr>cn_state := closeed\<rparr>, lp)
        else Some (True, c, lp)) = Some (ok, c1, lp1)" "cn_state c1 = closeed" "cn_channel c1 = cn_channel c"
     "cn_events c1 = cn_events c @ (if cn_state c \<noteq> closeed \<and> cn_closecb c \<noteq> None then [CloseCb] else [])" "later lp lp1"
    by blast
  let ?s = "(c1\<lparr>cn_context := None, cn_rpc_context := None\<rparr>, lp1)"
  have t: "fst (RemoveVerifyTimer ?s) = c1\<lparr>cn_context := None, cn_rpc_context := None, cn_verify_timer := 0\<rparr>"
    by (simp add: RemoveVerifyTimer_fst)
  have "later lp (snd (RemoveVerifyTimer ?s))" using later_trans [OF r(5)] later_RemoveVerifyTimer [of ?s] by simp
  then show ?thesis using r t by (cases ok; cases "RemoveVerifyTimer ?s") auto
qed

end
