(* ===== verification/Server.thy ===== *)
theory Server
  imports Connection "HOL-Library.Multiset"
begin

text \<open>
  \<open>ShmServer\<close> of \<open>include/shm_ipc/shm_server.hpp\<close> (interface \<open>comm/server.h\<close>): the connection
  table, accepting, the handshake thread with its three queues, and shutdown. Operations of
  the event-loop thread and steps of the handshake thread are functions on one state; each
  critical section under \<open>hs_mtx_\<close> is one step, and \<open>server_step\<close> interleaves them. The
  notification of a completed handshake (push under the lock, then \<open>write\<close>; on the other side
  \<open>DrainNotify\<close>, then swap under the lock) is split into its four steps, \<open>OnAccept\<close> into its
  check, its push and its \<open>notify_one\<close>, and \<open>Stop\<close> into its critical section, its \<open>notify_all\<close> and
  what follows the \<open>join\<close>. The wait on the condition variable blocks: a thread that found its
  predicate false sleeps until it is notified (or wakes up spuriously).

  Application callbacks act on their own connection (as in \<open>Connection\<close>); calls of server
  operations from inside a callback are not modelled. An operation is undefined (\<open>None\<close>) or
  returns with a flag that tells whether it returned normally or threw.
\<close>

section \<open>The model\<close>

text \<open>A connection together with its notification descriptor.\<close>

record sconn =
  sc_conn :: conn
  sc_notify :: fd

text \<open>A completed handshake: the socket, the notification descriptor and the channel.\<close>

record hs_done =
  hd_sock :: fd
  hd_notify :: fd
  hd_channel :: channel

text \<open>
  The handshake thread does not run, is about to lock \<open>hs_mtx_\<close> and test the predicate of its
  wait, sleeps on \<open>hs_cv_\<close>, exchanges descriptors on \<open>hs_current_\<close>, or is about to write to
  \<open>hs_wake_fd_\<close>. The loop thread is between two handlers, in \<open>OnAccept\<close> between its two
  critical sections or before its \<open>notify_one\<close>, in \<open>OnHandshakeComplete\<close> between draining and
  swapping, or in \<open>Stop\<close> before its \<open>notify_all\<close> or in \<open>join\<close>.
\<close>

datatype worker = NoThread | Waiting | Asleep | Busy | Notifying

datatype loop_pc = Idle | Accepting | Signalling | Drained | StopSignal | Joining

record server =
  sv_loop :: loop
  sv_listen :: fd
  sv_conns :: "(u64 \<times> sconn) list"
  sv_next_id :: u64
  sv_max_clients :: int
  sv_started :: bool
  sv_pending :: "fd list"
  sv_done :: "hs_done list"
  sv_current :: fd
  sv_wake_fd :: fd
  sv_wake :: u64
  sv_worker :: worker
  sv_pc :: loop_pc
  sv_stopping :: bool
  sv_shut :: "fd list"
  sv_keepalive :: bool
  sv_init_buffer :: nat
  sv_max_buffer :: nat
  sv_connectioncb :: "conn_cb option"
  sv_closecb :: "conn_cb option"
  sv_messagecb :: "(any_val option \<Rightarrow> conn_cb) option"
  sv_verifycb :: "conn_cb option"
  sv_codec_factory :: "codec option"
  sv_accepted :: "fd list"
  sv_closed_fds :: "fd list"
  sv_removed :: "conn list"

text \<open>
  \<open>sv_shut\<close> are the sockets that \<open>Stop\<close> has shut down, on which a handshake no longer blocks;
  \<open>sv_codec_factory\<close> is what the codec factory returns; \<open>sv_accepted\<close> records the sockets that
  \<open>accept\<close> returned, \<open>sv_closed_fds\<close> those closed without a close callback and \<open>sv_removed\<close>
  the connections removed.
\<close>

definition ShmServer_new :: "loop \<Rightarrow> server" where
  "ShmServer_new lp = \<lparr>sv_loop = lp, sv_listen = -1, sv_conns = [], sv_next_id = 1, sv_max_clients = 16, sv_started = False,
     sv_pending = [], sv_done = [], sv_current = -1, sv_wake_fd = -1, sv_wake = 0, sv_worker = NoThread, sv_pc = Idle, sv_stopping = False, sv_shut = [],
     sv_keepalive = False, sv_init_buffer = 128 * 1024, sv_max_buffer = 1024 * 1024, sv_connectioncb = None, sv_closecb = None,
     sv_messagecb = None, sv_verifycb = None, sv_codec_factory = None, sv_accepted = [], sv_closed_fds = [], sv_removed = []\<rparr>"

definition SetMaxClients :: "int \<Rightarrow> server \<Rightarrow> server" where
  "SetMaxClients n sv = sv\<lparr>sv_max_clients := n\<rparr>"

text \<open>The sizes are stored in 32-bit fields.\<close>

definition Server_ResizeBuffer :: "nat \<Rightarrow> nat \<Rightarrow> server \<Rightarrow> server" where
  "Server_ResizeBuffer sz mx sv = sv\<lparr>sv_init_buffer := sz mod 2 ^ 32, sv_max_buffer := mx mod 2 ^ 32\<rparr>"

definition Server_SetKeepAlive :: "bool \<Rightarrow> server \<Rightarrow> server" where
  "Server_SetKeepAlive b sv = sv\<lparr>sv_keepalive := b\<rparr>"

definition FindConn :: "u64 \<Rightarrow> server \<Rightarrow> sconn option" where
  "FindConn i sv = map_of (sv_conns sv) i"

definition ConnCount :: "server \<Rightarrow> nat" where
  "ConnCount sv = length (sv_conns sv)"

text \<open>The connection object is shared: an operation on it shows in the table.\<close>

definition put_conn :: "u64 \<Rightarrow> conn \<Rightarrow> server \<Rightarrow> server" where
  "put_conn i c sv = sv\<lparr>sv_conns := map (\<lambda>(k, e). (k, if k = i then e\<lparr>sc_conn := c\<rparr> else e)) (sv_conns sv)\<rparr>"

subsection \<open>Callbacks of the loop\<close>

definition cb_accept :: callback where "cb_accept = UserCb 0"
definition cb_wake :: callback where "cb_wake = UserCb 1"
definition cb_notify :: "u64 \<Rightarrow> callback" where "cb_notify i = UserCb (3 * unat i + 3)"
definition cb_socket :: "u64 \<Rightarrow> callback" where "cb_socket i = UserCb (3 * unat i + 4)"

subsection \<open>Starting\<close>

text \<open>
  \<open>Listen\<close>. The inputs are the descriptors that \<open>ListenUnixSocket\<close> and \<open>CreateEventfd\<close> return
  (\<open>None\<close> if they throw) and whether the thread could be created. Assigning the new eventfd
  closes the one of an earlier run.
\<close>

definition Listen :: "fd option \<Rightarrow> fd option \<Rightarrow> bool \<Rightarrow> server \<Rightarrow> bool \<times> server" where
  "Listen lfd wfd thread_ok sv =
     (if sv_started sv then (True, sv)
      else case lfd of
        None \<Rightarrow> (False, sv\<lparr>sv_listen := -1\<rparr>)
      | Some l \<Rightarrow>
          let sv1 = sv\<lparr>sv_listen := l, sv_stopping := False\<rparr> in
          (case wfd of
             None \<Rightarrow> (False, sv1\<lparr>sv_listen := -1\<rparr>)
           | Some k \<Rightarrow>
               let sv2 = sv1\<lparr>sv_wake_fd := k, sv_wake := 0\<rparr> in
               if \<not> thread_ok then (False, sv2\<lparr>sv_listen := -1\<rparr>)
               else (True, sv2\<lparr>sv_worker := Waiting, sv_started := True,
                       sv_loop := AddFd k cb_wake POLLIN (AddFd l cb_accept POLLIN (sv_loop sv2))\<rparr>)))"

definition Start :: "fd option \<Rightarrow> fd option \<Rightarrow> bool \<Rightarrow> server \<Rightarrow> (bool \<times> server) option" where
  "Start lfd wfd thread_ok sv =
     (if sv_connectioncb sv = None \<or> sv_messagecb sv = None \<or> sv_closecb sv = None \<or> sv_codec_factory sv = None then None
      else Some (Listen lfd wfd thread_ok sv))"

subsection \<open>Accepting\<close>

definition inflight :: "server \<Rightarrow> nat" where
  "inflight sv = length (sv_pending sv) + length (sv_done sv) + (if sv_current sv \<ge> 0 then 1 else 0)"

text \<open>
  Notifying the condition variable (\<open>notify_one\<close> and \<open>notify_all\<close> alike: at most one thread
  waits on it).
\<close>

definition cv_notify :: "server \<Rightarrow> server" where
  "cv_notify sv = (if sv_worker sv = Asleep then sv\<lparr>sv_worker := Waiting\<rparr> else sv)"

text \<open>
  \<open>OnAccept\<close>; \<open>afd\<close> is what \<open>accept\<close> returns, negative on failure: the first critical section,
  which accepts and closes the connection when the limit is reached, the second one after
  \<open>accept\<close>, and \<open>notify_one\<close>. A number that \<open>accept\<close> returns is a new socket, not one shut
  down before.
\<close>

definition OnAccept_check :: "fd \<Rightarrow> server \<Rightarrow> server" where
  "OnAccept_check afd sv =
     (if sv_max_clients sv \<le> 0 \<or> int (length (sv_conns sv) + inflight sv) \<ge> sv_max_clients sv
      then (if afd \<ge> 0 then sv\<lparr>sv_accepted := sv_accepted sv @ [afd], sv_closed_fds := sv_closed_fds sv @ [afd]\<rparr> else sv)
      else sv\<lparr>sv_pc := Accepting\<rparr>)"

definition OnAccept_push :: "fd \<Rightarrow> server \<Rightarrow> server" where
  "OnAccept_push afd sv =
     (if afd < 0 then sv\<lparr>sv_pc := Idle\<rparr>
      else sv\<lparr>sv_accepted := sv_accepted sv @ [afd], sv_pending := sv_pending sv @ [afd],
             sv_shut := removeAll afd (sv_shut sv), sv_pc := Signalling\<rparr>)"

definition OnAccept_signal :: "server \<Rightarrow> server" where
  "OnAccept_signal sv = (cv_notify sv)\<lparr>sv_pc := Idle\<rparr>"

definition OnAccept :: "fd \<Rightarrow> server \<Rightarrow> server" where
  "OnAccept afd sv =
     (let sv1 = OnAccept_check afd sv in
      if sv_pc sv1 \<noteq> Accepting then sv1
      else let sv2 = OnAccept_push afd sv1 in
        if sv_pc sv2 \<noteq> Signalling then sv2 else OnAccept_signal sv2)"

text \<open>
  \<open>HandshakeWorker\<close>: the critical section that takes the next socket (or ends the thread, or
  goes to sleep while the predicate of the wait is false), the one after the handshake, whose
  result is \<open>None\<close> if it threw, and the notification.
\<close>

definition worker_take :: "server \<Rightarrow> server option" where
  "worker_take sv =
     (if sv_worker sv \<noteq> Waiting then None
      else if \<not> (sv_stopping sv \<or> sv_pending sv \<noteq> []) then Some (sv\<lparr>sv_worker := Asleep\<rparr>)
      else case sv_pending sv of
        [] \<Rightarrow> Some (sv\<lparr>sv_worker := NoThread\<rparr>)
      | d # ds \<Rightarrow> Some (sv\<lparr>sv_current := d, sv_pending := ds, sv_worker := Busy\<rparr>))"

definition worker_finish :: "(fd \<times> channel) option \<Rightarrow> server \<Rightarrow> server option" where
  "worker_finish res sv =
     (if sv_worker sv \<noteq> Busy then None
      else case res of
        Some (nfd, ch) \<Rightarrow>
          if \<not> sv_stopping sv
          then Some (sv\<lparr>sv_done := sv_done sv @ [\<lparr>hd_sock = sv_current sv, hd_notify = nfd, hd_channel = ch\<rparr>],
                      sv_current := -1, sv_worker := Notifying\<rparr>)
          else Some (sv\<lparr>sv_closed_fds := sv_closed_fds sv @ [sv_current sv], sv_current := -1, sv_worker := Waiting\<rparr>)
      | None \<Rightarrow> Some (sv\<lparr>sv_closed_fds := sv_closed_fds sv @ [sv_current sv], sv_current := -1, sv_worker := Waiting\<rparr>))"

definition worker_notify :: "server \<Rightarrow> server option" where
  "worker_notify sv =
     (if sv_worker sv \<noteq> Notifying then None
      else Some (sv\<lparr>sv_wake := eventfd_write (sv_wake sv) 1, sv_worker := Waiting\<rparr>))"

text \<open>
  \<open>FinishAccept\<close>. Storing the connection under an identifier that is in use (only after \<open>2\<^sup>6\<^sup>4\<close>
  connections) destroys the one stored there.
\<close>

definition conn_sockets :: "(u64 \<times> sconn) list \<Rightarrow> fd list" where
  "conn_sockets es = map (\<lambda>(_, e). cn_socket (sc_conn e)) es"

definition FinishAccept :: "nat \<Rightarrow> hs_done \<Rightarrow> server \<Rightarrow> (bool \<times> server) option" where
  "FinishAccept cap dn sv =
     (if int (length (sv_conns sv)) \<ge> sv_max_clients sv
      then Some (True, sv\<lparr>sv_closed_fds := sv_closed_fds sv @ [hd_sock dn]\<rparr>)
      else case sv_codec_factory sv of
        None \<Rightarrow> Some (True, sv\<lparr>sv_closed_fds := sv_closed_fds sv @ [hd_sock dn]\<rparr>)
      | Some cd \<Rightarrow>
          let i = sv_next_id sv;
              c = ResizeBuffer (sv_init_buffer sv) (sv_max_buffer sv)
                    ((ShmConnection_new i (hd_sock dn) (hd_channel dn))
                      \<lparr>cn_messagecb := sv_messagecb sv, cn_closecb := sv_closecb sv, cn_connectioncb := sv_connectioncb sv,
                       cn_verifycb := sv_verifycb sv, cn_codec := Some cd, cn_keepalive := sv_keepalive sv,
                       cn_conntype := TcpConn_Task\<rparr>);
              lp = AddFd (hd_sock dn) (cb_socket i) POLLIN (AddFd (hd_notify dn) (cb_notify i) POLLIN (sv_loop sv))
          in (case OnConnection cap (c, lp) of
                None \<Rightarrow> None
              | Some (ok, c1, lp1) \<Rightarrow> Some (ok, sv\<lparr>sv_next_id := i + 1, sv_loop := lp1,
                    sv_conns := filter (\<lambda>(k, _). k \<noteq> i) (sv_conns sv) @ [(i, \<lparr>sc_conn = c1, sc_notify = hd_notify dn\<rparr>)],
                    sv_closed_fds := sv_closed_fds sv @ conn_sockets (filter (\<lambda>(k, _). k = i) (sv_conns sv))\<rparr>)))"

text \<open>
  \<open>OnHandshakeComplete\<close>: all completed handshakes become connections, in order. Those left
  when the loop stops early, or when an exception leaves it, are closed with the local queue.
\<close>

fun finish_all :: "nat \<Rightarrow> hs_done list \<Rightarrow> server \<Rightarrow> (bool \<times> server) option" where
  "finish_all cap [] sv = Some (True, sv)"
| "finish_all cap (dn # dns) sv =
     (if \<not> sv_started sv then Some (True, sv\<lparr>sv_closed_fds := sv_closed_fds sv @ map hd_sock (dn # dns)\<rparr>)
      else case FinishAccept cap dn sv of
        None \<Rightarrow> None
      | Some (False, sv1) \<Rightarrow> Some (False, sv1\<lparr>sv_closed_fds := sv_closed_fds sv1 @ map hd_sock dns\<rparr>)
      | Some (True, sv1) \<Rightarrow> finish_all cap dns sv1)"

definition complete_drain :: "server \<Rightarrow> server" where
  "complete_drain sv = sv\<lparr>sv_wake := snd (eventfd_read (sv_wake sv)), sv_pc := Drained\<rparr>"

definition complete_take :: "nat \<Rightarrow> server \<Rightarrow> (bool \<times> server) option" where
  "complete_take cap sv = finish_all cap (sv_done sv) (sv\<lparr>sv_done := [], sv_pc := Idle\<rparr>)"

definition OnHandshakeComplete :: "nat \<Rightarrow> server \<Rightarrow> (bool \<times> server) option" where
  "OnHandshakeComplete cap sv = complete_take cap (complete_drain sv)"

subsection \<open>Connections\<close>

definition RemoveConn :: "nat \<Rightarrow> u64 \<Rightarrow> sconn \<Rightarrow> server \<Rightarrow> (bool \<times> server) option" where
  "RemoveConn cap i e sv =
     (let lp = RemoveFd (cn_socket (sc_conn e)) (RemoveFd (sc_notify e) (sv_loop sv));
          sv1 = sv\<lparr>sv_conns := filter (\<lambda>(k, _). k \<noteq> i) (sv_conns sv)\<rparr>
      in (case OnClose cap (sc_conn e, lp) of
            None \<Rightarrow> None
          | Some (ok, c1, lp1) \<Rightarrow> Some (ok, sv1\<lparr>sv_loop := lp1, sv_removed := sv_removed sv1 @ [c1]\<rparr>)))"

definition OnConnNotify :: "nat \<Rightarrow> u64 \<Rightarrow> server \<Rightarrow> (bool \<times> server) option" where
  "OnConnNotify cap i sv = (case FindConn i sv of
     None \<Rightarrow> Some (True, sv)
   | Some e \<Rightarrow>
       let c0 = (sc_conn e)\<lparr>cn_channel := snd (DrainNotify (cn_channel (sc_conn e)))\<rparr> in
       (case DrainRing cap (c0, sv_loop sv) of
          None \<Rightarrow> None
        | Some (Throw, c1, lp1) \<Rightarrow> Some (False, put_conn i c1 (sv\<lparr>sv_loop := lp1\<rparr>))
        | Some (Ret n, c1, lp1) \<Rightarrow>
            let sv1 = put_conn i c1 (sv\<lparr>sv_loop := lp1\<rparr>) in
            if n < 0 \<or> cn_state c1 = closeing then RemoveConn cap i (e\<lparr>sc_conn := c1\<rparr>) sv1 else Some (True, sv1)))"

text \<open>\<open>hup\<close>: the revents contain an event of interest; \<open>r\<close> is what \<open>read\<close> returns.\<close>

definition OnConnSocket :: "nat \<Rightarrow> bool \<Rightarrow> int \<Rightarrow> u64 \<Rightarrow> server \<Rightarrow> (bool \<times> server) option" where
  "OnConnSocket cap hup r i sv = (case FindConn i sv of
     None \<Rightarrow> Some (True, sv)
   | Some e \<Rightarrow>
       if hup \<and> r \<le> 0 then
         (case DrainRing cap (sc_conn e, sv_loop sv) of
            None \<Rightarrow> None
          | Some (Throw, c1, lp1) \<Rightarrow> Some (False, put_conn i c1 (sv\<lparr>sv_loop := lp1\<rparr>))
          | Some (Ret n, c1, lp1) \<Rightarrow> RemoveConn cap i (e\<lparr>sc_conn := c1\<rparr>) (put_conn i c1 (sv\<lparr>sv_loop := lp1\<rparr>)))
       else Some (True, sv))"

definition CloseConn :: "nat \<Rightarrow> u64 \<Rightarrow> server \<Rightarrow> (bool \<times> server) option" where
  "CloseConn cap i sv = (case FindConn i sv of
     None \<Rightarrow> Some (True, sv)
   | Some e \<Rightarrow> (case Close (sc_conn e, sv_loop sv) of
       (c1, lp1) \<Rightarrow> RemoveConn cap i (e\<lparr>sc_conn := c1\<rparr>) (put_conn i c1 (sv\<lparr>sv_loop := lp1\<rparr>))))"

definition SendTo :: "nat \<Rightarrow> u64 \<Rightarrow> any_val \<Rightarrow> server \<Rightarrow> (bool \<times> server) option" where
  "SendTo cap i pkg sv = (case FindConn i sv of
     None \<Rightarrow> Some (False, sv)
   | Some e \<Rightarrow> (case SendCmd cap pkg (sc_conn e, sv_loop sv) of
       None \<Rightarrow> None
     | Some (ok, c1, lp1) \<Rightarrow> Some (ok, put_conn i c1 (sv\<lparr>sv_loop := lp1\<rparr>))))"

fun broadcast_to :: "nat \<Rightarrow> any_val \<Rightarrow> u64 list \<Rightarrow> server \<Rightarrow> server option" where
  "broadcast_to cap pkg [] sv = Some sv"
| "broadcast_to cap pkg (i # is) sv = (case SendTo cap i pkg sv of
     None \<Rightarrow> None
   | Some (_, sv1) \<Rightarrow> broadcast_to cap pkg is sv1)"

definition Broadcast :: "nat \<Rightarrow> any_val \<Rightarrow> server \<Rightarrow> server option" where
  "Broadcast cap pkg sv = broadcast_to cap pkg (map fst (sv_conns sv)) sv"

subsection \<open>Stopping\<close>

text \<open>
  \<open>Stop\<close> in three parts. \<open>Stop_begin\<close> tells the handshake thread to end and shuts the sockets in
  its queue and the one it works on down, so that a blocked handshake fails; \<open>Stop_notify\<close>
  wakes it up; \<open>Stop_finish\<close> is what follows once the thread has been joined.
\<close>

definition Stop_begin :: "server \<Rightarrow> server" where
  "Stop_begin sv =
     (if \<not> sv_started sv then sv
      else sv\<lparr>sv_started := False, sv_stopping := True,
             sv_shut := sv_shut sv @ filter (\<lambda>d. d \<ge> 0) (sv_pending sv) @ (if sv_current sv \<ge> 0 then [sv_current sv] else []),
             sv_pc := StopSignal\<rparr>)"

definition Stop_notify :: "server \<Rightarrow> server" where
  "Stop_notify sv = (cv_notify sv)\<lparr>sv_pc := Joining\<rparr>"

fun remove_all :: "nat \<Rightarrow> (u64 \<times> sconn) list \<Rightarrow> server \<Rightarrow> (bool \<times> server) option" where
  "remove_all cap [] sv = Some (True, sv)"
| "remove_all cap ((i, e) # es) sv = (case RemoveConn cap i e sv of
     None \<Rightarrow> None
   | Some (False, sv1) \<Rightarrow> Some (False, sv1)
   | Some (True, sv1) \<Rightarrow> remove_all cap es sv1)"

definition Stop_queues :: "server \<Rightarrow> server" where
  "Stop_queues sv =
     (let lp1 = (if sv_listen sv \<ge> 0 then RemoveFd (sv_listen sv) (sv_loop sv) else sv_loop sv);
          lp2 = (if sv_wake_fd sv \<ge> 0 then RemoveFd (sv_wake_fd sv) lp1 else lp1)
      in sv\<lparr>sv_loop := lp2, sv_listen := -1,
           sv_closed_fds := sv_closed_fds sv @ sv_pending sv @ map hd_sock (sv_done sv) @
             (if sv_current sv \<ge> 0 then [sv_current sv] else []),
           sv_pending := [], sv_done := [], sv_current := -1, sv_pc := Idle\<rparr>)"

definition Stop_finish :: "nat \<Rightarrow> server \<Rightarrow> (bool \<times> server) option" where
  "Stop_finish cap sv =
     (if sv_worker sv \<noteq> NoThread then None
      else let sv1 = Stop_queues sv in remove_all cap (sv_conns sv1) sv1)"

section \<open>Runs\<close>

text \<open>
  All interleavings of the two threads. Operations of the loop thread start when it is idle;
  the accept, notification and socket handlers are registered while the server is started.
\<close>

inductive worker_step :: "server \<Rightarrow> server \<Rightarrow> bool" where
  take_next: "worker_take sv = Some sv' \<Longrightarrow> worker_step sv sv'"
| finish: "worker_finish res sv = Some sv' \<Longrightarrow> worker_step sv sv'"
| wake_loop: "worker_notify sv = Some sv' \<Longrightarrow> worker_step sv sv'"
| spurious: "sv_worker sv = Asleep \<Longrightarrow> worker_step sv (sv\<lparr>sv_worker := Waiting\<rparr>)"

text \<open>
  The steps the handshake thread makes by itself, with no help of a peer, of a timeout or of a
  spurious wake-up: while it sleeps it makes none, and a handshake returns by itself only on a
  socket that has been shut down (then \<open>sendmsg\<close> and \<open>recvmsg\<close> do not block).
\<close>

inductive worker_own_step :: "server \<Rightarrow> server \<Rightarrow> bool" where
  own_take: "worker_take sv = Some sv' \<Longrightarrow> worker_own_step sv sv'"
| own_finish: "sv_current sv \<in> set (sv_shut sv) \<Longrightarrow> worker_finish res sv = Some sv' \<Longrightarrow> worker_own_step sv sv'"
| own_wake_loop: "worker_notify sv = Some sv' \<Longrightarrow> worker_own_step sv sv'"

inductive server_step :: "nat \<Rightarrow> server \<Rightarrow> server \<Rightarrow> bool" for cap where
  worker: "worker_step sv sv' \<Longrightarrow> server_step cap sv sv'"
| start: "sv_pc sv = Idle \<Longrightarrow> Start lfd wfd th sv = Some (ok, sv') \<Longrightarrow> server_step cap sv sv'"
| accept: "sv_pc sv = Idle \<Longrightarrow> sv_started sv \<Longrightarrow> server_step cap sv (OnAccept_check afd sv)"
| accept_push: "sv_pc sv = Accepting \<Longrightarrow> server_step cap sv (OnAccept_push afd sv)"
| accept_signal: "sv_pc sv = Signalling \<Longrightarrow> server_step cap sv (OnAccept_signal sv)"
| drain: "sv_pc sv = Idle \<Longrightarrow> sv_started sv \<Longrightarrow> server_step cap sv (complete_drain sv)"
| complete: "sv_pc sv = Drained \<Longrightarrow> complete_take cap sv = Some (ok, sv') \<Longrightarrow> server_step cap sv sv'"
| notify: "sv_pc sv = Idle \<Longrightarrow> sv_started sv \<Longrightarrow> OnConnNotify cap i sv = Some (ok, sv') \<Longrightarrow> server_step cap sv sv'"
| socket: "sv_pc sv = Idle \<Longrightarrow> sv_started sv \<Longrightarrow> OnConnSocket cap hup r i sv = Some (ok, sv') \<Longrightarrow> server_step cap sv sv'"
| close_conn: "sv_pc sv = Idle \<Longrightarrow> CloseConn cap i sv = Some (ok, sv') \<Longrightarrow> server_step cap sv sv'"
| send: "sv_pc sv = Idle \<Longrightarrow> SendTo cap i pkg sv = Some (ok, sv') \<Longrightarrow> server_step cap sv sv'"
| broadcast: "sv_pc sv = Idle \<Longrightarrow> Broadcast cap pkg sv = Some sv' \<Longrightarrow> server_step cap sv sv'"
| stop: "sv_pc sv = Idle \<Longrightarrow> server_step cap sv (Stop_begin sv)"
| stop_notify: "sv_pc sv = StopSignal \<Longrightarrow> server_step cap sv (Stop_notify sv)"
| stopped: "sv_pc sv = Joining \<Longrightarrow> Stop_finish cap sv = Some (ok, sv') \<Longrightarrow> server_step cap sv sv'"

inductive server_reach :: "nat \<Rightarrow> server \<Rightarrow> server \<Rightarrow> bool" for cap sv0 where
  init: "server_reach cap sv0 sv0"
| step: "server_reach cap sv0 sv \<Longrightarrow> server_step cap sv sv' \<Longrightarrow> server_reach cap sv0 sv'"

text \<open>The parts of the state that connection operations do not touch.\<close>

definition same_queues :: "server \<Rightarrow> server \<Rightarrow> bool" where
  "same_queues sv sv' \<longleftrightarrow> sv_pending sv' = sv_pending sv \<and> sv_done sv' = sv_done sv \<and> sv_current sv' = sv_current sv \<and>
     sv_worker sv' = sv_worker sv \<and> sv_stopping sv' = sv_stopping sv \<and> sv_started sv' = sv_started sv \<and>
     sv_max_clients sv' = sv_max_clients sv \<and> sv_wake sv' = sv_wake sv \<and> sv_pc sv' = sv_pc sv \<and>
     sv_shut sv' = sv_shut sv"

lemma same_queues_refl: "same_queues sv sv"
  by (simp add: same_queues_def)

lemma same_queues_trans: "same_queues a b \<Longrightarrow> same_queues b c \<Longrightarrow> same_queues a c"
  by (simp add: same_queues_def)

lemma put_conn_frame: "same_queues sv (put_conn i c sv)" "map fst (sv_conns (put_conn i c sv)) = map fst (sv_conns sv)"
  "sv_loop (put_conn i c sv) = sv_loop sv"
  by (simp_all add: put_conn_def same_queues_def comp_def split_beta)

lemma put_conn_length: "length (sv_conns (put_conn i c sv)) = length (sv_conns sv)"
  by (simp add: put_conn_def)

lemma RemoveConn_frame:
  assumes "RemoveConn cap i e sv = Some (ok, sv')"
  shows "same_queues sv sv'" "sv_conns sv' = filter (\<lambda>(k, _). k \<noteq> i) (sv_conns sv)"
  using assms by (auto simp: RemoveConn_def Let_def same_queues_def split: option.splits)

lemma RemoveConn_put:
  assumes "RemoveConn cap i e (put_conn i c (sv\<lparr>sv_loop := lp\<rparr>)) = Some (ok, sv')"
  shows "same_queues sv sv' \<and> length (sv_conns sv') \<le> length (sv_conns sv)"
proof -
  note f = RemoveConn_frame [OF assms]
  have "same_queues sv (put_conn i c (sv\<lparr>sv_loop := lp\<rparr>))" by (simp add: same_queues_def put_conn_def)
  moreover have "length (sv_conns sv') \<le> length (sv_conns (put_conn i c (sv\<lparr>sv_loop := lp\<rparr>)))" using f(2) by simp
  ultimately show ?thesis using same_queues_trans [OF _ f(1)] put_conn_length [of i c "sv\<lparr>sv_loop := lp\<rparr>"] by auto
qed

lemma stays: "same_queues sv (put_conn i c (sv\<lparr>sv_loop := lp\<rparr>)) \<and> length (sv_conns (put_conn i c (sv\<lparr>sv_loop := lp\<rparr>))) \<le> length (sv_conns sv)"
  by (simp add: same_queues_def put_conn_def)

text \<open>No operation on connections adds one.\<close>

lemma OnConnNotify_frame:
  assumes "OnConnNotify cap i sv = Some (ok, sv')"
  shows "same_queues sv sv' \<and> length (sv_conns sv') \<le> length (sv_conns sv)"
  using assms stays [of sv i] RemoveConn_put [of cap i _ _ _ sv]
  by (auto simp: OnConnNotify_def Let_def same_queues_refl split: option.splits outcome.splits if_splits)

lemma OnConnSocket_frame:
  assumes "OnConnSocket cap hup r i sv = Some (ok, sv')"
  shows "same_queues sv sv' \<and> length (sv_conns sv') \<le> length (sv_conns sv)"
  using assms stays [of sv i] RemoveConn_put [of cap i _ _ _ sv]
  by (auto simp: OnConnSocket_def same_queues_refl split: option.splits outcome.splits if_splits)

lemma CloseConn_frame:
  assumes "CloseConn cap i sv = Some (ok, sv')"
  shows "same_queues sv sv' \<and> length (sv_conns sv') \<le> length (sv_conns sv)"
  using assms stays [of sv i] RemoveConn_put [of cap i _ _ _ sv]
  by (auto simp: CloseConn_def same_queues_refl split: option.splits prod.splits)

lemma SendTo_frame:
  assumes "SendTo cap i pkg sv = Some (ok, sv')"
  shows "same_queues sv sv' \<and> length (sv_conns sv') \<le> length (sv_conns sv)"
  using assms stays [of sv i] by (auto simp: SendTo_def same_queues_refl split: option.splits)

lemma broadcast_to_frame:
  "broadcast_to cap pkg is sv = Some sv' \<Longrightarrow> same_queues sv sv' \<and> length (sv_conns sv') \<le> length (sv_conns sv)"
proof (induction cap pkg "is" sv rule: broadcast_to.induct)
  case (2 cap pkg i "is" sv)
  obtain ok sv1 where 1: "SendTo cap i pkg sv = Some (ok, sv1)" using 2(2) by (auto split: option.splits)
  then show ?case using 2 SendTo_frame [OF 1] same_queues_trans by fastforce
qed (simp add: same_queues_refl)

lemma remove_all_frame:
  "remove_all cap es sv = Some (ok, sv') \<Longrightarrow> same_queues sv sv' \<and> length (sv_conns sv') \<le> length (sv_conns sv) \<and>
     (ok \<longrightarrow> sv_conns sv' = filter (\<lambda>(k, _). k \<notin> fst ` set es) (sv_conns sv))"
proof (induction es arbitrary: sv)
  case (Cons p es)
  obtain i e where p: "p = (i, e)" by (cases p)
  obtain k sv1 where 1: "RemoveConn cap i e sv = Some (k, sv1)" using Cons.prems p by (auto split: option.splits)
  note f = RemoveConn_frame [OF 1]
  have l: "length (sv_conns sv1) \<le> length (sv_conns sv)" using f(2) by simp
  show ?case
  proof (cases k)
    case True
    have ih: "same_queues sv1 sv' \<and> length (sv_conns sv') \<le> length (sv_conns sv1) \<and>
        (ok \<longrightarrow> sv_conns sv' = filter (\<lambda>(k, _). k \<notin> fst ` set es) (sv_conns sv1))"
      using Cons.IH [of sv1] Cons.prems p 1 True by simp
    have "filter (\<lambda>(k, _). k \<notin> fst ` set es) (filter (\<lambda>(k, _). k \<noteq> i) (sv_conns sv))
        = filter (\<lambda>(k, _). k \<notin> fst ` set (p # es)) (sv_conns sv)"
      by (auto simp: p intro!: filter_cong)
    then have "ok \<longrightarrow> sv_conns sv' = filter (\<lambda>(k, _). k \<notin> fst ` set (p # es)) (sv_conns sv)" using ih f(2) by simp
    moreover have "same_queues sv sv'" using ih same_queues_trans [OF f(1)] by blast
    moreover have "length (sv_conns sv') \<le> length (sv_conns sv)" using ih l le_trans by blast
    ultimately show ?thesis by blast
  next
    case False
    then show ?thesis using Cons.prems p 1 f(1) l by simp
  qed
qed (simp add: same_queues_refl)

lemma FinishAccept_frame:
  assumes "FinishAccept cap dn sv = Some (ok, sv')"
  shows "same_queues sv sv' \<and> length (sv_conns sv') \<le> Suc (length (sv_conns sv))"
  using assms by (auto simp: FinishAccept_def Let_def same_queues_def split: option.splits if_splits)

lemma finish_all_frame:
  "finish_all cap dns sv = Some (ok, sv') \<Longrightarrow> same_queues sv sv' \<and> length (sv_conns sv') \<le> length (sv_conns sv) + length dns"
proof (induction dns arbitrary: sv)
  case (Cons dn dns)
  show ?case
  proof (cases "sv_started sv")
    case True
    obtain k sv1 where 1: "FinishAccept cap dn sv = Some (k, sv1)" using Cons.prems True by (auto split: option.splits)
    note f = FinishAccept_frame [OF 1]
    show ?thesis
    proof (cases k)
      case kt: True
      have "same_queues sv1 sv' \<and> length (sv_conns sv') \<le> length (sv_conns sv1) + length dns"
        using Cons.IH [of sv1] Cons.prems 1 kt True by simp
      then show ?thesis using f same_queues_trans by fastforce
    next
      case False
      then show ?thesis using Cons.prems 1 True f by (auto simp: same_queues_def)
    qed
  qed (use Cons.prems in \<open>auto simp: same_queues_def\<close>)
qed (simp add: same_queues_refl)

section \<open>Invariant\<close>

text \<open>
  Connections, sockets waiting for the handshake thread, the one it works on and those that
  wait to become connections never exceed the limit together (with room for one more between
  the two critical sections of \<open>OnAccept\<close>); the thread holds a socket exactly while it is
  busy; it runs only between \<open>Start\<close> and the end of \<open>Stop\<close>. The thread never sleeps while it has
  work or must end, unless it is about to be notified; while \<open>Stop\<close> waits for it, all its
  sockets are shut down. A completed handshake is always announced: the eventfd is signalled,
  about to be, or just being served.
\<close>

abbreviation stop_pc :: "loop_pc \<Rightarrow> bool" where
  "stop_pc c \<equiv> c = StopSignal \<or> c = Joining"

definition server_inv :: "server \<Rightarrow> bool" where
  "server_inv sv \<longleftrightarrow> int (length (sv_conns sv) + inflight sv) \<le> max 0 (sv_max_clients sv) \<and>
     (sv_pc sv = Accepting \<longrightarrow> int (length (sv_conns sv) + inflight sv) < sv_max_clients sv) \<and>
     list_all (\<lambda>d. 0 \<le> d) (sv_pending sv) \<and> (sv_worker sv = Busy \<longleftrightarrow> 0 \<le> sv_current sv) \<and>
     (sv_started sv \<longrightarrow> \<not> sv_stopping sv \<and> \<not> stop_pc (sv_pc sv)) \<and> (stop_pc (sv_pc sv) \<longrightarrow> sv_stopping sv) \<and>
     (sv_pc sv \<noteq> Idle \<longrightarrow> stop_pc (sv_pc sv) \<or> sv_started sv) \<and>
     (sv_worker sv \<noteq> NoThread \<longrightarrow> sv_started sv \<or> stop_pc (sv_pc sv)) \<and>
     (\<not> sv_started sv \<and> sv_pc sv = Idle \<longrightarrow> sv_pending sv = [] \<and> sv_done sv = [])"

definition cv_inv :: "server \<Rightarrow> bool" where
  "cv_inv sv \<longleftrightarrow>
     (sv_worker sv = Asleep \<longrightarrow> (sv_pending sv = [] \<or> sv_pc sv = Signalling) \<and> (\<not> sv_stopping sv \<or> sv_pc sv = StopSignal)) \<and>
     (stop_pc (sv_pc sv) \<longrightarrow> list_all (\<lambda>d. d \<in> set (sv_shut sv)) (sv_pending sv) \<and> (0 \<le> sv_current sv \<longrightarrow> sv_current sv \<in> set (sv_shut sv)))"

definition announced :: "server \<Rightarrow> bool" where
  "announced sv \<longleftrightarrow> (sv_done sv \<noteq> [] \<longrightarrow>
     sv_wake sv \<noteq> 0 \<or> sv_worker sv = Notifying \<or> sv_pc sv = Drained \<or> stop_pc (sv_pc sv))"

lemma server_inv_mono:
  "server_inv sv \<Longrightarrow> same_queues sv sv' \<Longrightarrow> length (sv_conns sv') \<le> length (sv_conns sv) \<Longrightarrow> server_inv sv'"
  by (auto simp: server_inv_def same_queues_def inflight_def)

lemma cv_inv_mono: "cv_inv sv \<Longrightarrow> same_queues sv sv' \<Longrightarrow> cv_inv sv'"
  by (simp add: cv_inv_def same_queues_def)

lemma announced_mono: "announced sv \<Longrightarrow> same_queues sv sv' \<Longrightarrow> announced sv'"
  by (simp add: announced_def same_queues_def)

lemma server_inv_accept:
  "server_inv sv \<Longrightarrow> sv_pc sv = Idle \<Longrightarrow> sv_started sv \<Longrightarrow> server_inv (OnAccept_check afd sv)"
  "server_inv sv \<Longrightarrow> sv_pc sv = Accepting \<Longrightarrow> server_inv (OnAccept_push afd sv)"
  "server_inv sv \<Longrightarrow> sv_pc sv = Signalling \<Longrightarrow> server_inv (OnAccept_signal sv)"
  by (auto simp: server_inv_def OnAccept_check_def OnAccept_push_def OnAccept_signal_def cv_notify_def inflight_def)

lemma worker_take_cases:
  assumes "worker_take sv = Some sv'"
  obtains (sleep) "sv_worker sv = Waiting" "\<not> sv_stopping sv" "sv_pending sv = []" "sv' = sv\<lparr>sv_worker := Asleep\<rparr>"
  | (quit) "sv_worker sv = Waiting" "sv_stopping sv" "sv_pending sv = []" "sv' = sv\<lparr>sv_worker := NoThread\<rparr>"
  | (work) d ds where "sv_worker sv = Waiting" "sv_pending sv = d # ds"
      "sv' = sv\<lparr>sv_current := d, sv_pending := ds, sv_worker := Busy\<rparr>"
  using assms by (cases "sv_pending sv") (auto simp: worker_take_def split: if_splits)

lemma worker_finish_cases:
  assumes "worker_finish res sv = Some sv'"
  obtains (pushed) nfd ch where "sv_worker sv = Busy" "\<not> sv_stopping sv"
      "sv' = sv\<lparr>sv_done := sv_done sv @ [\<lparr>hd_sock = sv_current sv, hd_notify = nfd, hd_channel = ch\<rparr>], sv_current := -1,
               sv_worker := Notifying\<rparr>"
  | (dropped) "sv_worker sv = Busy"
      "sv' = sv\<lparr>sv_closed_fds := sv_closed_fds sv @ [sv_current sv], sv_current := -1, sv_worker := Waiting\<rparr>"
  using assms by (auto simp: worker_finish_def split: if_splits option.splits)

lemma server_inv_worker: "worker_step sv sv' \<Longrightarrow> server_inv sv \<Longrightarrow> server_inv sv'"
proof (induction rule: worker_step.induct)
  case (take_next sv sv')
  from take_next(1) show ?case by (rule worker_take_cases) (use take_next(2) in \<open>auto simp: server_inv_def inflight_def\<close>)
next
  case (finish res sv sv')
  from finish(1) show ?case by (rule worker_finish_cases) (use finish(2) in \<open>auto simp: server_inv_def inflight_def\<close>)
next
  case (wake_loop sv sv')
  then have "sv_worker sv = Notifying" "sv' = sv\<lparr>sv_wake := eventfd_write (sv_wake sv) 1, sv_worker := Waiting\<rparr>"
    by (auto simp: worker_notify_def split: if_splits)
  moreover from this have "inflight sv' = inflight sv" by (simp add: inflight_def)
  ultimately show ?case using wake_loop(2) by (auto simp: server_inv_def)
next
  case (spurious sv)
  then show ?case by (auto simp: server_inv_def inflight_def)
qed

lemma cv_inv_worker: "worker_step sv sv' \<Longrightarrow> cv_inv sv \<Longrightarrow> cv_inv sv'"
proof (induction rule: worker_step.induct)
  case (take_next sv sv')
  from take_next(1) show ?case by (rule worker_take_cases) (use take_next(2) in \<open>auto simp: cv_inv_def\<close>)
next
  case (finish res sv sv')
  then show ?case by (auto simp: cv_inv_def worker_finish_def split: if_splits option.splits)
next
  case (wake_loop sv sv')
  then show ?case by (auto simp: cv_inv_def worker_notify_def split: if_splits)
next
  case (spurious sv)
  then show ?case by (auto simp: cv_inv_def)
qed

lemma cv_inv_accept:
  "cv_inv sv \<Longrightarrow> sv_pc sv = Idle \<Longrightarrow> cv_inv (OnAccept_check afd sv)"
  "cv_inv sv \<Longrightarrow> sv_pc sv = Accepting \<Longrightarrow> cv_inv (OnAccept_push afd sv)"
  "cv_inv sv \<Longrightarrow> sv_pc sv = Signalling \<Longrightarrow> cv_inv (OnAccept_signal sv)"
  by (auto simp: cv_inv_def OnAccept_check_def OnAccept_push_def OnAccept_signal_def cv_notify_def)

lemma cv_inv_stop:
  "cv_inv sv \<Longrightarrow> list_all (\<lambda>d. 0 \<le> d) (sv_pending sv) \<Longrightarrow> sv_pc sv = Idle \<Longrightarrow> cv_inv (Stop_begin sv)"
  "cv_inv sv \<Longrightarrow> sv_pc sv = StopSignal \<Longrightarrow> cv_inv (Stop_notify sv)"
  by (auto simp: cv_inv_def Stop_begin_def Stop_notify_def cv_notify_def list_all_iff)

lemma server_inv_start: "server_inv sv \<Longrightarrow> sv_pc sv = Idle \<Longrightarrow> Start lfd wfd th sv = Some (ok, sv') \<Longrightarrow> server_inv sv'"
  by (cases lfd; cases wfd) (auto simp: server_inv_def Start_def Listen_def inflight_def Let_def split: if_splits)

lemma server_inv_complete:
  assumes "server_inv sv" "sv_pc sv = Drained" "complete_take cap sv = Some (ok, sv')"
  shows "server_inv sv'" "announced sv'" "sv_max_clients sv' = sv_max_clients sv" "cv_inv sv \<Longrightarrow> cv_inv sv'"
proof -
  note f = finish_all_frame [OF assms(3) [unfolded complete_take_def]]
  show "server_inv sv'" using f assms(1,2) by (auto simp: server_inv_def same_queues_def inflight_def)
  show "announced sv'" "sv_max_clients sv' = sv_max_clients sv" using f by (simp_all add: announced_def same_queues_def)
  show "cv_inv sv'" if "cv_inv sv" using f assms(2) that by (simp add: cv_inv_def same_queues_def)
qed

lemma Stop_finish_remove:
  "Stop_finish cap sv = Some (ok, sv') \<Longrightarrow> sv_worker sv = NoThread \<and> remove_all cap (sv_conns sv) (Stop_queues sv) = Some (ok, sv')"
  by (auto simp: Stop_finish_def Stop_queues_def Let_def split: if_splits)

lemma server_inv_stopped:
  assumes "server_inv sv" "sv_pc sv = Joining" "Stop_finish cap sv = Some (ok, sv')"
  shows "server_inv sv'" "announced sv'" "sv_max_clients sv' = sv_max_clients sv" "cv_inv sv'"
proof -
  have 1: "sv_worker sv = NoThread" "remove_all cap (sv_conns sv) (Stop_queues sv) = Some (ok, sv')"
    using Stop_finish_remove [OF assms(3)] by auto
  note f = remove_all_frame [OF 1(2)]
  have "server_inv (Stop_queues sv)" using assms(1,2) 1 by (simp add: server_inv_def inflight_def Stop_queues_def Let_def)
  then show "server_inv sv'" using f server_inv_mono by blast
  show "announced sv'" "sv_max_clients sv' = sv_max_clients sv" "cv_inv sv'"
    using f 1 by (simp_all add: announced_def cv_inv_def same_queues_def Stop_queues_def Let_def)
qed

text \<open>Each step keeps the invariant, the limit and the announcement.\<close>

definition server_ok :: "int \<Rightarrow> server \<Rightarrow> bool" where
  "server_ok n sv \<longleftrightarrow> server_inv sv \<and> cv_inv sv \<and> announced sv \<and> sv_max_clients sv = n"

lemma server_ok_mono:
  "same_queues sv sv' \<and> length (sv_conns sv') \<le> length (sv_conns sv) \<Longrightarrow> server_ok n sv \<Longrightarrow> server_ok n sv'"
  using server_inv_mono cv_inv_mono announced_mono by (auto simp: server_ok_def same_queues_def)

lemma announced_worker: "worker_step sv sv' \<Longrightarrow> announced sv \<Longrightarrow> announced sv' \<and> sv_max_clients sv' = sv_max_clients sv"
proof (induction rule: worker_step.induct)
  case (take_next sv sv')
  then show ?case by (cases "sv_pending sv") (auto simp: announced_def worker_take_def split: if_splits)
next
  case (finish res sv sv')
  then show ?case by (auto simp: announced_def worker_finish_def split: if_splits option.splits)
next
  case (wake_loop sv sv')
  then show ?case using eventfd_write_signalled by (auto simp: announced_def worker_notify_def split: if_splits)
next
  case (spurious sv)
  then show ?case by (auto simp: announced_def)
qed

lemma server_inv_pending: "server_inv sv \<Longrightarrow> list_all (\<lambda>d. 0 \<le> d) (sv_pending sv)"
  by (simp add: server_inv_def)

lemma server_inv_stop:
  "server_inv sv \<Longrightarrow> server_inv (Stop_begin sv)"
  "server_inv sv \<Longrightarrow> sv_pc sv = StopSignal \<Longrightarrow> server_inv (Stop_notify sv)"
  by (cases "sv_started sv", auto simp: server_inv_def Stop_begin_def Stop_notify_def cv_notify_def inflight_def)

lemma server_ok_step: "server_step cap sv sv' \<Longrightarrow> server_ok n sv \<Longrightarrow> server_ok n sv'"
proof (induction rule: server_step.induct)
  case (worker sv sv')
  then show ?case using server_inv_worker cv_inv_worker announced_worker by (simp add: server_ok_def)
next
  case (start sv lfd wfd th ok sv')
  have "sv_done sv' = sv_done sv \<and> sv_max_clients sv' = sv_max_clients sv \<and> (sv_started sv \<longrightarrow> sv' = sv) \<and>
      sv_pc sv' = sv_pc sv \<and> (sv_worker sv' = sv_worker sv \<or> sv_worker sv' = Waiting)"
    using start(2) by (cases lfd; cases wfd) (auto simp: Start_def Listen_def Let_def split: if_splits)
  moreover have "\<not> sv_started sv \<Longrightarrow> sv_done sv = [] \<and> sv_worker sv = NoThread"
    using start by (simp add: server_ok_def server_inv_def)
  ultimately show ?case using start server_inv_start [OF _ start(1,2)]
    by (cases "sv_started sv") (auto simp: server_ok_def announced_def cv_inv_def)
next
  case (accept sv afd)
  have "announced (OnAccept_check afd sv) \<and> sv_max_clients (OnAccept_check afd sv) = sv_max_clients sv"
    using accept by (auto simp: server_ok_def announced_def OnAccept_check_def)
  then show ?case using accept server_inv_accept(1) cv_inv_accept(1) by (simp add: server_ok_def)
next
  case (accept_push sv afd)
  have "announced (OnAccept_push afd sv) \<and> sv_max_clients (OnAccept_push afd sv) = sv_max_clients sv"
    using accept_push by (auto simp: server_ok_def announced_def OnAccept_push_def)
  then show ?case using accept_push server_inv_accept(2) cv_inv_accept(2) by (simp add: server_ok_def)
next
  case (accept_signal sv)
  have "announced (OnAccept_signal sv) \<and> sv_max_clients (OnAccept_signal sv) = sv_max_clients sv"
    using accept_signal by (auto simp: server_ok_def announced_def OnAccept_signal_def cv_notify_def)
  then show ?case using accept_signal server_inv_accept(3) cv_inv_accept(3) by (simp add: server_ok_def)
next
  case (drain sv)
  then show ?case by (auto simp: server_ok_def announced_def server_inv_def cv_inv_def complete_drain_def inflight_def)
next
  case (complete sv ok sv')
  then show ?case using server_inv_complete [OF _ complete(1,2)] by (simp add: server_ok_def)
next
  case (notify sv i ok sv')
  then show ?case using server_ok_mono [OF OnConnNotify_frame] by blast
next
  case (socket sv hup r i ok sv')
  then show ?case using server_ok_mono [OF OnConnSocket_frame] by blast
next
  case (close_conn sv i ok sv')
  then show ?case using server_ok_mono [OF CloseConn_frame] by blast
next
  case (send sv i pkg ok sv')
  then show ?case using server_ok_mono [OF SendTo_frame] by blast
next
  case (broadcast sv pkg sv')
  then show ?case using server_ok_mono [OF broadcast_to_frame] by (simp add: Broadcast_def)
next
  case (stop sv)
  have "announced (Stop_begin sv) \<and> sv_max_clients (Stop_begin sv) = sv_max_clients sv"
    using stop by (auto simp: server_ok_def announced_def Stop_begin_def)
  then show ?case using stop server_inv_stop(1) [of sv] cv_inv_stop(1) [of sv] server_inv_pending [of sv] by (simp add: server_ok_def)
next
  case (stop_notify sv)
  have "announced (Stop_notify sv) \<and> sv_max_clients (Stop_notify sv) = sv_max_clients sv"
    using stop_notify by (auto simp: server_ok_def announced_def Stop_notify_def cv_notify_def)
  then show ?case using stop_notify server_inv_stop(2) cv_inv_stop(2) by (simp add: server_ok_def)
next
  case (stopped sv ok sv')
  then show ?case using server_inv_stopped [OF _ stopped(1,2)] by (simp add: server_ok_def)
qed

text \<open>A server before its first \<open>Start\<close>, in any configuration.\<close>

definition fresh_server :: "server \<Rightarrow> bool" where
  "fresh_server sv \<longleftrightarrow> sv_conns sv = [] \<and> sv_pending sv = [] \<and> sv_done sv = [] \<and> sv_current sv = -1 \<and>
     sv_worker sv = NoThread \<and> sv_pc sv = Idle \<and> \<not> sv_started sv \<and> \<not> sv_stopping sv"

lemma fresh_server_new [simp]: "fresh_server (ShmServer_new lp)"
  by (simp add: fresh_server_def ShmServer_new_def)

lemma server_ok_reach: "server_reach cap sv0 sv \<Longrightarrow> fresh_server sv0 \<Longrightarrow> server_ok (sv_max_clients sv0) sv"
proof (induction rule: server_reach.induct)
  case init
  then show ?case by (simp add: fresh_server_def server_ok_def server_inv_def cv_inv_def announced_def inflight_def)
qed (auto intro: server_ok_step)

section \<open>Shutdown\<close>

text \<open>
  A socket that waits for the handshake thread is never forgotten: the thread sleeps only while
  \<open>OnAccept\<close> is about to notify it.
\<close>

lemma no_lost_wakeup:
  assumes "fresh_server sv0" "server_reach cap sv0 sv" "sv_pending sv \<noteq> []" "sv_pc sv \<noteq> Signalling"
  shows "sv_worker sv \<noteq> Asleep"
  using server_ok_reach [OF assms(2,1)] assms(3,4) by (auto simp: server_ok_def cv_inv_def)

text \<open>How many steps the handshake thread can still make once it has been told to stop.\<close>

definition stop_measure :: "server \<Rightarrow> nat" where
  "stop_measure sv = 2 * length (sv_pending sv) + (case sv_worker sv of NoThread \<Rightarrow> 0 | Waiting \<Rightarrow> 1 | Asleep \<Rightarrow> 2 | Busy \<Rightarrow> 2 | Notifying \<Rightarrow> 2)"

lemma worker_step_stopping:
  assumes "worker_step sv sv'" "sv_stopping sv"
  shows "sv_stopping sv' \<and> stop_measure sv' < stop_measure sv \<and> sv_pc sv' = sv_pc sv"
  using assms
proof (induction rule: worker_step.induct)
  case (take_next sv sv')
  then show ?case by (cases "sv_pending sv") (auto simp: stop_measure_def worker_take_def split: if_splits)
next
  case (finish res sv sv')
  then show ?case by (auto simp: stop_measure_def worker_finish_def split: if_splits option.splits)
next
  case (wake_loop sv sv')
  then show ?case by (auto simp: stop_measure_def worker_notify_def split: if_splits)
next
  case (spurious sv)
  then show ?case by (auto simp: stop_measure_def)
qed

lemma worker_not_stuck:
  assumes "server_inv sv" "cv_inv sv" "sv_pc sv = Joining" "sv_worker sv \<noteq> NoThread"
  shows "\<exists>sv'. worker_own_step sv sv'"
proof (cases "sv_worker sv")
  case Waiting
  then have "worker_take sv \<noteq> None" by (simp add: worker_take_def split: list.splits)
  then show ?thesis using worker_own_step.own_take by blast
next
  case Asleep
  then show ?thesis using assms by (simp add: server_inv_def cv_inv_def)
next
  case Busy
  then have "worker_finish None sv \<noteq> None" by (simp add: worker_finish_def)
  moreover have "sv_current sv \<in> set (sv_shut sv)" using assms Busy by (simp add: server_inv_def cv_inv_def)
  ultimately show ?thesis using worker_own_step.own_finish by blast
next
  case Notifying
  then have "worker_notify sv \<noteq> None" by (simp add: worker_notify_def)
  then show ?thesis using worker_own_step.own_wake_loop by blast
qed (use assms in simp)

lemma worker_steps_stopping:
  "(worker_step ^^ n) sv sv' \<Longrightarrow> sv_stopping sv \<Longrightarrow>
     sv_stopping sv' \<and> n + stop_measure sv' \<le> stop_measure sv \<and> sv_pc sv' = sv_pc sv"
proof (induction n arbitrary: sv')
  case (Suc n)
  then obtain sv1 where 1: "(worker_step ^^ n) sv sv1" "worker_step sv1 sv'" by auto
  then show ?case using Suc.IH [OF 1(1)] Suc.prems(2) worker_step_stopping [OF 1(2)] by simp
qed simp

lemma worker_steps_reach: "(worker_step ^^ n) sv sv' \<Longrightarrow> server_reach cap sv0 sv \<Longrightarrow> server_reach cap sv0 sv'"
proof (induction n arbitrary: sv')
  case (Suc n)
  then obtain sv1 where 1: "(worker_step ^^ n) sv sv1" "worker_step sv1 sv'" by auto
  then show ?case using Suc.IH [OF 1(1) Suc.prems(2)] server_reach.step [OF _ server_step.worker] by blast
qed simp

section \<open>Ownership of sockets\<close>

text \<open>
  The sockets that are connections or are finished with, as a multiset, and what it means
  that an operation keeps them.
\<close>

definition settled :: "server \<Rightarrow> fd multiset" where
  "settled sv = mset (conn_sockets (sv_conns sv)) + mset (map cn_socket (sv_removed sv)) + mset (sv_closed_fds sv)"

definition settles :: "fd list \<Rightarrow> server \<Rightarrow> server \<Rightarrow> bool" where
  "settles ds sv sv' \<longleftrightarrow> sv_accepted sv' = sv_accepted sv \<and> distinct (map fst (sv_conns sv')) \<and> settled sv' = settled sv + mset ds"

lemma settles_refl: "distinct (map fst (sv_conns sv)) \<Longrightarrow> settles [] sv sv"
  by (simp add: settles_def)

lemma settles_trans: "settles ds a b \<Longrightarrow> settles es b c \<Longrightarrow> settles (ds @ es) a c"
  by (simp add: settles_def)

lemma conn_sockets_split:
  "mset (conn_sockets (filter (\<lambda>(k, _). k \<noteq> i) es)) + mset (conn_sockets (filter (\<lambda>(k, _). k = i) es)) = mset (conn_sockets es)"
  by (induction es) (auto simp: conn_sockets_def)

lemma filter_key:
  "distinct (map fst es) \<Longrightarrow> map_of es i = Some e \<Longrightarrow> filter (\<lambda>(k, _). k = i) es = [(i, e)]"
proof (induction es)
  case (Cons p es)
  show ?case
  proof (cases "fst p = i")
    case True
    then have "i \<notin> fst ` set es" using Cons.prems(1) by auto
    then have "filter (\<lambda>(k, _). k = i) es = []" by (force simp: filter_empty_conv)
    then show ?thesis using Cons.prems(2) True by (cases p) simp
  next
    case False
    then show ?thesis using Cons by (cases p) simp
  qed
qed simp

lemma conn_sockets_put:
  assumes "distinct (map fst (sv_conns sv))" "FindConn i sv = Some e" "cn_socket c = cn_socket (sc_conn e)"
  shows "conn_sockets (sv_conns (put_conn i c sv)) = conn_sockets (sv_conns sv)"
proof -
  have "x = e" if "(i, x) \<in> set (sv_conns sv)" for x
    using that assms(1,2) by (simp add: FindConn_def)
  then show ?thesis using assms(3) by (auto simp: conn_sockets_def put_conn_def)
qed

lemma settles_put:
  assumes "distinct (map fst (sv_conns sv))" "FindConn i sv = Some e" "evolves (sc_conn e, lp) (c1, lp1)"
  shows "settles [] sv (put_conn i c1 (sv\<lparr>sv_loop := lp1\<rparr>))"
proof -
  let ?t = "sv\<lparr>sv_loop := lp1\<rparr>"
  have "conn_sockets (sv_conns (put_conn i c1 ?t)) = conn_sockets (sv_conns ?t)"
    by (rule conn_sockets_put) (use assms in \<open>simp_all add: FindConn_def evolves_def\<close>)
  then show ?thesis using assms(1) put_conn_frame(2) [of i c1 ?t] by (simp add: settles_def settled_def) (simp add: put_conn_def)
qed

lemma settles_RemoveConn:
  assumes "RemoveConn cap i e sv = Some (ok, sv')" "distinct (map fst (sv_conns sv))" "FindConn i sv = Some e'"
    "cn_socket (sc_conn e) = cn_socket (sc_conn e')"
  shows "settles [] sv sv'"
proof -
  let ?lp = "RemoveFd (cn_socket (sc_conn e)) (RemoveFd (sc_notify e) (sv_loop sv))"
  obtain c1 lp1 where c: "OnClose cap (sc_conn e, ?lp) = Some (ok, c1, lp1)"
    "sv' = sv\<lparr>sv_conns := filter (\<lambda>(k, _). k \<noteq> i) (sv_conns sv), sv_loop := lp1, sv_removed := sv_removed sv @ [c1]\<rparr>"
    using assms(1) by (auto simp: RemoveConn_def Let_def split: option.splits)
  have k: "cn_socket c1 = cn_socket (sc_conn e')" using evolves_OnClose [OF c(1)] assms(4) by (simp add: evolves_def)
  have "filter (\<lambda>(k, _). k = i) (sv_conns sv) = [(i, e')]" by (rule filter_key [OF assms(2) assms(3) [unfolded FindConn_def]])
  then have "mset (conn_sockets (sv_conns sv)) = mset (conn_sockets (filter (\<lambda>(k, _). k \<noteq> i) (sv_conns sv))) + {#cn_socket c1#}"
    using conn_sockets_split [of i "sv_conns sv"] k by (simp add: conn_sockets_def)
  then show ?thesis using c(2) assms(2) by (simp add: settles_def settled_def distinct_map_filter)
qed

lemma FindConn_put:
  "FindConn i sv = Some e \<Longrightarrow> \<exists>e'. FindConn i (put_conn i c sv) = Some e' \<and> sc_conn e' = c"
proof -
  have "map_of es i = Some e \<Longrightarrow> map_of (map (\<lambda>(k, e). (k, if k = i then e\<lparr>sc_conn := c\<rparr> else e)) es) i = Some (e\<lparr>sc_conn := c\<rparr>)" for es
    by (induction es) (auto split: if_splits)
  then show "FindConn i sv = Some e \<Longrightarrow> ?thesis" by (simp add: FindConn_def put_conn_def)
qed

lemma settles_put_remove:
  assumes "distinct (map fst (sv_conns sv))" "FindConn i sv = Some e" "evolves (sc_conn e, lp) (c1, lp1)"
    "RemoveConn cap i (e\<lparr>sc_conn := c1\<rparr>) (put_conn i c1 (sv\<lparr>sv_loop := lp1\<rparr>)) = Some (ok, sv')"
  shows "settles [] sv sv'"
proof -
  let ?t = "put_conn i c1 (sv\<lparr>sv_loop := lp1\<rparr>)"
  have 1: "settles [] sv ?t" by (rule settles_put [OF assms(1-3)])
  obtain e' where e': "FindConn i ?t = Some e'" "sc_conn e' = c1"
    using FindConn_put [of i "sv\<lparr>sv_loop := lp1\<rparr>" e c1] assms(2) by (auto simp: FindConn_def)
  have "settles [] ?t sv'"
    by (rule settles_RemoveConn [OF assms(4) _ e'(1)]) (use 1 e'(2) in \<open>simp_all add: settles_def\<close>)
  then show ?thesis using settles_trans [OF 1] by fastforce
qed

lemma settles_OnConnNotify:
  assumes "OnConnNotify cap i sv = Some (ok, sv')" "distinct (map fst (sv_conns sv))"
  shows "settles [] sv sv'"
proof (cases "FindConn i sv")
  case None
  then show ?thesis using assms by (simp add: OnConnNotify_def settles_refl)
next
  case (Some e)
  let ?c0 = "(sc_conn e)\<lparr>cn_channel := snd (DrainNotify (cn_channel (sc_conn e)))\<rparr>"
  obtain r c1 lp1 where d: "DrainRing cap (?c0, sv_loop sv) = Some (r, c1, lp1)"
    using assms(1) Some by (auto simp: OnConnNotify_def Let_def split: option.splits)
  have "evolves (sc_conn e, sv_loop sv) (c1, lp1)" using evolves_DrainRing [OF d] by (simp add: evolves_def)
  then show ?thesis
    using assms Some d settles_put [OF assms(2) Some] settles_put_remove [OF assms(2) Some]
    by (auto simp: OnConnNotify_def Let_def split: outcome.splits if_splits)
qed

lemma settles_OnConnSocket:
  assumes "OnConnSocket cap hup r i sv = Some (ok, sv')" "distinct (map fst (sv_conns sv))"
  shows "settles [] sv sv'"
proof (cases "FindConn i sv = None \<or> \<not> (hup \<and> r \<le> 0)")
  case True
  then show ?thesis using assms by (auto simp: OnConnSocket_def settles_refl split: option.splits)
next
  case False
  then obtain e where e: "FindConn i sv = Some e" "hup \<and> r \<le> 0" by auto
  obtain q c1 lp1 where d: "DrainRing cap (sc_conn e, sv_loop sv) = Some (q, c1, lp1)"
    using assms(1) e by (auto simp: OnConnSocket_def split: option.splits)
  show ?thesis
    using assms e d settles_put [OF assms(2) e(1) evolves_DrainRing [OF d]] settles_put_remove [OF assms(2) e(1) evolves_DrainRing [OF d]]
    by (auto simp: OnConnSocket_def split: outcome.splits)
qed

lemma settles_CloseConn:
  assumes "CloseConn cap i sv = Some (ok, sv')" "distinct (map fst (sv_conns sv))"
  shows "settles [] sv sv'"
proof (cases "FindConn i sv")
  case (Some e)
  obtain c1 lp1 where c: "Close (sc_conn e, sv_loop sv) = (c1, lp1)" by fastforce
  have v: "evolves (sc_conn e, sv_loop sv) (c1, lp1)" using evolves_Close [of "(sc_conn e, sv_loop sv)"] c by simp
  show ?thesis using assms Some c settles_put_remove [OF assms(2) Some v] by (simp add: CloseConn_def)
qed (use assms in \<open>simp add: CloseConn_def settles_refl\<close>)

lemma settles_SendTo:
  assumes "SendTo cap i pkg sv = Some (ok, sv')" "distinct (map fst (sv_conns sv))"
  shows "settles [] sv sv'"
proof (cases "FindConn i sv")
  case (Some e)
  obtain k c1 lp1 where c: "SendCmd cap pkg (sc_conn e, sv_loop sv) = Some (k, c1, lp1)"
    using assms Some by (auto simp: SendTo_def simp del: SendCmd.simps split: option.splits)
  show ?thesis using assms Some c settles_put [OF assms(2) Some evolves_SendCmd [OF c]] by (simp add: SendTo_def del: SendCmd.simps)
qed (use assms in \<open>simp add: SendTo_def settles_refl\<close>)

lemma settles_broadcast:
  "broadcast_to cap pkg is sv = Some sv' \<Longrightarrow> distinct (map fst (sv_conns sv)) \<Longrightarrow> settles [] sv sv'"
proof (induction "is" arbitrary: sv)
  case (Cons i "is")
  obtain ok sv1 where 1: "SendTo cap i pkg sv = Some (ok, sv1)" using Cons.prems(1) by (auto split: option.splits)
  have s1: "settles [] sv sv1" by (rule settles_SendTo [OF 1 Cons.prems(2)])
  then have "settles [] sv1 sv'" using Cons 1 by (simp add: settles_def)
  then show ?case using settles_trans [OF s1] by fastforce
qed (simp add: settles_refl)

lemma settles_remove_all:
  "remove_all cap es sv = Some (ok, sv') \<Longrightarrow> distinct (map fst (sv_conns sv)) \<Longrightarrow> distinct (map fst es) \<Longrightarrow>
     set es \<subseteq> set (sv_conns sv) \<Longrightarrow> settles [] sv sv'"
proof (induction es arbitrary: sv)
  case (Cons p es)
  obtain i e where p: "p = (i, e)" by (cases p)
  obtain k sv1 where 1: "RemoveConn cap i e sv = Some (k, sv1)" using Cons.prems(1) p by (auto split: option.splits)
  have f: "FindConn i sv = Some e" using Cons.prems(2,4) p by (simp add: FindConn_def)
  have s1: "settles [] sv sv1" by (rule settles_RemoveConn [OF 1 Cons.prems(2) f refl])
  show ?case
  proof (cases k)
    case True
    have "set es \<subseteq> set (sv_conns sv1)"
      using RemoveConn_frame(2) [OF 1] Cons.prems(3,4) p by (auto simp: rev_image_eqI)
    then have "settles [] sv1 sv'" using Cons.IH [of sv1] Cons.prems p 1 True s1 by (simp add: settles_def)
    then show ?thesis using settles_trans [OF s1] by fastforce
  next
    case False
    then show ?thesis using Cons.prems(1) p 1 s1 by simp
  qed
qed (simp add: settles_refl)

lemma settled_close: "settled (sv\<lparr>sv_closed_fds := sv_closed_fds sv @ ds\<rparr>) = settled sv + mset ds"
  by (simp add: settled_def)

lemma settles_FinishAccept:
  assumes "FinishAccept cap dn sv = Some (ok, sv')" "distinct (map fst (sv_conns sv))"
  shows "settles [hd_sock dn] sv sv'"
proof (cases "int (length (sv_conns sv)) \<ge> sv_max_clients sv \<or> sv_codec_factory sv = None")
  case True
  then show ?thesis using assms by (auto simp: FinishAccept_def settles_def settled_def split: if_splits)
next
  case False
  then obtain cd where cd: "sv_codec_factory sv = Some cd" by auto
  let ?i = "sv_next_id sv"
  obtain c lp c1 lp1 where o: "OnConnection cap (c, lp) = Some (ok, c1, lp1)" "cn_socket c = hd_sock dn"
    "sv' = sv\<lparr>sv_next_id := ?i + 1, sv_loop := lp1,
       sv_conns := filter (\<lambda>(k, _). k \<noteq> ?i) (sv_conns sv) @ [(?i, \<lparr>sc_conn = c1, sc_notify = hd_notify dn\<rparr>)],
       sv_closed_fds := sv_closed_fds sv @ conn_sockets (filter (\<lambda>(k, _). k = ?i) (sv_conns sv))\<rparr>"
    using assms(1) False cd that
    by (auto simp: FinishAccept_def Let_def ResizeBuffer_def ShmConnection_new_def simp del: OnConnection.simps split: option.splits if_splits)
  have "cn_socket c1 = hd_sock dn" using evolves_OnConnection [OF o(1)] o(2) by (simp add: evolves_def)
  moreover have "?i \<notin> fst ` set (filter (\<lambda>(k, _). k \<noteq> ?i) (sv_conns sv))" by auto
  ultimately show ?thesis
    using o(3) assms(2) conn_sockets_split [of ?i "sv_conns sv", symmetric]
    by (auto simp: settles_def settled_def distinct_map_filter) (simp add: conn_sockets_def)
qed

lemma settles_finish_all:
  "finish_all cap dns sv = Some (ok, sv') \<Longrightarrow> distinct (map fst (sv_conns sv)) \<Longrightarrow> settles (map hd_sock dns) sv sv'"
proof (induction dns arbitrary: sv)
  case (Cons dn dns)
  show ?case
  proof (cases "sv_started sv")
    case True
    obtain k sv1 where 1: "FinishAccept cap dn sv = Some (k, sv1)" using Cons.prems(1) True by (auto split: option.splits)
    have s1: "settles [hd_sock dn] sv sv1" by (rule settles_FinishAccept [OF 1 Cons.prems(2)])
    show ?thesis
    proof (cases k)
      case kt: True
      have "settles (map hd_sock dns) sv1 sv'" using Cons.IH [of sv1] Cons.prems 1 kt True s1 by (simp add: settles_def)
      then show ?thesis using settles_trans [OF s1] by fastforce
    next
      case False
      then show ?thesis using Cons.prems 1 True s1 by (auto simp: settles_def settled_close)
    qed
  next
    case False
    then show ?thesis using Cons.prems by (auto simp: settles_def settled_close simp del: mset_map)
  qed
qed (simp add: settles_refl)

text \<open>Every accepted socket is in exactly one place.\<close>

definition sockets_inv :: "server \<Rightarrow> bool" where
  "sockets_inv sv \<longleftrightarrow> distinct (map fst (sv_conns sv)) \<and>
     mset (sv_accepted sv) = mset (sv_pending sv) + mset (if sv_current sv \<ge> 0 then [sv_current sv] else []) +
       mset (map hd_sock (sv_done sv)) + settled sv"

lemma sockets_inv_settles:
  "sockets_inv sv \<Longrightarrow> same_queues sv sv' \<Longrightarrow> settles [] sv sv' \<Longrightarrow> sockets_inv sv'"
  by (simp add: sockets_inv_def settles_def same_queues_def)

lemma sockets_inv_conns: "sockets_inv sv \<Longrightarrow> distinct (map fst (sv_conns sv))"
  by (simp add: sockets_inv_def)

lemma sockets_inv_worker: "worker_step sv sv' \<Longrightarrow> server_inv sv \<Longrightarrow> sockets_inv sv \<Longrightarrow> sockets_inv sv'"
proof (induction rule: worker_step.induct)
  case (take_next sv sv')
  then show ?case
    by (cases "sv_pending sv") (auto simp: sockets_inv_def settled_def server_inv_def worker_take_def split: if_splits)
next
  case (finish res sv sv')
  then have "0 \<le> sv_current sv" by (auto simp: server_inv_def worker_finish_def split: if_splits)
  then show ?case using finish by (auto simp: sockets_inv_def settled_def worker_finish_def split: if_splits option.splits)
next
  case (wake_loop sv sv')
  then show ?case by (auto simp: sockets_inv_def settled_def worker_notify_def split: if_splits)
next
  case (spurious sv)
  then show ?case by (auto simp: sockets_inv_def settled_def)
qed

lemma sockets_inv_complete:
  assumes "complete_take cap sv = Some (ok, sv')" "sockets_inv sv"
  shows "sockets_inv sv'"
proof -
  note f = finish_all_frame [OF assms(1) [unfolded complete_take_def]]
  have "settles (map hd_sock (sv_done sv)) (sv\<lparr>sv_done := [], sv_pc := Idle\<rparr>) sv'"
    using settles_finish_all [OF assms(1) [unfolded complete_take_def]] assms(2) by (simp add: sockets_inv_def)
  then show ?thesis using f assms(2) by (auto simp: sockets_inv_def settles_def settled_def same_queues_def)
qed

lemma sockets_inv_stopped:
  assumes "Stop_finish cap sv = Some (ok, sv')" "sockets_inv sv"
  shows "sockets_inv sv'"
proof -
  have 1: "remove_all cap (sv_conns sv) (Stop_queues sv) = Some (ok, sv')" using Stop_finish_remove [OF assms(1)] by blast
  have 2: "sockets_inv (Stop_queues sv)"
    using assms(2) by (simp add: sockets_inv_def settled_def Stop_queues_def Let_def ac_simps)
  have "settles [] (Stop_queues sv) sv'"
    by (rule settles_remove_all [OF 1]) (use 2 in \<open>simp_all add: sockets_inv_def Stop_queues_def Let_def\<close>)
  then show ?thesis using remove_all_frame [OF 1] sockets_inv_settles [OF 2] by blast
qed

lemma sockets_inv_step: "server_step cap sv sv' \<Longrightarrow> server_inv sv \<Longrightarrow> sockets_inv sv \<Longrightarrow> sockets_inv sv'"
proof (induction rule: server_step.induct)
  case (worker sv sv')
  then show ?case using sockets_inv_worker by blast
next
  case (start sv lfd wfd th ok sv')
  then show ?case
    by (cases lfd; cases wfd) (auto simp: Start_def Listen_def Let_def sockets_inv_def settled_def split: if_splits)
next
  case (accept sv afd)
  then show ?case by (auto simp: OnAccept_check_def sockets_inv_def settled_def)
next
  case (accept_push sv afd)
  then show ?case by (auto simp: OnAccept_push_def sockets_inv_def settled_def)
next
  case (accept_signal sv)
  then show ?case by (auto simp: OnAccept_signal_def cv_notify_def sockets_inv_def settled_def)
next
  case (drain sv)
  then show ?case by (simp add: complete_drain_def sockets_inv_def settled_def)
next
  case (complete sv ok sv')
  then show ?case using sockets_inv_complete by blast
next
  case (notify sv i ok sv')
  show ?case
    by (rule sockets_inv_settles [OF notify(5) _ settles_OnConnNotify [OF notify(3) sockets_inv_conns [OF notify(5)]]])
      (use OnConnNotify_frame [OF notify(3)] in blast)
next
  case (socket sv hup r i ok sv')
  show ?case
    by (rule sockets_inv_settles [OF socket(5) _ settles_OnConnSocket [OF socket(3) sockets_inv_conns [OF socket(5)]]])
      (use OnConnSocket_frame [OF socket(3)] in blast)
next
  case (close_conn sv i ok sv')
  show ?case
    by (rule sockets_inv_settles [OF close_conn(4) _ settles_CloseConn [OF close_conn(2) sockets_inv_conns [OF close_conn(4)]]])
      (use CloseConn_frame [OF close_conn(2)] in blast)
next
  case (send sv i pkg ok sv')
  show ?case
    by (rule sockets_inv_settles [OF send(4) _ settles_SendTo [OF send(2) sockets_inv_conns [OF send(4)]]])
      (use SendTo_frame [OF send(2)] in blast)
next
  case (broadcast sv pkg sv')
  note b = broadcast(2) [unfolded Broadcast_def]
  show ?case
    by (rule sockets_inv_settles [OF broadcast(4) _ settles_broadcast [OF b sockets_inv_conns [OF broadcast(4)]]])
      (use broadcast_to_frame [OF b] in blast)
next
  case (stop sv)
  then show ?case by (simp add: Stop_begin_def sockets_inv_def settled_def)
next
  case (stop_notify sv)
  then show ?case by (auto simp: Stop_notify_def cv_notify_def sockets_inv_def settled_def)
next
  case (stopped sv ok sv')
  then show ?case using sockets_inv_stopped by blast
qed

lemma sockets_inv_reach:
  "server_reach cap sv0 sv \<Longrightarrow> fresh_server sv0 \<Longrightarrow> sv_accepted sv0 = [] \<Longrightarrow> sv_closed_fds sv0 = [] \<Longrightarrow> sv_removed sv0 = [] \<Longrightarrow> sockets_inv sv"
proof (induction rule: server_reach.induct)
  case init
  then show ?case by (simp add: fresh_server_def sockets_inv_def settled_def conn_sockets_def)
next
  case (step sv sv')
  then show ?case using sockets_inv_step [OF step(2)] server_ok_reach [OF step(1)] by (simp add: server_ok_def)
qed

section \<open>Removing connections\<close>

lemma dead_later:
  "later (RemoveFd a (RemoveFd b lp)) lp' \<Longrightarrow> k < length (lp_entries lp) \<Longrightarrow> en_fd (lp_entries lp ! k) \<in> {a, b} \<Longrightarrow>
     en_dead (lp_entries lp' ! k)"
  by (auto simp: later_def RemoveFd_def)

text \<open>
  What the owner of a connection (server or client) gets when it closes the connection,
  removes its two descriptors from the loop and calls \<open>OnClose\<close>.
\<close>

definition conn_released :: "sconn \<Rightarrow> loop \<Rightarrow> conn \<Rightarrow> loop \<Rightarrow> bool" where
  "conn_released e lp c lp' \<longleftrightarrow> cn_state c = closeed \<and>
     cn_events c = cn_events (sc_conn e) @ (if cn_state (sc_conn e) \<noteq> closeed \<and> cn_closecb (sc_conn e) \<noteq> None then [CloseCb] else []) \<and>
     (\<forall>k < length (lp_entries lp). en_fd (lp_entries lp ! k) = cn_socket (sc_conn e) \<or> en_fd (lp_entries lp ! k) = sc_notify e \<longrightarrow>
        en_dead (lp_entries lp' ! k))"

lemma OnClose_released:
  assumes "close_ok (cn_closecb (sc_conn e))"
  shows "\<exists>ok c lp'. OnClose cap (sc_conn e, RemoveFd (cn_socket (sc_conn e)) (RemoveFd (sc_notify e) lp)) = Some (ok, c, lp') \<and>
    conn_released e lp c lp'"
  using OnClose_result [OF assms, of cap "RemoveFd (cn_socket (sc_conn e)) (RemoveFd (sc_notify e) lp)"] dead_later
  unfolding conn_released_def by blast

lemma Close_released:
  assumes "Close (sc_conn e, lp) = (c1, lp1)" "conn_released (e\<lparr>sc_conn := c1\<rparr>) lp1 c lp'"
  shows "conn_released e lp c lp'"
proof -
  have "evolves (sc_conn e, lp) (c1, lp1)" using evolves_Close [of "(sc_conn e, lp)"] assms(1) by simp
  moreover have "cn_closecb c1 = cn_closecb (sc_conn e)" "cn_events c1 = cn_events (sc_conn e)" "cn_state c1 = closeed \<longleftrightarrow> cn_state (sc_conn e) = closeed"
    using Close_fst [of "(sc_conn e, lp)"] assms(1) by (auto simp: conn_open_def)
  ultimately show ?thesis using assms(2) by (auto simp: conn_released_def evolves_def later_def)
qed

lemma Close_closecb: "Close (c, lp) = (c1, lp1) \<Longrightarrow> cn_closecb c1 = cn_closecb c"
  using Close_fst [of "(c, lp)"] by auto

lemma RemoveConn_released:
  assumes "close_ok (cn_closecb (sc_conn e))"
  shows "\<exists>ok c lp. RemoveConn cap i e sv = Some (ok, sv\<lparr>sv_conns := filter (\<lambda>(k, _). k \<noteq> i) (sv_conns sv), sv_loop := lp,
      sv_removed := sv_removed sv @ [c]\<rparr>) \<and> conn_released e (sv_loop sv) c lp"
proof -
  obtain ok c lp where "OnClose cap (sc_conn e, RemoveFd (cn_socket (sc_conn e)) (RemoveFd (sc_notify e) (sv_loop sv))) = Some (ok, c, lp)"
    "conn_released e (sv_loop sv) c lp"
    using OnClose_released [OF assms, of cap "sv_loop sv"] by blast
  then show ?thesis by (intro exI [of _ ok] exI [of _ c] exI [of _ lp]) (simp add: RemoveConn_def Let_def del: OnClose.simps)
qed

lemma remove_all_defined:
  "list_all (\<lambda>(_, e). close_ok (cn_closecb (sc_conn e))) es \<Longrightarrow> \<exists>ok sv'. remove_all cap es sv = Some (ok, sv')"
proof (induction es arbitrary: sv)
  case (Cons p es)
  obtain i e where p: "p = (i, e)" by (cases p)
  obtain k sv1 where 1: "RemoveConn cap i e sv = Some (k, sv1)" using RemoveConn_released [of e cap i sv] Cons.prems p by auto
  then show ?case using Cons.IH [of sv1] Cons.prems p by (cases k) auto
qed simp

lemma map_of_put_filter:
  "j \<noteq> i \<Longrightarrow> map_of (filter (\<lambda>(k, _). k \<noteq> i) (map (\<lambda>(k, e). (k, if k = i then e\<lparr>sc_conn := c\<rparr> else e)) es)) j = map_of es j"
  by (induction es) auto

section \<open>What the server guarantees\<close>

text \<open>An example run: a server for two clients that is offered three.\<close>

definition demo_server :: server where
  "demo_server = (ShmServer_new EventLoop_new)\<lparr>sv_max_clients := 2, sv_connectioncb := Some (\<lambda>_. []), sv_messagecb := Some (\<lambda>_ _. []),
     sv_closecb := Some (\<lambda>_. []), sv_codec_factory := Some Codec_default\<rparr>"

definition demo_started :: server where
  "demo_started = snd (Listen (Some 3) (Some 4) True demo_server)"

definition demo_accepted :: server where
  "demo_accepted = OnAccept 9 (OnAccept 8 (OnAccept 7 demo_started))"

definition demo_channel :: channel where
  "demo_channel = \<lparr>ch_wr = RingBuf_Init 16, ch_rd = RingBuf_Init 16, ch_peer_evt = 0, ch_own_evt = 0\<rparr>"

definition demo_shaken :: server where
  "demo_shaken = the (worker_finish (Some (10, demo_channel)) (the (worker_take demo_accepted)))"

lemmas demo_server_defs = demo_server_def demo_started_def demo_accepted_def demo_shaken_def ShmServer_new_def
  Listen_def OnAccept_def OnAccept_check_def OnAccept_push_def OnAccept_signal_def cv_notify_def
  worker_take_def worker_finish_def inflight_def

lemma demo_fresh: "fresh_server demo_server"
  by (simp add: demo_server_def fresh_server_def ShmServer_new_def)

lemma demo_reach_started: "server_reach 16 demo_server demo_started"
  by (rule server_reach.step [OF server_reach.init], rule server_step.start [of _ "Some 3" "Some 4" True True])
    (simp_all add: Start_def demo_server_defs Let_def)

text \<open>\<open>OnAccept\<close> without a step of the other thread in between.\<close>

lemma OnAccept_reach:
  assumes "server_reach cap sv0 sv" "sv_pc sv = Idle" "sv_started sv"
  shows "server_reach cap sv0 (OnAccept afd sv)"
proof -
  have 1: "server_reach cap sv0 (OnAccept_check afd sv)"
    using server_reach.step [OF assms(1) server_step.accept [OF assms(2,3)]] .
  have 2: "server_reach cap sv0 (OnAccept_push afd (OnAccept_check afd sv))" if "sv_pc (OnAccept_check afd sv) = Accepting"
    using server_reach.step [OF 1 server_step.accept_push [OF that]] .
  show ?thesis using 1 2 server_reach.step [OF 2 server_step.accept_signal] by (auto simp: OnAccept_def Let_def)
qed

lemma demo_reach_accepted: "server_reach 16 demo_server demo_accepted"
  unfolding demo_accepted_def
  by (intro OnAccept_reach demo_reach_started) (simp_all add: demo_server_defs Let_def)

lemma demo_reach_shaken: "server_reach 16 demo_server demo_shaken"
proof -
  have t: "worker_take demo_accepted = Some (the (worker_take demo_accepted))" by (simp add: demo_server_defs Let_def)
  have f: "worker_finish (Some (10, demo_channel)) (the (worker_take demo_accepted)) = Some demo_shaken"
    by (simp add: demo_server_defs Let_def)
  show ?thesis
    by (rule server_reach.step [OF server_reach.step [OF demo_reach_accepted server_step.worker [OF worker_step.take_next [OF t]]]
          server_step.worker [OF worker_step.finish [OF f]]])
qed

text \<open>
  C30: connections, sockets waiting for the handshake thread, the one it works on and completed
  handshakes together never exceed the configured limit (0 if the limit is negative), in any
  interleaving of the loop thread and the handshake thread.
\<close>

theorem server_client_limit:
  assumes "fresh_server sv0" "server_reach cap sv0 sv"
  shows "int (ConnCount sv + inflight sv) \<le> max 0 (sv_max_clients sv0)"
  using server_ok_reach [OF assms(2,1)] by (auto simp: server_ok_def server_inv_def ConnCount_def)

theorem server_client_limit_witness:
  "inflight demo_accepted = 2 \<and> int (ConnCount demo_accepted + inflight demo_accepted) \<le> max 0 (sv_max_clients demo_server)"
  using server_client_limit [OF demo_fresh demo_reach_accepted] by (simp add: demo_server_defs Let_def)

text \<open>
  C31: no completed handshake is forgotten: while one waits to become a connection and the loop
  thread is between handlers, the eventfd that wakes the loop is signalled or the handshake
  thread is about to signal it, in any interleaving of pushing, signalling, draining and
  swapping.
\<close>

theorem server_no_lost_handshake:
  assumes "fresh_server sv0" "server_reach cap sv0 sv" "sv_done sv \<noteq> []" "sv_pc sv = Idle"
  shows "sv_wake sv \<noteq> 0 \<or> sv_worker sv = Notifying"
  using server_ok_reach [OF assms(2,1)] assms(3,4) by (simp add: server_ok_def announced_def)

theorem server_no_lost_handshake_witness:
  "sv_done demo_shaken \<noteq> [] \<and> sv_wake demo_shaken = 0 \<and> sv_worker demo_shaken = Notifying"
proof -
  have "sv_done demo_shaken \<noteq> []" "sv_pc demo_shaken = Idle" "sv_wake demo_shaken = 0" by (simp_all add: demo_server_defs Let_def)
  then show ?thesis using server_no_lost_handshake [OF demo_fresh demo_reach_shaken] by blast
qed

text \<open>
  C32: every socket that was ever accepted is, counted with multiplicity, in exactly one place:
  waiting for the handshake thread, held by it, in a completed handshake, the socket of a
  connection in the table, the socket of a connection removed with its close callback, or closed.
  None is lost and none is closed twice.
\<close>

theorem server_no_socket_lost:
  assumes "fresh_server sv0" "sv_accepted sv0 = []" "sv_closed_fds sv0 = []" "sv_removed sv0 = []" "server_reach cap sv0 sv"
  shows "mset (sv_accepted sv) = mset (sv_pending sv) + mset (if sv_current sv \<ge> 0 then [sv_current sv] else []) +
    mset (map hd_sock (sv_done sv)) + mset (conn_sockets (sv_conns sv)) + mset (map cn_socket (sv_removed sv)) + mset (sv_closed_fds sv)"
  using sockets_inv_reach [OF assms(5,1-4)] by (simp add: sockets_inv_def settled_def ac_simps)

theorem server_no_socket_lost_witness:
  "{#7, 8, 9#} = mset (sv_pending demo_accepted) + mset (if sv_current demo_accepted \<ge> 0 then [sv_current demo_accepted] else []) +
    mset (map hd_sock (sv_done demo_accepted)) + mset (conn_sockets (sv_conns demo_accepted)) +
    mset (map cn_socket (sv_removed demo_accepted)) + mset (sv_closed_fds demo_accepted)"
proof -
  have a: "mset (sv_accepted demo_accepted) = {#7, 8, 9#}" by (simp add: demo_server_defs Let_def)
  show ?thesis
    unfolding a [symmetric]
    by (rule server_no_socket_lost [OF demo_fresh _ _ _ demo_reach_accepted]) (simp_all add: demo_server_def ShmServer_new_def)
qed

text \<open>
  C33: \<open>Stop\<close> does not block forever in \<open>join\<close>. Once it waits there, the handshake thread can make
  at most \<open>stop_measure\<close> more steps, two for each queued socket and at most two for the work
  under way, and until it has ended it can always make the next one by itself: it does not
  sleep on the condition variable (it was notified), and the socket of its current handshake
  has been shut down, so that the handshake returns without the help of its peer or of a
  timeout. (Assumed: \<open>sendmsg\<close> and \<open>recvmsg\<close> do not block on a socket that is shut down.)
\<close>

theorem server_stop_joins:
  assumes "fresh_server sv0" "server_reach cap sv0 sv" "sv_pc sv = Joining" "(worker_step ^^ n) sv sv'"
  shows "n \<le> stop_measure sv \<and> (sv_worker sv' = NoThread \<or> (\<exists>sv''. worker_own_step sv' sv''))"
proof -
  have "sv_stopping sv" using server_ok_reach [OF assms(2,1)] assms(3) by (simp add: server_ok_def server_inv_def)
  from worker_steps_stopping [OF assms(4) this] have n: "n \<le> stop_measure sv" "sv_pc sv' = Joining" using assms(3) by auto
  have "server_inv sv'" "cv_inv sv'"
    using server_ok_reach [OF worker_steps_reach [OF assms(4,2)] assms(1)] by (simp_all add: server_ok_def)
  then show ?thesis using n worker_not_stuck by blast
qed

text \<open>\<open>Stop\<close> while the thread sleeps, and while it waits for the peer of socket 7 with socket 8 queued.\<close>

definition demo_asleep :: server where
  "demo_asleep = the (worker_take demo_started)"

definition demo_busy :: server where
  "demo_busy = the (worker_take demo_accepted)"

lemma demo_asleep_busy:
  "server_reach 16 demo_server demo_asleep" "server_reach 16 demo_server demo_busy"
  "sv_worker demo_asleep = Asleep" "sv_worker demo_busy = Busy" "sv_pc demo_asleep = Idle" "sv_pc demo_busy = Idle"
proof -
  have t: "worker_take demo_started = Some demo_asleep" "worker_take demo_accepted = Some demo_busy"
    by (simp_all add: demo_asleep_def demo_busy_def demo_server_defs Let_def)
  show "server_reach 16 demo_server demo_asleep" "server_reach 16 demo_server demo_busy"
    by (rule server_reach.step [OF demo_reach_started server_step.worker [OF worker_step.take_next [OF t(1)]]],
        rule server_reach.step [OF demo_reach_accepted server_step.worker [OF worker_step.take_next [OF t(2)]]])
  show "sv_worker demo_asleep = Asleep" "sv_worker demo_busy = Busy" "sv_pc demo_asleep = Idle" "sv_pc demo_busy = Idle"
    by (simp_all add: demo_asleep_def demo_busy_def demo_server_defs Let_def)
qed

lemma Stop_reach:
  assumes "server_reach cap sv0 sv" "sv_pc sv = Idle" "sv_started sv"
  shows "server_reach cap sv0 (Stop_notify (Stop_begin sv))"
proof -
  have "sv_pc (Stop_begin sv) = StopSignal" using assms(3) by (simp add: Stop_begin_def)
  then show ?thesis
    using server_reach.step [OF server_reach.step [OF assms(1) server_step.stop [OF assms(2)]] server_step.stop_notify] by blast
qed

theorem server_stop_joins_witness:
  "stop_measure (Stop_notify (Stop_begin demo_busy)) = 4 \<and>
   (sv_worker (Stop_notify (Stop_begin demo_busy)) = NoThread \<or> (\<exists>sv''. worker_own_step (Stop_notify (Stop_begin demo_busy)) sv'')) \<and>
   stop_measure (Stop_notify (Stop_begin demo_asleep)) = 1 \<and>
   (sv_worker (Stop_notify (Stop_begin demo_asleep)) = NoThread \<or> (\<exists>sv''. worker_own_step (Stop_notify (Stop_begin demo_asleep)) sv''))"
proof -
  have r: "server_reach 16 demo_server (Stop_notify (Stop_begin demo_busy))" "server_reach 16 demo_server (Stop_notify (Stop_begin demo_asleep))"
    by (rule Stop_reach [OF demo_asleep_busy(2,6)], simp add: demo_busy_def demo_server_defs Let_def,
        rule Stop_reach [OF demo_asleep_busy(1,5)], simp add: demo_asleep_def demo_server_defs Let_def)
  have p: "sv_pc (Stop_notify sv) = Joining" for sv by (simp add: Stop_notify_def)
  have m: "stop_measure (Stop_notify (Stop_begin demo_busy)) = 4" "stop_measure (Stop_notify (Stop_begin demo_asleep)) = 1"
    by (simp_all add: demo_asleep_def demo_busy_def demo_server_defs Let_def Stop_begin_def Stop_notify_def stop_measure_def)
  show ?thesis
    using server_stop_joins [OF demo_fresh r(1) p, of 0] server_stop_joins [OF demo_fresh r(2) p, of 0] m by simp
qed

text \<open>
  C34: after the handshake thread has ended, \<open>Stop\<close> runs to its end, whatever operations on their
  own connection the close callbacks perform (as long as they do not report a successful
  verification); unless one of them throws, no connection and no handshake is left, and every
  socket ever accepted is closed: with a removed connection or directly.
\<close>

theorem server_stop_releases:
  assumes "fresh_server sv0" "sv_accepted sv0 = []" "sv_closed_fds sv0 = []" "sv_removed sv0 = []" "server_reach cap sv0 sv"
    "sv_worker sv = NoThread" "list_all (\<lambda>(_, e). close_ok (cn_closecb (sc_conn e))) (sv_conns sv)"
  shows "\<exists>ok sv'. Stop_finish cap sv = Some (ok, sv') \<and>
    (ok \<longrightarrow> ConnCount sv' = 0 \<and> inflight sv' = 0 \<and>
       mset (sv_accepted sv') = mset (map cn_socket (sv_removed sv')) + mset (sv_closed_fds sv'))"
proof -
  obtain ok sv' where r: "remove_all cap (sv_conns sv) (Stop_queues sv) = Some (ok, sv')"
    using remove_all_defined [OF assms(7)] by blast
  have q: "sv_conns (Stop_queues sv) = sv_conns sv" "sv_pending (Stop_queues sv) = []" "sv_done (Stop_queues sv) = []"
    "sv_current (Stop_queues sv) = -1" by (simp_all add: Stop_queues_def Let_def)
  then have f: "Stop_finish cap sv = Some (ok, sv')" using assms(6) r by (simp add: Stop_finish_def)
  note fr = remove_all_frame [OF r]
  have s: "sockets_inv sv'" by (rule sockets_inv_stopped [OF f sockets_inv_reach [OF assms(5,1-4)]])
  have "sv_conns sv' = []" if ok
  proof -
    have "sv_conns sv' = filter (\<lambda>(k, _). k \<notin> fst ` set (sv_conns sv)) (sv_conns sv)" using fr that q(1) by simp
    then show ?thesis by (force simp: filter_empty_conv)
  qed
  moreover have "inflight sv' = 0" "sv_pending sv' = []" "sv_done sv' = []" "sv_current sv' = -1"
    using fr q by (auto simp: inflight_def same_queues_def)
  ultimately show ?thesis using f s by (auto simp: sockets_inv_def settled_def ConnCount_def conn_sockets_def)
qed

text \<open>
  A server with one connection (socket 7) and one completed handshake that has not become a
  connection (socket 8), told to stop, after its handshake thread has ended.
\<close>

definition demo_handshake :: "fd \<Rightarrow> server \<Rightarrow> server" where
  "demo_handshake nfd sv = the (worker_notify (the (worker_finish (Some (nfd, demo_channel)) (the (worker_take sv)))))"

definition demo_one :: server where
  "demo_one = snd (the (OnHandshakeComplete 16 (demo_handshake 10 (OnAccept 7 demo_started))))"

definition demo_ended :: server where
  "demo_ended = the (worker_take (Stop_notify (Stop_begin (demo_handshake 11 (OnAccept 8 demo_one)))))"

lemma demo_handshake_reach:
  assumes "server_reach cap sv0 sv" "sv_worker sv = Waiting" "sv_pending sv = [d]" "\<not> sv_stopping sv"
  shows "server_reach cap sv0 (demo_handshake nfd sv)"
    "demo_handshake nfd sv = sv\<lparr>sv_current := -1, sv_pending := [], sv_wake := eventfd_write (sv_wake sv) 1,
       sv_done := sv_done sv @ [\<lparr>hd_sock = d, hd_notify = nfd, hd_channel = demo_channel\<rparr>]\<rparr>"
proof -
  let ?a = "sv\<lparr>sv_current := d, sv_pending := [], sv_worker := Busy\<rparr>"
  let ?b = "?a\<lparr>sv_done := sv_done ?a @ [\<lparr>hd_sock = d, hd_notify = nfd, hd_channel = demo_channel\<rparr>], sv_current := -1, sv_worker := Notifying\<rparr>"
  let ?c = "?b\<lparr>sv_wake := eventfd_write (sv_wake ?b) 1, sv_worker := Waiting\<rparr>"
  have 1: "worker_take sv = Some ?a" using assms by (simp add: worker_take_def)
  have 2: "worker_finish (Some (nfd, demo_channel)) ?a = Some ?b" using assms by (simp add: worker_finish_def)
  have 3: "worker_notify ?b = Some ?c" by (simp add: worker_notify_def)
  have c: "demo_handshake nfd sv = ?c" using 1 2 3 by (simp add: demo_handshake_def)
  show "server_reach cap sv0 (demo_handshake nfd sv)" unfolding c
    by (rule server_reach.step [OF server_reach.step [OF server_reach.step [OF assms(1)
            server_step.worker [OF worker_step.take_next [OF 1]]] server_step.worker [OF worker_step.finish [OF 2]]]
          server_step.worker [OF worker_step.wake_loop [OF 3]]])
  show "demo_handshake nfd sv = sv\<lparr>sv_current := -1, sv_pending := [], sv_wake := eventfd_write (sv_wake sv) 1,
       sv_done := sv_done sv @ [\<lparr>hd_sock = d, hd_notify = nfd, hd_channel = demo_channel\<rparr>]\<rparr>"
    using c assms(2) by (cases sv) simp
qed

lemma complete_reach:
  assumes "server_reach cap sv0 sv" "sv_pc sv = Idle" "sv_started sv" "OnHandshakeComplete cap sv = Some (ok, sv')"
  shows "server_reach cap sv0 sv'"
  using server_reach.step [OF server_reach.step [OF assms(1) server_step.drain [OF assms(2,3)]] server_step.complete] assms(4)
  by (simp add: OnHandshakeComplete_def complete_drain_def)

text \<open>One connection in the table, everything else at rest.\<close>

definition one_conn :: "server \<Rightarrow> bool" where
  "one_conn sv \<longleftrightarrow> sv_worker sv = Waiting \<and> sv_pc sv = Idle \<and> sv_started sv \<and> \<not> sv_stopping sv \<and> sv_pending sv = [] \<and> sv_done sv = [] \<and>
     sv_current sv = -1 \<and> sv_max_clients sv = 2 \<and> sv_accepted sv = [7] \<and> sv_closed_fds sv = [] \<and> sv_removed sv = [] \<and>
     map (\<lambda>(_, e). cn_socket (sc_conn e)) (sv_conns sv) = [7] \<and> list_all (\<lambda>(_, e). cn_closecb (sc_conn e) = Some (\<lambda>_. [])) (sv_conns sv)"

lemma demo_one_conn: "one_conn demo_one" "server_reach 16 demo_server demo_one"
proof -
  let ?a = "OnAccept 7 demo_started"
  have a: "server_reach 16 demo_server ?a" by (rule OnAccept_reach [OF demo_reach_started]) (simp_all add: demo_server_defs Let_def)
  note h = demo_handshake_reach [OF a, of 7 10]
  have s: "sv_worker ?a = Waiting" "sv_pending ?a = [7]" "\<not> sv_stopping ?a" "sv_pc ?a = Idle" "sv_started ?a"
    by (simp_all add: demo_server_defs Let_def)
  obtain ok sv' where c: "OnHandshakeComplete 16 (demo_handshake 10 ?a) = Some (ok, sv')" "one_conn sv'"
    unfolding h(2) [OF s(1-3)]
    by (simp add: OnHandshakeComplete_def complete_drain_def complete_take_def FinishAccept_def ShmConnection_new_def ResizeBuffer_def
        one_conn_def conn_sockets_def demo_server_defs Let_def)
  then show "one_conn demo_one" by (simp add: demo_one_def)
  show "server_reach 16 demo_server demo_one"
    using complete_reach [OF h(1) [OF s(1-3)] _ _ c(1)] h(2) [OF s(1-3)] s c(1) by (simp add: demo_one_def)
qed

lemma demo_ended_reach:
  "server_reach 16 demo_server demo_ended" "sv_worker demo_ended = NoThread" "sv_accepted demo_ended = [7, 8]"
  "map hd_sock (sv_done demo_ended) = [8]" "conn_sockets (sv_conns demo_ended) = [7]"
  "list_all (\<lambda>(_, e). cn_closecb (sc_conn e) = Some (\<lambda>_. [])) (sv_conns demo_ended)"
proof -
  let ?a = "OnAccept 8 demo_one" and ?h = "demo_handshake 11 (OnAccept 8 demo_one)"
  note o = demo_one_conn(1) [unfolded one_conn_def]
  have l: "length (sv_conns demo_one) = 1" using o by (metis length_map length_Cons list.size(3) One_nat_def)
  have a: "server_reach 16 demo_server ?a" by (rule OnAccept_reach [OF demo_one_conn(2)]) (use o in simp_all)
  have A: "?a = demo_one\<lparr>sv_accepted := [7, 8], sv_pending := [8], sv_shut := removeAll 8 (sv_shut demo_one)\<rparr>"
    using o l by (cases demo_one) (simp add: OnAccept_def OnAccept_check_def OnAccept_push_def OnAccept_signal_def cv_notify_def inflight_def Let_def)
  note h = demo_handshake_reach [OF a, of 8 11]
  have s: "sv_worker ?a = Waiting" "sv_pending ?a = [8]" "\<not> sv_stopping ?a" using A o by simp_all
  note H = h(2) [OF s]
  have r: "server_reach 16 demo_server (Stop_notify (Stop_begin ?h))"
    by (rule Stop_reach [OF h(1) [OF s]]) (use H A o in simp_all)
  have t: "worker_take (Stop_notify (Stop_begin ?h)) = Some demo_ended"
    using H A o by (simp add: demo_ended_def worker_take_def Stop_notify_def Stop_begin_def cv_notify_def)
  show "server_reach 16 demo_server demo_ended"
    by (rule server_reach.step [OF r server_step.worker [OF worker_step.take_next [OF t]]])
  show "sv_worker demo_ended = NoThread" "sv_accepted demo_ended = [7, 8]" "map hd_sock (sv_done demo_ended) = [8]"
    "conn_sockets (sv_conns demo_ended) = [7]" "list_all (\<lambda>(_, e). cn_closecb (sc_conn e) = Some (\<lambda>_. [])) (sv_conns demo_ended)"
    using H A o by (simp_all add: demo_ended_def worker_take_def Stop_notify_def Stop_begin_def cv_notify_def conn_sockets_def)
qed

theorem server_stop_releases_witness:
  "map hd_sock (sv_done demo_ended) = [8] \<and> conn_sockets (sv_conns demo_ended) = [7] \<and>
   (\<exists>sv'. Stop_finish 16 demo_ended = Some (True, sv') \<and> ConnCount sv' = 0 \<and> inflight sv' = 0 \<and>
      {#7, 8#} = mset (map cn_socket (sv_removed sv')) + mset (sv_closed_fds sv'))"
proof -
  note e = demo_ended_reach
  have "list_all (\<lambda>(_, e). close_ok (cn_closecb (sc_conn e))) (sv_conns demo_ended)"
    using e(6) by (fastforce simp: list_all_iff close_ok_def)
  with server_stop_releases [OF demo_fresh _ _ _ e(1,2)] obtain ok sv' where
    f: "Stop_finish 16 demo_ended = Some (ok, sv')"
      "ok \<Longrightarrow> ConnCount sv' = 0 \<and> inflight sv' = 0 \<and>
         mset (sv_accepted sv') = mset (map cn_socket (sv_removed sv')) + mset (sv_closed_fds sv')"
    by (auto simp: demo_server_def ShmServer_new_def)
  obtain i c where c: "sv_conns demo_ended = [(i, c)]" using e(5) by (auto simp: conn_sockets_def)
  have oc: "\<exists>c1 lp1. OnClose 16 (sc_conn c, lp) = Some (True, c1, lp1)" for lp
    using e(6) c by (auto split: prod.splits)
  let ?q = "Stop_queues demo_ended"
  have q: "sv_conns ?q = [(i, c)]" "sv_accepted ?q = [7, 8]" using c e(3) by (simp_all add: Stop_queues_def Let_def)
  obtain c1 lp1 where "RemoveConn 16 i c ?q = Some (True, ?q\<lparr>sv_conns := [], sv_loop := lp1, sv_removed := sv_removed ?q @ [c1]\<rparr>)"
    using oc [of "RemoveFd (cn_socket (sc_conn c)) (RemoveFd (sc_notify c) (sv_loop ?q))"] q(1)
    by (auto simp: RemoveConn_def Let_def simp del: OnClose.simps)
  then have "ok" "sv_accepted sv' = [7, 8]" using f(1) e(2) q by (auto simp: Stop_finish_def Let_def)
  then show ?thesis using f e(4,5) by auto
qed

text \<open>
  \<open>CloseConn\<close> on an existing connection removes exactly it from the table, leaves it closed
  with its close callback called exactly once (if it was not closed already), and kills all
  entries of its two descriptors in the event loop, so that no handler runs for it again.
\<close>

theorem CloseConn_final:
  assumes "FindConn i sv = Some e" "close_ok (cn_closecb (sc_conn e))"
  shows "\<exists>ok sv' c. CloseConn cap i sv = Some (ok, sv') \<and> FindConn i sv' = None \<and>
    (\<forall>j. j \<noteq> i \<longrightarrow> FindConn j sv' = FindConn j sv) \<and> sv_removed sv' = sv_removed sv @ [c] \<and> conn_released e (sv_loop sv) c (sv_loop sv')"
proof -
  obtain c1 lp1 where c1: "Close (sc_conn e, sv_loop sv) = (c1, lp1)" by fastforce
  let ?t = "put_conn i c1 (sv\<lparr>sv_loop := lp1\<rparr>)"
  obtain ok c lp where r: "RemoveConn cap i (e\<lparr>sc_conn := c1\<rparr>) ?t = Some (ok, ?t\<lparr>sv_conns := filter (\<lambda>(k, _). k \<noteq> i) (sv_conns ?t), sv_loop := lp,
      sv_removed := sv_removed ?t @ [c]\<rparr>)" "conn_released (e\<lparr>sc_conn := c1\<rparr>) lp1 c lp"
    using RemoveConn_released [of "e\<lparr>sc_conn := c1\<rparr>" cap i ?t] assms(2) Close_closecb [OF c1] put_conn_frame(3) [of i c1 "sv\<lparr>sv_loop := lp1\<rparr>"] by auto
  let ?s = "?t\<lparr>sv_conns := filter (\<lambda>(k, _). k \<noteq> i) (sv_conns ?t), sv_loop := lp, sv_removed := sv_removed ?t @ [c]\<rparr>"
  have "CloseConn cap i sv = Some (ok, ?s)" using assms(1) c1 r(1) by (simp add: CloseConn_def del: Close.simps)
  moreover have "FindConn i ?s = None" by (auto simp: FindConn_def map_of_eq_None_iff)
  moreover have "FindConn j ?s = FindConn j sv" if "j \<noteq> i" for j
    using that by (simp add: FindConn_def put_conn_def map_of_put_filter)
  moreover have "sv_removed ?s = sv_removed sv @ [c]" by (simp add: put_conn_def)
  ultimately show ?thesis
    using Close_released [OF c1 r(2)] by (intro exI [of _ ok] exI [of _ ?s] exI [of _ c]) simp
qed

definition demo_connected :: server where
  "demo_connected = demo_started\<lparr>sv_conns := [(1, \<lparr>sc_conn = (ShmConnection_new 1 7 demo_channel)\<lparr>cn_state := established, cn_closecb := Some (\<lambda>_. [])\<rparr>,
     sc_notify = 10\<rparr>)]\<rparr>"

theorem CloseConn_final_witness:
  "\<exists>ok sv'. CloseConn 16 1 demo_connected = Some (ok, sv') \<and> FindConn 1 sv' = None"
proof -
  obtain e where e: "FindConn 1 demo_connected = Some e" "close_ok (cn_closecb (sc_conn e))"
    by (simp add: demo_connected_def FindConn_def close_ok_def)
  show ?thesis using CloseConn_final [OF e, of 16] by blast
qed

end
