(* ===== verification/Async_Client.thy ===== *)
theory Async_Client
  imports Server
begin

text \<open>
  \<open>ShmAsyncClient\<close> of \<open>include/shm_ipc/shm_async_client.hpp\<close> (interface \<open>comm::ITcpAsyncClient\<close> of
  \<open>comm/client.h\<close>): one connection on an external event loop, with a state that decides which
  operations act. Application callbacks act on the connection only, as in \<open>Connection\<close>; the
  error callback is recorded. Operations that can throw return with a flag.
\<close>

section \<open>The model\<close>

record aclient =
  ac_loop :: loop
  ac_conn :: "sconn option"
  ac_state :: client_state
  ac_connectioncb :: "conn_cb option"
  ac_messagecb :: "(any_val option \<Rightarrow> conn_cb) option"
  ac_closecb :: "conn_cb option"
  ac_verifycb :: "conn_cb option"
  ac_errorcb :: bool
  ac_codec_factory :: "codec option option"
  ac_context :: "any_val option"
  ac_autoreconnect :: bool
  ac_init_buffer :: nat
  ac_max_buffer :: nat
  ac_errors :: "(bool \<times> string) list"
  ac_closed :: "conn list"

text \<open>
  \<open>ac_codec_factory\<close> is the factory (\<open>None\<close> if not set) with what it returns (\<open>None\<close> for a null
  pointer); \<open>ac_errors\<close> records the calls of the error callback and \<open>ac_closed\<close> the connections
  that were torn down.
\<close>

definition ShmAsyncClient_new :: "loop \<Rightarrow> aclient" where
  "ShmAsyncClient_new lp = \<lparr>ac_loop = lp, ac_conn = None, ac_state = cl_close, ac_connectioncb = None, ac_messagecb = None,
     ac_closecb = None, ac_verifycb = None, ac_errorcb = False, ac_codec_factory = None, ac_context = None, ac_autoreconnect = False,
     ac_init_buffer = 128 * 1024, ac_max_buffer = 1024 * 1024, ac_errors = [], ac_closed = []\<rparr>"

definition AClient_SetAutoReconnect :: "bool \<Rightarrow> aclient \<Rightarrow> aclient" where
  "AClient_SetAutoReconnect b ac = ac\<lparr>ac_autoreconnect := b\<rparr>"

definition AClient_SetContext :: "any_val option \<Rightarrow> aclient \<Rightarrow> aclient" where
  "AClient_SetContext x ac = ac\<lparr>ac_context := x\<rparr>"

definition AClient_ResizeBuffer :: "nat \<Rightarrow> nat \<Rightarrow> aclient \<Rightarrow> aclient" where
  "AClient_ResizeBuffer sz mx ac = ac\<lparr>ac_init_buffer := sz mod 2 ^ 32, ac_max_buffer := mx mod 2 ^ 32\<rparr>"

definition AClient_Id :: "aclient \<Rightarrow> u64" where
  "AClient_Id ac = (case ac_conn ac of Some e \<Rightarrow> cn_id (sc_conn e) | None \<Rightarrow> 0)"

definition acb_notify :: callback where "acb_notify = UserCb 0"
definition acb_socket :: callback where "acb_socket = UserCb 1"

text \<open>The handler of \<open>Connect\<close>'s exceptions.\<close>

definition connect_failed :: "string \<Rightarrow> aclient \<Rightarrow> aclient" where
  "connect_failed uri ac = ac\<lparr>ac_state := cl_close,
     ac_errors := ac_errors ac @ (if ac_errorcb ac then [(ac_autoreconnect ac, uri)] else [])\<rparr>"

text \<open>The connection as \<open>Connect\<close> sets it up, before \<open>OnConnection\<close>.\<close>

definition client_conn :: "codec \<Rightarrow> fd \<Rightarrow> channel \<Rightarrow> aclient \<Rightarrow> conn" where
  "client_conn cd sock ch ac =
     (let c = ResizeBuffer (ac_init_buffer ac) (ac_max_buffer ac)
                ((ShmConnection_new 1 sock ch)\<lparr>cn_messagecb := ac_messagecb ac, cn_closecb := ac_closecb ac,
                   cn_connectioncb := ac_connectioncb ac, cn_verifycb := ac_verifycb ac, cn_codec := Some cd,
                   cn_conntype := TcpConn_Client\<rparr>)
      in if ac_context ac \<noteq> None then c\<lparr>cn_context := ac_context ac\<rparr> else c)"

text \<open>
  \<open>Connect\<close>. \<open>hs\<close> is what \<open>ConnectUnixSocket\<close> and \<open>CreateRingChannel\<close> give: the socket, the
  notification descriptor and the channel, or \<open>None\<close> if one of them throws.
\<close>

definition AClient_Connect :: "nat \<Rightarrow> string \<Rightarrow> (fd \<times> fd \<times> channel) option \<Rightarrow> aclient \<Rightarrow> aclient option" where
  "AClient_Connect cap uri hs ac =
     (if ac_connectioncb ac = None \<or> ac_messagecb ac = None \<or> ac_closecb ac = None \<or> ac_codec_factory ac = None then None
      else if ac_state ac = cl_connecting \<or> ac_state ac = cl_established then Some ac
      else let ac1 = ac\<lparr>ac_state := cl_connecting\<rparr> in
        (case hs of
           None \<Rightarrow> Some (connect_failed uri ac1)
         | Some (sock, nfd, ch) \<Rightarrow>
             (case the (ac_codec_factory ac) of
                None \<Rightarrow> Some (connect_failed uri ac1)
              | Some cd \<Rightarrow>
                  let c = client_conn cd sock ch ac;
                      lp = AddFd sock acb_socket POLLIN (AddFd nfd acb_notify POLLIN (ac_loop ac))
                  in (case OnConnection cap (c, lp) of
                        None \<Rightarrow> None
                      | Some (ok, c1, lp1) \<Rightarrow>
                          let ac2 = ac1\<lparr>ac_state := cl_established, ac_conn := Some \<lparr>sc_conn = c1, sc_notify = nfd\<rparr>, ac_loop := lp1\<rparr>
                          in Some (if ok then ac2 else connect_failed uri ac2)))))"

text \<open>The connection object is shared: an operation on it shows in the client.\<close>

definition aput :: "sconn \<Rightarrow> conn \<Rightarrow> loop \<Rightarrow> aclient \<Rightarrow> aclient" where
  "aput e c lp ac = ac\<lparr>ac_conn := Some (e\<lparr>sc_conn := c\<rparr>), ac_loop := lp\<rparr>"

definition AClient_SendCmd :: "nat \<Rightarrow> any_val \<Rightarrow> aclient \<Rightarrow> (bool \<times> aclient) option" where
  "AClient_SendCmd cap pkg ac = (case ac_conn ac of
     Some e \<Rightarrow> if ac_state ac = cl_established
       then (case SendCmd cap pkg (sc_conn e, ac_loop ac) of
               None \<Rightarrow> None
             | Some (ok, c1, lp1) \<Rightarrow> Some (ok, aput e c1 lp1 ac))
       else Some (False, ac)
   | None \<Rightarrow> Some (False, ac))"

definition Teardown :: "nat \<Rightarrow> aclient \<Rightarrow> (bool \<times> aclient) option" where
  "Teardown cap ac =
     (if ac_state ac = cl_close then Some (True, ac)
      else case ac_conn ac of
        None \<Rightarrow> Some (True, ac\<lparr>ac_state := cl_close\<rparr>)
      | Some e \<Rightarrow>
          (case OnClose cap (sc_conn e, RemoveFd (cn_socket (sc_conn e)) (RemoveFd (sc_notify e) (ac_loop ac))) of
             None \<Rightarrow> None
           | Some (ok, c1, lp1) \<Rightarrow>
               Some (ok, ac\<lparr>ac_state := cl_close, ac_conn := None, ac_loop := lp1, ac_closed := ac_closed ac @ [c1]\<rparr>)))"

definition AClient_Close :: "nat \<Rightarrow> aclient \<Rightarrow> (bool \<times> aclient) option" where
  "AClient_Close cap ac =
     (if ac_state ac \<noteq> cl_established then Some (True, ac)
      else let ac1 = ac\<lparr>ac_state := cl_closeing\<rparr> in
        Teardown cap (case ac_conn ac of
            None \<Rightarrow> ac1
          | Some e \<Rightarrow> (case Close (sc_conn e, ac_loop ac) of (c1, lp1) \<Rightarrow> aput e c1 lp1 ac1)))"

definition OnNotify :: "nat \<Rightarrow> aclient \<Rightarrow> (bool \<times> aclient) option" where
  "OnNotify cap ac = (case ac_conn ac of
     None \<Rightarrow> Some (True, ac)
   | Some e \<Rightarrow>
       let c0 = (sc_conn e)\<lparr>cn_channel := snd (DrainNotify (cn_channel (sc_conn e)))\<rparr> in
       (case DrainRing cap (c0, ac_loop ac) of
          None \<Rightarrow> None
        | Some (Throw, c1, lp1) \<Rightarrow> Some (False, aput e c1 lp1 ac)
        | Some (Ret n, c1, lp1) \<Rightarrow>
            let ac1 = aput e c1 lp1 ac in
            if n < 0 \<or> cn_state c1 = closeing then Teardown cap ac1 else Some (True, ac1)))"

definition OnSocket :: "nat \<Rightarrow> bool \<Rightarrow> int \<Rightarrow> aclient \<Rightarrow> (bool \<times> aclient) option" where
  "OnSocket cap hup r ac = (case ac_conn ac of
     None \<Rightarrow> Some (True, ac)
   | Some e \<Rightarrow>
       if hup \<and> r \<le> 0 then
         (case DrainRing cap (sc_conn e, ac_loop ac) of
            None \<Rightarrow> None
          | Some (Throw, c1, lp1) \<Rightarrow> Some (False, aput e c1 lp1 ac)
          | Some (Ret n, c1, lp1) \<Rightarrow> Teardown cap (aput e c1 lp1 ac))
       else Some (True, ac))"

text \<open>The destructor: the loop it leaves behind; no close callback is called.\<close>

definition AClient_destroy :: "aclient \<Rightarrow> loop" where
  "AClient_destroy ac = (case ac_conn ac of
     None \<Rightarrow> ac_loop ac
   | Some e \<Rightarrow> (case Close (sc_conn e, ac_loop ac) of (c1, lp1) \<Rightarrow> RemoveFd (cn_socket c1) (RemoveFd (sc_notify e) lp1)))"

section \<open>Runs\<close>

inductive aclient_step :: "nat \<Rightarrow> aclient \<Rightarrow> aclient \<Rightarrow> bool" for cap where
  connect: "AClient_Connect cap uri hs ac = Some ac' \<Longrightarrow> aclient_step cap ac ac'"
| send: "AClient_SendCmd cap pkg ac = Some (ok, ac') \<Longrightarrow> aclient_step cap ac ac'"
| close: "AClient_Close cap ac = Some (ok, ac') \<Longrightarrow> aclient_step cap ac ac'"
| notify: "OnNotify cap ac = Some (ok, ac') \<Longrightarrow> aclient_step cap ac ac'"
| socket: "OnSocket cap hup r ac = Some (ok, ac') \<Longrightarrow> aclient_step cap ac ac'"

inductive aclient_reach :: "nat \<Rightarrow> aclient \<Rightarrow> aclient \<Rightarrow> bool" for cap ac0 where
  init: "aclient_reach cap ac0 ac0"
| step: "aclient_reach cap ac0 ac \<Longrightarrow> aclient_step cap ac ac' \<Longrightarrow> aclient_reach cap ac0 ac'"

section \<open>The state machine\<close>

text \<open>
  Between operations the client is established or closed; established it has a connection,
  and a closed client has none unless \<open>Connect\<close> reported an error.
\<close>

definition aclient_inv :: "aclient \<Rightarrow> bool" where
  "aclient_inv ac \<longleftrightarrow> (ac_state ac = cl_established \<or> ac_state ac = cl_close) \<and>
     (ac_state ac = cl_established \<longrightarrow> ac_conn ac \<noteq> None) \<and>
     (ac_errorcb ac \<and> ac_state ac = cl_close \<and> ac_conn ac \<noteq> None \<longrightarrow> ac_errors ac \<noteq> [])"

lemma aput_sel [simp]:
  "ac_state (aput e c lp ac) = ac_state ac" "ac_conn (aput e c lp ac) = Some (e\<lparr>sc_conn := c\<rparr>)" "ac_loop (aput e c lp ac) = lp"
  "ac_errorcb (aput e c lp ac) = ac_errorcb ac" "ac_errors (aput e c lp ac) = ac_errors ac" "ac_closed (aput e c lp ac) = ac_closed ac"
  by (simp_all add: aput_def)

lemma aclient_inv_aput: "aclient_inv ac \<Longrightarrow> ac_conn ac \<noteq> None \<Longrightarrow> aclient_inv (aput e c lp ac)"
  by (simp add: aclient_inv_def)

lemma aclient_inv_Teardown:
  assumes "Teardown cap ac = Some (ok, ac')" "ac_state ac = cl_close \<Longrightarrow> aclient_inv ac"
  shows "aclient_inv ac'"
  using assms by (auto simp: Teardown_def aclient_inv_def simp del: OnClose.simps split: if_splits option.splits)

lemma aclient_inv_Connect:
  assumes "AClient_Connect cap uri hs ac = Some ac'" "aclient_inv ac"
  shows "aclient_inv ac'"
proof (cases "ac_state ac = cl_connecting \<or> ac_state ac = cl_established")
  case True
  then show ?thesis using assms by (auto simp: AClient_Connect_def split: if_splits)
next
  case False
  then show ?thesis
    using assms
    by (auto simp: AClient_Connect_def Let_def aclient_inv_def connect_failed_def simp del: OnConnection.simps split: if_splits option.splits)
qed

lemma aclient_inv_step: "aclient_step cap ac ac' \<Longrightarrow> aclient_inv ac \<Longrightarrow> aclient_inv ac'"
proof (induction rule: aclient_step.induct)
  case (connect uri hs ac ac')
  then show ?case using aclient_inv_Connect by blast
next
  case (send pkg ac ok ac')
  then show ?case
    using aclient_inv_aput [of ac] by (auto simp: AClient_SendCmd_def simp del: SendCmd.simps split: option.splits if_splits)
next
  case (close ac ok ac')
  show ?case
  proof (cases "ac_state ac = cl_established")
    case True
    then show ?thesis
      using close
      by (auto simp: AClient_Close_def Let_def simp del: Close.simps split: option.splits prod.splits elim!: aclient_inv_Teardown)
  qed (use close in \<open>simp add: AClient_Close_def\<close>)
next
  case (notify ac ok ac')
  then show ?case
    using aclient_inv_aput [of ac] aclient_inv_Teardown
    by (auto simp: OnNotify_def Let_def split: option.splits outcome.splits if_splits)
next
  case (socket hup r ac ok ac')
  then show ?case
    using aclient_inv_aput [of ac] aclient_inv_Teardown
    by (auto simp: OnSocket_def split: option.splits outcome.splits if_splits)
qed

lemma aclient_inv_reach: "aclient_reach cap ac0 ac \<Longrightarrow> aclient_inv ac0 \<Longrightarrow> aclient_inv ac"
  by (induction rule: aclient_reach.induct) (auto intro: aclient_inv_step)

section \<open>Closing\<close>

lemma Teardown_established:
  assumes "ac_state ac \<noteq> cl_close" "ac_conn ac = Some e" "close_ok (cn_closecb (sc_conn e))"
  shows "\<exists>ok c lp. Teardown cap ac = Some (ok, ac\<lparr>ac_state := cl_close, ac_conn := None, ac_loop := lp, ac_closed := ac_closed ac @ [c]\<rparr>) \<and>
    conn_released e (ac_loop ac) c lp"
proof -
  obtain ok c lp where "OnClose cap (sc_conn e, RemoveFd (cn_socket (sc_conn e)) (RemoveFd (sc_notify e) (ac_loop ac))) = Some (ok, c, lp)"
    "conn_released e (ac_loop ac) c lp"
    using OnClose_released [OF assms(3), of cap "ac_loop ac"] by blast
  then show ?thesis
    using assms(1,2) by (intro exI [of _ ok] exI [of _ c] exI [of _ lp]) (simp add: Teardown_def del: OnClose.simps)
qed

text \<open>
  An exception from the connection callback leaves the client closed but with its
  connection registered: when the peer then disconnects, \<open>OnSocket\<close> finds the state closed and
  removes nothing, so the hung-up descriptor stays registered and is reported again at once.
\<close>

lemma OnSocket_after_failed_Connect:
  assumes "ac_state ac = cl_close" "ac_conn ac = Some e" "DrainRing cap (sc_conn e, ac_loop ac) = Some (Ret n, c1, lp1)"
  shows "OnSocket cap True 0 ac = Some (True, aput e c1 lp1 ac)"
  using assms by (simp add: OnSocket_def Teardown_def)

section \<open>What the client guarantees\<close>

definition demo_client :: aclient where
  "demo_client = (ShmAsyncClient_new EventLoop_new)\<lparr>ac_connectioncb := Some (\<lambda>_. []), ac_messagecb := Some (\<lambda>_ _. []),
     ac_closecb := Some (\<lambda>_. []), ac_errorcb := True, ac_codec_factory := Some (Some Codec_default),
     ac_init_buffer := 0\<rparr>"

text \<open>The client of the example, connected, and one whose connection callback throws.\<close>

definition demo_client_connected :: aclient where
  "demo_client_connected = the (AClient_Connect 16 ''shm:///s'' (Some (7, 8, demo_channel)) demo_client)"

definition demo_client_thrown :: aclient where
  "demo_client_thrown = the (AClient_Connect 16 ''shm:///s'' (Some (7, 8, demo_channel)) (demo_client\<lparr>ac_connectioncb := Some (\<lambda>_. [CoThrow])\<rparr>))"

lemmas demo_client_defs = demo_client_def demo_client_connected_def demo_client_thrown_def ShmAsyncClient_new_def
  AClient_Connect_def client_conn_def ResizeBuffer_def ShmConnection_new_def connect_failed_def Let_def

lemma demo_client_connects:
  "AClient_Connect 16 ''shm:///s'' (Some (7, 8, demo_channel)) demo_client = Some demo_client_connected"
  by (simp add: demo_client_defs)

text \<open>
  Such an exception is reported as a failed connection, but the client keeps the connection
  and both descriptors stay registered; the peer's hang-up does not change that.
\<close>

lemma Connect_throw_stuck:
  "ac_state demo_client_thrown = cl_close \<and> ac_errors demo_client_thrown = [(False, ''shm:///s'')] \<and>
   OnSocket 16 True 0 demo_client_thrown = Some (True, demo_client_thrown) \<and>
   ac_conn demo_client_thrown \<noteq> None \<and> map (\<lambda>e. (en_fd e, en_dead e)) (lp_entries (ac_loop demo_client_thrown)) = [(8, False), (7, False)]"
proof -
  obtain e where e: "ac_conn demo_client_thrown = Some e" "cn_codec (sc_conn e) = Some Codec_default" "cn_channel (sc_conn e) = demo_channel"
    by (simp add: demo_client_defs)
  have "RingChannel_Peek 16 demo_channel = PeekEmpty"
    by (simp add: RingChannel_Peek_def RingBuf_Peek_def demo_channel_def RingBuf_Init_def Let_def)
  then have "DrainRing 16 (sc_conn e, ac_loop demo_client_thrown) = Some (Ret 0, sc_conn e, ac_loop demo_client_thrown)"
    using e by (simp add: DrainRing_def DrainRing_loop.simps DrainRing_body.simps)
  moreover have "ac_state demo_client_thrown = cl_close" by (simp add: demo_client_defs)
  ultimately have "OnSocket 16 True 0 demo_client_thrown = Some (True, aput e (sc_conn e) (ac_loop demo_client_thrown) demo_client_thrown)"
    using OnSocket_after_failed_Connect e(1) by blast
  moreover have "aput e (sc_conn e) (ac_loop demo_client_thrown) demo_client_thrown = demo_client_thrown"
    using e(1) by (simp add: aput_def)
  ultimately show ?thesis by (simp add: demo_client_defs AddFd_def EventLoop_new_def)
qed

text \<open>
  C35: between operations an asynchronous client is established or closed (never left connecting
  or closing); when established it has a connection; and a closed client with an error callback
  has no connection unless \<open>Connect\<close> has reported an error.
\<close>

theorem aclient_states:
  assumes "ac_state ac0 = cl_close" "ac_conn ac0 = None" "aclient_reach cap ac0 ac"
  shows "(ac_state ac = cl_established \<or> ac_state ac = cl_close) \<and> (ac_state ac = cl_established \<longrightarrow> ac_conn ac \<noteq> None) \<and>
    (ac_errorcb ac \<and> ac_state ac = cl_close \<and> ac_conn ac \<noteq> None \<longrightarrow> ac_errors ac \<noteq> [])"
proof -
  have "aclient_inv ac0" using assms(1,2) by (simp add: aclient_inv_def)
  then show ?thesis using aclient_inv_reach [OF assms(3)] by (simp add: aclient_inv_def)
qed

theorem aclient_states_witness:
  "ac_state demo_client_connected = cl_established \<and> ac_conn demo_client_connected \<noteq> None"
proof -
  have "aclient_reach 16 demo_client demo_client_connected"
    by (rule aclient_reach.step [OF aclient_reach.init aclient_step.connect [OF demo_client_connects]])
  moreover have "ac_state demo_client = cl_close" "ac_conn demo_client = None" "ac_state demo_client_connected = cl_established"
    by (simp_all add: demo_client_defs)
  ultimately show ?thesis using aclient_states [of demo_client 16 demo_client_connected] by blast
qed

text \<open>
  \<open>Close\<close> on an established client runs to its end: the client is closed and has no
  connection, all entries of its two descriptors in the event loop are dead, the close callback
  was called exactly once (if the connection was not closed already), and another \<open>Close\<close> does
  nothing.
\<close>

theorem AClient_Close_final:
  assumes "ac_state ac = cl_established" "ac_conn ac = Some e" "close_ok (cn_closecb (sc_conn e))"
  shows "\<exists>ok ac' c. AClient_Close cap ac = Some (ok, ac') \<and> ac_state ac' = cl_close \<and> ac_conn ac' = None \<and>
    ac_closed ac' = ac_closed ac @ [c] \<and> cn_state c = closeed \<and>
    cn_events c = cn_events (sc_conn e) @ (if cn_state (sc_conn e) \<noteq> closeed \<and> cn_closecb (sc_conn e) \<noteq> None then [CloseCb] else []) \<and>
    (\<forall>k < length (lp_entries (ac_loop ac)). en_fd (lp_entries (ac_loop ac) ! k) = cn_socket (sc_conn e) \<or>
       en_fd (lp_entries (ac_loop ac) ! k) = sc_notify e \<longrightarrow> en_dead (lp_entries (ac_loop ac') ! k)) \<and>
    AClient_Close cap ac' = Some (True, ac')"
proof -
  obtain c1 lp1 where c1: "Close (sc_conn e, ac_loop ac) = (c1, lp1)" by fastforce
  let ?t = "aput e c1 lp1 (ac\<lparr>ac_state := cl_closeing\<rparr>)"
  obtain ok c lp where r: "Teardown cap ?t = Some (ok, ?t\<lparr>ac_state := cl_close, ac_conn := None, ac_loop := lp, ac_closed := ac_closed ?t @ [c]\<rparr>)"
    "conn_released (e\<lparr>sc_conn := c1\<rparr>) lp1 c lp"
    using Teardown_established [of ?t "e\<lparr>sc_conn := c1\<rparr>" cap] assms(3) Close_closecb [OF c1] by auto
  let ?s = "?t\<lparr>ac_state := cl_close, ac_conn := None, ac_loop := lp, ac_closed := ac_closed ?t @ [c]\<rparr>"
  have "AClient_Close cap ac = Some (ok, ?s)" using assms(1,2) c1 r(1) by (simp add: AClient_Close_def Let_def del: Close.simps)
  then show ?thesis
    using Close_released [OF c1 r(2)]
    by (intro exI [of _ ok] exI [of _ ?s] exI [of _ c]) (simp add: AClient_Close_def conn_released_def)
qed

theorem AClient_Close_final_witness:
  "\<exists>ok ac'. AClient_Close 16 demo_client_connected = Some (ok, ac') \<and> ac_state ac' = cl_close \<and> ac_conn ac' = None"
proof -
  obtain e where e: "ac_state demo_client_connected = cl_established" "ac_conn demo_client_connected = Some e" "close_ok (cn_closecb (sc_conn e))"
    by (simp add: demo_client_defs close_ok_def)
  show ?thesis using AClient_Close_final [OF e, of 16] by blast
qed

end
