(* ===== verification/Sync_Client.thy ===== *)
theory Sync_Client
  imports Connection
begin

text \<open>
  \<open>ShmClient\<close> of \<open>include/shm_ipc/shm_client.hpp\<close> (interface \<open>comm::ITcpClient\<close> of \<open>comm/client.h\<close>):
  a blocking byte-stream client. \<open>Close\<close> may be called by another thread while \<open>ReadMessage\<close>
  blocks, and the peer writes at any time, so \<open>ReadMessage\<close> runs against a list of passes that
  say what its environment does in each iteration of its loop.
\<close>

section \<open>The model\<close>

text \<open>
  A default-constructed channel, whose operations dereference null, is \<open>None\<close>. \<open>cl_arrived\<close>
  records the bytes the peer has put into the ring.
\<close>

record client =
  cl_socket :: fd
  cl_channel :: "channel option"
  cl_closed :: bool
  cl_shutdown :: bool
  cl_arrived :: bytes

definition ShmClient_new :: client where
  "ShmClient_new = \<lparr>cl_socket = -1, cl_channel = None, cl_closed = True, cl_shutdown = False, cl_arrived = []\<rparr>"

definition Client_Close :: "client \<Rightarrow> client" where
  "Client_Close cl = cl\<lparr>cl_closed := True, cl_shutdown := cl_socket cl \<ge> 0 \<or> cl_shutdown cl\<rparr>"

text \<open>\<open>sock\<close> and \<open>ch\<close> are what \<open>ConnectUnixSocket\<close> and \<open>CreateRingChannel\<close> return, \<open>None\<close> if they throw.\<close>

definition Client_Connect :: "fd option \<Rightarrow> channel option \<Rightarrow> client \<Rightarrow> bool \<times> client" where
  "Client_Connect sock ch cl =
     (let cl1 = (Client_Close cl)\<lparr>cl_channel := None, cl_socket := -1, cl_shutdown := False\<rparr> in
      case sock of
        None \<Rightarrow> (False, cl1)
      | Some s \<Rightarrow> (case ch of
          None \<Rightarrow> (False, cl1)
        | Some c \<Rightarrow> (True, cl1\<lparr>cl_socket := s, cl_channel := Some c, cl_closed := False\<rparr>)))"

definition Client_Connect_tcp :: "string \<Rightarrow> u16 \<Rightarrow> client \<Rightarrow> bool \<times> client" where
  "Client_Connect_tcp ip port cl = (False, cl)"

definition Connected :: "client \<Rightarrow> bool" where
  "Connected cl \<longleftrightarrow> cl_socket cl \<ge> 0 \<and> \<not> cl_closed cl"

subsection \<open>Sending\<close>

text \<open>The chunk loop of \<open>SendMessage\<close>; \<open>sent\<close> bytes are written already.\<close>

function SendMessage_loop :: "nat \<Rightarrow> bytes \<Rightarrow> int \<Rightarrow> int \<Rightarrow> channel \<Rightarrow> (int \<times> channel) option" where
  "SendMessage_loop cap msg len sent ch =
     (if \<not> sent < len then Some (sent, NotifyPeer ch)
      else let chunk0 = word_of_int (len - sent) :: u32;
               chunk = (if unat chunk0 > max_write_size cap then word_of_nat (max_write_size cap) else chunk0)
           in (case RingChannel_TryWrite cap ch (Some (drop (nat sent) msg)) chunk of
                 None \<Rightarrow> None
               | Some (rc, ch1) \<Rightarrow>
                   if rc \<noteq> 0 then Some (-1, ch1)
                   else SendMessage_loop cap msg len (sent + uint chunk) ch1))"
  by pat_completeness auto

termination SendMessage_loop
proof (relation "measure (\<lambda>(cap, msg, len, sent, ch). nat (len - sent))", simp)
  fix cap msg len sent ch chunk0 chunk p rc ch1
  assume "\<not> \<not> (sent :: int) < len"
    "RingChannel_TryWrite cap ch (Some (drop (nat sent) msg)) chunk = Some p" "(rc, ch1) = p" "\<not> rc \<noteq> 0"
  then have "chunk \<noteq> (0 :: u32)" using RingChannel_TryWrite_pos by fastforce
  then have "0 < uint chunk" by (simp add: word_neq_0_conv word_less_def)
  then show "((cap, msg, len, sent + uint chunk, ch1), cap, msg, len, sent, ch) \<in> measure (\<lambda>(cap, msg, len, sent, ch). nat (len - sent))"
    using \<open>\<not> \<not> sent < len\<close> by simp
qed

declare SendMessage_loop.simps [simp del]

definition SendMessage :: "nat \<Rightarrow> bytes option \<Rightarrow> int \<Rightarrow> client \<Rightarrow> (int \<times> client) option" where
  "SendMessage cap message len cl =
     (if \<not> Connected cl \<or> message = None \<or> len \<le> 0 then Some (-1, cl)
      else case cl_channel cl of
        None \<Rightarrow> None
      | Some ch \<Rightarrow>
          if RingChannel_WritableBytes cap ch < word_of_int len then Some (-1, cl)
          else (case SendMessage_loop cap (the message) len 0 ch of
                  None \<Rightarrow> None
                | Some (r, ch1) \<Rightarrow> Some (r, cl\<lparr>cl_channel := Some ch1\<rparr>)))"

subsection \<open>Receiving\<close>

record timespec =
  tv_sec :: int
  tv_nsec :: int

text \<open>Division that truncates towards zero.\<close>

definition cdiv :: "int \<Rightarrow> int \<Rightarrow> int" where
  "cdiv a b = (if a \<ge> 0 then a div b else - (- a div b))"

definition deadline_of :: "timespec \<Rightarrow> int \<Rightarrow> timespec" where
  "deadline_of now timeout_ms =
     (let s = tv_sec now + cdiv timeout_ms 1000;
          ns = tv_nsec now + (timeout_ms - cdiv timeout_ms 1000 * 1000) * 1000000
      in \<lparr>tv_sec = s + cdiv ns 1000000000, tv_nsec = ns - cdiv ns 1000000000 * 1000000000\<rparr>)"

definition remaining_ms :: "timespec \<Rightarrow> timespec \<Rightarrow> int" where
  "remaining_ms deadline now = (tv_sec deadline - tv_sec now) * 1000 + cdiv (tv_nsec deadline - tv_nsec now) 1000000"

text \<open>What \<open>poll\<close> reports: an error (and whether it is \<open>EINTR\<close>), a timeout, or which of the two descriptors is ready.\<close>

datatype read_poll = ReadPollError bool | ReadPollTimeout | ReadPollReady bool bool

text \<open>
  One iteration: what the peer writes before the ring is read and whether \<open>Close\<close> has been
  called by then, the clock, the result of \<open>poll\<close>, what happens while \<open>poll\<close> waits, and what
  \<open>read\<close> on the socket returns.
\<close>

record pass =
  ps_sent :: "bytes list"
  ps_closed :: bool
  ps_now :: timespec
  ps_poll :: read_poll
  ps_sent2 :: "bytes list"
  ps_closed2 :: bool
  ps_read :: int

text \<open>The peer writes to the ring that the client reads, and notifies.\<close>

fun peer_sends :: "nat \<Rightarrow> bytes list \<Rightarrow> client \<Rightarrow> client option" where
  "peer_sends cap [] cl = Some cl"
| "peer_sends cap (x # xs) cl = (case cl_channel cl of
     None \<Rightarrow> None
   | Some ch \<Rightarrow> (case RingBuf_TryWrite cap (ch_rd ch) (Some x) (word_of_nat (length x)) of
       None \<Rightarrow> None
     | Some (rc, rg) \<Rightarrow>
         if rc \<noteq> 0 then peer_sends cap xs cl
         else peer_sends cap xs (cl\<lparr>cl_channel := Some (ch\<lparr>ch_rd := rg, ch_own_evt := eventfd_write (ch_own_evt ch) 1\<rparr>),
                cl_arrived := cl_arrived cl @ take (unat (word_of_nat (length x) :: u32)) x\<rparr>)))"

definition Client_TryRead :: "nat \<Rightarrow> u32 \<Rightarrow> client \<Rightarrow> (bytes \<times> client) option" where
  "Client_TryRead cap bsize cl = (case cl_channel cl of
     None \<Rightarrow> None
   | Some ch \<Rightarrow> (case RingChannel_TryRead cap ch bsize of
       None \<Rightarrow> None
     | Some (d, ch1) \<Rightarrow> Some (d, cl\<lparr>cl_channel := Some ch1\<rparr>)))"

definition Client_DrainNotify :: "client \<Rightarrow> client" where
  "Client_DrainNotify cl = cl\<lparr>cl_channel := map_option (\<lambda>ch. snd (DrainNotify ch)) (cl_channel cl)\<rparr>"

text \<open>
  The result: the return value with the bytes in the caller's buffer, or still waiting after
  all passes.
\<close>

datatype read_result = Returned int bytes client | Blocked client

definition read_closed :: "bool \<Rightarrow> client \<Rightarrow> client" where
  "read_closed b cl = (if b then Client_Close cl else cl)"

text \<open>The end of a pass, when \<open>poll\<close> reports descriptors: \<open>Inl\<close> what the function returns, \<open>Inr\<close> the state for the next pass.\<close>

definition ReadMessage_ready :: "nat \<Rightarrow> u32 \<Rightarrow> bool \<Rightarrow> bool \<Rightarrow> pass \<Rightarrow> client \<Rightarrow> (read_result + client) option" where
  "ReadMessage_ready cap bsize evt sock p cl = do {
     cl1 \<leftarrow> peer_sends cap (ps_sent2 p) (read_closed (ps_closed2 p) cl);
     let cl2 = (if evt then Client_DrainNotify cl1 else cl1);
     if sock then
       if cl_closed cl1 then Some (Inl (Returned (-1) [] cl1))
       else if ps_read p \<le> 0 then do {
         (d, cl3) \<leftarrow> Client_TryRead cap bsize cl1;
         Some (Inl (if d \<noteq> [] then Returned (to_int (int (length d))) d cl3 else Returned 0 [] (cl3\<lparr>cl_socket := -1\<rparr>)))
       } else Some (Inr cl2)
     else Some (Inr cl2)
   }"

fun ReadMessage_loop :: "nat \<Rightarrow> u32 \<Rightarrow> int \<Rightarrow> timespec \<Rightarrow> pass list \<Rightarrow> client \<Rightarrow> read_result option" where
  "ReadMessage_loop cap bsize timeout_ms deadline [] cl = Some (Blocked cl)"
| "ReadMessage_loop cap bsize timeout_ms deadline (p # ps) cl = do {
     cl1 \<leftarrow> peer_sends cap (ps_sent p) (read_closed (ps_closed p) cl);
     if cl_closed cl1 then Some (Returned (-1) [] cl1)
     else do {
       (d, cl2) \<leftarrow> Client_TryRead cap bsize cl1;
       if d \<noteq> [] then Some (Returned (to_int (int (length d))) d cl2)
       else if timeout_ms \<ge> 0 \<and> remaining_ms deadline (ps_now p) \<le> 0 then Some (Returned (-2) [] cl2)
       else (case ps_poll p of
           ReadPollError eintr \<Rightarrow> if eintr then ReadMessage_loop cap bsize timeout_ms deadline ps cl2 else Some (Returned (-1) [] cl2)
         | ReadPollTimeout \<Rightarrow> Some (Returned (-2) [] cl2)
         | ReadPollReady evt sock \<Rightarrow> do {
             r \<leftarrow> ReadMessage_ready cap bsize evt sock p cl2;
             (case r of Inl res \<Rightarrow> Some res | Inr cl3 \<Rightarrow> ReadMessage_loop cap bsize timeout_ms deadline ps cl3)
           })
     }
   }"

text \<open>\<open>ReadMessage\<close> at the time \<open>start\<close>; the size is converted to 32 bits.\<close>

definition ReadMessage :: "nat \<Rightarrow> nat \<Rightarrow> int \<Rightarrow> timespec \<Rightarrow> pass list \<Rightarrow> client \<Rightarrow> read_result option" where
  "ReadMessage cap bsize timeout_ms start ps cl =
     (if \<not> Connected cl then Some (Returned (-1) [] cl)
      else ReadMessage_loop cap (word_of_nat bsize) timeout_ms
        (if timeout_ms \<ge> 0 then deadline_of start timeout_ms else \<lparr>tv_sec = 0, tv_nsec = 0\<rparr>) ps cl)"

section \<open>Sending is all or nothing\<close>

text \<open>The loop is the one of \<open>ShmConnection::WriteRaw\<close>, counting up instead of down.\<close>

lemma chunk_min:
  assumes "0 < max_write_size cap" "max_write_size cap < 2 ^ 32"
  shows "(if unat x > max_write_size cap then word_of_nat (max_write_size cap) else x) = min x (word_of_nat (max_write_size cap) :: u32)"
  using assms by (auto simp: min_def word_le_nat_alt unat_of_nat_u32)

lemma SendMessage_loop_WriteRaw:
  assumes "0 < max_write_size cap" "max_write_size cap < 2 ^ 32" "0 \<le> sent" "sent \<le> len" "len < 2 ^ 31"
  shows "SendMessage_loop cap msg len sent ch =
    (case WriteRaw_loop cap (drop (nat sent) msg) (word_of_int (len - sent)) ch of
       None \<Rightarrow> None | Some (ok, ch') \<Rightarrow> Some (if ok then len else -1, ch'))"
  using assms
proof (induction cap msg len sent ch rule: SendMessage_loop.induct)
  case (1 cap msg len sent ch)
  define left where "left = (word_of_int (len - sent) :: u32)"
  define chunk where "chunk = min left (word_of_nat (max_write_size cap))"
  have u: "uint left = len - sent" unfolding left_def by (subst uint_word_of_int) (use 1(4,5,6) in simp)
  show ?case
  proof (cases "sent < len")
    case False
    then have "left = 0" "sent = len" using 1(5) by (simp_all add: left_def)
    then show ?thesis by (simp add: SendMessage_loop.simps [of cap msg len] WriteRaw_loop.simps [of cap _ 0])
  next
    case True
    have nz: "left \<noteq> 0" using True u by auto
    have c: "(if unat left > max_write_size cap then word_of_nat (max_write_size cap) else left) = chunk"
      unfolding chunk_def by (rule chunk_min [OF 1(2,3)])
    have le: "uint chunk \<le> len - sent" using u by (simp add: chunk_def min_def word_le_def)
    have dr: "drop (nat (sent + uint chunk)) msg = drop (unat chunk) (drop (nat sent) msg)"
      using 1(4) by (simp add: nat_add_distrib add.commute)
    have lf: "word_of_int (len - (sent + uint chunk)) = left - chunk" by (simp add: left_def algebra_simps)
    have S: "SendMessage_loop cap msg len sent ch = (case RingChannel_TryWrite cap ch (Some (drop (nat sent) msg)) chunk of
        None \<Rightarrow> None
      | Some (rc, ch1) \<Rightarrow> if rc \<noteq> 0 then Some (-1, ch1) else SendMessage_loop cap msg len (sent + uint chunk) ch1)"
      unfolding SendMessage_loop.simps [of cap msg len sent ch] Let_def left_def [symmetric] c using True by simp
    have W: "WriteRaw_loop cap (drop (nat sent) msg) left ch = (case RingChannel_TryWrite cap ch (Some (drop (nat sent) msg)) chunk of
        None \<Rightarrow> None
      | Some (rc, ch1) \<Rightarrow> if rc \<noteq> 0 then Some (False, ch1) else WriteRaw_loop cap (drop (unat chunk) (drop (nat sent) msg)) (left - chunk) ch1)"
      unfolding WriteRaw_loop.simps [of cap "drop (nat sent) msg" left ch] Let_def chunk_def [symmetric] using nz by simp
    have ih: "SendMessage_loop cap msg len (sent + uint chunk) ch1 =
        (case WriteRaw_loop cap (drop (unat chunk) (drop (nat sent) msg)) (left - chunk) ch1 of
           None \<Rightarrow> None | Some (ok, ch') \<Rightarrow> Some (if ok then len else -1, ch'))"
      if "RingChannel_TryWrite cap ch (Some (drop (nat sent) msg)) chunk = Some (0, ch1)" for ch1
      unfolding dr [symmetric] lf [symmetric]
      by (rule 1(1) [OF _ left_def c [symmetric] that refl]) (use True 1(2-) le in simp_all)
    show ?thesis
      unfolding S left_def [symmetric] W using ih
      by (cases "RingChannel_TryWrite cap ch (Some (drop (nat sent) msg)) chunk") (auto split: prod.splits)
  qed
qed

lemma SendMessage_cases:
  assumes "cl_channel cl = Some ch" "ring_wf cap (ch_wr ch)" "\<forall>m. message = Some m \<longrightarrow> len \<le> int (length m)" "len < 2 ^ 31"
  shows "if Connected cl \<and> message \<noteq> None \<and> 0 < len \<and> int (used (ch_wr ch)) + len \<le> int cap
    then \<exists>ch'. SendMessage cap message len cl = Some (len, cl\<lparr>cl_channel := Some ch'\<rparr>) \<and>
      wrote cap ch (take (nat len) (the message)) ch' \<and> ch_peer_evt ch' = eventfd_write (ch_peer_evt ch) 1
    else SendMessage cap message len cl = Some (-1, cl)"
proof (cases "Connected cl \<and> message \<noteq> None \<and> 0 < len")
  case True
  then obtain m where m: "message = Some m" by auto
  have l: "unat (word_of_int len :: u32) = nat len" "unat (word_of_int len :: u64) = nat len"
    using True assms(4) unat_of_nat_u32 [of "nat len"] unat_of_nat_u64 [of "nat len"] by simp_all
  have f: "unat (RingChannel_WritableBytes cap ch) = cap - used (ch_wr ch)"
    using RingBuf_FreeSpace_used [OF assms(2)] by (simp add: RingChannel_WritableBytes_def)
  then have lt: "RingChannel_WritableBytes cap ch < word_of_int len \<longleftrightarrow> \<not> int (used (ch_wr ch)) + len \<le> int cap"
    using ring_wfD(3) [OF assms(2)] l(2) True by (auto simp: word_less_nat_alt)
  have mx: "0 < max_write_size cap" "max_write_size cap < 2 ^ 32"
    using cap_ok_bounds ring_wfD(1) [OF assms(2)] by (fastforce simp: max_write_size_def)+
  show ?thesis
  proof (cases "int (used (ch_wr ch)) + len \<le> int cap")
    case fit: True
    have "used (ch_wr ch) + unat (word_of_int len :: u32) \<le> cap" "unat (word_of_int len :: u32) \<le> length m"
      using fit l(1) True assms(3) m by auto
    from WriteRaw_loop_complete [OF assms(2) this] obtain ch' where
      w: "WriteRaw_loop cap m (word_of_int len) ch = Some (True, ch')" "wrote cap ch (take (nat len) m) ch'"
         "ch_peer_evt ch' = eventfd_write (ch_peer_evt ch) 1" unfolding l(1) by blast
    have "SendMessage_loop cap m len 0 ch = Some (len, ch')"
      using SendMessage_loop_WriteRaw [OF mx, of 0 len m ch] True assms(4) w(1) by simp
    then show ?thesis using True fit m lt w assms(1) by (auto simp: SendMessage_def)
  next
    case False
    then show ?thesis using True lt assms(1) by (simp add: SendMessage_def)
  qed
next
  case False
  then show ?thesis by (auto simp: SendMessage_def)
qed

section \<open>Reading\<close>

definition client_ok :: "nat \<Rightarrow> client \<Rightarrow> bool" where
  "client_ok cap cl \<longleftrightarrow> (\<exists>ch. cl_channel cl = Some ch \<and> ring_wf cap (ch_rd ch))"

definition to_read :: "client \<Rightarrow> bytes" where
  "to_read cl = (case cl_channel cl of None \<Rightarrow> [] | Some ch \<Rightarrow> contents (ch_rd ch))"

text \<open>From one state to another the peer's bytes arrive in order and \<open>d\<close> has been read.\<close>

definition took :: "nat \<Rightarrow> client \<Rightarrow> bytes \<Rightarrow> client \<Rightarrow> bool" where
  "took cap cl d cl' \<longleftrightarrow> client_ok cap cl' \<and> (\<exists>xs. cl_arrived cl' = cl_arrived cl @ xs \<and> to_read cl @ xs = d @ to_read cl')"

lemma took_refl: "client_ok cap cl \<Longrightarrow> took cap cl [] cl"
  by (simp add: took_def)

lemma took_trans: "took cap a [] b \<Longrightarrow> took cap b d c \<Longrightarrow> took cap a d c"
  unfolding took_def by (metis append.assoc append.left_neutral)

lemma took_same:
  "client_ok cap cl \<Longrightarrow> cl_channel cl' = cl_channel cl \<Longrightarrow> cl_arrived cl' = cl_arrived cl \<Longrightarrow> took cap cl [] cl'"
  by (simp add: took_def client_ok_def to_read_def)

lemma took_read_closed: "client_ok cap cl \<Longrightarrow> took cap cl [] (read_closed b cl)"
  by (rule took_same) (simp_all add: read_closed_def Client_Close_def)

lemma cl_closed_read_closed [simp]: "cl_closed (read_closed b cl) \<longleftrightarrow> b \<or> cl_closed cl"
  by (simp add: read_closed_def Client_Close_def)

lemma took_DrainNotify: "client_ok cap cl \<Longrightarrow> took cap cl [] (Client_DrainNotify cl)"
  by (auto simp: took_def client_ok_def to_read_def Client_DrainNotify_def DrainNotify_def eventfd_read_def)

lemma peer_sends_took:
  "client_ok cap cl \<Longrightarrow> \<exists>cl'. peer_sends cap xs cl = Some cl' \<and> took cap cl [] cl' \<and> cl_closed cl' = cl_closed cl"
proof (induction xs arbitrary: cl)
  case (Cons x xs)
  obtain ch where ch: "cl_channel cl = Some ch" "ring_wf cap (ch_rd ch)" using Cons.prems by (auto simp: client_ok_def)
  let ?n = "word_of_nat (length x) :: u32"
  show ?case
  proof (cases "?n = 0 \<or> unat ?n > max_write_size cap \<or> used (ch_rd ch) + unat ?n > cap")
    case True
    then have "RingBuf_TryWrite cap (ch_rd ch) (Some x) ?n = Some (-1, ch_rd ch)"
      using RingBuf_TryWrite_reject [OF ch(2), of "Some x" ?n] by blast
    then show ?thesis using Cons.IH [OF Cons.prems] ch by simp
  next
    case False
    have "unat ?n \<le> length x" by (simp add: unat_of_nat)
    then obtain rg where rg: "RingBuf_TryWrite cap (ch_rd ch) (Some x) ?n = Some (0, rg)" "ring_wf cap rg"
      "contents rg = contents (ch_rd ch) @ take (unat ?n) x"
      using RingBuf_TryWrite_accept [OF ch(2), of ?n x] False by auto
    let ?cl = "cl\<lparr>cl_channel := Some (ch\<lparr>ch_rd := rg, ch_own_evt := eventfd_write (ch_own_evt ch) 1\<rparr>), cl_arrived := cl_arrived cl @ take (unat ?n) x\<rparr>"
    have ok: "client_ok cap ?cl" using rg by (simp add: client_ok_def)
    have t: "took cap cl [] ?cl" using ok rg ch by (simp add: took_def to_read_def)
    obtain cl' where cl': "peer_sends cap xs ?cl = Some cl'" "took cap ?cl [] cl'" "cl_closed cl' = cl_closed ?cl"
      using Cons.IH [OF ok] by blast
    have "peer_sends cap (x # xs) cl = Some cl'" using cl'(1) rg(1) ch(1) by simp
    then show ?thesis using took_trans [OF t cl'(2)] cl'(3) by simp
  qed
qed (simp add: took_refl)

lemma pass_start:
  assumes "client_ok cap cl"
  shows "\<exists>cl'. peer_sends cap xs (read_closed b cl) = Some cl' \<and> took cap cl [] cl' \<and> cl_closed cl' = (b \<or> cl_closed cl)"
proof -
  note t = took_read_closed [OF assms, of b]
  have "client_ok cap (read_closed b cl)" using t by (simp add: took_def)
  from peer_sends_took [OF this, of xs] show ?thesis using took_trans [OF t] by auto
qed

lemma Client_TryRead_took:
  assumes "client_ok cap cl"
  shows "\<exists>cl'. Client_TryRead cap n cl = Some (take (unat n) (to_read cl), cl') \<and> took cap cl (take (unat n) (to_read cl)) cl' \<and>
    cl_closed cl' = cl_closed cl \<and> to_read cl' = drop (unat n) (to_read cl)"
proof -
  obtain ch where ch: "cl_channel cl = Some ch" "ring_wf cap (ch_rd ch)" using assms by (auto simp: client_ok_def)
  obtain rg where rg: "RingBuf_TryRead cap (ch_rd ch) n = Some (take (unat n) (contents (ch_rd ch)), rg)" "ring_wf cap rg"
    "contents rg = drop (unat n) (contents (ch_rd ch))"
    using RingBuf_TryRead_contents [OF ch(2), of n] by blast
  then show ?thesis using ch by (simp add: Client_TryRead_def RingChannel_TryRead_def took_def client_ok_def to_read_def)
qed

text \<open>What a call may have done to the stream when it returns or still waits.\<close>

fun read_outcome :: "nat \<Rightarrow> u32 \<Rightarrow> client \<Rightarrow> read_result \<Rightarrow> bool" where
  "read_outcome cap n cl (Blocked cl') \<longleftrightarrow> took cap cl [] cl'"
| "read_outcome cap n cl (Returned r d cl') \<longleftrightarrow> took cap cl d cl' \<and> length d \<le> unat n \<and>
     (if d = [] then r = -1 \<or> r = -2 \<or> r = 0 else r = int (length d)) \<and> (r = 0 \<and> n \<noteq> 0 \<longrightarrow> to_read cl' = [])"

lemma read_outcome_from: "took cap a [] b \<Longrightarrow> read_outcome cap n b res \<Longrightarrow> read_outcome cap n a res"
  using took_trans by (cases res) auto

lemma took_ok: "took cap a d b \<Longrightarrow> client_ok cap b"
  by (simp add: took_def)

lemma to_int_small: "0 \<le> x \<Longrightarrow> x < 2 ^ 31 \<Longrightarrow> to_int x = x"
  unfolding to_int_def by (subst sint_sbintrunc') (simp add: signed_take_bit_int_eq_self)

lemma read_length:
  assumes "client_ok cap cl" "cap < 2 ^ 31"
  shows "to_int (int (length (take (unat n) (to_read cl)))) = int (length (take (unat n) (to_read cl)))"
    "length (take (unat n) (to_read cl)) \<le> unat n"
proof -
  have "length (to_read cl) \<le> cap" using assms(1) by (auto simp: client_ok_def to_read_def dest: ring_wfD(3))
  then have "int (length (take (unat n) (to_read cl))) < 2 ^ 31" using assms(2) by simp
  then show "to_int (int (length (take (unat n) (to_read cl)))) = int (length (take (unat n) (to_read cl)))"
    by (intro to_int_small) simp_all
qed simp

lemma ReadMessage_ready_outcome:
  assumes "client_ok cap cl" "cap < 2 ^ 31"
  shows "\<exists>r. ReadMessage_ready cap n evt sock p cl = Some r \<and>
    (case r of Inl res \<Rightarrow> read_outcome cap n cl res \<and> (\<exists>i d c. res = Returned i d c) | Inr cl' \<Rightarrow> took cap cl [] cl')"
proof -
  obtain cl1 where 1: "peer_sends cap (ps_sent2 p) (read_closed (ps_closed2 p) cl) = Some cl1" "took cap cl [] cl1"
    using pass_start [OF assms(1), of "ps_sent2 p" "ps_closed2 p"] by blast
  note ok1 = took_ok [OF 1(2)]
  have dr: "took cap cl [] (Client_DrainNotify cl1)" using took_trans [OF 1(2) took_DrainNotify [OF ok1]] .
  define d where "d = take (unat n) (to_read cl1)"
  obtain cl3 where 3: "Client_TryRead cap n cl1 = Some (d, cl3)" "took cap cl1 d cl3" "to_read cl3 = drop (unat n) (to_read cl1)"
    using Client_TryRead_took [OF ok1, of n] unfolding d_def by blast
  have t3: "took cap cl d cl3" by (rule took_trans [OF 1(2) 3(2)])
  have u: "to_read (cl3\<lparr>cl_socket := -1\<rparr>) = to_read cl3" by (simp add: to_read_def)
  have e: "took cap cl [] (cl3\<lparr>cl_socket := -1\<rparr>)" if "d = []"
    using took_trans [OF t3 [unfolded that] took_same [OF took_ok [OF t3]]] by simp
  have z: "to_read cl3 = []" if "d = []" "n \<noteq> 0" using that 3(3) by (auto simp: d_def unat_eq_zero)
  show ?thesis
    using 1 3 t3 dr u e z read_length [OF ok1 assms(2), of n, folded d_def] by (auto simp: ReadMessage_ready_def Let_def)
qed

lemma ReadMessage_loop_outcome:
  "client_ok cap cl \<Longrightarrow> cap < 2 ^ 31 \<Longrightarrow>
     \<exists>res. ReadMessage_loop cap n timeout_ms deadline ps cl = Some res \<and> read_outcome cap n cl res"
proof (induction ps arbitrary: cl)
  case Nil
  then show ?case by (simp add: took_refl)
next
  case (Cons p ps)
  obtain cl1 where 1: "peer_sends cap (ps_sent p) (read_closed (ps_closed p) cl) = Some cl1" "took cap cl [] cl1"
    using pass_start [OF Cons.prems(1), of "ps_sent p" "ps_closed p"] by blast
  note ok1 = took_ok [OF 1(2)]
  define d where "d = take (unat n) (to_read cl1)"
  obtain cl2 where 2: "Client_TryRead cap n cl1 = Some (d, cl2)" "took cap cl1 d cl2"
    using Client_TryRead_took [OF ok1, of n] unfolding d_def by blast
  have t2: "took cap cl d cl2" by (rule took_trans [OF 1(2) 2(2)])
  show ?case
  proof (cases "cl_closed cl1 \<or> d \<noteq> []")
    case True
    then show ?thesis using 1 2 t2 read_length [OF ok1 Cons.prems(2), of n, folded d_def] by auto
  next
    case False
    then have e: "took cap cl [] cl2" "took cap cl1 [] cl2" using t2 2(2) by simp_all
    have ih: "\<exists>res. ReadMessage_loop cap n timeout_ms deadline ps c = Some res \<and> read_outcome cap n cl res" if "took cap cl [] c" for c
      using Cons.IH [OF took_ok [OF that] Cons.prems(2)] read_outcome_from [OF that] by blast
    define r where "r = (\<lambda>evt sock. the (ReadMessage_ready cap n evt sock p cl2))"
    have r: "ReadMessage_ready cap n evt sock p cl2 = Some (r evt sock)"
      "case r evt sock of Inl res \<Rightarrow> read_outcome cap n cl2 res \<and> (\<exists>i d c. res = Returned i d c) | Inr cl' \<Rightarrow> took cap cl2 [] cl'" for evt sock
      using ReadMessage_ready_outcome [OF took_ok [OF e(1)] Cons.prems(2), of n evt sock p] by (auto simp: r_def)
    have rd: "\<exists>res. (case r evt sock of Inl res \<Rightarrow> Some res | Inr cl3 \<Rightarrow> ReadMessage_loop cap n timeout_ms deadline ps cl3) = Some res \<and> read_outcome cap n cl res"
      for evt sock
      using r(2) [of evt sock] read_outcome_from [OF e(1)] ih took_trans [OF e(1)] by (cases "r evt sock") auto
    show ?thesis
      using False 1(1) 2(1) e(1) ih [OF e(1)] r(1) rd
      by (cases "ps_poll p") auto
  qed
qed

text \<open>The events that end a blocking read in a pass.\<close>

definition ends_read :: "int \<Rightarrow> timespec \<Rightarrow> pass \<Rightarrow> bool" where
  "ends_read timeout_ms deadline p \<longleftrightarrow> ps_closed p \<or> (timeout_ms \<ge> 0 \<and> remaining_ms deadline (ps_now p) \<le> 0) \<or>
     (case ps_poll p of ReadPollError eintr \<Rightarrow> \<not> eintr | ReadPollTimeout \<Rightarrow> True | ReadPollReady evt sock \<Rightarrow> sock \<and> (ps_closed2 p \<or> ps_read p \<le> 0))"

lemma ReadMessage_ready_ends:
  assumes "ReadMessage_ready cap n evt sock p cl = Some (Inr cl')" "client_ok cap cl"
  shows "\<not> (sock \<and> (ps_closed2 p \<or> ps_read p \<le> 0))"
proof -
  obtain cl1 where "peer_sends cap (ps_sent2 p) (read_closed (ps_closed2 p) cl) = Some cl1" "cl_closed cl1 = (ps_closed2 p \<or> cl_closed cl)"
    using pass_start [OF assms(2), of "ps_sent2 p" "ps_closed2 p"] by blast
  then show ?thesis using assms(1) by (auto simp: ReadMessage_ready_def Let_def split: Option.bind_splits if_splits)
qed

lemma ReadMessage_loop_blocked:
  "ReadMessage_loop cap n timeout_ms deadline ps cl = Some (Blocked cl') \<Longrightarrow> client_ok cap cl \<Longrightarrow> cap < 2 ^ 31 \<Longrightarrow>
     list_all (\<lambda>p. \<not> ends_read timeout_ms deadline p) ps"
proof (induction ps arbitrary: cl)
  case (Cons p ps)
  obtain cl1 where 1: "peer_sends cap (ps_sent p) (read_closed (ps_closed p) cl) = Some cl1" "took cap cl [] cl1" "cl_closed cl1 = (ps_closed p \<or> cl_closed cl)"
    using pass_start [OF Cons.prems(2), of "ps_sent p" "ps_closed p"] by blast
  obtain cl2 where 2: "Client_TryRead cap n cl1 = Some (take (unat n) (to_read cl1), cl2)" "took cap cl1 (take (unat n) (to_read cl1)) cl2"
    using Client_TryRead_took [OF took_ok [OF 1(2)], of n] by blast
  note ok2 = took_ok [OF 2(2)]
  have nb: "ReadMessage_ready cap n evt sock p cl2 \<noteq> Some (Inl (Blocked cl'))" for evt sock
    using ReadMessage_ready_outcome [OF ok2 Cons.prems(3), of n evt sock p] by auto
  have ok3: "client_ok cap cl3" if "ReadMessage_ready cap n evt sock p cl2 = Some (Inr cl3)" for evt sock cl3
    using ReadMessage_ready_outcome [OF ok2 Cons.prems(3), of n evt sock p] that took_ok by auto
  have "\<not> cl_closed cl1" "take (unat n) (to_read cl1) = []" "\<not> (timeout_ms \<ge> 0 \<and> remaining_ms deadline (ps_now p) \<le> 0)"
    using Cons.prems(1) 1(1) 2(1) by (auto split: if_splits)
  then show ?case
    using Cons.prems 1(1,3) 2(1) nb ok2 ok3 Cons.IH ReadMessage_ready_ends [of cap n _ _ p cl2, OF _ ok2]
    by (cases "ps_poll p") (auto simp: ends_read_def split: if_splits Option.bind_splits sum.splits)
qed simp

section \<open>Time\<close>

definition ts_ns :: "timespec \<Rightarrow> int" where
  "ts_ns t = tv_sec t * 1000000000 + tv_nsec t"

definition ts_valid :: "timespec \<Rightarrow> bool" where
  "ts_valid t \<longleftrightarrow> 0 \<le> tv_nsec t \<and> tv_nsec t < 1000000000"

lemma deadline_of_valid:
  assumes "ts_valid now" "0 \<le> timeout_ms"
  shows "ts_valid (deadline_of now timeout_ms)" "ts_ns (deadline_of now timeout_ms) = ts_ns now + timeout_ms * 1000000"
proof -
  let ?ns = "tv_nsec now + (timeout_ms - timeout_ms div 1000 * 1000) * 1000000"
  have m: "0 \<le> timeout_ms - timeout_ms div 1000 * 1000" by (simp add: minus_div_mult_eq_mod)
  then have d: "deadline_of now timeout_ms =
      \<lparr>tv_sec = tv_sec now + timeout_ms div 1000 + ?ns div 1000000000, tv_nsec = ?ns - ?ns div 1000000000 * 1000000000\<rparr>"
    using assms by (simp add: deadline_of_def ts_valid_def cdiv_def Let_def)
  show "ts_valid (deadline_of now timeout_ms)" unfolding d by (simp add: ts_valid_def minus_div_mult_eq_mod)
  show "ts_ns (deadline_of now timeout_ms) = ts_ns now + timeout_ms * 1000000" unfolding d ts_ns_def by simp
qed

lemma cdiv_bounds: "\<bar>cdiv a 1000000 * 1000000 - a\<bar> < 1000000"
proof -
  have "x div 1000000 * 1000000 \<le> x" "x < x div 1000000 * 1000000 + 1000000" for x :: int
    using div_mult_mod_eq [of x 1000000] pos_mod_bound [of 1000000 x] pos_mod_sign [of 1000000 x] by linarith+
  from this [of a] this [of "- a"] show ?thesis by (simp add: cdiv_def abs_if)
qed

text \<open>
  The time passed to \<open>poll\<close> is within a millisecond of the time left, and until the clock
  runs backwards it is at most the given timeout, so that converting it to \<open>int\<close> is exact.
\<close>

lemma remaining_ms_bounds:
  assumes "ts_valid start" "ts_valid now" "0 \<le> timeout_ms" "timeout_ms < 2 ^ 31" "ts_ns start \<le> ts_ns now"
  defines "ms \<equiv> remaining_ms (deadline_of start timeout_ms) now"
  shows "\<bar>ms * 1000000 - (ts_ns start + timeout_ms * 1000000 - ts_ns now)\<bar> < 1000000" "ms \<le> timeout_ms"
    "0 < ms \<Longrightarrow> to_int ms = ms"
proof -
  let ?d = "deadline_of start timeout_ms"
  have "ms * 1000000 - (ts_ns ?d - ts_ns now) = cdiv (tv_nsec ?d - tv_nsec now) 1000000 * 1000000 - (tv_nsec ?d - tv_nsec now)"
    by (simp add: ms_def remaining_ms_def ts_ns_def algebra_simps)
  then show b: "\<bar>ms * 1000000 - (ts_ns start + timeout_ms * 1000000 - ts_ns now)\<bar> < 1000000"
    using cdiv_bounds [of "tv_nsec ?d - tv_nsec now"] deadline_of_valid(2) [OF assms(1,3)] by simp
  then show "ms \<le> timeout_ms" using assms(5) by linarith
  then show "0 < ms \<Longrightarrow> to_int ms = ms" using assms(4) by (intro to_int_small) simp_all
qed

section \<open>What the client guarantees\<close>

text \<open>An example: connected, with nothing sent and three bytes to read.\<close>

definition demo_rx :: ring where
  "demo_rx = \<lparr>write_pos = 3, read_pos = 0, ring_bytes = [1, 2, 3] @ replicate 1021 0\<rparr>"

definition demo_sync :: client where
  "demo_sync = \<lparr>cl_socket = 5, cl_channel = Some \<lparr>ch_wr = RingBuf_Init 1024, ch_rd = demo_rx, ch_peer_evt = 0, ch_own_evt = 1\<rparr>,
     cl_closed = False, cl_shutdown = False, cl_arrived = []\<rparr>"

definition demo_pass :: "bytes list \<Rightarrow> read_poll \<Rightarrow> pass" where
  "demo_pass xs po = \<lparr>ps_sent = xs, ps_closed = False, ps_now = \<lparr>tv_sec = 0, tv_nsec = 0\<rparr>, ps_poll = po, ps_sent2 = [], ps_closed2 = False,
     ps_read = 0\<rparr>"

lemma demo_rings: "ring_wf 1024 (RingBuf_Init 1024)" "used (RingBuf_Init 1024) = 0" "ring_wf 1024 demo_rx"
proof -
  have c: "cap_ok 1024" by (simp add: cap_ok_def)
  show "used (RingBuf_Init 1024) = 0" by (simp add: RingBuf_Init_def used_def dist_def)
  then show "ring_wf 1024 (RingBuf_Init 1024)" using c by (simp add: ring_wf_def) (simp add: RingBuf_Init_def)
  show "ring_wf 1024 demo_rx" using c by (simp add: ring_wf_def demo_rx_def used_def dist_def)
qed

text \<open>
  \<open>SendMessage\<close> is all or nothing on every branch. If the client is connected, the message
  is not null, its length is positive and it fits into the free space, all its bytes are
  appended to the stream in one call (in as many chunks as the ring's write limit requires), the
  peer is notified, and the length is returned; otherwise -1 is returned and nothing changes.
\<close>

theorem SendMessage_all_or_nothing:
  assumes "cl_channel cl = Some ch" "ring_wf cap (ch_wr ch)" "\<forall>m. message = Some m \<longrightarrow> len \<le> int (length m)" "len < 2 ^ 31"
  shows "if Connected cl \<and> message \<noteq> None \<and> 0 < len \<and> int (used (ch_wr ch)) + len \<le> int cap
    then \<exists>ch'. SendMessage cap message len cl = Some (len, cl\<lparr>cl_channel := Some ch'\<rparr>) \<and>
      contents (ch_wr ch') = contents (ch_wr ch) @ take (nat len) (the message) \<and> ring_wf cap (ch_wr ch') \<and>
      ch_rd ch' = ch_rd ch \<and> ch_peer_evt ch' \<noteq> 0
    else SendMessage cap message len cl = Some (-1, cl)"
proof (cases "Connected cl \<and> message \<noteq> None \<and> 0 < len \<and> int (used (ch_wr ch)) + len \<le> int cap")
  case True
  then obtain ch' where "SendMessage cap message len cl = Some (len, cl\<lparr>cl_channel := Some ch'\<rparr>)"
    "wrote cap ch (take (nat len) (the message)) ch'" "ch_peer_evt ch' = eventfd_write (ch_peer_evt ch) 1"
    using SendMessage_cases [OF assms] by auto
  then show ?thesis using True eventfd_write_signalled by (auto simp: wrote_def)
next
  case False
  then show ?thesis using SendMessage_cases [OF assms] by (simp only: if_False)
qed

theorem SendMessage_all_or_nothing_witness:
  "\<exists>ch'. SendMessage 1024 (Some (replicate 700 7)) 700 demo_sync = Some (700, demo_sync\<lparr>cl_channel := Some ch'\<rparr>) \<and>
    contents (ch_wr ch') = replicate 700 7"
proof -
  let ?ch = "\<lparr>ch_wr = RingBuf_Init 1024, ch_rd = demo_rx, ch_peer_evt = 0, ch_own_evt = 1\<rparr>"
  have e: "contents (RingBuf_Init 1024) = []" using length_contents [of "RingBuf_Init 1024"] demo_rings(2) by (metis length_0_conv)
  have c: "cl_channel demo_sync = Some ?ch" "Connected demo_sync" by (simp_all add: demo_sync_def Connected_def)
  show ?thesis
    using SendMessage_all_or_nothing [OF c(1), of 1024 "Some (replicate 700 7)" 700] c(2) demo_rings e by auto
qed

text \<open>
  C36: \<open>ReadMessage\<close> against any behaviour of its environment (the peer writing at any time,
  \<open>Close\<close> from another thread, any clock and any result of \<open>poll\<close> and \<open>read\<close>): the call is
  defined, and the bytes it returns, followed by what is left in the ring, are what was in the
  ring before followed by what arrived: nothing is lost, duplicated or reordered, even when it
  returns an error or still waits. It returns the number of bytes read, which fit into the
  buffer, or -1, -2 or 0 with no bytes; and, unless the buffer size is 0 or a multiple of \<open>2^32\<close>
  (the size is cast to 32 bits), it reports the end of the stream (0) only when everything that
  was sent has been read. (The ring has less than \<open>2^31\<close> bytes.)
\<close>

theorem ReadMessage_stream:
  assumes "client_ok cap cl" "cap < 2 ^ 31" "cl_arrived cl = []"
  shows "(\<exists>r d cl'. ReadMessage cap bsize timeout_ms start ps cl = Some (Returned r d cl') \<and> to_read cl @ cl_arrived cl' = d @ to_read cl' \<and>
      length d \<le> bsize \<and> (if d = [] then r = -1 \<or> r = -2 \<or> r = 0 else r = int (length d)) \<and>
      (r = 0 \<longrightarrow> to_read cl' = [] \<or> bsize mod 2 ^ 32 = 0)) \<or>
    (\<exists>cl'. ReadMessage cap bsize timeout_ms start ps cl = Some (Blocked cl') \<and> to_read cl @ cl_arrived cl' = to_read cl')"
proof (cases "Connected cl")
  case True
  have u: "unat (word_of_nat bsize :: u32) = bsize mod 2 ^ 32" by (simp add: unat_of_nat take_bit_eq_mod)
  then have n: "unat (word_of_nat bsize :: u32) \<le> bsize" "(word_of_nat bsize :: u32) = 0 \<Longrightarrow> bsize mod 2 ^ 32 = 0" by auto
  define dl where "dl = (if timeout_ms \<ge> 0 then deadline_of start timeout_ms else \<lparr>tv_sec = 0, tv_nsec = 0\<rparr>)"
  obtain res where res: "ReadMessage_loop cap (word_of_nat bsize) timeout_ms dl ps cl = Some res" "read_outcome cap (word_of_nat bsize) cl res"
    using ReadMessage_loop_outcome [OF assms(1,2)] by blast
  have "ReadMessage cap bsize timeout_ms start ps cl = Some res" using True res(1) unfolding ReadMessage_def dl_def [symmetric] by simp
  then show ?thesis using res(2) assms(3) n by (cases res) (auto simp: took_def)
next
  case False
  then show ?thesis using assms(3) by (simp add: ReadMessage_def)
qed

theorem ReadMessage_stream_witness:
  "(\<exists>r d cl'. ReadMessage 1024 2 100 \<lparr>tv_sec = 0, tv_nsec = 0\<rparr> [demo_pass [[4]] ReadPollTimeout] demo_sync = Some (Returned r d cl') \<and>
      to_read demo_sync @ cl_arrived cl' = d @ to_read cl' \<and> length d \<le> 2) \<or>
    (\<exists>cl'. ReadMessage 1024 2 100 \<lparr>tv_sec = 0, tv_nsec = 0\<rparr> [demo_pass [[4]] ReadPollTimeout] demo_sync = Some (Blocked cl') \<and>
      to_read demo_sync @ cl_arrived cl' = to_read cl')"
proof -
  have "client_ok 1024 demo_sync" "cl_arrived demo_sync = []" by (simp_all add: client_ok_def demo_sync_def demo_rings)
  from ReadMessage_stream [OF this(1) _ this(2), of 2 100 "\<lparr>tv_sec = 0, tv_nsec = 0\<rparr>" "[demo_pass [[4]] ReadPollTimeout]"] show ?thesis by auto
qed

text \<open>
  With a buffer of \<open>2^32\<close> bytes the size becomes 0: nothing is read, and when the peer has closed
  its socket the call reports the end of the stream, although there is data in the ring.
\<close>

lemma ReadMessage_size_truncated:
  "\<exists>cl'. ReadMessage 1024 (2 ^ 32) (-1) \<lparr>tv_sec = 0, tv_nsec = 0\<rparr> [demo_pass [] (ReadPollReady False True)] demo_sync
     = Some (Returned 0 [] cl') \<and> to_read cl' = to_read demo_sync \<and> to_read demo_sync \<noteq> []"
proof -
  have "0 < used demo_rx" by (simp add: demo_rx_def used_def dist_def)
  then have "contents demo_rx \<noteq> []" by (metis length_contents length_greater_0_conv)
  moreover have z: "(4294967296 :: u32) = 0" by simp
  have "RingBuf_TryRead 1024 rg 0 = Some ([], rg)" for rg by (auto simp: RingBuf_TryRead_def Let_def)
  ultimately show ?thesis
    by (simp add: z ReadMessage_def Connected_def demo_sync_def demo_pass_def read_closed_def Client_TryRead_def RingChannel_TryRead_def
        ReadMessage_ready_def to_read_def)
qed

text \<open>
  C37: a blocking \<open>ReadMessage\<close> does return: as soon as one pass of its loop sees \<open>Close\<close> called by
  another thread, the deadline passed, a timeout or an error of \<open>poll\<close>, or the peer's end of
  the socket closed, the call has returned, whatever happened in the passes before.
\<close>

theorem ReadMessage_returns:
  assumes "client_ok cap cl" "cap < 2 ^ 31" "p \<in> set ps"
    "ps_closed p \<or> (timeout_ms \<ge> 0 \<and> remaining_ms (deadline_of start timeout_ms) (ps_now p) \<le> 0) \<or> ps_poll p = ReadPollTimeout \<or>
     ps_poll p = ReadPollError False \<or> (\<exists>evt. ps_poll p = ReadPollReady evt True \<and> (ps_closed2 p \<or> ps_read p \<le> 0))"
  shows "\<exists>r d cl'. ReadMessage cap bsize timeout_ms start ps cl = Some (Returned r d cl')"
proof (cases "Connected cl")
  case True
  define dl where "dl = (if timeout_ms \<ge> 0 then deadline_of start timeout_ms else \<lparr>tv_sec = 0, tv_nsec = 0\<rparr>)"
  obtain res where res: "ReadMessage_loop cap (word_of_nat bsize) timeout_ms dl ps cl = Some res"
    using ReadMessage_loop_outcome [OF assms(1,2)] by blast
  have e: "ends_read timeout_ms dl p" using assms(4) by (auto simp: ends_read_def dl_def)
  have "ReadMessage cap bsize timeout_ms start ps cl = Some res" using True res unfolding ReadMessage_def dl_def [symmetric] by simp
  moreover have "res \<noteq> Blocked cl'" for cl'
    using ReadMessage_loop_blocked [of cap "word_of_nat bsize" timeout_ms dl ps cl cl'] res assms(1-3) e by (auto simp: list_all_iff)
  ultimately show ?thesis by (cases res) auto
qed (simp add: ReadMessage_def)

theorem ReadMessage_returns_witness:
  "\<exists>r d cl'. ReadMessage 1024 0 (-1) \<lparr>tv_sec = 0, tv_nsec = 0\<rparr> [demo_pass [] (ReadPollReady True False), demo_pass [] (ReadPollReady False True)] demo_sync
     = Some (Returned r d cl')"
  by (rule ReadMessage_returns [of _ _ "demo_pass [] (ReadPollReady False True)"]) (simp_all add: client_ok_def demo_sync_def demo_rings demo_pass_def)

end
