(* ===== verification/Common.thy ===== *)
theory Common
  imports Ringbuf
begin

text \<open>
  The helpers of \<open>include/shm_ipc/common.hpp\<close>: owning wrappers for descriptors and mappings,
  memfds and eventfds, passing descriptors over a Unix socket, URIs and socket set-up.

  The operating system is modelled as far as these functions use it. Memory files and event
  counters are objects with a number; a process has a table from descriptors to objects, and
  a socket carries messages with bytes and objects. The result of each system call is taken
  from a list of outcomes, so that every error path can be taken (an empty list means that
  all further calls succeed). A function that throws returns \<open>Throw\<close> with the state it left.
\<close>

section \<open>Kernel objects and processes\<close>

text \<open>
  A memory file has a size, a flag for \<open>F_SEAL_SHRINK | F_SEAL_GROW\<close>, and the ring stored in
  it; an eventfd has its counter.
\<close>

datatype kobj = KMem nat bool ring | KEvt u64 | KSock

datatype sysres = SysOk | SysEinval | SysErr | SysShort nat

record sockmsg =
  sm_data :: bytes
  sm_objs :: "nat list"

text \<open>A mapped region: the object and the mapped length. \<open>None\<close> is \<open>MAP_FAILED\<close>.\<close>

type_synonym region = "(nat \<times> nat) option"

text \<open>The members of \<open>RingChannel\<close>; -1 is the empty \<open>UniqueFd\<close>.\<close>

record chan_fds =
  write_memfd :: int
  write_region :: region
  read_memfd :: int
  read_region :: region
  notify_write_efd :: int
  notify_read_efd :: int

definition chan_fds_new :: chan_fds where
  "chan_fds_new = \<lparr>write_memfd = -1, write_region = None, read_memfd = -1, read_region = None,
     notify_write_efd = -1, notify_read_efd = -1\<rparr>"

text \<open>
  The state one side of a handshake works on: all objects, this process's descriptors and
  mappings, the messages to and from the peer, the pending system-call outcomes, the
  socket's time-out, and the channel under construction.
\<close>

record world =
  w_objs :: "kobj list"
  w_fds :: "nat option list"
  w_maps :: "nat list"
  w_out :: "sockmsg list"
  w_in :: "sockmsg list"
  w_sys :: "sysres list"
  w_timeo :: nat
  w_ch :: chan_fds

type_synonym 'a io = "world \<Rightarrow> 'a outcome \<times> world"

definition ret :: "'a \<Rightarrow> 'a io" where "ret x w = (Ret x, w)"

definition throw :: "'a io" where "throw w = (Throw, w)"

definition seqio :: "'a io \<Rightarrow> ('a \<Rightarrow> 'b io) \<Rightarrow> 'b io" where
  "seqio m f w = (case m w of (Ret x, w1) \<Rightarrow> f x w1 | (Throw, w1) \<Rightarrow> (Throw, w1))"

text \<open>The outcome of the next system call.\<close>

definition syscall :: "sysres io" where
  "syscall w = (case w_sys w of [] \<Rightarrow> (Ret SysOk, w) | r # rs \<Rightarrow> (Ret r, w\<lparr>w_sys := rs\<rparr>))"

text \<open>Descriptors are allocated lowest first.\<close>

fun first_free :: "'a option list \<Rightarrow> nat" where
  "first_free [] = 0"
| "first_free (None # xs) = 0"
| "first_free (Some x # xs) = Suc (first_free xs)"

definition fd_install :: "nat \<Rightarrow> int io" where
  "fd_install i w = (let k = first_free (w_fds w) in
     (Ret (int k), w\<lparr>w_fds := (if k < length (w_fds w) then (w_fds w)[k := Some i] else w_fds w @ [Some i])\<rparr>))"

definition fd_obj :: "world \<Rightarrow> int \<Rightarrow> nat option" where
  "fd_obj w fd = (if 0 \<le> fd \<and> nat fd < length (w_fds w) then w_fds w ! nat fd else None)"

definition sys_close :: "int \<Rightarrow> unit io" where
  "sys_close fd w = (Ret (), if 0 \<le> fd then w\<lparr>w_fds := (w_fds w)[nat fd := None]\<rparr> else w)"

definition new_obj :: "kobj \<Rightarrow> nat io" where
  "new_obj ob w = (Ret (length (w_objs w)), w\<lparr>w_objs := w_objs w @ [ob]\<rparr>)"

definition set_obj :: "nat \<Rightarrow> kobj \<Rightarrow> unit io" where
  "set_obj i ob w = (Ret (), w\<lparr>w_objs := (w_objs w)[i := ob]\<rparr>)"

definition sys_munmap :: "region \<Rightarrow> unit io" where
  "sys_munmap r w = (Ret (), case r of None \<Rightarrow> w | Some (i, _) \<Rightarrow> w\<lparr>w_maps := remove1 i (w_maps w)\<rparr>)"

lemmas io_defs = ret_def throw_def seqio_def syscall_def fd_install_def sys_close_def new_obj_def set_obj_def sys_munmap_def Let_def

section \<open>UniqueFd and MmapRegion\<close>

text \<open>
  \<open>Reset\<close> closes what the wrapper owns. A move leaves the source empty; a move assignment
  closes the target's old descriptor first, unless both are the same object.
\<close>

definition UniqueFd_Reset :: "int \<Rightarrow> int \<Rightarrow> int io" where
  "UniqueFd_Reset u fd = (if u \<ge> 0 then seqio (sys_close u) (\<lambda>_. ret fd) else ret fd)"

definition UniqueFd_Release :: "int \<Rightarrow> int \<times> int" where
  "UniqueFd_Release u = (u, -1)"

definition UniqueFd_move :: "int \<Rightarrow> int \<times> int" where
  "UniqueFd_move o' = (o', -1)"

definition UniqueFd_assign :: "bool \<Rightarrow> int \<Rightarrow> int \<Rightarrow> (int \<times> int) io" where
  "UniqueFd_assign same u o' = (if same then ret (u, u) else seqio (UniqueFd_Reset u (-1)) (\<lambda>_. ret (o', -1)))"

definition UniqueFd_bool :: "int \<Rightarrow> bool" where
  "UniqueFd_bool u \<longleftrightarrow> u \<ge> 0"

definition MmapRegion_new :: "int \<Rightarrow> nat \<Rightarrow> (nat \<times> nat) io" where
  "MmapRegion_new fd sz = seqio syscall (\<lambda>r. \<lambda>w.
     case fd_obj w fd of
       Some i \<Rightarrow> if r = SysOk then (Ret (i, sz), w\<lparr>w_maps := i # w_maps w\<rparr>) else (Throw, w)
     | None \<Rightarrow> (Throw, w))"

definition MmapRegion_move :: "region \<Rightarrow> region \<times> region" where
  "MmapRegion_move o' = (o', None)"

definition MmapRegion_assign :: "bool \<Rightarrow> region \<Rightarrow> region \<Rightarrow> (region \<times> region) io" where
  "MmapRegion_assign same r o' = (if same then ret (r, r) else seqio (sys_munmap r) (\<lambda>_. ret (o', None)))"

section \<open>Creating descriptors\<close>

text \<open>
  \<open>CreateMemfd\<close>: with sealing if the kernel knows the flag, else without; sealing the size
  is best effort.
\<close>

definition CreateMemfd :: "nat \<Rightarrow> int io" where
  "CreateMemfd sz = seqio syscall (\<lambda>r1.
     seqio (if r1 = SysEinval then syscall else ret r1) (\<lambda>r2.
     if r2 \<noteq> SysOk then throw
     else seqio (new_obj (KMem 0 False \<lparr>write_pos = 0, read_pos = 0, ring_bytes = []\<rparr>)) (\<lambda>i.
       seqio (fd_install i) (\<lambda>fd.
       seqio syscall (\<lambda>rt.
       if rt \<noteq> SysOk then seqio (sys_close fd) (\<lambda>_. throw)
       else seqio syscall (\<lambda>rs.
         seqio (set_obj i (KMem sz (rs = SysOk \<and> r1 = SysOk)
            \<lparr>write_pos = 0, read_pos = 0, ring_bytes = replicate (sz - header_size) 0\<rparr>)) (\<lambda>_.
         ret fd)))))))"

definition CreateEventfd :: "int io" where
  "CreateEventfd = seqio syscall (\<lambda>r.
     if r \<noteq> SysOk then throw else seqio (new_obj (KEvt 0)) fd_install)"

section \<open>Passing descriptors\<close>

definition kMemfd :: u32 where "kMemfd = 0x4D454D46"
definition kEventfd :: u32 where "kEventfd = 0x45564644"

text \<open>
  \<open>SendFd\<close>: a 256-byte message that starts with the tag and carries one descriptor. A
  short \<open>sendmsg\<close> has delivered a prefix of the bytes, with the descriptor.
\<close>

definition SendFd :: "int \<Rightarrow> u32 \<Rightarrow> unit io" where
  "SendFd fd tag = seqio syscall (\<lambda>r. \<lambda>w.
     let data = u32_bytes tag @ replicate 252 0 in
     case fd_obj w fd of
       None \<Rightarrow> (Throw, w)
     | Some i \<Rightarrow> (case r of
         SysOk \<Rightarrow> (Ret (), w\<lparr>w_out := w_out w @ [\<lparr>sm_data = data, sm_objs = [i]\<rparr>]\<rparr>)
       | SysShort n \<Rightarrow>
           (if n < 256 then Throw else Ret (), w\<lparr>w_out := w_out w @ [\<lparr>sm_data = take n data, sm_objs = [i]\<rparr>]\<rparr>)
       | _ \<Rightarrow> (Throw, w)))"

fun close_all :: "int list \<Rightarrow> unit io" where
  "close_all [] = ret ()"
| "close_all (d # ds) = seqio (sys_close d) (\<lambda>_. close_all ds)"

fun install_all :: "nat list \<Rightarrow> int list io" where
  "install_all [] = ret []"
| "install_all (i # is) = seqio (fd_install i) (\<lambda>d. seqio (install_all is) (\<lambda>ds. ret (d # ds)))"

text \<open>
  \<open>RecvFd\<close>. The control buffer of \<open>CMSG_SPACE(sizeof(int))\<close> = 24 bytes has room for two
  descriptors behind its 16-byte header; the kernel installs those and flags
  \<open>MSG_CTRUNC\<close> if there were more. With no message before the time-out the call fails; an
  empty message stands for the end of the stream. Bytes beyond the 256 of the buffer stay
  in the socket.
\<close>

definition recv_installed :: nat where "recv_installed = 2"

definition recvmsg :: "(bytes \<times> bool \<times> int list) io" where
  "recvmsg = seqio syscall (\<lambda>r. \<lambda>w.
     if r \<noteq> SysOk then (Throw, w)
     else case w_in w of
       [] \<Rightarrow> (Throw, w)
     | m # ms \<Rightarrow>
         let w1 = w\<lparr>w_in := (if length (sm_data m) > 256 then \<lparr>sm_data = drop 256 (sm_data m), sm_objs = []\<rparr> # ms else ms)\<rparr>
         in seqio (install_all (take recv_installed (sm_objs m)))
              (\<lambda>ds. ret (take 256 (sm_data m), length (sm_objs m) > recv_installed, ds)) w1)"

definition RecvFd :: "(int \<times> u32) io" where
  "RecvFd = seqio recvmsg (\<lambda>(data, ctrunc, ds).
     if data = [] then throw
     else if length data < 4 then throw
     else if ctrunc then throw
     else case ds of
       [] \<Rightarrow> throw
     | [fd] \<Rightarrow> ret (fd, bytes_u32 (take 4 data))
     | _ \<Rightarrow> seqio (close_all ds) (\<lambda>_. throw))"

text \<open>A wrong tag destroys the received \<open>UniqueFd\<close>.\<close>

definition RecvFdExpect :: "u32 \<Rightarrow> int io" where
  "RecvFdExpect expected = seqio RecvFd (\<lambda>(fd, tag).
     if tag \<noteq> expected then seqio (UniqueFd_Reset fd (-1)) (\<lambda>_. throw) else ret fd)"

section \<open>URIs and sockets\<close>

text \<open>The position of the first \<open>"://"\<close>.\<close>

fun find_scheme :: "string \<Rightarrow> nat option" where
  "find_scheme [] = None"
| "find_scheme (x # xs) = (if take 3 (x # xs) = ''://'' then Some 0 else map_option Suc (find_scheme xs))"

definition UriToPath :: "string \<Rightarrow> string" where
  "UriToPath uri = (case find_scheme uri of None \<Rightarrow> uri | Some pos \<Rightarrow> drop (pos + 3) uri)"

definition sun_path_size :: nat where "sun_path_size = 108"

text \<open>
  The two socket helpers: the descriptor and the address they bind or connect to. A failure
  after \<open>socket\<close> closes the descriptor.
\<close>

definition ListenUnixSocket :: "string \<Rightarrow> (int \<times> string) io" where
  "ListenUnixSocket path =
     (if length path \<ge> sun_path_size then throw
      else seqio syscall (\<lambda>r.
        if r \<noteq> SysOk then throw
        else seqio (new_obj KSock) (\<lambda>i.
        seqio (fd_install i) (\<lambda>sfd.
        seqio syscall (\<lambda>rb.
        if rb \<noteq> SysOk then seqio (UniqueFd_Reset sfd (-1)) (\<lambda>_. throw)
        else seqio syscall (\<lambda>rl.
          if rl \<noteq> SysOk then seqio (UniqueFd_Reset sfd (-1)) (\<lambda>_. throw)
          else ret (sfd, take (sun_path_size - 1) path)))))))"

definition ConnectUnixSocket :: "string \<Rightarrow> (int \<times> string) io" where
  "ConnectUnixSocket path =
     (if length path \<ge> sun_path_size then throw
      else seqio syscall (\<lambda>r.
        if r \<noteq> SysOk then throw
        else seqio (new_obj KSock) (\<lambda>i.
        seqio (fd_install i) (\<lambda>sfd.
        seqio syscall (\<lambda>rc.
        if rc \<noteq> SysOk then seqio (UniqueFd_Reset sfd (-1)) (\<lambda>_. throw)
        else ret (sfd, take (sun_path_size - 1) path))))))"

section \<open>Descriptor tables\<close>

lemma seqio_Ret: "m w = (Ret x, w1) \<Longrightarrow> seqio m f w = f x w1"
  by (simp add: seqio_def)

lemma seqio_Throw: "m w = (Throw, w1) \<Longrightarrow> seqio m f w = (Throw, w1)"
  by (simp add: seqio_def)

lemma seqio_cases:
  obtains (ret) x w1 where "m w = (Ret x, w1)" "seqio m f w = f x w1"
  | (throw) w1 where "m w = (Throw, w1)" "seqio m f w = (Throw, w1)"
  by (cases "m w"; cases "fst (m w)") (auto simp: seqio_def)

text \<open>The open descriptors of the process, as a map.\<close>

definition fd_map :: "world \<Rightarrow> int \<rightharpoonup> nat" where
  "fd_map w = (\<lambda>fd. fd_obj w fd)"

lemma fd_map_apply: "fd_map w fd = fd_obj w fd"
  by (simp add: fd_map_def)

lemma first_free_free: "first_free xs < length xs \<Longrightarrow> xs ! first_free xs = None"
  by (induction xs rule: first_free.induct) auto

lemma first_free_le: "first_free xs \<le> length xs"
  by (induction xs rule: first_free.induct) auto

lemma fd_install_map:
  assumes "fd_install i w = (r, w')"
  obtains fd where "r = Ret fd" "0 \<le> fd" "fd_map w fd = None" "fd_map w' = (fd_map w)(fd \<mapsto> i)"
    "w' = w\<lparr>w_fds := w_fds w'\<rparr>"
proof -
  let ?k = "first_free (w_fds w)"
  have r: "r = Ret (int ?k)" "w' = w\<lparr>w_fds := w_fds w'\<rparr>"
    "w_fds w' = (if ?k < length (w_fds w) then (w_fds w)[?k := Some i] else w_fds w @ [Some i])"
    using assms by (auto simp: fd_install_def Let_def)
  have "fd_map w (int ?k) = None" using first_free_free [of "w_fds w"] by (auto simp: fd_map_def fd_obj_def)
  moreover have "fd_map w' = (fd_map w)(int ?k \<mapsto> i)"
  proof
    fix fd
    have "?k = length (w_fds w)" if "\<not> ?k < length (w_fds w)" using that first_free_le [of "w_fds w"] by simp
    then show "fd_map w' fd = ((fd_map w)(int ?k \<mapsto> i)) fd"
      using r(3) by (auto simp: fd_map_def fd_obj_def nth_append nth_list_update)
  qed
  ultimately show thesis using r that by simp
qed

lemma sys_close_map:
  assumes "0 \<le> fd" "sys_close fd w = (r, w')"
  shows "r = Ret ()" "fd_map w' = (fd_map w)(fd := None)" "w' = w\<lparr>w_fds := w_fds w'\<rparr>"
  using assms by (auto simp: sys_close_def fd_map_def fd_obj_def nth_list_update fun_eq_iff)

lemma fd_map_cong: "w_fds w = w_fds w' \<Longrightarrow> fd_map w = fd_map w'"
  by (simp add: fd_map_def fd_obj_def fun_eq_iff)

lemma fd_map_upd [simp]:
  "fd_map (w\<lparr>w_in := a\<rparr>) = fd_map w" "fd_map (w\<lparr>w_out := b\<rparr>) = fd_map w" "fd_map (w\<lparr>w_objs := c\<rparr>) = fd_map w"
  "fd_map (w\<lparr>w_sys := d\<rparr>) = fd_map w" "fd_map (w\<lparr>w_maps := e\<rparr>) = fd_map w" "fd_map (w\<lparr>w_timeo := f\<rparr>) = fd_map w"
  "fd_map (w\<lparr>w_ch := g\<rparr>) = fd_map w"
  by (rule fd_map_cong, simp)+

end
