(* ===== verification/Handshake.thy ===== *)
theory Handshake
  imports Common Ring_Channel
begin

text \<open>
  The handshake of \<open>include/shm_ipc/ring_channel.hpp\<close>: \<open>CreateRingChannel\<close> on both sides of a
  Unix socket, with its time-out guard, and the destruction of a half-built channel when an
  exception leaves it.
\<close>

section \<open>The model\<close>

datatype ChannelRole = kClient | kServer

text \<open>Move assignments to the members of the channel under construction.\<close>

definition assign_fd :: "(chan_fds \<Rightarrow> int) \<Rightarrow> ((int \<Rightarrow> int) \<Rightarrow> chan_fds \<Rightarrow> chan_fds) \<Rightarrow> int \<Rightarrow> unit io" where
  "assign_fd get upd fd = seqio (\<lambda>w. UniqueFd_assign False (get (w_ch w)) fd w)
     (\<lambda>(u, _). \<lambda>w. (Ret (), w\<lparr>w_ch := upd (\<lambda>_. u) (w_ch w)\<rparr>))"

definition assign_region :: "(chan_fds \<Rightarrow> region) \<Rightarrow> ((region \<Rightarrow> region) \<Rightarrow> chan_fds \<Rightarrow> chan_fds) \<Rightarrow> nat \<times> nat \<Rightarrow> unit io" where
  "assign_region get upd r = seqio (\<lambda>w. MmapRegion_assign False (get (w_ch w)) (Some r) w)
     (\<lambda>(u, _). \<lambda>w. (Ret (), w\<lparr>w_ch := upd (\<lambda>_. u) (w_ch w)\<rparr>))"

text \<open>\<open>Ring::Init\<close> on a mapped memory file.\<close>

definition init_ring :: "nat \<Rightarrow> nat \<times> nat \<Rightarrow> unit io" where
  "init_ring cap r w = (case w_objs w ! fst r of
     KMem sz sealed rg \<Rightarrow> set_obj (fst r) (KMem sz sealed (RingBuf_Init cap)) w
   | _ \<Rightarrow> (Ret (), w))"

definition CreateWriteRing :: "nat \<Rightarrow> unit io" where
  "CreateWriteRing cap = seqio (CreateMemfd (shm_size cap)) (\<lambda>fd.
     seqio (assign_fd write_memfd write_memfd_update fd) (\<lambda>_.
     seqio (\<lambda>w. MmapRegion_new (write_memfd (w_ch w)) (shm_size cap) w) (\<lambda>r.
     seqio (assign_region write_region write_region_update r) (\<lambda>_.
     init_ring cap r))))"

definition CreateNotifyFd :: "unit io" where
  "CreateNotifyFd = seqio CreateEventfd (assign_fd notify_read_efd notify_read_efd_update)"

definition SendLocalFds :: "unit io" where
  "SendLocalFds = seqio (\<lambda>w. SendFd (write_memfd (w_ch w)) kMemfd w) (\<lambda>_. \<lambda>w. SendFd (notify_read_efd (w_ch w)) kEventfd w)"

definition RecvPeerFds :: "nat \<Rightarrow> unit io" where
  "RecvPeerFds cap = seqio (RecvFdExpect kMemfd) (\<lambda>fd.
     seqio (assign_fd read_memfd read_memfd_update fd) (\<lambda>_.
     seqio (\<lambda>w. MmapRegion_new (read_memfd (w_ch w)) (shm_size cap) w) (\<lambda>r.
     seqio (assign_region read_region read_region_update r) (\<lambda>_.
     seqio (RecvFdExpect kEventfd) (assign_fd notify_write_efd notify_write_efd_update)))))"

text \<open>The local part of either role: the own ring and eventfd are created and sent.\<close>

definition offer_local :: "nat \<Rightarrow> unit io" where
  "offer_local cap = seqio (CreateWriteRing cap) (\<lambda>_. seqio CreateNotifyFd (\<lambda>_. SendLocalFds))"

fun handshake_body :: "nat \<Rightarrow> ChannelRole \<Rightarrow> unit io" where
  "handshake_body cap kClient = seqio (offer_local cap) (\<lambda>_. RecvPeerFds cap)"
| "handshake_body cap kServer = seqio (RecvPeerFds cap) (\<lambda>_. offer_local cap)"

text \<open>
  \<open>HandshakeGuard\<close> of \<open>CreateRingChannel\<close>. The code does not look at the results of \<open>setsockopt\<close>;
  both calls are modelled as succeeding, and only the field \<open>w_timeo\<close> depends on that.
\<close>

definition HandshakeGuard_enter :: "world \<Rightarrow> world" where
  "HandshakeGuard_enter w = w\<lparr>w_timeo := 5\<rparr>"

definition HandshakeGuard_exit :: "world \<Rightarrow> world" where
  "HandshakeGuard_exit w = w\<lparr>w_timeo := 0\<rparr>"

text \<open>The destructors of the members, last declared first.\<close>

definition drop_fd :: "(chan_fds \<Rightarrow> int) \<Rightarrow> ((int \<Rightarrow> int) \<Rightarrow> chan_fds \<Rightarrow> chan_fds) \<Rightarrow> unit io" where
  "drop_fd get upd = seqio (\<lambda>w. UniqueFd_Reset (get (w_ch w)) (-1) w) (\<lambda>u. \<lambda>w. (Ret (), w\<lparr>w_ch := upd (\<lambda>_. u) (w_ch w)\<rparr>))"

definition drop_region :: "(chan_fds \<Rightarrow> region) \<Rightarrow> ((region \<Rightarrow> region) \<Rightarrow> chan_fds \<Rightarrow> chan_fds) \<Rightarrow> unit io" where
  "drop_region get upd = seqio (\<lambda>w. sys_munmap (get (w_ch w)) w) (\<lambda>_. \<lambda>w. (Ret (), w\<lparr>w_ch := upd (\<lambda>_. None) (w_ch w)\<rparr>))"

definition RingChannel_destroy :: "unit io" where
  "RingChannel_destroy =
     seqio (drop_fd notify_read_efd notify_read_efd_update) (\<lambda>_.
     seqio (drop_fd notify_write_efd notify_write_efd_update) (\<lambda>_.
     seqio (drop_region read_region read_region_update) (\<lambda>_.
     seqio (drop_fd read_memfd read_memfd_update) (\<lambda>_.
     seqio (drop_region write_region write_region_update) (\<lambda>_.
     drop_fd write_memfd write_memfd_update)))))"

definition CreateRingChannel :: "nat \<Rightarrow> ChannelRole \<Rightarrow> chan_fds io" where
  "CreateRingChannel cap role w =
     (case handshake_body cap role (HandshakeGuard_enter (w\<lparr>w_ch := chan_fds_new\<rparr>)) of
        (Ret _, w1) \<Rightarrow> (Ret (w_ch w1), HandshakeGuard_exit w1)
      | (Throw, w1) \<Rightarrow> (Throw, snd (RingChannel_destroy (HandshakeGuard_exit w1))))"

section \<open>Triples with a normal and an exceptional postcondition\<close>

definition valid_io :: "(world \<Rightarrow> bool) \<Rightarrow> 'a io \<Rightarrow> ('a \<Rightarrow> world \<Rightarrow> bool) \<Rightarrow> (world \<Rightarrow> bool) \<Rightarrow> bool" where
  "valid_io P m Q E \<longleftrightarrow> (\<forall>w. P w \<longrightarrow> (case m w of (Ret x, w1) \<Rightarrow> Q x w1 | (Throw, w1) \<Rightarrow> E w1))"

named_theorems io_rules

lemma valid_ioI: "(\<And>w. P w \<Longrightarrow> (case m w of (Ret x, w1) \<Rightarrow> Q x w1 | (Throw, w1) \<Rightarrow> E w1)) \<Longrightarrow> valid_io P m Q E"
  by (simp add: valid_io_def)

lemma valid_ioD: "valid_io P m Q E \<Longrightarrow> P w \<Longrightarrow> (case m w of (Ret x, w1) \<Rightarrow> Q x w1 | (Throw, w1) \<Rightarrow> E w1)"
  by (simp add: valid_io_def)

lemma valid_seqio:
  assumes "valid_io P m R E" "\<And>x. valid_io (R x) (f x) Q E"
  shows "valid_io P (seqio m f) Q E"
proof (rule valid_ioI)
  fix w assume "P w"
  then show "case seqio m f w of (Ret x, w1) \<Rightarrow> Q x w1 | (Throw, w1) \<Rightarrow> E w1"
    using valid_ioD [OF assms(1)] valid_ioD [OF assms(2)]
    by (cases rule: seqio_cases [of m w f]) fastforce+
qed

lemma valid_ret: "valid_io (Q x) (ret x) Q E"
  by (simp add: valid_io_def ret_def)

lemma valid_throw: "valid_io E throw Q E"
  by (simp add: valid_io_def throw_def)

lemma valid_if: "(b \<Longrightarrow> valid_io P m Q E) \<Longrightarrow> (\<not> b \<Longrightarrow> valid_io P n Q E) \<Longrightarrow> valid_io P (if b then m else n) Q E"
  by simp

lemma valid_weaken: "valid_io P m Q E \<Longrightarrow> (\<And>w. P' w \<Longrightarrow> P w) \<Longrightarrow> valid_io P' m Q E"
  by (simp add: valid_io_def)

section \<open>Ownership\<close>

text \<open>
  Messages of a peer that sends its descriptors the way \<open>SendFd\<close> does: no more than the
  control buffer holds, and never with less than a tag's worth of bytes.
\<close>

definition msg_ok :: "sockmsg \<Rightarrow> bool" where
  "msg_ok m \<longleftrightarrow> length (sm_objs m) \<le> recv_installed \<and> (sm_objs m \<noteq> [] \<longrightarrow> 4 \<le> length (sm_data m))"

text \<open>
  \<open>owns B M ds rs\<close>: beyond the descriptors \<open>B\<close> and mappings \<open>M\<close> it had before, the process
  has exactly the local descriptors \<open>ds\<close>, the local mappings \<open>rs\<close> and those of the channel
  under construction, each once.
\<close>

definition ch_fds :: "chan_fds \<Rightarrow> int list" where
  "ch_fds c = [write_memfd c, read_memfd c, notify_write_efd c, notify_read_efd c]"

definition region_id :: "region \<Rightarrow> nat list" where
  "region_id r = (case r of None \<Rightarrow> [] | Some (i, _) \<Rightarrow> [i])"

definition ch_maps :: "chan_fds \<Rightarrow> nat list" where
  "ch_maps c = region_id (write_region c) @ region_id (read_region c)"

definition owns :: "(int \<rightharpoonup> nat) \<Rightarrow> (nat \<Rightarrow> nat) \<Rightarrow> int list \<Rightarrow> nat list \<Rightarrow> world \<Rightarrow> bool" where
  "owns B M ds rs w \<longleftrightarrow> list_all msg_ok (w_in w) \<and>
     (\<forall>fd. 0 \<le> fd \<longrightarrow> count_list (ds @ ch_fds (w_ch w)) fd \<le> 1 \<and>
        (if count_list (ds @ ch_fds (w_ch w)) fd = 0 then fd_map w fd = B fd else B fd = None \<and> fd_map w fd \<noteq> None)) \<and>
     (\<forall>i. count_list (w_maps w) i = M i + count_list (rs @ ch_maps (w_ch w)) i)"

lemma owns_upd [simp]:
  "owns B M ds rs (w\<lparr>w_sys := x\<rparr>) = owns B M ds rs w" "owns B M ds rs (w\<lparr>w_objs := y\<rparr>) = owns B M ds rs w"
  "owns B M ds rs (w\<lparr>w_out := z\<rparr>) = owns B M ds rs w" "owns B M ds rs (w\<lparr>w_timeo := t\<rparr>) = owns B M ds rs w"
  by (simp_all add: owns_def)

lemma owns_syscall [io_rules]: "valid_io (owns B M ds rs) syscall (\<lambda>_. owns B M ds rs) E"
  by (simp add: valid_io_def syscall_def split: list.split)

lemma owns_retry [io_rules]: "valid_io (owns B M ds rs) (if b then syscall else ret r) (\<lambda>_. owns B M ds rs) E"
  using owns_syscall [of B M ds rs E] by (simp add: valid_io_def ret_def)

lemma owns_new_obj [io_rules]: "valid_io (owns B M ds rs) (new_obj ob) (\<lambda>_. owns B M ds rs) E"
  by (simp add: valid_io_def new_obj_def)

lemma owns_set_obj [io_rules]: "valid_io (owns B M ds rs) (set_obj i ob) (\<lambda>_. owns B M ds rs) E"
  by (simp add: valid_io_def set_obj_def)

lemma owns_install [io_rules]: "valid_io (owns B M ds rs) (fd_install i) (\<lambda>fd. owns B M (fd # ds) rs) E"
proof (rule valid_ioI)
  fix w assume o: "owns B M ds rs w"
  obtain r w' where r: "fd_install i w = (r, w')" by fastforce
  then show "case fd_install i w of (Ret fd, w1) \<Rightarrow> owns B M (fd # ds) rs w1 | (Throw, w1) \<Rightarrow> E w1"
  proof (rule fd_install_map)
    fix fd
    assume fd: "r = Ret fd" "0 \<le> fd" "fd_map w fd = None" "fd_map w' = (fd_map w)(fd \<mapsto> i)" "w' = w\<lparr>w_fds := w_fds w'\<rparr>"
    have s: "w_ch w' = w_ch w" "w_maps w' = w_maps w" "w_in w' = w_in w" by (subst fd(5), simp)+
    have "count_list (ds @ ch_fds (w_ch w)) fd = 0" "B fd = None" using o fd(2,3) unfolding owns_def by metis+
    then have "owns B M (fd # ds) rs w'" using o fd(4) unfolding owns_def s by auto
    then show ?thesis using r fd(1) by simp
  qed
qed

lemma owns_close [io_rules]: "valid_io (owns B M (fd # ds) rs) (sys_close fd) (\<lambda>_. owns B M ds rs) E"
proof (rule valid_ioI)
  fix w assume o: "owns B M (fd # ds) rs w"
  show "case sys_close fd w of (Ret x, w1) \<Rightarrow> owns B M ds rs w1 | (Throw, w1) \<Rightarrow> E w1"
  proof (cases "0 \<le> fd")
    case True
    obtain r w' where r: "sys_close fd w = (r, w')" by fastforce
    note c = sys_close_map [OF True r]
    have s: "w_ch w' = w_ch w" "w_maps w' = w_maps w" "w_in w' = w_in w" by (subst c(3), simp)+
    have "count_list ((fd # ds) @ ch_fds (w_ch w)) fd \<le> 1" "B fd = None" using o True unfolding owns_def
      by (meson, metis append_Cons count_list.simps(2) Suc_neq_Zero add.commute plus_1_eq_Suc)
    then have "owns B M ds rs w'" using o c(2) unfolding owns_def s by (auto split: if_splits)
    then show ?thesis using r c(1) by simp
  next
    case False
    then have "owns B M ds rs w" using o unfolding owns_def by auto
    then show ?thesis using False by (simp add: sys_close_def)
  qed
qed

lemma owns_Reset [io_rules]: "valid_io (owns B M (fd # ds) rs) (UniqueFd_Reset fd x) (\<lambda>_. owns B M ds rs) E"
proof (cases "0 \<le> fd")
  case True
  then show ?thesis unfolding UniqueFd_Reset_def by (auto intro: valid_seqio owns_close valid_ret)
next
  case False
  then have "owns B M ds rs w" if "owns B M (fd # ds) rs w" for w using that unfolding owns_def by auto
  then show ?thesis using False by (simp add: UniqueFd_Reset_def valid_io_def ret_def)
qed

lemma owns_CreateMemfd [io_rules]:
  "valid_io (owns B M ds rs) (CreateMemfd sz) (\<lambda>fd. owns B M (fd # ds) rs) (owns B M ds rs)"
  unfolding CreateMemfd_def
  by (rule valid_seqio, rule io_rules | rule valid_if | rule valid_throw | rule valid_ret | rule io_rules)+

lemma owns_CreateEventfd [io_rules]:
  "valid_io (owns B M ds rs) CreateEventfd (\<lambda>fd. owns B M (fd # ds) rs) (owns B M ds rs)"
  unfolding CreateEventfd_def
  by (rule valid_seqio, rule io_rules | rule valid_if | rule valid_throw | rule valid_ret | rule io_rules)+

lemma valid_post: "valid_io P m Q E \<Longrightarrow> (\<And>x w. Q x w \<Longrightarrow> Q' x w) \<Longrightarrow> valid_io P m Q' E"
  by (fastforce simp: valid_io_def split: prod.splits outcome.splits)

lemma owns_swap: "owns B M (xs @ d # ds) rs w = owns B M (d # xs @ ds) rs w"
proof -
  have "count_list (xs @ d # ds @ ys) x = count_list (d # xs @ ds @ ys) x" for x ys by simp
  then show ?thesis unfolding owns_def append_assoc append_Cons by presburger
qed

lemma owns_in: "owns B M ds rs w \<Longrightarrow> list_all msg_ok ms \<Longrightarrow> owns B M ds rs (w\<lparr>w_in := ms\<rparr>)"
  by (simp add: owns_def)

lemma owns_SendFd [io_rules]: "valid_io (owns B M ds rs) (SendFd fd tag) (\<lambda>_. owns B M ds rs) (owns B M ds rs)"
  unfolding SendFd_def
  by (rule valid_seqio, rule io_rules) (auto simp: valid_io_def Let_def split: option.split sysres.split)

lemma owns_close_all: "valid_io (owns B M (ds' @ ds) rs) (close_all ds') (\<lambda>_. owns B M ds rs) E"
proof (induction ds')
  case (Cons d ds')
  then show ?case by (auto intro: valid_seqio owns_close)
qed (simp add: valid_io_def ret_def)

lemma owns_install_all: "valid_io (owns B M ds rs) (install_all is) (\<lambda>ds'. owns B M (ds' @ ds) rs) E"
proof (induction "is" arbitrary: ds)
  case Nil
  show ?case using valid_ret [of "\<lambda>ds'. owns B M (ds' @ ds) rs" "[]"] by simp
next
  case (Cons i "is")
  have "valid_io (owns B M (ds' @ d # ds) rs) (ret (d # ds')) (\<lambda>ds'. owns B M (ds' @ ds) rs) E" for d ds'
    using valid_ret [of "\<lambda>ds'. owns B M (ds' @ ds) rs" "d # ds'"] by (simp add: owns_swap valid_io_def)
  then show ?case using Cons [of "_ # ds"] by (auto intro!: valid_seqio owns_install)
qed

lemma install_all_Ret: "\<exists>ds w1. install_all is w = (Ret ds, w1) \<and> length ds = length is"
proof (induction "is" arbitrary: w)
  case (Cons i "is")
  obtain d w1 where "fd_install i w = (Ret d, w1)" by (simp add: fd_install_def Let_def)
  moreover obtain ds w2 where "install_all is w1 = (Ret ds, w2)" "length ds = length is" using Cons by blast
  ultimately show ?case by (auto simp: seqio_def ret_def)
qed (simp add: ret_def)

definition recv_post :: "(int \<rightharpoonup> nat) \<Rightarrow> (nat \<Rightarrow> nat) \<Rightarrow> int list \<Rightarrow> nat list \<Rightarrow> bytes \<times> bool \<times> int list \<Rightarrow> world \<Rightarrow> bool" where
  "recv_post B M ds rs x w = (case x of (data, ctrunc, ds') \<Rightarrow>
     owns B M (ds' @ ds) rs w \<and> \<not> ctrunc \<and> (ds' \<noteq> [] \<longrightarrow> 4 \<le> length data))"

lemma owns_recvmsg: "valid_io (owns B M ds rs) recvmsg (recv_post B M ds rs) (owns B M ds rs)"
  unfolding recvmsg_def
proof (rule valid_seqio, rule owns_syscall, rule valid_ioI)
  fix r w assume o: "owns B M ds rs w"
  let ?res = "if r \<noteq> SysOk then (Throw, w) else case w_in w of [] \<Rightarrow> (Throw, w)
     | m # ms \<Rightarrow> let w1 = w\<lparr>w_in := (if length (sm_data m) > 256 then \<lparr>sm_data = drop 256 (sm_data m), sm_objs = []\<rparr> # ms else ms)\<rparr>
         in seqio (install_all (take recv_installed (sm_objs m)))
              (\<lambda>ds. ret (take 256 (sm_data m), length (sm_objs m) > recv_installed, ds)) w1"
  show "case ?res of (Ret x, w1) \<Rightarrow> recv_post B M ds rs x w1 | (Throw, w1) \<Rightarrow> owns B M ds rs w1"
  proof (cases "r = SysOk \<and> w_in w \<noteq> []")
    case False
    then show ?thesis using o by (auto split: list.split)
  next
    case True
    then obtain m ms where m: "w_in w = m # ms" by (meson neq_Nil_conv)
    have ok: "msg_ok m" "list_all msg_ok ms" using o m by (simp_all add: owns_def)
    define w1 where "w1 = w\<lparr>w_in := (if length (sm_data m) > 256 then \<lparr>sm_data = drop 256 (sm_data m), sm_objs = []\<rparr> # ms else ms)\<rparr>"
    have o1: "owns B M ds rs w1" unfolding w1_def using o ok by (intro owns_in) (simp_all add: msg_ok_def)
    obtain ds' w2 where i: "install_all (take recv_installed (sm_objs m)) w1 = (Ret ds', w2)"
      "length ds' = length (take recv_installed (sm_objs m))" using install_all_Ret by blast
    have "owns B M (ds' @ ds) rs w2" using valid_ioD [OF owns_install_all o1, of "\<lambda>_. True" "take recv_installed (sm_objs m)"] i(1) by simp
    then have "recv_post B M ds rs (take 256 (sm_data m), length (sm_objs m) > recv_installed, ds') w2"
      using ok(1) i(2) by (auto simp: recv_post_def msg_ok_def recv_installed_def)
    then show ?thesis using True m i(1) by (simp add: Let_def seqio_def ret_def flip: w1_def)
  qed
qed

lemma owns_RecvFd [io_rules]: "valid_io (owns B M ds rs) RecvFd (\<lambda>(fd, tag). owns B M (fd # ds) rs) (owns B M ds rs)"
  unfolding RecvFd_def
proof (rule valid_seqio, rule owns_recvmsg, rule valid_ioI)
  fix x w assume p: "recv_post B M ds rs x w"
  obtain data ctrunc ds' where x: "x = (data, ctrunc, ds')" by (metis prod_cases3)
  have o: "owns B M (ds' @ ds) rs w" "\<not> ctrunc" "ds' \<noteq> [] \<longrightarrow> 4 \<le> length data" using p x by (auto simp: recv_post_def)
  consider (short) "length data < 4" "ds' = []" | (none) "4 \<le> length data" "ds' = []" | (one) fd where "4 \<le> length data" "ds' = [fd]"
    | (more) d1 d2 dr where "4 \<le> length data" "ds' = d1 # d2 # dr" using o(3) by (metis neq_Nil_conv not_less)
  then show "case (case x of (data, ctrunc, ds) \<Rightarrow> if data = [] then throw else if length data < 4 then throw else if ctrunc then throw
      else case ds of [] \<Rightarrow> throw | [fd] \<Rightarrow> ret (fd, bytes_u32 (take 4 data)) | fd # a # list \<Rightarrow> seqio (close_all ds) (\<lambda>_. throw)) w of
      (Ret x, w1) \<Rightarrow> (case x of (fd, tag) \<Rightarrow> owns B M (fd # ds) rs) w1 | (Throw, w1) \<Rightarrow> owns B M ds rs w1"
  proof cases
    case more
    have "valid_io (owns B M (ds' @ ds) rs) (seqio (close_all ds') (\<lambda>_. throw)) (\<lambda>(fd, tag). owns B M (fd # ds) rs) (owns B M ds rs)"
      by (rule valid_seqio [OF owns_close_all valid_throw])
    from valid_ioD [OF this o(1)] show ?thesis using more(1) o(2) unfolding x more(2)
      by (cases "data = []") (simp_all del: close_all.simps)
  qed (use o x in \<open>auto simp: throw_def ret_def\<close>)
qed

lemma owns_RecvFdExpect [io_rules]: "valid_io (owns B M ds rs) (RecvFdExpect e) (\<lambda>fd. owns B M (fd # ds) rs) (owns B M ds rs)"
  unfolding RecvFdExpect_def
proof (rule valid_seqio, rule owns_RecvFd)
  fix x :: "int \<times> u32"
  obtain fd tag where x: "x = (fd, tag)" by fastforce
  show "valid_io ((\<lambda>(fd, tag). owns B M (fd # ds) rs) x) ((\<lambda>(fd, tag). if tag \<noteq> e then seqio (UniqueFd_Reset fd (- 1)) (\<lambda>_. throw) else ret fd) x)
      (\<lambda>fd. owns B M (fd # ds) rs) (owns B M ds rs)"
    unfolding x prod.case
    by (rule valid_if, rule valid_seqio, rule owns_Reset, rule valid_throw, rule valid_ret)
qed

lemma owns_MmapRegion_new [io_rules]:
  "valid_io (owns B M ds rs) (MmapRegion_new fd sz) (\<lambda>r. owns B M ds (fst r # rs)) (owns B M ds rs)"
  unfolding MmapRegion_new_def
  by (rule valid_seqio, rule io_rules) (auto simp: valid_io_def owns_def split: option.split)

lemma owns_init_ring [io_rules]: "valid_io (owns B M ds rs) (init_ring cap r) (\<lambda>_. owns B M ds rs) E"
  by (auto simp: valid_io_def init_ring_def set_obj_def split: kobj.split)

subsection \<open>Members of the channel\<close>

definition fd_field :: "(chan_fds \<Rightarrow> int) \<Rightarrow> ((int \<Rightarrow> int) \<Rightarrow> chan_fds \<Rightarrow> chan_fds) \<Rightarrow> bool" where
  "fd_field get upd \<longleftrightarrow> (\<forall>c x fd. count_list (ch_fds (upd (\<lambda>_. x) c)) fd + (if get c = fd then 1 else 0)
        = count_list (ch_fds c) fd + (if x = fd then 1 else 0)) \<and> (\<forall>c x. ch_maps (upd (\<lambda>_. x) c) = ch_maps c)"

lemma fd_fields:
  "fd_field write_memfd write_memfd_update" "fd_field read_memfd read_memfd_update"
  "fd_field notify_write_efd notify_write_efd_update" "fd_field notify_read_efd notify_read_efd_update"
  by (simp_all add: fd_field_def ch_fds_def ch_maps_def)

lemma Reset_eq: "UniqueFd_Reset u x w = (Ret x, snd (sys_close u w))"
  by (simp add: UniqueFd_Reset_def seqio_def ret_def sys_close_def)

lemma assign_fd_eq:
  "assign_fd get upd fd w = (Ret (), (snd (sys_close (get (w_ch w)) w))\<lparr>w_ch := upd (\<lambda>_. fd) (w_ch w)\<rparr>)"
  by (simp add: assign_fd_def UniqueFd_assign_def seqio_def Reset_eq ret_def) (simp add: sys_close_def)

lemma drop_fd_eq:
  "drop_fd get upd w = (Ret (), (snd (sys_close (get (w_ch w)) w))\<lparr>w_ch := upd (\<lambda>_. -1) (w_ch w)\<rparr>)"
  by (simp add: drop_fd_def seqio_def Reset_eq) (simp add: sys_close_def)

text \<open>Replacing a member, when its old descriptor is closed first.\<close>

lemma owns_replace:
  assumes f: "fd_field get upd" and o: "owns B M (x # ds) rs w"
  shows "owns B M ds rs ((snd (sys_close (get (w_ch w)) w))\<lparr>w_ch := upd (\<lambda>_. x) (w_ch w)\<rparr>)"
proof -
  let ?c = "w_ch w" and ?u = "get (w_ch w)"
  let ?w = "snd (sys_close ?u w)"
  have cnt: "count_list (ch_fds (upd (\<lambda>_. x) ?c)) fd + (if ?u = fd then 1 else 0) = count_list (ch_fds ?c) fd + (if x = fd then 1 else 0)" for fd
    using f by (simp add: fd_field_def)
  have m: "ch_maps (upd (\<lambda>_. x) ?c) = ch_maps ?c" using f by (simp add: fd_field_def)
  have s: "w_maps ?w = w_maps w" "w_in ?w = w_in w" by (simp_all add: sys_close_def)
  have fm: "fd_map ?w fd = (if fd = ?u then None else fd_map w fd)" if "0 \<le> fd" for fd
    using sys_close_map(2) [of ?u w] that by (cases "0 \<le> ?u") (auto simp: sys_close_def)
  have main: "count_list (ds @ ch_fds (upd (\<lambda>_. x) ?c)) fd \<le> 1 \<and>
      (if count_list (ds @ ch_fds (upd (\<lambda>_. x) ?c)) fd = 0 then fd_map ?w fd = B fd else B fd = None \<and> fd_map ?w fd \<noteq> None)"
    if pos: "0 \<le> fd" for fd
  proof -
    have o1: "count_list ((x # ds) @ ch_fds ?c) fd \<le> 1"
      "if count_list ((x # ds) @ ch_fds ?c) fd = 0 then fd_map w fd = B fd else B fd = None \<and> fd_map w fd \<noteq> None"
      using o pos unfolding owns_def by blast+
    have "count_list (ch_fds (upd (\<lambda>_. ?u + 1) ?c)) ?u + 1 = count_list (ch_fds ?c) ?u"
      using spec [OF spec [OF spec [OF conjunct1 [OF f [unfolded fd_field_def]], of ?c], of "?u + 1"], of ?u] by simp
    then have u: "0 < count_list (ch_fds ?c) ?u" by linarith
    show ?thesis using o1 cnt [of fd] fm [OF pos] u by (cases "fd = ?u"; cases "x = fd") (auto split: if_splits)
  qed
  show ?thesis using o main m s unfolding owns_def by simp
qed

lemma owns_assign_fd:
  assumes "fd_field get upd"
  shows "valid_io (owns B M (fd # ds) rs) (assign_fd get upd fd) (\<lambda>_. owns B M ds rs) E"
  using owns_replace [OF assms] by (simp add: valid_io_def assign_fd_eq)

lemma owns_negative: "owns B M (-1 # ds) rs w = owns B M ds rs w"
proof -
  have "count_list ((-1 # ds) @ ys) fd = count_list (ds @ ys) fd" if "0 \<le> fd" for fd ys using that by auto
  then show ?thesis unfolding owns_def by (simp only: cong: conj_cong imp_cong)
qed

lemma owns_drop_fd:
  assumes "fd_field get upd"
  shows "valid_io (owns B M ds rs) (drop_fd get upd) (\<lambda>_. owns B M ds rs) E"
  using owns_replace [OF assms, of B M "-1" ds rs] by (simp add: valid_io_def drop_fd_eq owns_negative)

definition region_field :: "(chan_fds \<Rightarrow> region) \<Rightarrow> ((region \<Rightarrow> region) \<Rightarrow> chan_fds \<Rightarrow> chan_fds) \<Rightarrow> bool" where
  "region_field get upd \<longleftrightarrow> (\<forall>c x i. count_list (ch_maps (upd (\<lambda>_. x) c)) i + count_list (region_id (get c)) i
        = count_list (ch_maps c) i + count_list (region_id x) i) \<and> (\<forall>c x. ch_fds (upd (\<lambda>_. x) c) = ch_fds c)"

lemma region_fields: "region_field write_region write_region_update" "region_field read_region read_region_update"
  by (simp_all add: region_field_def ch_fds_def ch_maps_def)

lemma count_list_remove1: "count_list (remove1 x xs) y = count_list xs y - (if x = y then 1 else 0)"
  by (induction xs) auto

lemma count_munmap: "count_list (w_maps (snd (sys_munmap r w))) i = count_list (w_maps w) i - count_list (region_id r) i"
  by (simp add: sys_munmap_def region_id_def count_list_remove1 split: option.split prod.split)

lemma munmap_sel: "w_in (snd (sys_munmap r w)) = w_in w" "w_fds (snd (sys_munmap r w)) = w_fds w"
  "w_ch (snd (sys_munmap r w)) = w_ch w"
  by (simp_all add: sys_munmap_def split: option.split prod.split)

lemma owns_replace_region:
  assumes f: "region_field get upd" and o: "owns B M ds (region_id x @ rs) w"
  shows "owns B M ds rs ((snd (sys_munmap (get (w_ch w)) w))\<lparr>w_ch := upd (\<lambda>_. x) (w_ch w)\<rparr>)"
proof -
  let ?c = "w_ch w" and ?w = "snd (sys_munmap (get (w_ch w)) w)"
  have cnt: "count_list (ch_maps (upd (\<lambda>_. x) ?c)) i + count_list (region_id (get ?c)) i
      = count_list (ch_maps ?c) i + count_list (region_id x) i" for i using f by (simp add: region_field_def)
  have "count_list (w_maps ?w) i = M i + count_list (rs @ ch_maps (upd (\<lambda>_. x) ?c)) i" for i
  proof -
    have "count_list (w_maps w) i = M i + count_list ((region_id x @ rs) @ ch_maps ?c) i" using o by (simp add: owns_def)
    then show ?thesis using cnt [of i] by (simp add: count_munmap)
  qed
  moreover have "fd_map ?w = fd_map w" by (rule fd_map_cong) (simp add: munmap_sel)
  ultimately show ?thesis using o f unfolding owns_def region_field_def by (simp add: munmap_sel)
qed

lemma assign_region_eq:
  "assign_region get upd r w = (Ret (), (snd (sys_munmap (get (w_ch w)) w))\<lparr>w_ch := upd (\<lambda>_. Some r) (w_ch w)\<rparr>)"
  using munmap_sel(3) [of "get (w_ch w)" w]
  by (simp add: assign_region_def MmapRegion_assign_def seqio_def ret_def sys_munmap_def)

lemma drop_region_eq:
  "drop_region get upd w = (Ret (), (snd (sys_munmap (get (w_ch w)) w))\<lparr>w_ch := upd (\<lambda>_. None) (w_ch w)\<rparr>)"
  using munmap_sel(3) [of "get (w_ch w)" w] by (simp add: drop_region_def seqio_def sys_munmap_def)

lemma owns_assign_region:
  assumes "region_field get upd"
  shows "valid_io (owns B M ds (fst r # rs)) (assign_region get upd r) (\<lambda>_. owns B M ds rs) E"
  using owns_replace_region [OF assms, of B M ds "Some r" rs]
  by (simp add: valid_io_def assign_region_eq region_id_def split_beta)

lemma owns_drop_region:
  assumes "region_field get upd"
  shows "valid_io (owns B M ds rs) (drop_region get upd) (\<lambda>_. owns B M ds rs) E"
  using owns_replace_region [OF assms, of B M ds None rs] by (simp add: valid_io_def drop_region_eq region_id_def)

lemmas member_rules = owns_assign_fd [OF fd_fields(1)] owns_assign_fd [OF fd_fields(2)] owns_assign_fd [OF fd_fields(3)]
  owns_assign_fd [OF fd_fields(4)] owns_drop_fd [OF fd_fields(1)] owns_drop_fd [OF fd_fields(2)]
  owns_drop_fd [OF fd_fields(3)] owns_drop_fd [OF fd_fields(4)] owns_assign_region [OF region_fields(1)]
  owns_assign_region [OF region_fields(2)] owns_drop_region [OF region_fields(1)] owns_drop_region [OF region_fields(2)]

section \<open>The handshake keeps what it owns\<close>

text \<open>An action whose arguments are read from the state.\<close>

lemma valid_reader: "(\<And>c. valid_io P (m c) Q E) \<Longrightarrow> valid_io P (\<lambda>w. m (g w) w) Q E"
  by (simp add: valid_io_def)

lemma owns_CreateWriteRing:
  "valid_io (owns B M ds rs) (CreateWriteRing cap) (\<lambda>_. owns B M ds rs) (owns B M ds rs)"
  unfolding CreateWriteRing_def
  by (rule valid_seqio, (rule io_rules member_rules | rule valid_reader, rule io_rules) | rule io_rules)+

lemma owns_CreateNotifyFd: "valid_io (owns B M ds rs) CreateNotifyFd (\<lambda>_. owns B M ds rs) (owns B M ds rs)"
  unfolding CreateNotifyFd_def by (rule valid_seqio, rule io_rules, rule member_rules)

lemma owns_SendLocalFds: "valid_io (owns B M ds rs) SendLocalFds (\<lambda>_. owns B M ds rs) (owns B M ds rs)"
  unfolding SendLocalFds_def
  by (rule valid_seqio, rule valid_reader [where m = "\<lambda>c. SendFd c kMemfd"], rule io_rules,
      rule valid_reader [where m = "\<lambda>c. SendFd c kEventfd"], rule io_rules)

lemma owns_RecvPeerFds: "valid_io (owns B M ds rs) (RecvPeerFds cap) (\<lambda>_. owns B M ds rs) (owns B M ds rs)"
  unfolding RecvPeerFds_def
  by (rule valid_seqio, (rule io_rules member_rules | rule valid_reader, rule io_rules) | rule member_rules)+

lemma owns_offer_local: "valid_io (owns B M ds rs) (offer_local cap) (\<lambda>_. owns B M ds rs) (owns B M ds rs)"
  unfolding offer_local_def
  by (rule valid_seqio, rule owns_CreateWriteRing, rule valid_seqio, rule owns_CreateNotifyFd, rule owns_SendLocalFds)

lemma owns_handshake_body: "valid_io (owns B M ds rs) (handshake_body cap role) (\<lambda>_. owns B M ds rs) (owns B M ds rs)"
  by (cases role) (auto intro: valid_seqio owns_offer_local owns_RecvPeerFds)

lemma owns_destroy: "valid_io (owns B M ds rs) RingChannel_destroy (\<lambda>_. owns B M ds rs) E"
  unfolding RingChannel_destroy_def by (rule valid_seqio, rule member_rules | rule member_rules)+

lemma drop_timeo:
  "w_timeo (snd (drop_fd get upd w)) = w_timeo w" "w_timeo (snd (drop_region gr ur w)) = w_timeo w"
  by (simp_all add: drop_fd_eq drop_region_eq sys_close_def sys_munmap_def split: option.split prod.split)

lemma drop_fst: "fst (drop_fd get upd w) = Ret ()" "fst (drop_region gr ur w) = Ret ()"
  by (simp_all add: drop_fd_eq drop_region_eq)

lemma drop_ch:
  "w_ch (snd (drop_fd get upd w)) = upd (\<lambda>_. -1) (w_ch w)" "w_ch (snd (drop_region gr ur w)) = ur (\<lambda>_. None) (w_ch w)"
  by (simp_all add: drop_fd_eq drop_region_eq)

lemma seqio_fst: "fst (m w) = Ret x \<Longrightarrow> seqio m f w = f x (snd (m w))"
  by (cases "m w") (simp add: seqio_def)

lemma destroy_empty:
  "w_ch (snd (RingChannel_destroy w)) = chan_fds_new" "w_timeo (snd (RingChannel_destroy w)) = w_timeo w"
  by (simp_all add: RingChannel_destroy_def seqio_fst [OF drop_fst(1)] seqio_fst [OF drop_fst(2)] drop_ch drop_timeo chan_fds_new_def)

lemma owns_initial:
  assumes "list_all msg_ok (w_in w)" "w_ch w' = chan_fds_new" "w_fds w' = w_fds w" "w_maps w' = w_maps w" "w_in w' = w_in w"
  shows "owns (fd_map w) (count_list (w_maps w)) [] [] w'"
  using assms fd_map_cong [of w' w]
  by (auto simp: owns_def ch_fds_def ch_maps_def region_id_def chan_fds_new_def)

lemma owns_final:
  assumes "owns B M [] [] w" "w_ch w = chan_fds_new" "\<forall>fd < 0. B fd = None"
  shows "fd_map w = B \<and> count_list (w_maps w) = M"
proof
  show "fd_map w = B"
  proof
    fix fd
    show "fd_map w fd = B fd"
    proof (cases "0 \<le> fd")
      case True
      then show ?thesis using assms(1,2) by (auto simp: owns_def ch_fds_def chan_fds_new_def)
    next
      case False
      then show ?thesis using assms(3) by (simp add: fd_map_def fd_obj_def)
    qed
  qed
  show "count_list (w_maps w) = M"
    using assms(1,2) by (auto simp: owns_def ch_maps_def region_id_def chan_fds_new_def)
qed

section \<open>A fault-free handshake\<close>

text \<open>The descriptor table after an allocation.\<close>

definition alloc :: "nat \<Rightarrow> nat option list \<Rightarrow> nat option list" where
  "alloc i fds = (if first_free fds < length fds then fds[first_free fds := Some i] else fds @ [Some i])"

lemma fd_install_eq: "fd_install i w = (Ret (int (first_free (w_fds w))), w\<lparr>w_fds := alloc i (w_fds w)\<rparr>)"
  by (simp add: fd_install_def alloc_def Let_def)

definition tab :: "nat option list \<Rightarrow> int \<Rightarrow> nat option" where
  "tab fds fd = (if 0 \<le> fd \<and> nat fd < length fds then fds ! nat fd else None)"

lemma fd_obj_tab: "fd_obj w fd = tab (w_fds w) fd"
  by (simp add: fd_obj_def tab_def)

lemma tab_alloc_new [simp]: "tab (alloc i fds) (int (first_free fds)) = Some i"
  using first_free_le [of fds] by (auto simp: tab_def alloc_def nth_append)

lemma tab_alloc_old: "tab fds fd = Some x \<Longrightarrow> tab (alloc i fds) fd = Some x"
  using first_free_free [of fds] by (auto simp: tab_def alloc_def nth_append nth_list_update split: if_splits)

lemma sys_close_neg [simp]: "sys_close (-1) w = (Ret (), w)"
  by (simp add: sys_close_def)

lemma sys_munmap_None [simp]: "sys_munmap None w = (Ret (), w)"
  by (simp add: sys_munmap_def)

definition mem_msg :: "nat \<Rightarrow> sockmsg" where
  "mem_msg i = \<lparr>sm_data = u32_bytes kMemfd @ replicate 252 0, sm_objs = [i]\<rparr>"

definition evt_msg :: "nat \<Rightarrow> sockmsg" where
  "evt_msg i = \<lparr>sm_data = u32_bytes kEventfd @ replicate 252 0, sm_objs = [i]\<rparr>"

lemma CreateMemfd_ok:
  assumes "w_sys w = []"
  shows "CreateMemfd sz w = (Ret (int (first_free (w_fds w))), w\<lparr>w_objs := w_objs w @
     [KMem sz True \<lparr>write_pos = 0, read_pos = 0, ring_bytes = replicate (sz - header_size) 0\<rparr>], w_fds := alloc (length (w_objs w)) (w_fds w)\<rparr>)"
  using assms by (simp add: CreateMemfd_def seqio_def syscall_def ret_def new_obj_def fd_install_eq set_obj_def)

lemma CreateEventfd_ok:
  assumes "w_sys w = []"
  shows "CreateEventfd w = (Ret (int (first_free (w_fds w))), w\<lparr>w_objs := w_objs w @ [KEvt 0], w_fds := alloc (length (w_objs w)) (w_fds w)\<rparr>)"
  using assms by (simp add: CreateEventfd_def seqio_def syscall_def new_obj_def fd_install_eq)

lemma MmapRegion_new_ok:
  "w_sys w = [] \<Longrightarrow> tab (w_fds w) fd = Some i \<Longrightarrow> MmapRegion_new fd sz w = (Ret (i, sz), w\<lparr>w_maps := i # w_maps w\<rparr>)"
  by (simp add: MmapRegion_new_def seqio_def syscall_def fd_obj_tab)

lemma SendFd_ok:
  "w_sys w = [] \<Longrightarrow> tab (w_fds w) fd = Some i \<Longrightarrow>
     SendFd fd tag w = (Ret (), w\<lparr>w_out := w_out w @ [\<lparr>sm_data = u32_bytes tag @ replicate 252 0, sm_objs = [i]\<rparr>]\<rparr>)"
  by (simp add: SendFd_def seqio_def syscall_def fd_obj_tab Let_def)

lemma RecvFdExpect_ok:
  assumes "w_sys w = []" "w_in w = \<lparr>sm_data = u32_bytes tag @ replicate 252 0, sm_objs = [i]\<rparr> # ms"
  shows "RecvFdExpect tag w = (Ret (int (first_free (w_fds w))), w\<lparr>w_in := ms, w_fds := alloc i (w_fds w)\<rparr>)"
proof -
  have "recvmsg w = (Ret (u32_bytes tag @ replicate 252 0, False, [int (first_free (w_fds w))]),
      w\<lparr>w_in := ms, w_fds := alloc i (w_fds w)\<rparr>)"
    using assms by (simp add: recvmsg_def seqio_def syscall_def ret_def fd_install_eq recv_installed_def Let_def)
  moreover have "u32_bytes tag @ replicate 252 0 \<noteq> []" by simp
  ultimately show ?thesis
    by (simp add: RecvFdExpect_def RecvFd_def seqio_def ret_def)
qed

lemma init_ring_ok:
  "i < length (w_objs w) \<Longrightarrow> w_objs w ! i = KMem sz sl rg \<Longrightarrow>
     init_ring cap (i, m) w = (Ret (), w\<lparr>w_objs := (w_objs w)[i := KMem sz sl (RingBuf_Init cap)]\<rparr>)"
  by (simp add: init_ring_def set_obj_def)

text \<open>One side's offer, and the other side's acceptance of it.\<close>

lemma offer_local_ok:
  assumes "w_sys w = []" "write_memfd (w_ch w) = -1" "write_region (w_ch w) = None" "notify_read_efd (w_ch w) = -1"
  shows "\<exists>w'. offer_local cap w = (Ret (), w') \<and> w_sys w' = [] \<and> w_in w' = w_in w \<and>
     w_objs w' = w_objs w @ [KMem (shm_size cap) True (RingBuf_Init cap), KEvt 0] \<and>
     w_out w' = w_out w @ [mem_msg (length (w_objs w)), evt_msg (Suc (length (w_objs w)))] \<and>
     write_region (w_ch w') = Some (length (w_objs w), shm_size cap) \<and>
     tab (w_fds w') (notify_read_efd (w_ch w')) = Some (Suc (length (w_objs w))) \<and>
     (\<forall>fd x. tab (w_fds w) fd = Some x \<longrightarrow> tab (w_fds w') fd = Some x) \<and>
     read_region (w_ch w') = read_region (w_ch w) \<and> read_memfd (w_ch w') = read_memfd (w_ch w) \<and>
     notify_write_efd (w_ch w') = notify_write_efd (w_ch w)"
proof -
  let ?n = "length (w_objs w)"
  let ?k = "int (first_free (w_fds w))" and ?t1 = "alloc ?n (w_fds w)"
  let ?k2 = "int (first_free ?t1)" and ?t2 = "alloc (Suc ?n) ?t1"
  define w1 where "w1 = w\<lparr>w_objs := w_objs w @ [KMem (shm_size cap) True (RingBuf_Init cap)], w_fds := ?t1,
     w_maps := ?n # w_maps w, w_ch := (w_ch w)\<lparr>write_memfd := ?k, write_region := Some (?n, shm_size cap)\<rparr>\<rparr>"
  have "CreateWriteRing cap w = (Ret (), w1)"
    using assms
    by (simp add: CreateWriteRing_def seqio_def CreateMemfd_ok assign_fd_eq assign_region_eq MmapRegion_new_ok init_ring_ok w1_def)
  moreover define w2 where "w2 = w1\<lparr>w_objs := w_objs w1 @ [KEvt 0], w_fds := ?t2, w_ch := (w_ch w1)\<lparr>notify_read_efd := ?k2\<rparr>\<rparr>"
  have "CreateNotifyFd w1 = (Ret (), w2)"
    using assms by (simp add: CreateNotifyFd_def seqio_def CreateEventfd_ok assign_fd_eq w1_def w2_def)
  moreover have "tab (w_fds w2) (write_memfd (w_ch w2)) = Some ?n" "tab (w_fds w2) (notify_read_efd (w_ch w2)) = Some (Suc ?n)"
    by (simp_all add: w2_def w1_def tab_alloc_old)
  moreover have "SendLocalFds w2 = (Ret (), w2\<lparr>w_out := w_out w2 @ [mem_msg ?n, evt_msg (Suc ?n)]\<rparr>)"
    using calculation(3,4) assms(1)
    by (simp add: SendLocalFds_def seqio_def SendFd_ok mem_msg_def evt_msg_def w2_def w1_def)
  moreover have "tab (w_fds w2) fd = Some x" if "tab (w_fds w) fd = Some x" for fd x
    using that by (simp add: w2_def tab_alloc_old)
  ultimately show ?thesis using assms(1) by (simp add: offer_local_def seqio_def) (simp add: w2_def w1_def)
qed

lemma RecvPeerFds_ok:
  assumes "w_sys w = []" "w_in w = mem_msg i # evt_msg j # ms"
    "read_memfd (w_ch w) = -1" "read_region (w_ch w) = None" "notify_write_efd (w_ch w) = -1"
  shows "\<exists>w'. RecvPeerFds cap w = (Ret (), w') \<and> w_sys w' = [] \<and> w_in w' = ms \<and> w_objs w' = w_objs w \<and> w_out w' = w_out w \<and>
     read_region (w_ch w') = Some (i, shm_size cap) \<and> tab (w_fds w') (notify_write_efd (w_ch w')) = Some j \<and>
     (\<forall>fd x. tab (w_fds w) fd = Some x \<longrightarrow> tab (w_fds w') fd = Some x) \<and>
     write_memfd (w_ch w') = write_memfd (w_ch w) \<and> write_region (w_ch w') = write_region (w_ch w) \<and>
     notify_read_efd (w_ch w') = notify_read_efd (w_ch w)"
proof -
  let ?k = "int (first_free (w_fds w))" and ?t1 = "alloc i (w_fds w)"
  define w1 where "w1 = w\<lparr>w_in := evt_msg j # ms, w_fds := ?t1, w_maps := i # w_maps w,
     w_ch := (w_ch w)\<lparr>read_memfd := ?k, read_region := Some (i, shm_size cap)\<rparr>\<rparr>"
  define w2 where "w2 = w1\<lparr>w_in := ms, w_fds := alloc j ?t1, w_ch := (w_ch w1)\<lparr>notify_write_efd := int (first_free ?t1)\<rparr>\<rparr>"
  have r1: "RecvFdExpect kMemfd w = (Ret ?k, w\<lparr>w_in := evt_msg j # ms, w_fds := ?t1\<rparr>)"
    using RecvFdExpect_ok [of w kMemfd i "evt_msg j # ms"] assms(1,2) by (simp add: mem_msg_def)
  have r2: "RecvFdExpect kEventfd w1 = (Ret (int (first_free ?t1)), w1\<lparr>w_in := ms, w_fds := alloc j ?t1\<rparr>)"
    using RecvFdExpect_ok [of w1 kEventfd j ms] assms(1) by (simp add: w1_def evt_msg_def)
  have "RecvPeerFds cap w = (Ret (), w2)"
    using assms(1,3,4,5) r2
    by (simp add: RecvPeerFds_def seqio_def r1 assign_fd_eq assign_region_eq MmapRegion_new_ok flip: w1_def)
      (simp add: w2_def w1_def)
  moreover have "tab (w_fds w2) fd = Some x" if "tab (w_fds w) fd = Some x" for fd x
    using that by (simp add: w2_def tab_alloc_old)
  ultimately show ?thesis using assms(1) by (simp add: w2_def w1_def)
qed

text \<open>
  Both sides together. The client sends its offer before it waits, so its handshake is cut
  at that point; the server runs its whole handshake on the client's messages, and the
  client completes with the server's. The objects are shared, everything else is per
  process. \<open>None\<close> means that one of the sides threw.
\<close>

definition handshake :: "nat \<Rightarrow> world \<Rightarrow> world \<Rightarrow> (chan_fds \<times> world \<times> chan_fds \<times> world) option" where
  "handshake cap c s = (case offer_local cap (HandshakeGuard_enter (c\<lparr>w_ch := chan_fds_new\<rparr>)) of
     (Throw, _) \<Rightarrow> None
   | (Ret _, c1) \<Rightarrow> (case CreateRingChannel cap kServer (s\<lparr>w_objs := w_objs c1, w_in := w_in s @ w_out c1\<rparr>) of
       (Throw, _) \<Rightarrow> None
     | (Ret chs, s1) \<Rightarrow> (case RecvPeerFds cap (c1\<lparr>w_objs := w_objs s1, w_in := w_in c1 @ w_out s1\<rparr>) of
         (Throw, _) \<Rightarrow> None
       | (Ret _, c2) \<Rightarrow> Some (w_ch c2, HandshakeGuard_exit c2, chs, s1))))"

text \<open>The four kernel objects behind a channel: write ring, read ring, peer's and own counter.\<close>

definition channel_objs :: "world \<Rightarrow> chan_fds \<Rightarrow> (nat \<times> nat \<times> nat \<times> nat) option" where
  "channel_objs w ch = do {
     (wr, _) \<leftarrow> write_region ch;
     (rd, _) \<leftarrow> read_region ch;
     pe \<leftarrow> fd_obj w (notify_write_efd ch);
     oe \<leftarrow> fd_obj w (notify_read_efd ch);
     Some (wr, rd, pe, oe)
   }"

section \<open>Properties\<close>

text \<open>
  C27: A handshake in which no system call fails connects the two sides crosswise. The ring
  that the client writes is the ring that the server reads and vice versa, the counter with
  which each side notifies is the one the other side polls, the four objects are distinct,
  and both rings are empty, of the full size and sealed.
\<close>

theorem handshake_connects:
  assumes "w_sys c = []" "w_in c = []" "w_out c = []" "w_sys s = []" "w_in s = []" "w_out s = []"
  shows "\<exists>chc c' chs s' i j k l. handshake cap c s = Some (chc, c', chs, s') \<and>
     channel_objs c' chc = Some (i, k, l, j) \<and> channel_objs s' chs = Some (k, i, j, l) \<and> distinct [i, j, k, l] \<and>
     w_objs c' ! i = KMem (shm_size cap) True (RingBuf_Init cap) \<and> w_objs c' ! k = KMem (shm_size cap) True (RingBuf_Init cap) \<and>
     w_objs c' ! j = KEvt 0 \<and> w_objs c' ! l = KEvt 0 \<and> w_objs s' = w_objs c' \<and> w_timeo c' = 0 \<and> w_timeo s' = 0"
proof -
  let ?n = "length (w_objs c)"
  let ?c0 = "HandshakeGuard_enter (c\<lparr>w_ch := chan_fds_new\<rparr>)"
  have "\<exists>c1. offer_local cap ?c0 = (Ret (), c1) \<and> w_sys c1 = [] \<and> w_in c1 = [] \<and>
      w_objs c1 = w_objs c @ [KMem (shm_size cap) True (RingBuf_Init cap), KEvt 0] \<and> w_out c1 = [mem_msg ?n, evt_msg (Suc ?n)] \<and>
      write_region (w_ch c1) = Some (?n, shm_size cap) \<and> tab (w_fds c1) (notify_read_efd (w_ch c1)) = Some (Suc ?n) \<and>
      read_region (w_ch c1) = None \<and> read_memfd (w_ch c1) = -1 \<and> notify_write_efd (w_ch c1) = -1"
    using offer_local_ok [of ?c0 cap] assms by (auto simp: HandshakeGuard_enter_def chan_fds_new_def)
  then obtain c1 where c1: "offer_local cap ?c0 = (Ret (), c1)" "w_sys c1 = []" "w_in c1 = []"
      "w_objs c1 = w_objs c @ [KMem (shm_size cap) True (RingBuf_Init cap), KEvt 0]" "w_out c1 = [mem_msg ?n, evt_msg (Suc ?n)]"
      "write_region (w_ch c1) = Some (?n, shm_size cap)" "tab (w_fds c1) (notify_read_efd (w_ch c1)) = Some (Suc ?n)"
      "read_region (w_ch c1) = None" "read_memfd (w_ch c1) = -1" "notify_write_efd (w_ch c1) = -1" by blast
  let ?s = "s\<lparr>w_objs := w_objs c1, w_in := w_in s @ w_out c1\<rparr>"
  let ?srv = "HandshakeGuard_enter (?s\<lparr>w_ch := chan_fds_new\<rparr>)"
  obtain s1 where s1: "RecvPeerFds cap ?srv = (Ret (), s1)" "w_sys s1 = []" "w_objs s1 = w_objs c1" "w_out s1 = []"
      "read_region (w_ch s1) = Some (?n, shm_size cap)" "tab (w_fds s1) (notify_write_efd (w_ch s1)) = Some (Suc ?n)"
      "write_memfd (w_ch s1) = -1" "write_region (w_ch s1) = None" "notify_read_efd (w_ch s1) = -1"
    using RecvPeerFds_ok [of ?srv ?n "Suc ?n" "[]" cap] assms c1(5) by (auto simp: HandshakeGuard_enter_def chan_fds_new_def)
  obtain s2 where s2: "offer_local cap s1 = (Ret (), s2)"
      "w_objs s2 = w_objs c1 @ [KMem (shm_size cap) True (RingBuf_Init cap), KEvt 0]" "w_out s2 = [mem_msg (?n + 2), evt_msg (?n + 3)]"
      "write_region (w_ch s2) = Some (?n + 2, shm_size cap)" "tab (w_fds s2) (notify_read_efd (w_ch s2)) = Some (?n + 3)"
      "tab (w_fds s2) (notify_write_efd (w_ch s2)) = Some (Suc ?n)" "read_region (w_ch s2) = Some (?n, shm_size cap)"
    using offer_local_ok [OF s1(2,7,8,9), of cap] s1(3,4,5,6) c1(4) by (auto simp: numeral_3_eq_3)
  have cs: "CreateRingChannel cap kServer ?s = (Ret (w_ch s2), HandshakeGuard_exit s2)"
    using s1(1) s2(1) by (simp add: CreateRingChannel_def seqio_def)
  let ?c2 = "c1\<lparr>w_objs := w_objs s2, w_in := w_in c1 @ w_out s2\<rparr>"
  obtain c3 where c3: "RecvPeerFds cap ?c2 = (Ret (), c3)" "w_objs c3 = w_objs s2" "read_region (w_ch c3) = Some (?n + 2, shm_size cap)"
      "tab (w_fds c3) (notify_write_efd (w_ch c3)) = Some (?n + 3)" "tab (w_fds c3) (notify_read_efd (w_ch c3)) = Some (Suc ?n)"
      "write_region (w_ch c3) = Some (?n, shm_size cap)"
    using RecvPeerFds_ok [of ?c2 "?n + 2" "?n + 3" "[]" cap] c1 s2(3) by auto
  have h: "handshake cap c s = Some (w_ch c3, HandshakeGuard_exit c3, w_ch s2, HandshakeGuard_exit s2)"
    using c1(1) cs c3(1) by (simp add: handshake_def HandshakeGuard_exit_def)
  show ?thesis
    by (rule exI [of _ "w_ch c3"], rule exI [of _ "HandshakeGuard_exit c3"], rule exI [of _ "w_ch s2"],
        rule exI [of _ "HandshakeGuard_exit s2"], rule exI [of _ ?n], rule exI [of _ "Suc ?n"], rule exI [of _ "?n + 2"], rule exI [of _ "?n + 3"])
      (use h c3 s2 c1(4) in \<open>simp add: channel_objs_def fd_obj_tab HandshakeGuard_exit_def nth_append\<close>)
qed

text \<open>A process with one open descriptor, and one without any, before a handshake.\<close>

definition idle_world :: "nat option list \<Rightarrow> world" where
  "idle_world fds = \<lparr>w_objs = [KSock], w_fds = fds, w_maps = [], w_out = [], w_in = [], w_sys = [], w_timeo = 0, w_ch = chan_fds_new\<rparr>"

theorem handshake_connects_witness:
  "\<exists>chc c' chs s' i j k l. handshake 1024 (idle_world [Some 0]) (idle_world []) = Some (chc, c', chs, s') \<and>
     channel_objs c' chc = Some (i, k, l, j) \<and> channel_objs s' chs = Some (k, i, j, l) \<and> distinct [i, j, k, l]"
  using handshake_connects [of "idle_world [Some 0]" "idle_world []" 1024] by (simp add: idle_world_def) blast

text \<open>
  C28: Whatever system call fails at whatever point, and whatever the peer sends, as long as
  it never attaches more than two descriptors to a message or one to a message without a
  tag: when \<open>CreateRingChannel\<close> throws, the process has exactly the descriptors and
  mappings it had before, and the socket's time-outs are reset.
\<close>

theorem CreateRingChannel_no_leak:
  assumes "list_all msg_ok (w_in w)" "CreateRingChannel cap role w = (Throw, w')"
  shows "fd_map w' = fd_map w \<and> count_list (w_maps w') = count_list (w_maps w) \<and> w_timeo w' = 0"
proof -
  let ?w = "HandshakeGuard_enter (w\<lparr>w_ch := chan_fds_new\<rparr>)"
  let ?own = "owns (fd_map w) (count_list (w_maps w)) [] []"
  have "?own ?w" using assms(1) by (intro owns_initial) (simp_all add: HandshakeGuard_enter_def)
  then have b: "case handshake_body cap role ?w of (Ret x, w1) \<Rightarrow> ?own w1 | (Throw, w1) \<Rightarrow> ?own w1"
    by (rule valid_ioD [OF owns_handshake_body])
  obtain w1 where w1: "handshake_body cap role ?w = (Throw, w1)" "w' = snd (RingChannel_destroy (HandshakeGuard_exit w1))"
    using assms(2) by (auto simp: CreateRingChannel_def split: prod.splits outcome.splits)
  have "?own (HandshakeGuard_exit w1)" using b w1(1) by (simp add: HandshakeGuard_exit_def)
  from valid_ioD [OF owns_destroy this, of "?own"] have "?own w'"
    using w1(2) by (cases "RingChannel_destroy (HandshakeGuard_exit w1)") (auto split: outcome.splits)
  moreover have "w_ch w' = chan_fds_new" "w_timeo w' = 0"
    using destroy_empty [of "HandshakeGuard_exit w1"] w1(2) by (simp_all add: HandshakeGuard_exit_def)
  ultimately show ?thesis using owns_final [of "fd_map w" "count_list (w_maps w)" w'] by (simp add: fd_map_def fd_obj_def)
qed

theorem CreateRingChannel_no_leak_witness:
  "fd_map (snd (CreateRingChannel 1024 kClient (idle_world [Some 0]))) = fd_map (idle_world [Some 0]) \<and>
   count_list (w_maps (snd (CreateRingChannel 1024 kClient (idle_world [Some 0])))) = count_list (w_maps (idle_world [Some 0])) \<and>
   w_timeo (snd (CreateRingChannel 1024 kClient (idle_world [Some 0]))) = 0"
proof -
  let ?w = "HandshakeGuard_enter ((idle_world [Some 0])\<lparr>w_ch := chan_fds_new\<rparr>)"
  have "w_sys ?w = []" "write_memfd (w_ch ?w) = -1" "write_region (w_ch ?w) = None" "notify_read_efd (w_ch ?w) = -1"
    by (simp_all add: idle_world_def HandshakeGuard_enter_def chan_fds_new_def)
  from offer_local_ok [OF this, of 1024] obtain w1 where w1: "offer_local 1024 ?w = (Ret (), w1)" "w_sys w1 = []" "w_in w1 = []"
    by (auto simp: idle_world_def HandshakeGuard_enter_def)
  have "RecvPeerFds 1024 w1 = (Throw, w1)"
    using w1 by (simp add: RecvPeerFds_def RecvFdExpect_def RecvFd_def recvmsg_def seqio_def syscall_def)
  then have "fst (CreateRingChannel 1024 kClient (idle_world [Some 0])) = Throw"
    using w1(1) by (simp add: CreateRingChannel_def seqio_def)
  then have "CreateRingChannel 1024 kClient (idle_world [Some 0]) = (Throw, snd (CreateRingChannel 1024 kClient (idle_world [Some 0])))"
    by (metis prod.collapse)
  then show ?thesis by (rule CreateRingChannel_no_leak [rotated]) (simp add: idle_world_def)
qed

text \<open>
  A peer that attaches three descriptors to one message makes \<open>RecvFd\<close> throw, but the two
  that fit into the control buffer stay open.
\<close>

lemma RecvFd_truncated_leaks:
  "RecvFd ((idle_world [])\<lparr>w_in := [\<lparr>sm_data = replicate 256 0, sm_objs = [0, 0, 0]\<rparr>]\<rparr>) = (Throw, idle_world [Some 0, Some 0])"
  by (simp add: RecvFd_def recvmsg_def seqio_def syscall_def ret_def throw_def fd_install_def recv_installed_def
      idle_world_def Let_def numeral_2_eq_2)

text \<open>
  The receiving side maps the full ring without looking at the size or the seals of the file
  the peer sent: a file of any size passes the handshake, and an access behind its end is a
  bus error.
\<close>

lemma RecvPeerFds_ignores_size:
  assumes "w_objs w ! i = KMem 0 False rg" "w_sys w = []" "w_in w = mem_msg i # evt_msg j # ms"
    "read_memfd (w_ch w) = -1" "read_region (w_ch w) = None" "notify_write_efd (w_ch w) = -1"
  shows "\<exists>w'. RecvPeerFds cap w = (Ret (), w') \<and> read_region (w_ch w') = Some (i, shm_size cap) \<and> w_objs w' ! i = KMem 0 False rg"
  using RecvPeerFds_ok [OF assms(2-6), of cap] assms(1) by auto

section \<open>URIs\<close>

lemma find_scheme_none: "find_scheme s = Some n \<Longrightarrow> take 3 (drop n s) = ''://''"
proof (induction s arbitrary: n)
  case (Cons x s)
  then show ?case by (cases "take 3 (x # s) = ''://''") (auto simp del: take_Suc_Cons)
qed simp

text \<open>\<open>UriToPath\<close> removes a scheme and keeps a plain path.\<close>

lemma UriToPath_cases:
  "UriToPath uri = uri \<and> find_scheme uri = None \<or>
   (\<exists>scheme. uri = scheme @ ''://'' @ UriToPath uri \<and> find_scheme uri = Some (length scheme))"
proof (cases "find_scheme uri")
  case (Some n)
  have "uri = take n uri @ take 3 (drop n uri) @ drop 3 (drop n uri)" by (metis append_take_drop_id)
  moreover have "length (take n uri) = n"
    using find_scheme_none [OF Some] by (cases "n \<le> length uri") auto
  ultimately show ?thesis using Some find_scheme_none [OF Some] by (auto simp: UriToPath_def add.commute)
qed (simp add: UriToPath_def)

end
