(* ===== verification/Startup.thy ===== *)
theory Startup
  imports Handshake Realtime
begin

text \<open>
  How clients and programs come to their sockets and channels, and give them back: \<open>ShmClient::Connect\<close>
  with the destructor of the client (\<open>shm_client.hpp\<close>), the descriptors of \<open>RunBench\<close> in \<open>src/client.cpp\<close> and
  \<open>src/server.cpp\<close>, the socket set-up of \<open>src/socket_server.cpp\<close> and \<open>src/socket_client.cpp\<close>, and what \<open>main\<close> does
  before it enters the loop. The theory composes the system calls of \<open>Common\<close> with the handshake;
  the locale \<open>socket_opener\<close> is what all ways to open a socket have in common.
\<close>

section \<open>Opening and closing\<close>

text \<open>The socket programs do not check the length of the path, \<open>strncpy\<close> cuts it.\<close>

definition CreateListenSocket :: "string \<Rightarrow> (int \<times> string) io" where
  "CreateListenSocket path = seqio syscall (\<lambda>r.
     if r \<noteq> SysOk then throw
     else seqio (new_obj KSock) (\<lambda>i.
     seqio (fd_install i) (\<lambda>sfd.
     seqio syscall (\<lambda>rb.
     if rb \<noteq> SysOk then seqio (UniqueFd_Reset sfd (-1)) (\<lambda>_. throw)
     else seqio syscall (\<lambda>rl.
       if rl \<noteq> SysOk then seqio (UniqueFd_Reset sfd (-1)) (\<lambda>_. throw)
       else ret (sfd, take (sun_path_size - 1) path))))))"

definition ConnectToServer :: "string \<Rightarrow> (int \<times> string) io" where
  "ConnectToServer path = seqio syscall (\<lambda>r.
     if r \<noteq> SysOk then throw
     else seqio (new_obj KSock) (\<lambda>i.
     seqio (fd_install i) (\<lambda>sfd.
     seqio syscall (\<lambda>rc.
     if rc \<noteq> SysOk then seqio (UniqueFd_Reset sfd (-1)) (\<lambda>_. throw)
     else ret (sfd, take (sun_path_size - 1) path)))))"

text \<open>\<open>accept\<close> returns a new descriptor or -1.\<close>

definition sys_accept :: "int io" where
  "sys_accept = seqio syscall (\<lambda>r. if r \<noteq> SysOk then ret (-1) else seqio (new_obj KSock) fd_install)"

text \<open>Scopes: a \<open>UniqueFd\<close> and a channel that are destroyed at the end, whether it is reached or an exception passes.\<close>

definition scoped :: "int \<Rightarrow> 'a io \<Rightarrow> 'a io" where
  "scoped fd m w = (case m w of (r, w1) \<Rightarrow> (r, snd (UniqueFd_Reset fd (-1) w1)))"

definition with_channel :: "nat \<Rightarrow> ChannelRole \<Rightarrow> 'a io \<Rightarrow> 'a io" where
  "with_channel cap role m w = (case CreateRingChannel cap role w of
     (Ret _, w1) \<Rightarrow> (case m w1 of (r, w2) \<Rightarrow> (r, snd (RingChannel_destroy w2)))
   | (Throw, w1) \<Rightarrow> (Throw, w1))"

text \<open>The programs around their loop \<open>m\<close>, which reads and writes only.\<close>

definition client_RunBench_fds :: "nat \<Rightarrow> string \<Rightarrow> (int \<Rightarrow> unit io) \<Rightarrow> unit io" where
  "client_RunBench_fds cap path m = seqio (ConnectUnixSocket path) (\<lambda>(sfd, _). scoped sfd (with_channel cap kClient (m sfd)))"

definition server_RunBench_fds :: "nat \<Rightarrow> string \<Rightarrow> (int \<Rightarrow> unit io) \<Rightarrow> unit io" where
  "server_RunBench_fds cap path m = seqio (ListenUnixSocket path) (\<lambda>(lfd, _). scoped lfd (seqio sys_accept (\<lambda>cfd.
     if \<not> UniqueFd_bool cfd then ret () else scoped cfd (with_channel cap kServer (m cfd)))))"

definition socket_client_fds :: "string \<Rightarrow> (int \<Rightarrow> unit io) \<Rightarrow> unit io" where
  "socket_client_fds path m = seqio (ConnectToServer path) (\<lambda>(sfd, _). scoped sfd (m sfd))"

definition socket_server_fds :: "string \<Rightarrow> (int \<Rightarrow> unit io) \<Rightarrow> unit io" where
  "socket_server_fds path m = seqio (CreateListenSocket path) (\<lambda>(lfd, _). scoped lfd (seqio sys_accept (\<lambda>cfd.
     if \<not> UniqueFd_bool cfd then ret () else scoped cfd (m cfd))))"

text \<open>
  \<open>ShmClient::Connect\<close>: the old channel and socket go first; after an exception the new socket
  goes too. \<open>sfd\<close> is the member \<open>socket_fd_\<close>, the world has the member \<open>channel_\<close>.
\<close>

definition connect_and_handshake :: "nat \<Rightarrow> string \<Rightarrow> int io" where
  "connect_and_handshake cap uri = seqio (ConnectUnixSocket (UriToPath uri)) (\<lambda>(s, _). \<lambda>w.
     case CreateRingChannel cap kClient w of (Ret _, w1) \<Rightarrow> (Ret s, w1) | (Throw, w1) \<Rightarrow> (Throw, snd (UniqueFd_Reset s (-1) w1)))"

definition ShmClient_Connect_fds :: "nat \<Rightarrow> string \<Rightarrow> int \<Rightarrow> (bool \<times> int) io" where
  "ShmClient_Connect_fds cap uri sfd = seqio RingChannel_destroy (\<lambda>_. seqio (UniqueFd_Reset sfd (-1)) (\<lambda>_. \<lambda>w.
     case connect_and_handshake cap uri w of
       (Ret s, w1) \<Rightarrow> (Ret (True, s), w1)
     | (Throw, w1) \<Rightarrow> (Ret (False, -1), w1)))"

definition ShmClient_destroy_fds :: "int \<Rightarrow> unit io" where
  "ShmClient_destroy_fds sfd = seqio RingChannel_destroy (\<lambda>_. seqio (UniqueFd_Reset sfd (-1)) (\<lambda>_. ret ()))"

text \<open>The life of a client object: any number of calls of \<open>Connect\<close>, then the destructor.\<close>

fun connect_all :: "nat \<Rightarrow> string list \<Rightarrow> int \<Rightarrow> (bool list \<times> int) io" where
  "connect_all cap [] sfd = ret ([], sfd)"
| "connect_all cap (uri # uris) sfd = seqio (ShmClient_Connect_fds cap uri sfd) (\<lambda>(ok, s).
     seqio (connect_all cap uris s) (\<lambda>(oks, s'). ret (ok # oks, s')))"

definition ShmClient_life :: "nat \<Rightarrow> string list \<Rightarrow> bool list io" where
  "ShmClient_life cap uris = seqio (connect_all cap uris (-1)) (\<lambda>(oks, s). seqio (ShmClient_destroy_fds s) (\<lambda>_. ret oks))"

section \<open>The main functions of the stand-alone programs\<close>

text \<open>The arguments: \<open>--bench\<close> decides at once, \<open>--cmd\<close> takes the next argument along.\<close>

datatype run_mode = BenchMode | LoopMode bool

fun parse_args :: "string list \<Rightarrow> bool \<Rightarrow> run_mode" where
  "parse_args [] useProto = LoopMode useProto"
| "parse_args [a] useProto = (if a = ''--bench'' then BenchMode else LoopMode useProto)"
| "parse_args (a # b # as) useProto =
     (if a = ''--bench'' then BenchMode
      else if a = ''--cmd'' then parse_args as (useProto \<or> b = ''proto'')
      else parse_args (b # as) useProto)"

definition kTimerIntervalMs :: int where "kTimerIntervalMs = 100"

definition cb_write_timer :: callback where "cb_write_timer = UserCb 1"
definition cb_server_notify :: callback where "cb_server_notify = UserCb 2"
definition cb_server_socket :: callback where "cb_server_socket = UserCb 3"
definition cb_accept :: callback where "cb_accept = UserCb 0"

text \<open>
  The client with its socket, its channel and the channel's descriptor: registered with the loop,
  unless the timer cannot be created. The server with its listening socket.
\<close>

definition client_main_setup :: "timerfd_sys \<Rightarrow> fd \<Rightarrow> fd \<Rightarrow> channel \<Rightarrow> rtc option" where
  "client_main_setup tsys sock nfd ch = (case AddTimer tsys kTimerIntervalMs cb_write_timer EventLoop_new of
     (None, _) \<Rightarrow> None
   | (Some _, lp) \<Rightarrow> Some \<lparr>rc_loop = AddFd sock cb_server_socket POLLIN (AddFd nfd cb_server_notify POLLIN lp),
       rc_state = \<lparr>cs_id = 0, cs_socket_fd = sock, cs_channel = ch, cs_timer_fd = -1, cs_notify_efd = nfd, cs_tick = 0,
         cs_total_read = 0, cs_reader = FrameReader_new (64 * 1024)\<rparr>, rc_ok = 0, rc_full = 0\<rparr>)"

definition server_main_setup :: "fd \<Rightarrow> rts" where
  "server_main_setup lfd = \<lparr>rs_loop = AddFd lfd cb_accept POLLIN EventLoop_new, rs_clients = [], rs_next_id = 1, rs_closed = []\<rparr>"

text \<open>The end of the server's \<open>main\<close>: \<open>clients.clear()\<close> closes the sockets that are left.\<close>

definition server_main_end :: "rts \<Rightarrow> rts" where
  "server_main_end s = s\<lparr>rs_clients := [], rs_closed := rs_closed s @ map (\<lambda>(_, c). cs_socket_fd c) (rs_clients s)\<rparr>"

lemma parse_args_bench: "parse_args args p = BenchMode \<Longrightarrow> ''--bench'' \<in> set args"
  by (induction args p rule: parse_args.induct) (auto split: if_splits)

lemma parse_args_plain: "''--bench'' \<notin> set args \<Longrightarrow> ''--cmd'' \<notin> set args \<Longrightarrow> parse_args args p = LoopMode p"
  by (induction args p rule: parse_args.induct) auto

lemma parse_args_last_cmd: "parse_args [''--cmd''] p = LoopMode p" "parse_args [''--cmd'', ''--bench''] p = LoopMode p"
  by simp_all

text \<open>
  The client's session: its hundred ticks send a message or count a refusal each, and the next
  one stops the loop, from a channel the handshake has just made.
\<close>

fun client_ticks :: "nat \<Rightarrow> (nat \<Rightarrow> int \<times> u32) \<Rightarrow> fd \<Rightarrow> nat \<Rightarrow> rtc \<Rightarrow> rtc option" where
  "client_ticks cap draw tfd 0 s = Some s"
| "client_ticks cap draw tfd (Suc n) s = do {
     s1 \<leftarrow> client_ticks cap draw tfd n s;
     (ok, s2) \<leftarrow> OnWriteTimer (pod_client_msg cap) (fst (draw n)) (snd (draw n)) tfd s1;
     if ok then Some s2 else None
   }"

lemma client_ticks_count:
  assumes "client_main_setup tsys sock nfd ch = Some s0" "channel_wf cap ch" "4104 \<le> max_write_size cap" "\<And>k. unat (snd (draw k)) \<le> 4080" "n \<le> 100"
  shows "\<exists>s. client_ticks cap draw tfd n s0 = Some s \<and> cs_wf cap (rc_state s) \<and> cs_tick (rc_state s) = int n \<and> rc_ok s + rc_full s = int n"
  using assms(5)
proof (induction n)
  case 0
  show ?case using assms(1,2) by (auto simp: client_main_setup_def cs_wf_def reader_wf_def channel_wf_def FrameReader_new_def split: prod.splits option.splits)
next
  case (Suc n)
  then obtain s where "client_ticks cap draw tfd n s0 = Some s" "cs_wf cap (rc_state s)" "cs_tick (rc_state s) = int n" "rc_ok s + rc_full s = int n" by auto
  then show ?case
    using OnWriteTimer_tick [of cap s "snd (draw n)" "fst (draw n)" tfd] assms(3,4) Suc.prems
    by (auto simp: kClientMaxTicks_def split: if_splits)
qed

lemma client_session_stops:
  assumes "client_main_setup tsys sock nfd ch = Some s0" "channel_wf cap ch" "4104 \<le> max_write_size cap" "\<And>k. unat (snd (draw k)) \<le> 4080"
  shows "\<exists>s. client_ticks cap draw tfd 101 s0 = Some s \<and> \<not> lp_running (rc_loop s) \<and> cs_tick (rc_state s) = 101"
proof -
  obtain s where s: "client_ticks cap draw tfd 100 s0 = Some s" "cs_wf cap (rc_state s)" "cs_tick (rc_state s) = 100"
    using client_ticks_count [OF assms(1-3), of draw 100 tfd] assms(4) by auto
  then show ?thesis
    using OnWriteTimer_tick [of cap s "snd (draw 100)" "fst (draw 100)" tfd] assms(3,4) client_ticks.simps(2) [of cap draw tfd 100 s0]
    by (auto simp: kClientMaxTicks_def)
qed

section \<open>Ownership without a channel\<close>

definition keeps_ch :: "'a io \<Rightarrow> bool" where
  "keeps_ch m \<longleftrightarrow> (\<forall>w. w_ch (snd (m w)) = w_ch w)"

named_theorems keeps_rules

lemma keeps_seqio [keeps_rules]: "keeps_ch m \<Longrightarrow> (\<And>x. keeps_ch (f x)) \<Longrightarrow> keeps_ch (seqio m f)"
proof -
  assume k: "keeps_ch m" "\<And>x. keeps_ch (f x)"
  have "w_ch (snd (seqio m f w)) = w_ch w" for w
    using k(1) [unfolded keeps_ch_def, rule_format, of w] k(2) [unfolded keeps_ch_def, rule_format]
    by (cases rule: seqio_cases [of m w f]) simp_all
  then show ?thesis by (simp add: keeps_ch_def)
qed

lemma keeps_prims [keeps_rules]:
  "keeps_ch (ret x)" "keeps_ch throw" "keeps_ch syscall" "keeps_ch (new_obj ob)" "keeps_ch (fd_install i)" "keeps_ch (sys_close fd)"
  by (simp_all add: keeps_ch_def io_defs split: list.split)

lemma keeps_if [keeps_rules]: "keeps_ch m \<Longrightarrow> keeps_ch n \<Longrightarrow> keeps_ch (if b then m else n)"
  by simp

lemma keeps_Reset [keeps_rules]: "keeps_ch (UniqueFd_Reset fd x)"
  unfolding UniqueFd_Reset_def by (intro keeps_rules)

definition owns_only :: "(int \<rightharpoonup> nat) \<Rightarrow> (nat \<Rightarrow> nat) \<Rightarrow> int list \<Rightarrow> world \<Rightarrow> bool" where
  "owns_only B M ds w \<longleftrightarrow> owns B M ds [] w \<and> w_ch w = chan_fds_new"

lemma owns_only_rule:
  assumes "valid_io (owns B M ds []) m (\<lambda>x. owns B M (g x) []) (owns B M ds [])" "keeps_ch m"
  shows "valid_io (owns_only B M ds) m (\<lambda>x. owns_only B M (g x)) (owns_only B M ds)"
proof (rule valid_ioI)
  fix w assume a: "owns_only B M ds w"
  then have "w_ch (snd (m w)) = chan_fds_new" using assms(2) by (simp add: keeps_ch_def owns_only_def)
  then show "case m w of (Ret x, w1) \<Rightarrow> owns_only B M (g x) w1 | (Throw, w1) \<Rightarrow> owns_only B M ds w1"
    using a valid_ioD [OF assms(1), of w] by (auto simp: owns_only_def split: prod.splits outcome.splits)
qed

lemma destroyed_owns_only: "owns B M ds [] w \<Longrightarrow> owns_only B M ds (snd (RingChannel_destroy w))"
  using valid_ioD [OF owns_destroy, of B M ds "[]" w "owns B M ds []"] destroy_empty(1) [of w]
  by (cases "RingChannel_destroy w"; cases "fst (RingChannel_destroy w)") (simp_all add: owns_only_def)

lemma owns_only_create:
  "valid_io (owns_only B M ds) (CreateRingChannel cap role) (\<lambda>_. owns B M ds []) (owns_only B M ds)"
proof (rule valid_ioI)
  fix w assume a: "owns_only B M ds w"
  let ?w = "HandshakeGuard_enter (w\<lparr>w_ch := chan_fds_new\<rparr>)"
  have "w\<lparr>w_ch := chan_fds_new\<rparr> = w" using a by (cases w) (simp add: owns_only_def)
  then have "owns B M ds [] (w\<lparr>w_ch := chan_fds_new\<rparr>)" using a by (simp only: owns_only_def)
  then have "owns B M ds [] ?w" by (simp add: HandshakeGuard_enter_def)
  note h = valid_ioD [OF owns_handshake_body this, of cap role]
  show "case CreateRingChannel cap role w of (Ret x, w1) \<Rightarrow> owns B M ds [] w1 | (Throw, w1) \<Rightarrow> owns_only B M ds w1"
  proof (cases "handshake_body cap role ?w")
    case (Pair r w1)
    show ?thesis
    proof (cases r)
      case (Ret u)
      then show ?thesis using h Pair by (simp add: CreateRingChannel_def HandshakeGuard_exit_def)
    next
      case Throw
      then have "owns B M ds [] (HandshakeGuard_exit w1)" using h Pair by (simp add: HandshakeGuard_exit_def)
      from destroyed_owns_only [OF this] show ?thesis using Throw Pair by (simp add: CreateRingChannel_def)
    qed
  qed
qed

lemma owns_only_destroy: "valid_io (owns B M ds []) RingChannel_destroy (\<lambda>_. owns_only B M ds) (owns_only B M ds)"
  using destroyed_owns_only [of B M ds] by (simp add: valid_io_def split: prod.split outcome.split) (metis snd_conv)

lemma owns_only_Reset: "valid_io (owns_only B M (fd # ds)) (UniqueFd_Reset fd x) (\<lambda>_. owns_only B M ds) E"
proof (rule valid_ioI)
  fix w assume a: "owns_only B M (fd # ds) w"
  have "w_ch (snd (UniqueFd_Reset fd x w)) = chan_fds_new" using keeps_Reset [of fd x] a by (simp add: keeps_ch_def owns_only_def)
  moreover have "case UniqueFd_Reset fd x w of (Ret x, w1) \<Rightarrow> owns B M ds [] w1 | (Throw, w1) \<Rightarrow> False"
    using a by (intro valid_ioD [OF owns_Reset]) (simp add: owns_only_def)
  ultimately show "case UniqueFd_Reset fd x w of (Ret x, w1) \<Rightarrow> owns_only B M ds w1 | (Throw, w1) \<Rightarrow> E w1"
    by (auto simp: owns_only_def split: prod.splits outcome.splits)
qed

lemma reset_owns_only: "owns_only B M (fd # ds) w \<Longrightarrow> owns_only B M ds (snd (UniqueFd_Reset fd x w))"
  using valid_ioD [OF owns_only_Reset [of B M fd ds x "\<lambda>_. False"], of w] by (simp add: Reset_eq)

lemma destroy_returns: "RingChannel_destroy w = (Ret (), snd (RingChannel_destroy w))"
  by (rule prod_eqI) (simp_all add: RingChannel_destroy_def seqio_fst [OF drop_fst(1)] seqio_fst [OF drop_fst(2)] drop_fst)

lemma scoped_only:
  assumes "valid_io P m (\<lambda>_. owns_only B M (fd # ds)) (owns_only B M (fd # ds))"
  shows "valid_io P (scoped fd m) (\<lambda>_. owns_only B M ds) (owns_only B M ds)"
proof (rule valid_ioI)
  fix w assume a: "P w"
  obtain r w1 where m: "m w = (r, w1)" by fastforce
  have "owns_only B M (fd # ds) w1" using valid_ioD [OF assms a] m by (cases r) simp_all
  then have "owns_only B M ds (snd (UniqueFd_Reset fd (-1) w1))" by (rule reset_owns_only)
  then show "case scoped fd m w of (Ret x, w1) \<Rightarrow> owns_only B M ds w1 | (Throw, w1) \<Rightarrow> owns_only B M ds w1"
    using m by (cases r) (simp_all add: scoped_def)
qed

text \<open>What a loop in the middle may do: anything that neither opens nor closes a descriptor.\<close>

definition harmless :: "'a io \<Rightarrow> bool" where
  "harmless m \<longleftrightarrow> (\<forall>B M ds. valid_io (owns B M ds []) m (\<lambda>_. owns B M ds []) (owns B M ds []))"

lemma with_channel_only:
  assumes "harmless m"
  shows "valid_io (owns_only B M ds) (with_channel cap role m) (\<lambda>_. owns_only B M ds) (owns_only B M ds)"
proof (rule valid_ioI)
  fix w assume a: "owns_only B M ds w"
  note c = valid_ioD [OF owns_only_create a, of cap role]
  obtain r w1 where w1: "CreateRingChannel cap role w = (r, w1)" by fastforce
  show "case with_channel cap role m w of (Ret x, w1) \<Rightarrow> owns_only B M ds w1 | (Throw, w1) \<Rightarrow> owns_only B M ds w1"
  proof (cases r)
    case (Ret u)
    then have "owns B M ds [] w1" using c w1 by simp
    then have h: "case m w1 of (Ret x, w2) \<Rightarrow> owns B M ds [] w2 | (Throw, w2) \<Rightarrow> owns B M ds [] w2"
      using assms unfolding harmless_def by (intro valid_ioD) blast+
    obtain r2 w2 where w2: "m w1 = (r2, w2)" by fastforce
    have "owns_only B M ds (snd (RingChannel_destroy w2))" using h w2 by (intro destroyed_owns_only) (cases r2; simp)
    then show ?thesis using Ret w1 w2 by (cases r2) (simp_all add: with_channel_def)
  qed (use c w1 in \<open>simp add: with_channel_def\<close>)
qed

lemma owns_only_initial: "list_all msg_ok (w_in w) \<Longrightarrow> w_ch w = chan_fds_new \<Longrightarrow> owns_only (fd_map w) (count_list (w_maps w)) [] w"
  by (simp add: owns_only_def owns_initial)

lemma owns_only_final: "owns_only (fd_map w) (count_list (w_maps w)) [] w' \<Longrightarrow> fd_map w' = fd_map w \<and> count_list (w_maps w') = count_list (w_maps w)"
  unfolding owns_only_def by (intro owns_final) (simp_all add: fd_map_def fd_obj_def)

lemma only_no_leak:
  assumes "\<And>B M. valid_io (owns_only B M []) m (\<lambda>_. owns_only B M []) (owns_only B M [])" "list_all msg_ok (w_in w)" "w_ch w = chan_fds_new"
  shows "fd_map (snd (m w)) = fd_map w \<and> count_list (w_maps (snd (m w))) = count_list (w_maps w)"
  using valid_ioD [OF assms(1) owns_only_initial [OF assms(2,3)]]
  by (intro owns_only_final) (cases "m w"; cases "fst (m w)"; simp)

section \<open>Ways to open a socket\<close>

locale socket_opener =
  fixes open_socket :: "string \<Rightarrow> (int \<times> string) io"
  assumes opens: "valid_io (owns B M ds []) (open_socket path) (\<lambda>x. owns B M (fst x # ds) []) (owns B M ds [])"
    and keeps: "keeps_ch (open_socket path)"
begin

lemma opens_only: "valid_io (owns_only B M ds) (open_socket path) (\<lambda>x. owns_only B M (fst x # ds)) (owns_only B M ds)"
  by (rule owns_only_rule [OF opens keeps])

lemma scope:
  assumes "\<And>fd. valid_io (owns_only B M (fd # ds)) (m fd) (\<lambda>_. owns_only B M (fd # ds)) (owns_only B M (fd # ds))"
  shows "valid_io (owns_only B M ds) (seqio (open_socket path) (\<lambda>(fd, _). scoped fd (m fd))) (\<lambda>_. owns_only B M ds) (owns_only B M ds)"
  by (rule valid_seqio [OF opens_only]) (auto intro!: scoped_only assms)

end

interpretation connect_unix: socket_opener ConnectUnixSocket
proof
  show "valid_io (owns B M ds []) (ConnectUnixSocket path) (\<lambda>x. owns B M (fst x # ds) []) (owns B M ds [])" for B M ds path
    unfolding ConnectUnixSocket_def
    by (rule valid_if, rule valid_throw)
      (rule valid_seqio, rule io_rules | rule valid_if | rule valid_throw | simp add: valid_io_def ret_def)+
  show "keeps_ch (ConnectUnixSocket path)" for path unfolding ConnectUnixSocket_def by (intro keeps_rules)
qed

interpretation listen_unix: socket_opener ListenUnixSocket
proof
  show "valid_io (owns B M ds []) (ListenUnixSocket path) (\<lambda>x. owns B M (fst x # ds) []) (owns B M ds [])" for B M ds path
    unfolding ListenUnixSocket_def
    by (rule valid_if, rule valid_throw)
      (rule valid_seqio, rule io_rules | rule valid_if | rule valid_throw | simp add: valid_io_def ret_def)+
  show "keeps_ch (ListenUnixSocket path)" for path unfolding ListenUnixSocket_def by (intro keeps_rules)
qed

interpretation connect_sock: socket_opener ConnectToServer
proof
  show "valid_io (owns B M ds []) (ConnectToServer path) (\<lambda>x. owns B M (fst x # ds) []) (owns B M ds [])" for B M ds path
    unfolding ConnectToServer_def
    by (rule valid_seqio, rule io_rules | rule valid_if | rule valid_throw | simp add: valid_io_def ret_def)+
  show "keeps_ch (ConnectToServer path)" for path unfolding ConnectToServer_def by (intro keeps_rules)
qed

interpretation listen_sock: socket_opener CreateListenSocket
proof
  show "valid_io (owns B M ds []) (CreateListenSocket path) (\<lambda>x. owns B M (fst x # ds) []) (owns B M ds [])" for B M ds path
    unfolding CreateListenSocket_def
    by (rule valid_seqio, rule io_rules | rule valid_if | rule valid_throw | simp add: valid_io_def ret_def)+
  show "keeps_ch (CreateListenSocket path)" for path unfolding CreateListenSocket_def by (intro keeps_rules)
qed

section \<open>The programs\<close>

lemma accept_only: "valid_io (owns_only B M ds) sys_accept (\<lambda>fd. owns_only B M (fd # ds)) (owns_only B M ds)"
proof (rule owns_only_rule)
  have "owns B M (-1 # ds) [] w" if "owns B M ds [] w" for w using that by (simp add: owns_negative)
  then show "valid_io (owns B M ds []) sys_accept (\<lambda>fd. owns B M (fd # ds) []) (owns B M ds [])"
    unfolding sys_accept_def
    by (intro valid_seqio [OF owns_syscall] valid_if valid_seqio [OF owns_new_obj] owns_install) (simp add: valid_io_def ret_def)
  show "keeps_ch sys_accept" unfolding sys_accept_def by (intro keeps_rules)
qed

lemma accept_scope:
  assumes "\<And>fd ds. valid_io (owns_only B M ds) (m fd) (\<lambda>_. owns_only B M ds) (owns_only B M ds)"
  shows "valid_io (owns_only B M ds) (seqio sys_accept (\<lambda>cfd. if \<not> UniqueFd_bool cfd then ret () else scoped cfd (m cfd))) (\<lambda>_. owns_only B M ds) (owns_only B M ds)"
proof (rule valid_seqio [OF accept_only], rule valid_if)
  show "valid_io (owns_only B M (x # ds)) (scoped x (m x)) (\<lambda>_. owns_only B M ds) (owns_only B M ds)" for x
    by (rule scoped_only [OF assms])
  show "valid_io (owns_only B M (x # ds)) (ret ()) (\<lambda>_. owns_only B M ds) (owns_only B M ds)" if "\<not> UniqueFd_bool x" for x
  proof -
    have "owns_only B M ds w" if "owns_only B M (x # ds) w" for w
      using that \<open>\<not> UniqueFd_bool x\<close> unfolding owns_only_def owns_def UniqueFd_bool_def by auto
    then show ?thesis by (simp add: valid_io_def ret_def)
  qed
qed

text \<open>
  The four programs with their loop leave the descriptors and mappings as they were, whatever
  system call fails.
\<close>

lemma programs_no_leak:
  assumes "\<And>fd. harmless (m fd)" "\<And>fd B M ds. valid_io (owns_only B M ds) (m fd) (\<lambda>_. owns_only B M ds) (owns_only B M ds)"
    "list_all msg_ok (w_in w)" "w_ch w = chan_fds_new"
    "prog \<in> {client_RunBench_fds cap path m, server_RunBench_fds cap path m, socket_client_fds path m, socket_server_fds path m}"
  shows "fd_map (snd (prog w)) = fd_map w \<and> count_list (w_maps (snd (prog w))) = count_list (w_maps w)"
proof (rule only_no_leak [OF _ assms(3,4)])
  fix B M
  note wc = with_channel_only [OF assms(1)]
  have "valid_io (owns_only B M []) (client_RunBench_fds cap path m) (\<lambda>_. owns_only B M []) (owns_only B M [])"
    unfolding client_RunBench_fds_def by (rule connect_unix.scope [OF wc])
  moreover have "valid_io (owns_only B M []) (server_RunBench_fds cap path m) (\<lambda>_. owns_only B M []) (owns_only B M [])"
    unfolding server_RunBench_fds_def by (rule listen_unix.scope, rule accept_scope, rule wc)
  moreover have "valid_io (owns_only B M []) (socket_client_fds path m) (\<lambda>_. owns_only B M []) (owns_only B M [])"
    unfolding socket_client_fds_def by (rule connect_sock.scope, rule assms(2))
  moreover have "valid_io (owns_only B M []) (socket_server_fds path m) (\<lambda>_. owns_only B M []) (owns_only B M [])"
    unfolding socket_server_fds_def by (rule listen_sock.scope, rule accept_scope, rule assms(2))
  ultimately show "valid_io (owns_only B M []) prog (\<lambda>_. owns_only B M []) (owns_only B M [])" using assms(5) by blast
qed

section \<open>The life of a client\<close>

lemma connect_and_handshake_only:
  "valid_io (owns_only B M ds) (connect_and_handshake cap uri) (\<lambda>s. owns B M (s # ds) []) (owns_only B M ds)"
  unfolding connect_and_handshake_def
proof (rule valid_seqio [OF connect_unix.opens_only], rule valid_ioI)
  fix x :: "int \<times> string" and w assume a: "owns_only B M (fst x # ds) w"
  obtain s q where x: "x = (s, q)" by fastforce
  obtain r w1 where w1: "CreateRingChannel cap kClient w = (r, w1)" by fastforce
  note c = valid_ioD [OF owns_only_create a, of cap kClient]
  show "case (case x of (s, _) \<Rightarrow> \<lambda>w. case CreateRingChannel cap kClient w of (Ret _, w1) \<Rightarrow> (Ret s, w1) | (Throw, w1) \<Rightarrow> (Throw, snd (UniqueFd_Reset s (-1) w1))) w of
      (Ret s, w1) \<Rightarrow> owns B M (s # ds) [] w1 | (Throw, w1) \<Rightarrow> owns_only B M ds w1"
  proof (cases r)
    case Throw
    then have "owns_only B M (s # ds) w1" using c w1 x by simp
    then have "owns_only B M ds (snd (UniqueFd_Reset s (-1) w1))" by (rule reset_owns_only)
    then show ?thesis using Throw w1 x by simp
  qed (use c w1 x in simp)
qed

lemma ShmClient_Connect_owns:
  "valid_io (owns B M (sfd # ds) []) (ShmClient_Connect_fds cap uri sfd) (\<lambda>x. owns B M (snd x # ds) []) E"
  unfolding ShmClient_Connect_fds_def
proof (rule valid_seqio, rule valid_ioI)
  fix w assume "owns B M (sfd # ds) [] w"
  then show "case RingChannel_destroy w of (Ret x, w1) \<Rightarrow> owns_only B M (sfd # ds) w1 | (Throw, w1) \<Rightarrow> E w1"
    using destroyed_owns_only [of B M "sfd # ds" w] by (subst destroy_returns) simp
next
  show "valid_io (owns_only B M (sfd # ds)) (seqio (UniqueFd_Reset sfd (-1)) (\<lambda>_. \<lambda>w. case connect_and_handshake cap uri w of
      (Ret s, w1) \<Rightarrow> (Ret (True, s), w1) | (Throw, w1) \<Rightarrow> (Ret (False, -1), w1))) (\<lambda>x. owns B M (snd x # ds) []) E"
  proof (rule valid_seqio [OF owns_only_Reset], rule valid_ioI)
    fix w assume "owns_only B M ds w"
    then show "case (case connect_and_handshake cap uri w of (Ret s, w1) \<Rightarrow> (Ret (True, s), w1) | (Throw, w1) \<Rightarrow> (Ret (False, -1), w1)) of
        (Ret x, w1) \<Rightarrow> owns B M (snd x # ds) [] w1 | (Throw, w1) \<Rightarrow> E w1"
      using valid_ioD [OF connect_and_handshake_only, of B M ds w cap uri]
      by (cases "connect_and_handshake cap uri w"; cases "fst (connect_and_handshake cap uri w)") (simp_all add: owns_negative owns_only_def)
  qed
qed

lemma connect_all_owns: "valid_io (owns B M [sfd] []) (connect_all cap uris sfd) (\<lambda>x. owns B M [snd x] []) E"
proof (induction uris arbitrary: sfd)
  case Nil
  show ?case by (simp add: valid_io_def ret_def)
next
  case (Cons uri uris)
  have "valid_io (owns B M [s] []) (seqio (connect_all cap uris s) (\<lambda>(oks, s'). ret (ok # oks, s'))) (\<lambda>x. owns B M [snd x] []) E" for ok s
    by (rule valid_seqio [OF Cons.IH]) (auto simp: valid_io_def ret_def)
  then show ?case by (auto intro!: valid_seqio [OF ShmClient_Connect_owns])
qed

lemma connect_all_returns: "\<exists>x w1. connect_all cap uris s u = (Ret x, w1) \<and> length (fst x) = length uris"
proof (induction uris arbitrary: s u)
  case (Cons uri uris)
  let ?u = "snd (sys_close s (snd (RingChannel_destroy u)))"
  obtain ok s1 u1 where "ShmClient_Connect_fds cap uri s u = (Ret (ok, s1), u1)"
    unfolding ShmClient_Connect_fds_def seqio_Ret [OF destroy_returns] seqio_Ret [OF Reset_eq]
    by (cases "connect_and_handshake cap uri ?u"; cases "fst (connect_and_handshake cap uri ?u)") auto
  with Cons.IH [of s1 u1] show ?case by (auto simp: seqio_def ret_def)
qed (simp add: ret_def)

lemma ShmClient_destroy_only: "valid_io (owns B M [sfd] []) (ShmClient_destroy_fds sfd) (\<lambda>_. owns_only B M []) (owns_only B M [])"
proof (rule valid_ioI)
  fix w assume "owns B M [sfd] [] w"
  then have "owns_only B M [] (snd (UniqueFd_Reset sfd (-1) (snd (RingChannel_destroy w))))" by (intro reset_owns_only destroyed_owns_only)
  moreover have "ShmClient_destroy_fds sfd w = (Ret (), snd (UniqueFd_Reset sfd (-1) (snd (RingChannel_destroy w))))"
    unfolding ShmClient_destroy_fds_def by (simp add: seqio_Ret [OF destroy_returns] seqio_Ret [OF Reset_eq] ret_def Reset_eq)
  ultimately show "case ShmClient_destroy_fds sfd w of (Ret x, w1) \<Rightarrow> owns_only B M [] w1 | (Throw, w1) \<Rightarrow> owns_only B M [] w1" by simp
qed

section \<open>Properties\<close>

text \<open>
  C29: a client object leaks nothing over its whole life. Whatever sequence of addresses it is
  connected to, whichever system call of whichever attempt fails (\<open>w_sys\<close> is arbitrary) and
  however the handshakes go with peers that send their descriptors the way \<open>SendFd\<close> does: every
  attempt returns true or false, and after the destructor the open descriptors and
  mappings of the process are exactly those from before.
\<close>

theorem ShmClient_no_leak:
  assumes "list_all msg_ok (w_in w)" "w_ch w = chan_fds_new"
  shows "\<exists>oks w'. ShmClient_life cap uris w = (Ret oks, w') \<and> length oks = length uris \<and>
     fd_map w' = fd_map w \<and> count_list (w_maps w') = count_list (w_maps w)"
proof -
  have v: "valid_io (owns_only B M []) (ShmClient_life cap uris) (\<lambda>_. owns_only B M []) (owns_only B M [])" for B M
    unfolding ShmClient_life_def
  proof (rule valid_seqio)
    show "valid_io (owns_only B M []) (connect_all cap uris (-1)) (\<lambda>x. owns B M [snd x] []) (owns_only B M [])"
      by (rule valid_weaken [OF connect_all_owns]) (simp add: owns_only_def owns_negative)
    show "valid_io (owns B M [snd x] []) (case x of (oks, s) \<Rightarrow> seqio (ShmClient_destroy_fds s) (\<lambda>_. ret oks)) (\<lambda>_. owns_only B M []) (owns_only B M [])"
      for x :: "bool list \<times> int"
    proof (cases x)
      case (Pair oks s)
      have "valid_io (owns B M [s] []) (seqio (ShmClient_destroy_fds s) (\<lambda>_. ret oks)) (\<lambda>_. owns_only B M []) (owns_only B M [])"
        by (rule valid_seqio [OF ShmClient_destroy_only]) (simp add: valid_io_def ret_def)
      then show ?thesis using Pair by simp
    qed
  qed
  obtain oks s w1 where "connect_all cap uris (-1) w = (Ret (oks, s), w1)" "length oks = length uris" using connect_all_returns [of cap uris "-1" w] by auto
  moreover have "fst (ShmClient_destroy_fds s w1) = Ret ()"
    unfolding ShmClient_destroy_fds_def by (simp add: seqio_Ret [OF destroy_returns] seqio_Ret [OF Reset_eq] ret_def Reset_eq)
  ultimately have "fst (ShmClient_life cap uris w) = Ret oks" "length oks = length uris"
    by (auto simp: ShmClient_life_def seqio_Ret seqio_fst ret_def)
  then show ?thesis using only_no_leak [OF v assms] by (metis prod.collapse)
qed

theorem ShmClient_no_leak_witness:
  "\<exists>oks w'. ShmClient_life 1024 [''/tmp/a'', ''shm:///tmp/b''] ((idle_world [Some 0])\<lparr>w_sys := [SysOk, SysErr, SysOk, SysOk, SysOk, SysErr]\<rparr>) = (Ret oks, w') \<and>
     length oks = 2 \<and> fd_map w' = fd_map (idle_world [Some 0]) \<and> count_list (w_maps w') = count_list []"
proof -
  let ?w = "(idle_world [Some 0])\<lparr>w_sys := [SysOk, SysErr, SysOk, SysOk, SysOk, SysErr]\<rparr>"
  have "list_all msg_ok (w_in ?w)" "w_ch ?w = chan_fds_new" "w_maps ?w = []" by (simp_all add: idle_world_def)
  moreover have "fd_map ?w = fd_map (idle_world [Some 0])" by simp
  ultimately show ?thesis using ShmClient_no_leak [of ?w 1024 "[''/tmp/a'', ''shm:///tmp/b'']"] by auto
qed

end
