(* ===== verification/Simple_Pod_Codec.thy ===== *)
theory Simple_Pod_Codec
  imports Comm_Types Pod_Codec
begin

text \<open>
  \<open>shm::codec::SimplePodCodec\<close> of \<open>include/shm_ipc/simple_pod_codec.hpp\<close>: a codec for
  \<open>std::any\<close> messages with a process-wide registry of types. The two static maps \<open>TagOf\<close>
  and \<open>OpsOf\<close> are the state; the closures of \<open>TypeOps\<close> are determined by the type they
  were instantiated for.
\<close>

section \<open>The model\<close>

record type_ops =
  op_size :: u32
  op_type :: nat

record registry =
  TagOf :: "nat \<rightharpoonup> u32"
  OpsOf :: "u32 \<rightharpoonup> type_ops"

definition registry_empty :: registry where
  "registry_empty = \<lparr>TagOf = Map.empty, OpsOf = Map.empty\<rparr>"

text \<open>\<open>RegisterPod<T>\<close> for the type with the given \<open>type_index\<close>, tag and size.\<close>

definition RegisterPod :: "registry \<Rightarrow> nat \<Rightarrow> pod_type \<Rightarrow> registry" where
  "RegisterPod R ti T = R\<lparr>TagOf := (TagOf R)(ti \<mapsto> pt_tag T),
     OpsOf := (OpsOf R)(pt_tag T \<mapsto> \<lparr>op_size = word_of_nat (pt_size T), op_type = ti\<rparr>)\<rparr>"

text \<open>The \<open>encode\<close> closure: copies the object if the \<open>any\<close> holds the closure's type.\<close>

definition ops_encode :: "type_ops \<Rightarrow> any_val \<Rightarrow> bytes \<Rightarrow> nat \<Rightarrow> (bool \<times> bytes) option" where
  "ops_encode ops pkg buf off =
     (if any_type pkg = op_type ops then do {
        d \<leftarrow> mem_read (any_data pkg) 0 (unat (op_size ops));
        buf' \<leftarrow> mem_write buf off d;
        Some (True, buf')
      } else Some (False, buf))"

definition ops_decode :: "type_ops \<Rightarrow> bytes \<Rightarrow> nat \<Rightarrow> any_val option" where
  "ops_decode ops buf off = do {
     d \<leftarrow> mem_read buf off (unat (op_size ops));
     Some \<lparr>any_type = op_type ops, any_data = d\<rparr>
   }"

text \<open>The conversion of an unsigned 32-bit value to \<open>int32_t\<close>.\<close>

definition to_int32 :: "u32 \<Rightarrow> int" where "to_int32 x = sint x"

text \<open>\<open>Encode\<close> returns its return value, \<open>*size\<close> (if it set it) and the buffer.\<close>

definition SimplePodCodec_Encode :: "registry \<Rightarrow> any_val \<Rightarrow> bytes \<Rightarrow> nat \<Rightarrow> (int \<times> nat option \<times> bytes) option" where
  "SimplePodCodec_Encode R pkg buf buflen = (case TagOf R (any_type pkg) of
     None \<Rightarrow> Some (kCodecDisconnect, None, buf)
   | Some tag \<Rightarrow> (case OpsOf R tag of
       None \<Rightarrow> Some (kCodecDisconnect, None, buf)
     | Some ops \<Rightarrow>
         let need = kTagSize + op_size ops in
         if buflen < unat need then Some (kCodecNeedMoreBuffer, Some (unat need), buf)
         else do {
           buf1 \<leftarrow> mem_write buf 0 (u32_bytes tag);
           (ok, buf2) \<leftarrow> ops_encode ops pkg buf1 (unat kTagSize);
           Some (if ok then to_int32 need else kCodecDisconnect, None, buf2)
         }))"

definition SimplePodCodec_Decode :: "registry \<Rightarrow> bytes \<Rightarrow> nat \<Rightarrow> (int \<times> any_val option) option" where
  "SimplePodCodec_Decode R buf buflen =
     (if buflen < unat kTagSize then Some (kCodecNeedMoreBuffer, None)
      else do {
        t \<leftarrow> mem_read buf 0 (unat kTagSize);
        (case OpsOf R (bytes_u32 t) of
           None \<Rightarrow> Some (kCodecDisconnect, None)
         | Some ops \<Rightarrow>
             let need = kTagSize + op_size ops in
             if buflen < unat need then Some (kCodecNeedMoreBuffer, None)
             else do {
               pkg \<leftarrow> ops_decode ops buf (unat kTagSize);
               Some (to_int32 need, Some pkg)
             })
      })"

section \<open>The registry\<close>

text \<open>
  Every registered type has operations for its tag, and sizes leave room for the tag
  within the non-negative range of \<open>int32_t\<close>.
\<close>

definition registry_ok :: "registry \<Rightarrow> bool" where
  "registry_ok R \<longleftrightarrow> (\<forall>ti tag. TagOf R ti = Some tag \<longrightarrow> OpsOf R tag \<noteq> None) \<and>
     (\<forall>tag ops. OpsOf R tag = Some ops \<longrightarrow> unat (op_size ops) + 4 < 2147483648)"

lemma registry_ok_empty: "registry_ok registry_empty"
  by (simp add: registry_ok_def registry_empty_def)

lemma registry_ok_RegisterPod:
  assumes "registry_ok R" "pt_size T + 4 < 2147483648"
  shows "registry_ok (RegisterPod R ti T)"
proof -
  have "unat (word_of_nat (pt_size T) :: u32) = pt_size T" using assms(2) by (intro unat_of_nat_u32) simp
  then show ?thesis using assms by (auto simp: registry_ok_def RegisterPod_def)
qed

text \<open>A value of a type holds an object of the registered size.\<close>

definition any_sized :: "registry \<Rightarrow> any_val \<Rightarrow> bool" where
  "any_sized R pkg \<longleftrightarrow> (\<forall>tag ops. TagOf R (any_type pkg) = Some tag \<longrightarrow> OpsOf R tag = Some ops \<longrightarrow>
     op_type ops = any_type pkg \<longrightarrow> unat (op_size ops) = length (any_data pkg))"

lemma need_len:
  fixes n :: u32
  assumes "unat n + 4 < 2147483648"
  shows "unat (kTagSize + n) = 4 + unat n" "to_int32 (kTagSize + n) = 4 + int (unat n)"
proof -
  show u: "unat (kTagSize + n) = 4 + unat n"
    using assms by (simp add: kTagSize_def unat_word_ariths)
  have "uint (kTagSize + n) < 2147483648" using u assms by (metis of_nat_less_iff of_nat_numeral uint_nat add.commute)
  then have "sint (kTagSize + n) = uint (kTagSize + n)"
    by (simp add: sint_uint signed_take_bit_eq_if_positive bit_iff_odd take_bit_eq_mod
        signed_take_bit_int_eq_self)
  then show "to_int32 (kTagSize + n) = 4 + int (unat n)"
    unfolding to_int32_def uint_nat u by simp
qed

section \<open>Encoding and decoding\<close>

lemma Encode_result:
  assumes ok: "registry_ok R" and sz: "any_sized R pkg" and buf: "buflen \<le> length buf"
    and t: "TagOf R (any_type pkg) = Some tag" "OpsOf R tag = Some ops" "op_type ops = any_type pkg"
    and fit: "4 + length (any_data pkg) \<le> buflen"
  shows "SimplePodCodec_Encode R pkg buf buflen = Some (4 + int (length (any_data pkg)), None,
     u32_bytes tag @ any_data pkg @ drop (4 + length (any_data pkg)) buf)"
proof -
  have n: "unat (op_size ops) = length (any_data pkg)" using sz t by (simp add: any_sized_def)
  have "unat (op_size ops) + 4 < 2147483648" using ok t(2) by (auto simp: registry_ok_def)
  note need = need_len [OF this]
  have w1: "mem_write buf 0 (u32_bytes tag) = Some (u32_bytes tag @ drop 4 buf)"
    using mem_write_append [of "[]" 0 "u32_bytes tag" buf] fit buf by simp
  have w2: "mem_write (u32_bytes tag @ drop 4 buf) 4 (any_data pkg)
      = Some (u32_bytes tag @ any_data pkg @ drop (4 + length (any_data pkg)) buf)"
    using mem_write_append [of "u32_bytes tag" 4 "any_data pkg" "drop 4 buf"] fit buf by (simp add: add.commute)
  have k: "unat kTagSize = 4" by (simp add: kTagSize_def)
  show ?thesis
    using t n need w1 w2 fit k by (simp add: SimplePodCodec_Encode_def ops_encode_def Let_def)
qed

lemma Decode_result:
  assumes ok: "registry_ok R" and t: "OpsOf R tag = Some ops"
    and d: "unat (op_size ops) = length d" and buf: "buf = u32_bytes tag @ d @ rest" "buflen \<le> length buf"
  shows "SimplePodCodec_Decode R buf buflen
     = Some (if buflen < 4 + length d then (kCodecNeedMoreBuffer, None)
             else (4 + int (length d), Some \<lparr>any_type = op_type ops, any_data = d\<rparr>))"
proof -
  have "unat (op_size ops) + 4 < 2147483648" using ok t by (auto simp: registry_ok_def)
  note need = need_len [OF this]
  have k: "unat kTagSize = 4" by (simp add: kTagSize_def)
  have m: "mem_read buf 0 4 = Some (u32_bytes tag)" "mem_read buf 4 (length d) = Some d"
    using buf by (simp_all add: mem_read_def)
  show ?thesis
    using t d need k m by (auto simp: SimplePodCodec_Decode_def ops_decode_def Let_def kCodecNeedMoreBuffer_def)
qed

text \<open>\<open>Decode\<close> is defined on every input, and never consumes more than it was given.\<close>

lemma Decode_bounded:
  assumes ok: "registry_ok R" and buf: "buflen \<le> length buf"
  shows "\<exists>rc pkg. SimplePodCodec_Decode R buf buflen = Some (rc, pkg) \<and>
     (rc = kCodecNeedMoreBuffer \<and> pkg = None \<or> rc = kCodecDisconnect \<and> pkg = None \<or>
      0 < rc \<and> rc \<le> int buflen \<and> pkg \<noteq> None)"
proof (cases "buflen < 4")
  case True
  then show ?thesis by (simp add: SimplePodCodec_Decode_def kTagSize_def)
next
  case False
  define tag where "tag = bytes_u32 (take 4 buf)"
  have m: "mem_read buf 0 4 = Some (take 4 buf)" using False buf by simp
  show ?thesis
  proof (cases "OpsOf R tag")
    case None
    then show ?thesis using False m by (simp add: SimplePodCodec_Decode_def kTagSize_def flip: tag_def)
  next
    case (Some ops)
    let ?n = "unat (op_size ops)"
    have tb: "u32_bytes tag = take 4 buf" unfolding tag_def using False buf by (intro u32_bytes_bytes) simp
    show ?thesis
    proof (cases "buflen < 4 + ?n")
      case True
      have "unat (op_size ops) + 4 < 2147483648" using ok Some by (auto simp: registry_ok_def)
      note need = need_len [OF this]
      show ?thesis using True False m Some need
        by (simp add: SimplePodCodec_Decode_def kTagSize_def Let_def flip: tag_def)
    next
      case fit: False
      let ?d = "take ?n (drop 4 buf)"
      have "buf = u32_bytes tag @ ?d @ drop ?n (drop 4 buf)" using tb by (simp del: drop_drop)
      from Decode_result [OF ok Some _ this buf] fit buf
      have "SimplePodCodec_Decode R buf buflen = Some (4 + int ?n, Some \<lparr>any_type = op_type ops, any_data = ?d\<rparr>)"
        by simp
      moreover have "0 < 4 + int ?n \<and> 4 + int ?n \<le> int buflen" using fit by linarith
      ultimately show ?thesis by blast
    qed
  qed
qed

lemma Encode_cases:
  assumes "registry_ok R" "any_sized R pkg" "buflen \<le> length buf"
  shows "\<exists>rc size buf'. SimplePodCodec_Encode R pkg buf buflen = Some (rc, size, buf') \<and> length buf' = length buf \<and>
     (if rc > 0 then nat rc \<le> buflen \<and>
          (\<forall>n. nat rc \<le> n \<and> n \<le> length buf \<longrightarrow> SimplePodCodec_Decode R buf' n = Some (rc, Some pkg))
      else if rc = 0 then \<exists>need. size = Some need \<and> need > buflen
      else rc = -1 \<and> (\<forall>tag ops. TagOf R (any_type pkg) = Some tag \<longrightarrow> OpsOf R tag = Some ops \<longrightarrow> op_type ops \<noteq> any_type pkg))"
proof (cases "\<exists>tag ops. TagOf R (any_type pkg) = Some tag \<and> OpsOf R tag = Some ops")
  case False
  then have "SimplePodCodec_Encode R pkg buf buflen = Some (-1, None, buf)"
    by (auto simp: SimplePodCodec_Encode_def codec_codes split: option.splits)
  then show ?thesis using False by auto
next
  case True
  then obtain tag ops where t: "TagOf R (any_type pkg) = Some tag" "OpsOf R tag = Some ops" by blast
  have small: "unat (op_size ops) + 4 < 2147483648" using assms(1) t(2) by (auto simp: registry_ok_def)
  note need = need_len [OF small]
  show ?thesis
  proof (cases "buflen < 4 + unat (op_size ops)")
    case True
    then show ?thesis using t need by (simp add: SimplePodCodec_Encode_def codec_codes)
  next
    case fit: False
    show ?thesis
    proof (cases "op_type ops = any_type pkg")
      case True
      have n: "unat (op_size ops) = length (any_data pkg)" using assms(2) t True by (simp add: any_sized_def)
      let ?buf = "u32_bytes tag @ any_data pkg @ drop (4 + length (any_data pkg)) buf"
      have e: "SimplePodCodec_Encode R pkg buf buflen = Some (4 + int (length (any_data pkg)), None, ?buf)"
        using Encode_result [OF assms t True] fit n by simp
      have "SimplePodCodec_Decode R ?buf k = Some (4 + int (length (any_data pkg)), Some pkg)"
        if "4 + length (any_data pkg) \<le> k" "k \<le> length buf" for k
        using Decode_result [OF assms(1) t(2) n refl, of k] that True fit n assms(3) by simp
      moreover have "nat (4 + int (length (any_data pkg))) = 4 + length (any_data pkg)" by (simp add: nat_add_distrib)
      ultimately show ?thesis using e fit n assms(3) by simp
    next
      case False
      have "mem_write buf 0 (u32_bytes tag) = Some (u32_bytes tag @ drop 4 buf)"
        using mem_write_append [of "[]" 0 "u32_bytes tag" buf] fit assms(3) by simp
      then show ?thesis using t need fit False assms(3)
        by (simp add: SimplePodCodec_Encode_def ops_encode_def codec_codes Let_def)
    qed
  qed
qed

lemma to_int32_less: "to_int32 x < 2147483648"
  unfolding to_int32_def using sint_lt [of x] by simp

lemma Encode_rc_less: "SimplePodCodec_Encode R pkg buf buflen = Some (rc, sz, buf') \<Longrightarrow> rc < 2147483648"
  using to_int32_less by (auto simp: SimplePodCodec_Encode_def Let_def codec_codes split: option.splits if_splits Option.bind_splits)

lemma Decode_rc_less: "SimplePodCodec_Decode R buf buflen = Some (rc, pkg) \<Longrightarrow> rc < 2147483648"
  using to_int32_less by (auto simp: SimplePodCodec_Decode_def Let_def codec_codes split: option.splits if_splits Option.bind_splits)

text \<open>A successful \<open>Encode\<close> found the type's own operations and enough room.\<close>

lemma Encode_pos:
  assumes "SimplePodCodec_Encode R pkg buf buflen = Some (rc, sz, buf')" "0 < rc" "registry_ok R" "any_sized R pkg"
  shows "\<exists>tag ops. TagOf R (any_type pkg) = Some tag \<and> OpsOf R tag = Some ops \<and> op_type ops = any_type pkg \<and>
     unat (op_size ops) = length (any_data pkg) \<and> 4 + length (any_data pkg) \<le> buflen"
proof -
  obtain tag ops where t: "TagOf R (any_type pkg) = Some tag" "OpsOf R tag = Some ops"
    using assms(1,2) by (auto simp: SimplePodCodec_Encode_def codec_codes split: option.splits)
  have "unat (op_size ops) + 4 < 2147483648" using assms(3) t(2) by (auto simp: registry_ok_def)
  note need = need_len [OF this]
  have "\<not> buflen < unat (kTagSize + op_size ops)"
    using assms(1,2) t by (auto simp: SimplePodCodec_Encode_def codec_codes Let_def)
  moreover have "op_type ops = any_type pkg"
    using assms(1,2) t by (auto simp: SimplePodCodec_Encode_def ops_encode_def codec_codes Let_def
        split: if_splits Option.bind_splits)
  ultimately show ?thesis using t need assms(4) by (auto simp: any_sized_def)
qed

section \<open>Properties\<close>

text \<open>
  \<open>SimplePodCodec\<close> on any registry built by \<open>RegisterPod\<close>, even one where two types
  share a tag. \<open>Encode\<close> is defined; if it returns a positive length, \<open>Decode\<close> of the
  written bytes, followed by anything, consumes exactly that length and yields the same
  value with the same type; if it returns 0 then \<open>*size\<close> is a larger buffer size that would
  be enough; a type that is not registered, or whose tag another type took over, is
  refused with -1.
\<close>

theorem SimplePodCodec_roundtrip:
  assumes "registry_ok R" "any_sized R pkg" "buflen \<le> length buf"
  shows "\<exists>rc size buf'. SimplePodCodec_Encode R pkg buf buflen = Some (rc, size, buf') \<and> length buf' = length buf \<and>
     (if rc > 0 then nat rc \<le> buflen \<and>
          (\<forall>n. nat rc \<le> n \<and> n \<le> length buf \<longrightarrow> SimplePodCodec_Decode R buf' n = Some (rc, Some pkg))
      else if rc = 0 then \<exists>need. size = Some need \<and> need > buflen
      else rc = -1 \<and> (\<forall>tag ops. TagOf R (any_type pkg) = Some tag \<longrightarrow> OpsOf R tag = Some ops \<longrightarrow> op_type ops \<noteq> any_type pkg))"
  using assms by (rule Encode_cases)

text \<open>Two registered types of three and two bytes.\<close>

definition demo_registry :: registry where
  "demo_registry = RegisterPod (RegisterPod registry_empty 1 pod3) 2 \<lparr>pt_tag = 5, pt_size = 2\<rparr>"

lemma demo_registry_ok: "registry_ok demo_registry"
  unfolding demo_registry_def
  by (intro registry_ok_RegisterPod registry_ok_empty) (simp_all add: pod3_def)

lemma demo_registry_sized: "any_sized demo_registry \<lparr>any_type = 2, any_data = [8, 9]\<rparr>"
  by (simp add: any_sized_def demo_registry_def RegisterPod_def pod3_def)

theorem SimplePodCodec_roundtrip_witness:
  "\<exists>rc size buf'. SimplePodCodec_Encode demo_registry \<lparr>any_type = 2, any_data = [8, 9]\<rparr> (replicate 10 0) 10
       = Some (rc, size, buf') \<and> rc = 6 \<and>
     SimplePodCodec_Decode demo_registry buf' 10 = Some (6, Some \<lparr>any_type = 2, any_data = [8, 9]\<rparr>)"
proof -
  let ?pkg = "\<lparr>any_type = 2, any_data = [8, 9]\<rparr>"
  have "SimplePodCodec_Encode demo_registry ?pkg (replicate 10 0) 10
      = Some (6, None, u32_bytes 5 @ [8, 9] @ replicate 4 0)"
    using Encode_result [OF demo_registry_ok demo_registry_sized, of 10 "replicate 10 0" 5 "\<lparr>op_size = 2, op_type = 2\<rparr>"]
    by (simp add: demo_registry_def RegisterPod_def pod3_def)
  then show ?thesis
    using SimplePodCodec_roundtrip [OF demo_registry_ok demo_registry_sized, of 10 "replicate 10 0"] by auto
qed

text \<open>
  \<open>SimplePodCodec::Decode\<close> reads only inside the given bytes on any input, and its
  answer is 0 (incomplete), -1 (unknown tag), or a positive number of consumed bytes that
  is at most the number given, together with a value: what the receiving connection relies
  on before it commits the read.
\<close>

theorem SimplePodCodec_Decode_bounded:
  assumes "registry_ok R" "buflen \<le> length buf"
  shows "\<exists>rc pkg. SimplePodCodec_Decode R buf buflen = Some (rc, pkg) \<and>
     (rc = kCodecNeedMoreBuffer \<and> pkg = None \<or> rc = kCodecDisconnect \<and> pkg = None \<or>
      0 < rc \<and> rc \<le> int buflen \<and> pkg \<noteq> None)"
  using assms by (rule Decode_bounded)

theorem SimplePodCodec_Decode_bounded_witness:
  "\<exists>rc pkg. SimplePodCodec_Decode demo_registry [1, 2, 3, 4, 5] 5 = Some (rc, pkg) \<and>
     (rc = kCodecNeedMoreBuffer \<and> pkg = None \<or> rc = kCodecDisconnect \<and> pkg = None \<or>
      0 < rc \<and> rc \<le> int 5 \<and> pkg \<noteq> None)"
  by (rule SimplePodCodec_Decode_bounded [OF demo_registry_ok]) simp

end
