(* ===== verification/Conn_Stream.thy ===== *)
theory Conn_Stream
  imports Connection Simple_Pod_Codec
begin

text \<open>
  Two connections that share a ring: packages sent with \<open>SendCmd\<close> on one side arrive, in
  order and unchanged, at the message callback of the other side's \<open>DrainRing\<close>. The locale
  \<open>stream_codec\<close> states what this needs of a codec; \<open>SimplePodCodec\<close> provides it.
\<close>

section \<open>Codecs that reproduce their packages\<close>

text \<open>Bytes from which the codec reads one package, whatever follows them.\<close>

definition carries :: "codec \<Rightarrow> bytes \<Rightarrow> any_val \<Rightarrow> bool" where
  "carries cd xs pkg \<longleftrightarrow> xs \<noteq> [] \<and> length xs < 2147483648 \<and>
     (\<forall>rest. \<exists>out. cd_Decode cd (xs @ rest) = Some (int (length xs), Some pkg, out))"

text \<open>A client that sends a list of packages; the result says which calls returned true.\<close>

fun SendCmds :: "nat \<Rightarrow> any_val list \<Rightarrow> cst \<Rightarrow> (bool list \<times> cst) option" where
  "SendCmds cap [] s = Some ([], s)"
| "SendCmds cap (p # ps) s = do {
     (ok, s1) \<leftarrow> SendCmd cap p s;
     (oks, s2) \<leftarrow> SendCmds cap ps s1;
     Some (ok # oks, s2)
   }"

definition accepted :: "any_val list \<Rightarrow> bool list \<Rightarrow> any_val list" where
  "accepted ps oks = map fst (filter snd (zip ps oks))"

lemma accepted_simps [simp]:
  "accepted [] oks = []" "accepted (p # ps) (True # oks) = p # accepted ps oks" "accepted (p # ps) (False # oks) = accepted ps oks"
  by (simp_all add: accepted_def)

text \<open>A message callback that leaves the connection alone.\<close>

definition listening :: "conn \<Rightarrow> bool" where
  "listening c \<longleftrightarrow> conn_open c \<and> cn_messagecb c = Some (\<lambda>_ _. [])"

lemma drain_one:
  assumes ls: "listening c" and wf: "channel_wf cap (cn_channel c)" and ct: "contents (ch_rd (cn_channel c)) = xs @ rest"
    and cr: "carries cd xs pkg"
  shows "\<exists>c'. DrainRing_body cap cd count (c, lp) = Some (Inr (count + 1, c', lp)) \<and> listening c' \<and>
     channel_wf cap (cn_channel c') \<and> contents (ch_rd (cn_channel c')) = rest \<and> cn_events c' = cn_events c @ [MessageCb (Some pkg)]"
proof -
  have rd: "ring_wf cap (ch_rd (cn_channel c))" using wf by (simp add: channel_wf_def)
  have u: "used (ch_rd (cn_channel c)) = length xs + length rest" using ct by (metis length_append length_contents)
  have pos: "0 < length xs" using cr by (simp add: carries_def)
  obtain out where d: "cd_Decode cd (contents (ch_rd (cn_channel c))) = Some (int (length xs), Some pkg, out)"
    using cr ct by (metis carries_def)
  obtain st where b: "DrainRing_body cap cd count (c, lp) =
      drain_decoded cap count (used (ch_rd (cn_channel c))) (int (length xs)) (Some pkg) out (c\<lparr>cn_staging := st\<rparr>, lp)"
    using DrainRing_body_decoded [OF rd _ d, of count lp] u pos by auto
  have n: "unat (word_of_int (int (length xs)) :: u32) = length xs" using unat_len [of "int (length xs)"] cr by (simp add: carries_def)
  have wf1: "channel_wf cap (cn_channel (c\<lparr>cn_staging := st\<rparr>))" using wf by simp
  obtain ch where ch: "conn_commit (c\<lparr>cn_staging := st\<rparr>) (word_of_int (int (length xs))) = Some (c\<lparr>cn_staging := st, cn_channel := ch\<rparr>)"
    "channel_wf cap ch" "contents (ch_rd ch) = rest"
    using conn_commit_contents [OF wf1, of "word_of_int (int (length xs))"] n u ct by auto
  let ?c = "c\<lparr>cn_staging := st, cn_channel := ch, cn_events := cn_events c @ [MessageCb (Some pkg)]\<rparr>"
  have "OnMessage cap (Some pkg) (c\<lparr>cn_staging := st, cn_channel := ch\<rparr>, lp) = Some (True, ?c, lp)"
    using ls by (simp add: listening_def conn_open_def)
  then have "DrainRing_body cap cd count (c, lp) = Some (Inr (count + 1, ?c, lp))"
    using b ch(1) n u pos by (simp add: drain_decoded_def codec_codes)
  then show ?thesis using ls ch by (auto simp: listening_def conn_open_def)
qed

lemma DrainRing_delivers:
  assumes "list_all2 (carries cd) xss ps" "listening c" "channel_wf cap (cn_channel c)"
    "contents (ch_rd (cn_channel c)) = concat xss"
  shows "\<exists>c'. DrainRing_loop cap cd count (c, lp) = Some (Ret (count + int (length ps)), c', lp) \<and>
     used (ch_rd (cn_channel c')) = 0 \<and> cn_events c' = cn_events c @ map (\<lambda>p. MessageCb (Some p)) ps"
  using assms
proof (induction xss ps arbitrary: c count rule: list_all2_induct)
  case Nil
  then have "used (ch_rd (cn_channel c)) = 0" by (metis concat.simps(1) length_contents list.size(3))
  then show ?case using DrainRing_body_empty [of c cap cd count lp] by (simp add: DrainRing_loop.simps)
next
  case (Cons xs xss p ps)
  obtain c1 where c1: "DrainRing_body cap cd count (c, lp) = Some (Inr (count + 1, c1, lp))" "listening c1"
    "channel_wf cap (cn_channel c1)" "contents (ch_rd (cn_channel c1)) = concat xss"
    "cn_events c1 = cn_events c @ [MessageCb (Some p)]"
    using drain_one [of c cap xs "concat xss" cd p count lp] Cons by auto
  show ?case
    using Cons.IH [OF c1(2,3,4), of "count + 1"] c1(1,5) by (auto simp: DrainRing_loop.simps [of cap cd count] add.assoc)
qed

locale stream_codec = conn_codec +
  assumes Decode_Encode: "ready \<Longrightarrow> pok pkg \<Longrightarrow> cd_Encode cd pkg b = Some (len, out, b') \<Longrightarrow> 0 < len \<Longrightarrow>
      \<exists>o2. cd_Decode cd (take (nat len) b' @ rest) = Some (len, Some pkg, o2)"
    and no_skip: "ready \<Longrightarrow> pok pkg \<Longrightarrow> \<not> skips (cd_Encode cd pkg)"
begin

lemma encodes_carries:
  assumes "ready" "pok pkg" "encodes (cd_Encode cd pkg) xs"
  shows "carries cd xs pkg"
proof -
  obtain b len out b' where e: "cd_Encode cd pkg b = Some (len, out, b')" "0 < len" "xs = take (nat len) b'"
    using assms(3) by (auto simp: encodes_def)
  obtain len2 out2 b2 where "cd_Encode cd pkg b = Some (len2, out2, b2)" "length b2 = length b" "len2 \<le> int (length b)" "len2 < 2147483648"
    using Encode_ok [OF assms(1,2)] unfolding encode_ok_def by meson
  then have l: "length xs = nat len" "len < 2147483648" using e by auto
  moreover have "xs \<noteq> []" using l(1) e(2) by (metis length_0_conv nat_0_iff not_less)
  ultimately show ?thesis using Decode_Encode [OF assms(1,2) e(1,2)] e(2,3) by (auto simp: carries_def)
qed

lemma SendCmds_carries:
  assumes "ready" "list_all pok ps" "cn_codec (fst s) = Some cd" "ring_wf cap (ch_wr (cn_channel (fst s)))"
  shows "\<exists>oks s' xss. SendCmds cap ps s = Some (oks, s') \<and> length oks = length ps \<and>
     contents (ch_wr (cn_channel (fst s'))) = contents (ch_wr (cn_channel (fst s))) @ concat xss \<and>
     ring_wf cap (ch_wr (cn_channel (fst s'))) \<and> list_all2 (carries cd) xss (accepted ps oks)"
  using assms
proof (induction ps arbitrary: s)
  case Nil
  then show ?case by (auto intro!: exI [of _ "[]"])
next
  case (Cons p ps)
  obtain c lp where s: "s = (c, lp)" by fastforce
  have p: "pok p" "list_all pok ps" using Cons.prems(2) by simp_all
  have cw: "cn_codec c = Some cd" "ring_wf cap (ch_wr (cn_channel c))" using Cons.prems(3,4) s by simp_all
  obtain ok s1 where r: "SendCmd cap p (c, lp) = Some (ok, s1)"
    "if conn_open c then send_result cap (cd_Encode cd p) (c, lp) ok s1 else \<not> ok \<and> s1 = (c, lp)"
    using SendCmd_result [OF Cons.prems(1) p(1) cw] by blast
  have k: "keeps cap c (fst s1)"
    using r(2) keeps_send_result [OF _ cw(2)] keeps_refl [OF cw(2)] by (auto split: if_splits)
  have "\<exists>xs. contents (ch_wr (cn_channel (fst s1))) = contents (ch_wr (cn_channel c)) @ xs \<and>
      (if ok then carries cd xs p else xs = [])"
  proof (cases "conn_open c")
    case True
    with r(2) have "send_result cap (cd_Encode cd p) (c, lp) ok s1" by simp
    then show ?thesis
    proof cases
      case (written xs ch buf)
      then show ?thesis using encodes_carries [OF Cons.prems(1) p(1)] by (simp add: wrote_def)
    qed (use no_skip [OF Cons.prems(1) p(1)] in \<open>simp_all add: Close_fst\<close>)
  qed (use r(2) in simp)
  then obtain xs where xs: "contents (ch_wr (cn_channel (fst s1))) = contents (ch_wr (cn_channel c)) @ xs"
    "if ok then carries cd xs p else xs = []" by blast
  have "cn_codec (fst s1) = Some cd" using k cw by (simp add: keeps_def)
  then obtain oks s' xss where ih: "SendCmds cap ps s1 = Some (oks, s')" "length oks = length ps"
    "contents (ch_wr (cn_channel (fst s'))) = contents (ch_wr (cn_channel (fst s1))) @ concat xss"
    "ring_wf cap (ch_wr (cn_channel (fst s')))" "list_all2 (carries cd) xss (accepted ps oks)"
    using Cons.IH [OF Cons.prems(1) p(2), of s1] keeps_wf [OF k] by blast
  have run: "SendCmds cap (p # ps) s = Some (ok # oks, s')" using r(1) ih(1) s by (simp del: SendCmd.simps)
  show ?case
  proof (cases ok)
    case True
    then show ?thesis using run ih xs s by (auto intro!: exI [of _ "xs # xss"])
  next
    case False
    then show ?thesis using run ih xs s by (auto intro!: exI [of _ xss])
  qed
qed

text \<open>What one side sends through an empty ring, the other side delivers.\<close>

lemma send_then_drain:
  assumes rdy: "ready" and ps: "list_all pok ps" and a: "cn_codec a = Some cd" "ring_wf cap (ch_wr (cn_channel a))"
      "used (ch_wr (cn_channel a)) = 0"
    and b: "cn_codec b = Some cd" "listening b" "ring_wf cap (ch_wr (cn_channel b))"
  shows "\<exists>oks a' lp' b'. SendCmds cap ps (a, lp) = Some (oks, a', lp') \<and> length oks = length ps \<and>
     DrainRing cap (b\<lparr>cn_channel := (cn_channel b)\<lparr>ch_rd := ch_wr (cn_channel a')\<rparr>\<rparr>, lpb)
       = Some (Ret (int (length (accepted ps oks))), b', lpb) \<and>
     cn_events b' = cn_events b @ map (\<lambda>p. MessageCb (Some p)) (accepted ps oks) \<and>
     used (ch_rd (cn_channel b')) = 0"
proof -
  obtain oks s' xss where s: "SendCmds cap ps (a, lp) = Some (oks, s')" "length oks = length ps"
    "contents (ch_wr (cn_channel (fst s'))) = contents (ch_wr (cn_channel a)) @ concat xss"
    "ring_wf cap (ch_wr (cn_channel (fst s')))" "list_all2 (carries cd) xss (accepted ps oks)"
    using SendCmds_carries [OF rdy ps, of "(a, lp)" cap] a by auto
  let ?b = "b\<lparr>cn_channel := (cn_channel b)\<lparr>ch_rd := ch_wr (cn_channel (fst s'))\<rparr>\<rparr>"
  have "contents (ch_wr (cn_channel a)) = []" using a(3) by simp
  then have c: "contents (ch_rd (cn_channel ?b)) = concat xss" using s(3) by simp
  have "listening ?b" "channel_wf cap (cn_channel ?b)"
    using b s(4) by (simp_all add: listening_def conn_open_def channel_wf_def)
  from DrainRing_delivers [OF s(5) this c, of 0 lpb] show ?thesis
    using s(1,2) b(1) by (cases s') (auto simp: DrainRing_def)
qed

end

section \<open>SimplePodCodec as the codec of a connection\<close>

text \<open>
  The codec object: \<open>Encode\<close> and \<open>Decode\<close> on whole buffers, \<open>*size\<close> 0 unless set, and the
  inherited keep-alive functions.
\<close>

definition spc_codec :: "registry \<Rightarrow> codec" where
  "spc_codec R = Codec_default\<lparr>
     cd_Encode := (\<lambda>pkg buf. case SimplePodCodec_Encode R pkg buf (length buf) of
        None \<Rightarrow> None
      | Some (rc, sz, buf') \<Rightarrow> Some (rc, case sz of None \<Rightarrow> 0 | Some n \<Rightarrow> n, buf')),
     cd_Decode := (\<lambda>buf. case SimplePodCodec_Decode R buf (length buf) of
        None \<Rightarrow> None
      | Some (rc, pkg) \<Rightarrow> Some (rc, pkg, 0))\<rparr>"

lemma spc_Encode_ok:
  assumes "registry_ok R" "any_sized R pkg"
  shows "encode_ok (cd_Encode (spc_codec R) pkg)" "\<not> skips (cd_Encode (spc_codec R) pkg)"
proof -
  have e: "\<exists>rc out buf'. cd_Encode (spc_codec R) pkg buf = Some (rc, out, buf') \<and> length buf' = length buf \<and>
      -1 \<le> rc \<and> rc \<le> int (length buf) \<and> rc < 2147483648" for buf
  proof -
    obtain rc sz buf' where r: "SimplePodCodec_Encode R pkg buf (length buf) = Some (rc, sz, buf')" "length buf' = length buf"
      "-1 \<le> rc" "rc > 0 \<longrightarrow> nat rc \<le> length buf"
      using Encode_cases [OF assms, of "length buf" buf] by (auto split: if_splits)
    then show ?thesis using Encode_rc_less [OF r(1)] by (auto simp: spc_codec_def split: option.splits)
  qed
  show "encode_ok (cd_Encode (spc_codec R) pkg)" unfolding encode_ok_def using e by fastforce
  show "\<not> skips (cd_Encode (spc_codec R) pkg)"
  proof
    assume "skips (cd_Encode (spc_codec R) pkg)"
    then obtain b out b' where "cd_Encode (spc_codec R) pkg b = Some (-2, out, b')" by (auto simp: skips_def codec_codes)
    then show False using e [of b] by auto
  qed
qed

lemma spc_Decode_Encode:
  assumes "registry_ok R" "any_sized R pkg" "cd_Encode (spc_codec R) pkg b = Some (len, out, b')" "0 < len"
  shows "\<exists>o2. cd_Decode (spc_codec R) (take (nat len) b' @ rest) = Some (len, Some pkg, o2)"
proof -
  obtain sz where s: "SimplePodCodec_Encode R pkg b (length b) = Some (len, sz, b')"
    using assms(3) by (auto simp: spc_codec_def split: option.splits)
  obtain tag ops where t: "TagOf R (any_type pkg) = Some tag" "OpsOf R tag = Some ops" "op_type ops = any_type pkg"
    "unat (op_size ops) = length (any_data pkg)" "4 + length (any_data pkg) \<le> length b"
    using Encode_pos [OF s assms(4,1,2)] by blast
  have r: "len = 4 + int (length (any_data pkg))" "b' = u32_bytes tag @ any_data pkg @ drop (4 + length (any_data pkg)) b"
    using Encode_result [OF assms(1,2) order_refl t(1,2,3,5)] s by simp_all
  then have tk: "take (nat len) b' = u32_bytes tag @ any_data pkg" by (simp add: nat_add_distrib)
  show ?thesis
    using Decode_result [OF assms(1) t(2,4), of "take (nat len) b' @ rest" rest "length (take (nat len) b' @ rest)"] t(3) tk r(1)
    by (simp add: spc_codec_def)
qed

interpretation spc: stream_codec "spc_codec R" "registry_ok R" "any_sized R" for R :: registry
proof unfold_locales
  fix buf assume "registry_ok R"
  then obtain rc pkg where "SimplePodCodec_Decode R buf (length buf) = Some (rc, pkg)"
    using Decode_bounded [of R "length buf" buf] by blast
  then show "\<exists>len pkg out. cd_Decode (spc_codec R) buf = Some (len, pkg, out) \<and> len < 2147483648"
    using Decode_rc_less by (auto simp: spc_codec_def)
next
  show "encode_ok (cd_SendKeepAlive (spc_codec R))"
    by (simp add: spc_codec_def Codec_default_def encode_ok_def codec_codes)
qed (simp_all add: spc_Encode_ok spc_Decode_Encode)

section \<open>Properties\<close>

text \<open>
  C23: Two endpoints of a channel with \<open>SimplePodCodec\<close> on the same well-formed registry. A
  list of packages, each with as many bytes as its type has, is sent with \<open>SendCmd\<close> through a
  ring that was empty; then the peer, whose connection is open and whose message callback does
  nothing to the connection (it does not close it, send or throw; a callback that closes or
  throws keeps the rest from being delivered), calls \<open>DrainRing\<close>. Both calls are
  defined and return; the peer's message callback gets exactly the packages for which
  \<open>SendCmd\<close> returned true, in order and unchanged, the returned count is their number and
  the ring is empty again.
\<close>

theorem SendCmd_DrainRing_stream:
  assumes "registry_ok R" "list_all (any_sized R) ps"
    and "cn_codec a = Some (spc_codec R)" "ring_wf cap (ch_wr (cn_channel a))" "used (ch_wr (cn_channel a)) = 0"
    and "cn_codec b = Some (spc_codec R)" "listening b" "ring_wf cap (ch_wr (cn_channel b))"
  shows "\<exists>oks a' lp' b'. SendCmds cap ps (a, lp) = Some (oks, a', lp') \<and> length oks = length ps \<and>
     DrainRing cap (b\<lparr>cn_channel := (cn_channel b)\<lparr>ch_rd := ch_wr (cn_channel a')\<rparr>\<rparr>, lpb)
       = Some (Ret (int (length (accepted ps oks))), b', lpb) \<and>
     cn_events b' = cn_events b @ map (\<lambda>p. MessageCb (Some p)) (accepted ps oks) \<and>
     used (ch_rd (cn_channel b')) = 0"
  using assms by (rule spc.send_then_drain)

definition demo_conn :: conn where
  "demo_conn = (ShmConnection_new 1 5 \<lparr>ch_wr = RingBuf_Init 1024, ch_rd = ring_near_wrap, ch_peer_evt = 0, ch_own_evt = 0\<rparr>)
     \<lparr>cn_state := established, cn_codec := Some (spc_codec demo_registry), cn_messagecb := Some (\<lambda>_ _. [])\<rparr>"

lemma demo_conn_sel:
  "cn_codec demo_conn = Some (spc_codec demo_registry)" "ring_wf 1024 (ch_wr (cn_channel demo_conn))"
  "used (ch_wr (cn_channel demo_conn)) = 0" "listening demo_conn" "channel_wf 1024 (cn_channel demo_conn)"
  "cn_events demo_conn = []" "cb_ok (any_sized demo_registry) demo_conn" "conn_open demo_conn"
  using cap_ok_1024 ring_near_wrap_wf
  by (simp_all add: demo_conn_def ShmConnection_new_def ring_wf_Init listening_def conn_open_def used_def RingBuf_Init_def
      channel_wf_def cb_ok_def) (simp_all add: ring_wf_def used_def)

theorem SendCmd_DrainRing_stream_witness:
  "\<exists>oks a' lp' b'. SendCmds 1024 [\<lparr>any_type = 2, any_data = [8, 9]\<rparr>] (demo_conn, EventLoop_new) = Some (oks, a', lp') \<and> length oks = 1 \<and>
     DrainRing 1024 (demo_conn\<lparr>cn_channel := (cn_channel demo_conn)\<lparr>ch_rd := ch_wr (cn_channel a')\<rparr>\<rparr>, EventLoop_new)
       = Some (Ret (int (length (accepted [\<lparr>any_type = 2, any_data = [8, 9]\<rparr>] oks))), b', EventLoop_new)"
proof -
  have "list_all (any_sized demo_registry) [\<lparr>any_type = 2, any_data = [8, 9]\<rparr>]" using demo_registry_sized by simp
  from SendCmd_DrainRing_stream [OF demo_registry_ok this demo_conn_sel(1,2,3) demo_conn_sel(1,4,2), of EventLoop_new EventLoop_new]
  show ?thesis by (metis length_Cons list.size(3) One_nat_def)
qed

text \<open>
  C25: \<open>DrainRing\<close> with any codec that stays inside the memory it is given, whatever lengths
  its \<open>Decode\<close> claims, and with any behaviour of the message callback (sending, closing,
  throwing): the call returns, every memory access is inside the ring and the staging
  buffer, the read position only moves over bytes that were readable, and both rings stay
  well formed.
\<close>

theorem DrainRing_safe:
  assumes "conn_codec cd True pok" "cn_codec c = Some cd" "cb_ok pok c" "channel_wf cap (cn_channel c)"
  shows "\<exists>res c' lp' n. DrainRing cap (c, lp) = Some (res, c', lp') \<and> n \<le> used (ch_rd (cn_channel c)) \<and>
     contents (ch_rd (cn_channel c')) = drop n (contents (ch_rd (cn_channel c))) \<and> channel_wf cap (cn_channel c')"
  using conn_codec.DrainRing_loop_returns [OF assms(1) _ assms(3,2,4), of 0 lp] assms(2)
  by (auto simp: DrainRing_def drained_def)

theorem DrainRing_safe_witness:
  "\<exists>res c' lp' n. DrainRing 1024 (demo_conn, EventLoop_new) = Some (res, c', lp') \<and> n \<le> used (ch_rd (cn_channel demo_conn)) \<and>
     contents (ch_rd (cn_channel c')) = drop n (contents (ch_rd (cn_channel demo_conn))) \<and> channel_wf 1024 (cn_channel c')"
proof (rule DrainRing_safe)
  show "conn_codec (spc_codec demo_registry) True (any_sized demo_registry)"
    using spc.conn_codec_axioms [of demo_registry] demo_registry_ok by simp
qed (rule demo_conn_sel)+

text \<open>
  \<open>SendCmd\<close> on an open connection, with a codec whose \<open>Encode\<close> stays inside the buffer:
  the retry loop ends, whatever buffer sizes the codec asks for. If it returns true, either
  the codec dropped the package or the complete encoding was appended to the ring, however
  many chunks that takes, and the peer was notified. If it returns false, the channel is
  unchanged.
\<close>

theorem SendCmd_all_or_nothing:
  assumes "encode_ok (cd_Encode cd pkg)" "cn_codec c = Some cd" "conn_open c" "ring_wf cap (ch_wr (cn_channel c))"
  shows "\<exists>ok c' lp'. SendCmd cap pkg (c, lp) = Some (ok, c', lp') \<and>
     (if ok then cn_channel c' = cn_channel c \<and> skips (cd_Encode cd pkg) \<or>
         (\<exists>xs. encodes (cd_Encode cd pkg) xs \<and> contents (ch_wr (cn_channel c')) = contents (ch_wr (cn_channel c)) @ xs \<and>
            ring_wf cap (ch_wr (cn_channel c')) \<and> ch_peer_evt (cn_channel c') \<noteq> 0)
      else cn_channel c' = cn_channel c)"
proof -
  obtain ok c' lp' where r: "SendCmd cap pkg (c, lp) = Some (ok, c', lp')" "send_result cap (cd_Encode cd pkg) (c, lp) ok (c', lp')"
    using SendCmd_loop_result [OF assms(1), of cap "(c, lp)"] assms(2,3,4) by auto
  from r(2) have "if ok then cn_channel c' = cn_channel c \<and> skips (cd_Encode cd pkg) \<or>
         (\<exists>xs. encodes (cd_Encode cd pkg) xs \<and> contents (ch_wr (cn_channel c')) = contents (ch_wr (cn_channel c)) @ xs \<and>
            ring_wf cap (ch_wr (cn_channel c')) \<and> ch_peer_evt (cn_channel c') \<noteq> 0)
      else cn_channel c' = cn_channel c"
  proof cases
    case (written xs ch buf)
    then show ?thesis using eventfd_write_signalled by (auto simp: wrote_def)
  next
    case (closed buf)
    then have "c' = fst (Close (c\<lparr>cn_encode_buf := buf\<rparr>, lp))" by (metis fst_conv)
    then show ?thesis using closed by (simp add: Close_fst)
  qed simp_all
  then show ?thesis using r(1) by blast
qed

theorem SendCmd_all_or_nothing_witness:
  "\<exists>ok c' lp'. SendCmd 1024 \<lparr>any_type = 2, any_data = [8, 9]\<rparr> (demo_conn, EventLoop_new) = Some (ok, c', lp')"
  using SendCmd_all_or_nothing [OF spc_Encode_ok(1) [OF demo_registry_ok demo_registry_sized] demo_conn_sel(1,8,2), of EventLoop_new]
  by blast

text \<open>One pass, and a call, of \<open>DrainRing\<close> on a connection that is not open and does not answer heartbeats.\<close>

definition drained_quiet :: "conn \<Rightarrow> conn \<Rightarrow> bool" where
  "drained_quiet c c' \<longleftrightarrow> ch_wr (cn_channel c') = ch_wr (cn_channel c) \<and> ch_peer_evt (cn_channel c') = ch_peer_evt (cn_channel c) \<and>
     cn_events c' = cn_events c \<and> cn_state c' = cn_state c \<and> cn_keepalive c' = cn_keepalive c"

lemma DrainRing_body_quiet:
  assumes "DrainRing_body cap cd count (c, lp) = Some r" "\<not> conn_open c" "\<not> cn_keepalive c"
  shows "drained_quiet c (fst (case r of Inl (_, s) \<Rightarrow> s | Inr (_, s) \<Rightarrow> s))"
proof -
  have cm: "drained_quiet c c2" if "conn_commit (c\<lparr>cn_staging := st\<rparr>) n = Some c2" for st n c2
    using that by (auto simp: conn_commit_def RingChannel_CommitRead_def drained_quiet_def split: option.splits Option.bind_splits)
  have om: "OnMessage cap pkg (c2, lp) = Some (True, c2, lp)" if "drained_quiet c c2" for c2 pkg
    using that assms(2) by (auto simp: drained_quiet_def conn_open_def split: option.splits)
  have k: "\<not> cn_keepalive c2" if "drained_quiet c c2" for c2 using that assms(3) by (simp add: drained_quiet_def)
  have rf: "drained_quiet c c" "drained_quiet c (c\<lparr>cn_staging := st\<rparr>)" for st by (simp_all add: drained_quiet_def)
  show ?thesis
    using assms(1) unfolding DrainRing_body.simps
    by (auto simp: Let_def om k rf simp del: OnMessage.simps dest!: cm
        split: peek_result.splits Option.bind_splits if_splits)
qed

lemma DrainRing_loop_quiet:
  "DrainRing_loop cap cd count s = Some y \<Longrightarrow>
     \<not> conn_open (fst s) \<longrightarrow> \<not> cn_keepalive (fst s) \<longrightarrow> drained_quiet (fst s) (fst (snd y))"
proof (erule DrainRing_loop.raw_induct [where P = "\<lambda>cap cd count s y. \<not> conn_open (fst s) \<longrightarrow> \<not> cn_keepalive (fst s) \<longrightarrow>
    drained_quiet (fst s) (fst (snd y))", rotated])
  fix loop :: "nat \<Rightarrow> codec \<Rightarrow> int \<Rightarrow> cst \<Rightarrow> (int outcome \<times> cst) option"
  fix cap cd count s y
  assume ih: "\<And>cap cd count s y. loop cap cd count s = Some y \<Longrightarrow>
      \<not> conn_open (fst s) \<longrightarrow> \<not> cn_keepalive (fst s) \<longrightarrow> drained_quiet (fst s) (fst (snd y))"
  assume b: "(case DrainRing_body cap cd count s of
     None \<Rightarrow> None
   | Some (Inl res) \<Rightarrow> Some res
   | Some (Inr (count1, s1)) \<Rightarrow> loop cap cd count1 s1) = Some y"
  obtain c lp where s: "s = (c, lp)" by (cases s)
  show "\<not> conn_open (fst s) \<longrightarrow> \<not> cn_keepalive (fst s) \<longrightarrow> drained_quiet (fst s) (fst (snd y))"
  proof (intro impI)
    assume o: "\<not> conn_open (fst s)" "\<not> cn_keepalive (fst s)"
    from b obtain r where r: "DrainRing_body cap cd count s = Some r" by (auto split: option.splits)
    note q = DrainRing_body_quiet [OF r [unfolded s] o [unfolded s fst_conv]]
    show "drained_quiet (fst s) (fst (snd y))"
    proof (cases r)
      case (Inl x)
      then show ?thesis using b r q s by (cases x) auto
    next
      case (Inr x)
      obtain k s1 where x: "x = (k, s1)" by (cases x)
      have q1: "drained_quiet c (fst s1)" using q Inr x by simp
      have "loop cap cd k s1 = Some y" using b r Inr x by simp
      moreover have "\<not> conn_open (fst s1)" "\<not> cn_keepalive (fst s1)"
        using q1 o s by (simp_all add: drained_quiet_def conn_open_def)
      ultimately have "drained_quiet (fst s1) (fst (snd y))" using ih by blast
      then show ?thesis using q1 s by (simp add: drained_quiet_def)
    qed
  qed
qed

lemma DrainRing_quiet:
  assumes "DrainRing cap s = Some (res, s')" "\<not> conn_open (fst s)" "\<not> cn_keepalive (fst s)"
  shows "drained_quiet (fst s) (fst s')"
proof (cases "cn_codec (fst s)")
  case None
  then show ?thesis using assms(1) by (simp add: DrainRing_def drained_quiet_def)
next
  case (Some cd)
  then show ?thesis using DrainRing_loop_quiet [of cap cd 0 s "(res, s')"] assms by (simp add: DrainRing_def)
qed

text \<open>
  C26: Once a connection has left the states in which it is open, no sequence of operations that
  an application callback can perform on it, except reporting a successful verification, opens it
  again, writes a byte into its ring, notifies the peer or calls a callback (so \<open>SendCmd\<close> does
  nothing), and \<open>OnMessage\<close> does nothing. The same holds for \<open>DrainRing\<close> as long as the
  connection does not answer heartbeats (\<open>keepalive_\<close> is off); with \<open>keepalive_\<close> on, \<open>DrainRing\<close>
  still answers a heartbeat on a closed connection.
\<close>

theorem closed_connection_quiet:
  assumes "\<not> conn_open c" "list_all (\<lambda>x. x \<noteq> CoOnVerify True) xs" "do_conn_ops cap xs (c, lp) = Some (ok, c', lp')"
  shows "\<not> conn_open c' \<and> cn_channel c' = cn_channel c \<and> cn_events c' = cn_events c \<and>
     OnMessage cap pkg (c', lp') = Some (True, c', lp') \<and>
     (\<not> cn_keepalive c' \<longrightarrow> (\<forall>res c'' lp''. DrainRing cap (c', lp') = Some (res, c'', lp'') \<longrightarrow>
        ch_wr (cn_channel c'') = ch_wr (cn_channel c) \<and> ch_peer_evt (cn_channel c'') = ch_peer_evt (cn_channel c) \<and>
        cn_events c'' = cn_events c \<and> \<not> conn_open c''))"
proof -
  have q: "\<not> conn_open c' \<and> cn_channel c' = cn_channel c \<and> cn_events c' = cn_events c \<and>
     OnMessage cap pkg (c', lp') = Some (True, c', lp')"
    using do_conn_ops_quiet [of "(c, lp)" xs cap ok "(c', lp')"] assms by (auto split: option.splits)
  moreover have "ch_wr (cn_channel c'') = ch_wr (cn_channel c) \<and> ch_peer_evt (cn_channel c'') = ch_peer_evt (cn_channel c) \<and>
      cn_events c'' = cn_events c \<and> \<not> conn_open c''"
    if "\<not> cn_keepalive c'" "DrainRing cap (c', lp') = Some (res, c'', lp'')" for res c'' lp''
    using DrainRing_quiet [OF that(2)] that(1) q by (simp add: drained_quiet_def conn_open_def)
  ultimately show ?thesis by blast
qed

theorem closed_connection_quiet_witness:
  "\<not> conn_open (demo_conn\<lparr>cn_state := closeing, cn_verify_timer := 0\<rparr>) \<and>
   OnMessage 1024 None (demo_conn\<lparr>cn_state := closeing, cn_verify_timer := 0\<rparr>, EventLoop_new)
     = Some (True, demo_conn\<lparr>cn_state := closeing, cn_verify_timer := 0\<rparr>, EventLoop_new) \<and>
   (\<exists>res c'' lp''. DrainRing 1024 (demo_conn\<lparr>cn_state := closeing, cn_verify_timer := 0\<rparr>, EventLoop_new) = Some (res, c'', lp'') \<and>
      ch_wr (cn_channel c'') = ch_wr (cn_channel demo_conn) \<and> cn_events c'' = cn_events demo_conn \<and> \<not> conn_open c'')"
proof -
  let ?c = "demo_conn\<lparr>cn_state := closeing, cn_verify_timer := 0\<rparr>"
  have o: "\<not> conn_open (demo_conn\<lparr>cn_state := closeing\<rparr>)" by (simp add: conn_open_def)
  have l: "list_all (\<lambda>x. x \<noteq> CoOnVerify True) [CoClose, CoSendCmd \<lparr>any_type = 2, any_data = [8, 9]\<rparr>]" by simp
  have d: "do_conn_ops 1024 [CoClose, CoSendCmd \<lparr>any_type = 2, any_data = [8, 9]\<rparr>] (demo_conn\<lparr>cn_state := closeing\<rparr>, EventLoop_new)
      = Some (True, ?c, EventLoop_new)"
    by (simp add: demo_conn_def ShmConnection_new_def Close.simps RemoveVerifyTimer.simps conn_open_def)
  have "conn_codec (spc_codec demo_registry) True (any_sized demo_registry)"
    using spc.conn_codec_axioms [of demo_registry] demo_registry_ok by simp
  from conn_codec.DrainRing_loop_returns [OF this, of ?c 1024 0 EventLoop_new] obtain res c'' lp'' where
    r: "DrainRing 1024 (?c, EventLoop_new) = Some (res, c'', lp'')"
    using demo_conn_sel by (auto simp: DrainRing_def cb_ok_def)
  have "\<not> cn_keepalive ?c" by (simp add: demo_conn_def ShmConnection_new_def)
  then show ?thesis using closed_connection_quiet [OF o l d, of None] r by auto
qed

text \<open>
  With \<open>keepalive_\<close> on, a heartbeat is answered without a look at the state: \<open>DrainRing\<close> of a
  connection that has been closed writes the response into the ring.
\<close>

lemma heartbeat_answered_when_closed:
  assumes "\<not> conn_open c" "cn_keepalive c" "cn_codec c = Some cd" "channel_wf cap (cn_channel c)"
    and "0 < used (ch_rd (cn_channel c))" "used (ch_wr (cn_channel c)) < cap" "cn_encode_buf c \<noteq> []"
    and "cd_Decode cd (contents (ch_rd (cn_channel c))) = Some (kCodecSkipPackage, None, 1)"
    and "cd_SendKeepAlive cd (cn_encode_buf c) = Some (1, 0, cn_encode_buf c)"
  shows "\<exists>c'. DrainRing_body cap cd count (c, lp) = Some (Inr (count, c', lp)) \<and> \<not> conn_open c' \<and>
     contents (ch_wr (cn_channel c')) = contents (ch_wr (cn_channel c)) @ take 1 (cn_encode_buf c)"
proof -
  have rd: "ring_wf cap (ch_rd (cn_channel c))" using assms(4) by (simp add: channel_wf_def)
  obtain st where b: "DrainRing_body cap cd count (c, lp) =
      drain_decoded cap count (used (ch_rd (cn_channel c))) kCodecSkipPackage None 1 (c\<lparr>cn_staging := st\<rparr>, lp)"
    using DrainRing_body_decoded [OF rd assms(5,8)] by blast
  have wf1: "channel_wf cap (cn_channel (c\<lparr>cn_staging := st\<rparr>))" using assms(4) by simp
  obtain ch where ch: "conn_commit (c\<lparr>cn_staging := st\<rparr>) 1 = Some (c\<lparr>cn_staging := st, cn_channel := ch\<rparr>)"
    "ch_wr ch = ch_wr (cn_channel c)"
    using assms(5) RingBuf_CommitRead_contents [OF rd, of 1] by (auto simp: conn_commit_def RingChannel_CommitRead_def)
  let ?c = "c\<lparr>cn_staging := st, cn_channel := ch\<rparr>"
  have ce: "call_encode (cd_SendKeepAlive cd) ?c = Some (1, 0, ?c)" using assms(9) by (simp add: call_encode_def)
  have wr: "ring_wf cap (ch_wr (cn_channel ?c))" using assms(4) ch by (simp add: channel_wf_def)
  have le: "int 1 \<le> int (length (cn_encode_buf ?c))" using assms(7) by (cases "cn_encode_buf c") auto
  obtain ch2 where w: "write_encoded cap 1 ?c = Some (True, ?c\<lparr>cn_channel := ch2\<rparr>)" "wrote cap (cn_channel ?c) (take 1 (cn_encode_buf ?c)) ch2"
    using write_encoded_cases [OF wr, of 1] le assms(6) ch(2) by force
  have "SendKeepaliveResponse cap ?c = Some (?c\<lparr>cn_channel := ch2\<rparr>)"
    using assms(3) ce w(1) by (simp add: SendKeepaliveResponse_def SendKeepalive_loop.simps [of cap _ ?c])
  then have "DrainRing_body cap cd count (c, lp) = Some (Inr (count, ?c\<lparr>cn_channel := ch2\<rparr>, lp))"
    using b ch(1) assms(2,5) by (simp add: drain_decoded_def codec_codes)
  then show ?thesis using w(2) ch(2) assms(1) by (auto simp: wrote_def conn_open_def)
qed

text \<open>
  \<open>OnVerify(true)\<close> does not look at the state: it makes a connection that was closed in the
  meantime established again, although its socket is shut down.
\<close>

lemma OnVerify_reopens_closed:
  assumes "conn_open c"
  shows "\<exists>c' lp'. do_conn_ops cap [CoClose, CoOnVerify True] (c, lp) = Some (True, c', lp') \<and>
     cn_state c' = established \<and> cn_shutdown c' \<and> cn_close_type c' = Active"
proof -
  obtain c' lp' where r: "OnVerify True (Close (c, lp)) = (c', lp')" by fastforce
  have "fst (OnVerify True (Close (c, lp))) = c'" using r by simp
  then have "cn_state c' = established \<and> cn_shutdown c' \<and> cn_close_type c' = Active"
    unfolding OnVerify_fst Close_fst using assms by auto
  then show ?thesis using r by simp
qed

text \<open>
  \<open>StartVerifyTimer\<close> narrows its 64-bit delay to \<open>int\<close>: 2^31 ms, almost 25 days, becomes
  negative and arms the timer with one nanosecond.
\<close>

lemma StartVerifyTimer_delay_wraps:
  "CreateTimerfd (TimerOk tfd) (to_int 2147483648) 0 lp
     = (Some (tfd, \<lparr>it_value_sec = 0, it_value_nsec = 1, it_interval_sec = 0, it_interval_nsec = 0\<rparr>), lp)"
  by (simp add: to_int_def timer_spec_def)

end
