(* ===== verification/Echo_App.thy ===== *)
theory Echo_App
  imports Realtime Async_Client Conn_Stream
begin

text \<open>
  The applications on top of the library, \<open>src/app_server.cpp\<close> and \<open>src/app_client.cpp\<close>: the server
  answers every \<open>ClientMsg\<close> with a \<open>Heartbeat\<close>, the client sends a \<open>ClientMsg\<close> per timer tick and
  closes after fifty of them. What the handlers print is not modelled. The theory composes what
  the library's theories show: codec, connection, ring and callbacks, from the client's
  \<open>SendCmd\<close> to the answer at its message callback.
\<close>

section \<open>The applications\<close>

text \<open>The \<open>type_index\<close> of the two message types, and the registry both programs set up.\<close>

definition ti_Heartbeat :: nat where "ti_Heartbeat = 1"
definition ti_ClientMsg :: nat where "ti_ClientMsg = 2"

definition app_registry :: registry where
  "app_registry = RegisterPod (RegisterPod registry_empty ti_Heartbeat Heartbeat_type) ti_ClientMsg ClientMsg_type"

text \<open>
  The server's message callback. \<open>clock\<close> gives the time of the call, from the callbacks made before;
  \<open>msg->seq\<close> is the first field of the object.
\<close>

definition app_heartbeat :: "u64 \<Rightarrow> int \<Rightarrow> any_val \<Rightarrow> any_val" where
  "app_heartbeat conn_id now msg = \<lparr>any_type = ti_Heartbeat,
     any_data = Heartbeat_bytes (sint (ucast conn_id :: u32)) (sint (bytes_u32 (take 4 (any_data msg)))) now\<rparr>"

definition app_server_message :: "(conn_event list \<Rightarrow> int) \<Rightarrow> u64 \<Rightarrow> any_val option \<Rightarrow> conn_cb" where
  "app_server_message clock conn_id pkg evs = (case pkg of
     Some msg \<Rightarrow> if any_type msg = ti_ClientMsg then [CoSendCmd (app_heartbeat conn_id (clock evs) msg)] else []
   | None \<Rightarrow> [])"

text \<open>The client: its library object, the tick counter, and the handlers.\<close>

definition kAppMaxTicks :: int where "kAppMaxTicks = 50"

record app_client =
  ap_client :: aclient
  ap_tick :: int

definition app_client_msg :: "int \<Rightarrow> int \<Rightarrow> any_val option" where
  "app_client_msg tick now = map_option (\<lambda>d. \<lparr>any_type = ti_ClientMsg, any_data = d\<rparr>) (ClientMsg_bytes tick tick now 64)"

text \<open>The close callback stops the loop; it has run when a connection was torn down.\<close>

definition app_closed :: "aclient \<Rightarrow> aclient \<Rightarrow> aclient" where
  "app_closed old ac = (if length (ac_closed ac) > length (ac_closed old) then ac\<lparr>ac_loop := Stop (ac_loop ac)\<rparr> else ac)"

definition app_OnTimer :: "nat \<Rightarrow> int \<Rightarrow> fd \<Rightarrow> app_client \<Rightarrow> (bool \<times> app_client) option" where
  "app_OnTimer cap now tfd ap =
     (let ac = (ap_client ap)\<lparr>ac_loop := snd (DrainTimerfd tfd (ac_loop (ap_client ap)))\<rparr>; tick = ap_tick ap + 1 in
      if tick > kAppMaxTicks then do {
        (ok, ac1) \<leftarrow> AClient_Close cap ac;
        let ac2 = app_closed ac ac1;
        Some (ok, \<lparr>ap_client = if ok then ac2\<lparr>ac_loop := Stop (ac_loop ac2)\<rparr> else ac2, ap_tick = tick\<rparr>)
      }
      else do {
        msg \<leftarrow> app_client_msg tick now;
        (_, ac1) \<leftarrow> AClient_SendCmd cap msg ac;
        Some (True, \<lparr>ap_client = ac1, ap_tick = tick\<rparr>)
      })"

text \<open>Successive expirations of the timer; \<open>clock\<close> gives the time of each. \<open>None\<close>: a callback threw.\<close>

fun app_ticks :: "nat \<Rightarrow> (int \<Rightarrow> int) \<Rightarrow> fd \<Rightarrow> nat \<Rightarrow> app_client \<Rightarrow> app_client option" where
  "app_ticks cap clock tfd 0 ap = Some ap"
| "app_ticks cap clock tfd (Suc n) ap = do {
     ap1 \<leftarrow> app_ticks cap clock tfd n ap;
     (ok, ap2) \<leftarrow> app_OnTimer cap (clock (int n)) tfd ap1;
     if ok then Some ap2 else None
   }"

section \<open>The registry\<close>

lemma app_registry_sel:
  "TagOf app_registry ti_Heartbeat = Some (pt_tag Heartbeat_type)" "TagOf app_registry ti_ClientMsg = Some (pt_tag ClientMsg_type)"
  "OpsOf app_registry (pt_tag Heartbeat_type) = Some \<lparr>op_size = 16, op_type = ti_Heartbeat\<rparr>"
  "OpsOf app_registry (pt_tag ClientMsg_type) = Some \<lparr>op_size = 4104, op_type = ti_ClientMsg\<rparr>"
  by (simp_all add: app_registry_def RegisterPod_def Heartbeat_type_def ClientMsg_type_def ti_Heartbeat_def ti_ClientMsg_def)

lemma app_registry_ok: "registry_ok app_registry"
  unfolding app_registry_def
  by (intro registry_ok_RegisterPod registry_ok_empty) (simp_all add: Heartbeat_type_def ClientMsg_type_def)

text \<open>The objects of the two types, with their tag.\<close>

definition app_obj :: "u32 \<Rightarrow> any_val \<Rightarrow> bool" where
  "app_obj tag pkg \<longleftrightarrow> TagOf app_registry (any_type pkg) = Some tag \<and>
     OpsOf app_registry tag = Some \<lparr>op_size = word_of_nat (length (any_data pkg)), op_type = any_type pkg\<rparr> \<and> length (any_data pkg) < 2147483640"

lemma app_obj_Heartbeat: "app_obj (pt_tag Heartbeat_type) (app_heartbeat i now msg)"
  using app_registry_sel by (simp add: app_obj_def app_heartbeat_def Heartbeat_bytes_def i64_bytes_def)

lemma app_obj_ClientMsg: "any_type msg = ti_ClientMsg \<Longrightarrow> length (any_data msg) = 4104 \<Longrightarrow> app_obj (pt_tag ClientMsg_type) msg"
  using app_registry_sel by (simp add: app_obj_def)

lemma app_obj_size:
  "app_obj tag pkg \<Longrightarrow> unat (word_of_nat (length (any_data pkg)) :: u32) = length (any_data pkg)"
  by (intro unat_of_nat_u32) (simp add: app_obj_def)

lemma app_obj_sized: "app_obj tag pkg \<Longrightarrow> any_sized app_registry pkg"
  using app_obj_size [of tag pkg] by (auto simp: any_sized_def app_obj_def)

text \<open>The bytes of a package in the ring, and that the peer reads the package from them.\<close>

definition wire :: "u32 \<Rightarrow> any_val \<Rightarrow> bytes" where
  "wire tag pkg = u32_bytes tag @ any_data pkg"

lemma length_wire [simp]: "length (wire tag pkg) = 4 + length (any_data pkg)"
  by (simp add: wire_def)

lemma wire_carries:
  assumes "app_obj tag pkg"
  shows "carries (spc_codec app_registry) (wire tag pkg) pkg"
proof -
  have "wire tag pkg \<noteq> []" "length (wire tag pkg) < 2147483648"
    using assms length_wire [of tag pkg] by (auto simp: app_obj_def wire_def dest: arg_cong [of _ _ length])
  moreover have "cd_Decode (spc_codec app_registry) (wire tag pkg @ rest) = Some (int (length (wire tag pkg)), Some pkg, 0)" for rest
    using Decode_result [OF app_registry_ok, of tag "\<lparr>op_size = word_of_nat (length (any_data pkg)), op_type = any_type pkg\<rparr>"
        "any_data pkg" "wire tag pkg @ rest" rest "length (wire tag pkg @ rest)"] app_obj_size [OF assms] assms
    by (simp add: spc_codec_def app_obj_def wire_def)
  ultimately show ?thesis by (auto simp: carries_def)
qed

section \<open>Sending with room\<close>

definition app_conn :: "nat \<Rightarrow> conn \<Rightarrow> bool" where
  "app_conn cap c \<longleftrightarrow> conn_open c \<and> cn_codec c = Some (spc_codec app_registry) \<and> channel_wf cap (cn_channel c) \<and> 4108 \<le> length (cn_encode_buf c)"

text \<open>What sending leaves alone.\<close>

definition same_conn :: "conn \<Rightarrow> conn \<Rightarrow> bool" where
  "same_conn c c' \<longleftrightarrow> cn_id c' = cn_id c \<and> cn_state c' = cn_state c \<and> cn_codec c' = cn_codec c \<and> cn_messagecb c' = cn_messagecb c \<and>
     cn_closecb c' = cn_closecb c \<and> length (cn_encode_buf c') = length (cn_encode_buf c)"

lemma same_conn_refl [simp]: "same_conn c c"
  by (simp add: same_conn_def)

lemma same_conn_trans: "same_conn a b \<Longrightarrow> same_conn b c \<Longrightarrow> same_conn a c"
  by (simp add: same_conn_def)

lemma app_send:
  assumes "app_conn cap c" "app_obj tag pkg" "length (any_data pkg) \<le> 4104" "used (ch_wr (cn_channel c)) + length (wire tag pkg) \<le> cap"
  shows "\<exists>c'. SendCmd cap pkg (c, lp) = Some (True, c', lp) \<and> app_conn cap c' \<and> same_conn c c' \<and> cn_events c' = cn_events c \<and>
     contents (ch_wr (cn_channel c')) = contents (ch_wr (cn_channel c)) @ wire tag pkg \<and> ch_rd (cn_channel c') = ch_rd (cn_channel c)"
proof -
  let ?n = "length (any_data pkg)" and ?b = "cn_encode_buf c"
  let ?ops = "\<lparr>op_size = word_of_nat ?n, op_type = any_type pkg\<rparr>"
  have fit: "4 + ?n \<le> length ?b" using assms(1,3) by (simp add: app_conn_def)
  let ?b1 = "wire tag pkg @ drop (4 + ?n) ?b"
  let ?c1 = "c\<lparr>cn_encode_buf := ?b1\<rparr>"
  have "SimplePodCodec_Encode app_registry pkg ?b (length ?b) = Some (4 + int ?n, None, ?b1)"
    using Encode_result [OF app_registry_ok app_obj_sized [OF assms(2)] order_refl, of tag ?ops ?b] assms(2) fit by (simp add: app_obj_def wire_def)
  then have e: "call_encode (cd_Encode (spc_codec app_registry) pkg) c = Some (4 + int ?n, 0, ?c1)"
    using fit by (simp add: call_encode_def spc_codec_def)
  have u: "unat (word_of_int (4 + int ?n) :: u32) = 4 + ?n" using unat_len [of "4 + int ?n"] assms(2) by (simp add: app_obj_def)
  have wf: "ring_wf cap (ch_wr (cn_channel c))" using assms(1) by (simp add: app_conn_def channel_wf_def)
  obtain ch where w: "WriteRaw cap ?b1 (word_of_int (4 + int ?n)) (cn_channel c) = Some (True, ch)" "wrote cap (cn_channel c) (take (4 + ?n) ?b1) ch"
    using WriteRaw_cases [OF wf, of "word_of_int (4 + int ?n)" ?b1] u assms(4) fit by auto
  have "SendCmd_loop cap (cd_Encode (spc_codec app_registry) pkg) (c, lp) = Some (True, ?c1\<lparr>cn_channel := ch\<rparr>, lp)"
    using e w(1) by (simp add: SendCmd_loop.simps write_encoded_def codec_codes)
  then have "SendCmd cap pkg (c, lp) = Some (True, ?c1\<lparr>cn_channel := ch\<rparr>, lp)" using assms(1) by (simp add: app_conn_def)
  then show ?thesis
    using assms(1) w(2) fit
    by (intro exI [of _ "?c1\<lparr>cn_channel := ch\<rparr>"]) (simp add: app_conn_def same_conn_def conn_open_def wrote_def channel_wf_def del: SendCmd.simps)
qed

definition is_ClientMsg :: "any_val \<Rightarrow> bool" where
  "is_ClientMsg m \<longleftrightarrow> any_type m = ti_ClientMsg \<and> length (any_data m) = 4104"

abbreviation "wire_msg \<equiv> wire (pt_tag ClientMsg_type)"
abbreviation "wire_hb \<equiv> wire (pt_tag Heartbeat_type)"

lemma app_sends:
  "app_conn cap c \<Longrightarrow> list_all is_ClientMsg ms \<Longrightarrow> used (ch_wr (cn_channel c)) + 4108 * length ms \<le> cap \<Longrightarrow>
     \<exists>c'. SendCmds cap ms (c, lp) = Some (replicate (length ms) True, c', lp) \<and> app_conn cap c' \<and> same_conn c c' \<and> cn_events c' = cn_events c \<and>
       contents (ch_wr (cn_channel c')) = contents (ch_wr (cn_channel c)) @ concat (map wire_msg ms) \<and> ch_rd (cn_channel c') = ch_rd (cn_channel c)"
proof (induction ms arbitrary: c)
  case (Cons m ms)
  have m: "app_obj (pt_tag ClientMsg_type) m" "length (any_data m) = 4104" using Cons.prems(2) app_obj_ClientMsg by (auto simp: is_ClientMsg_def)
  obtain c1 where c1: "SendCmd cap m (c, lp) = Some (True, c1, lp)" "app_conn cap c1" "same_conn c c1" "cn_events c1 = cn_events c"
    "contents (ch_wr (cn_channel c1)) = contents (ch_wr (cn_channel c)) @ wire_msg m" "ch_rd (cn_channel c1) = ch_rd (cn_channel c)"
    using app_send [OF Cons.prems(1) m(1), of lp] m(2) Cons.prems(3) by auto
  have "used (ch_wr (cn_channel c1)) + 4108 * length ms \<le> cap" using arg_cong [OF c1(5), of length] m(2) Cons.prems(3) by simp
  from Cons.IH [OF c1(2) _ this] obtain c' where
    "SendCmds cap ms (c1, lp) = Some (replicate (length ms) True, c', lp)" "app_conn cap c'" "same_conn c1 c'" "cn_events c' = cn_events c1"
    "contents (ch_wr (cn_channel c')) = contents (ch_wr (cn_channel c1)) @ concat (map wire_msg ms)" "ch_rd (cn_channel c') = ch_rd (cn_channel c1)"
    using Cons.prems(2) by auto
  then show ?case using c1 same_conn_trans [OF c1(3)] by (auto simp del: SendCmd.simps)
qed auto

section \<open>The server answers\<close>

text \<open>
  The answers expected to a list of messages, the first after the callbacks \<open>evs\<close>: the identifier of
  the connection, the number of the message, the time.
\<close>

fun answers :: "(conn_event list \<Rightarrow> int) \<Rightarrow> u64 \<Rightarrow> conn_event list \<Rightarrow> any_val list \<Rightarrow> any_val list" where
  "answers clock i evs [] = []"
| "answers clock i evs (m # ms) =
     \<lparr>any_type = ti_Heartbeat, any_data = Heartbeat_bytes (sint (ucast i :: u32)) (sint (bytes_u32 (take 4 (any_data m)))) (clock evs)\<rparr> #
     answers clock i (evs @ [MessageCb (Some m)]) ms"

lemma answers_Cons: "answers clock i evs (m # ms) = app_heartbeat i (clock evs) m # answers clock i (evs @ [MessageCb (Some m)]) ms"
  by (simp add: app_heartbeat_def)

declare answers.simps(2) [simp del] answers_Cons [simp]

lemma length_answers [simp]: "length (answers clock i evs ms) = length ms"
  by (induction ms arbitrary: evs) simp_all

lemma answers_carried:
  "list_all2 (carries (spc_codec app_registry)) (map wire_hb (answers clock i evs ms)) (answers clock i evs ms)"
  by (induction ms arbitrary: evs) (auto intro: wire_carries app_obj_Heartbeat)

definition echoing :: "(conn_event list \<Rightarrow> int) \<Rightarrow> conn \<Rightarrow> bool" where
  "echoing clock c \<longleftrightarrow> cn_messagecb c = Some (app_server_message clock (cn_id c))"

lemma length_app_heartbeat [simp]: "length (any_data (app_heartbeat i now m)) = 16"
  by (simp add: app_heartbeat_def Heartbeat_bytes_def i64_bytes_def)

lemma commit_keeps_wr:
  assumes "channel_wf cap (cn_channel c)" "unat n \<le> used (ch_rd (cn_channel c))"
  shows "\<exists>ch. conn_commit c n = Some (c\<lparr>cn_channel := ch\<rparr>) \<and> channel_wf cap ch \<and>
     contents (ch_rd ch) = drop (unat n) (contents (ch_rd (cn_channel c))) \<and> ch_wr ch = ch_wr (cn_channel c)"
proof -
  obtain ch where "conn_commit c n = Some (c\<lparr>cn_channel := ch\<rparr>)" "channel_wf cap ch" "contents (ch_rd ch) = drop (unat n) (contents (ch_rd (cn_channel c)))"
    using conn_commit_contents [OF assms] by blast
  moreover from calculation(1) obtain x where "c\<lparr>cn_channel := (cn_channel c)\<lparr>ch_rd := x\<rparr>\<rparr> = c\<lparr>cn_channel := ch\<rparr>"
    by (auto simp: conn_commit_def RingChannel_CommitRead_def split: option.splits Option.bind_splits)
  from arg_cong [OF this, of cn_channel] have "ch_wr ch = ch_wr (cn_channel c)" by auto
  ultimately show ?thesis by blast
qed

lemma echo_one:
  assumes "app_conn cap c" "echoing clock c" "is_ClientMsg m" "contents (ch_rd (cn_channel c)) = wire_msg m @ rest"
    "used (ch_wr (cn_channel c)) + 20 \<le> cap"
  shows "\<exists>c'. DrainRing_body cap (spc_codec app_registry) k (c, lp) = Some (Inr (k + 1, c', lp)) \<and> app_conn cap c' \<and> echoing clock c' \<and>
     cn_id c' = cn_id c \<and> contents (ch_rd (cn_channel c')) = rest \<and> cn_events c' = cn_events c @ [MessageCb (Some m)] \<and>
     contents (ch_wr (cn_channel c')) = contents (ch_wr (cn_channel c)) @ wire_hb (app_heartbeat (cn_id c) (clock (cn_events c)) m)"
proof -
  let ?cd = "spc_codec app_registry" and ?ch = "cn_channel c"
  have wf: "ring_wf cap (ch_rd ?ch)" "channel_wf cap ?ch" using assms(1) by (simp_all add: app_conn_def channel_wf_def)
  have m: "app_obj (pt_tag ClientMsg_type) m" "length (wire_msg m) = 4108" "any_type m = ti_ClientMsg"
    using assms(3) app_obj_ClientMsg by (auto simp: is_ClientMsg_def)
  have u: "used (ch_rd ?ch) = 4108 + length rest" using arg_cong [OF assms(4), of length] m(2) by simp
  obtain out where d: "cd_Decode ?cd (contents (ch_rd ?ch)) = Some (int 4108, Some m, out)"
    using wire_carries [OF m(1)] m(2) unfolding carries_def assms(4) by metis
  obtain st where b: "DrainRing_body cap ?cd k (c, lp) = drain_decoded cap k (used (ch_rd ?ch)) 4108 (Some m) out (c\<lparr>cn_staging := st\<rparr>, lp)"
    using DrainRing_body_decoded [OF wf(1) _ d, of k lp] u by auto
  obtain ch where ch: "conn_commit (c\<lparr>cn_staging := st\<rparr>) 4108 = Some (c\<lparr>cn_staging := st, cn_channel := ch\<rparr>)" "channel_wf cap ch" "contents (ch_rd ch) = rest"
    "ch_wr ch = ch_wr ?ch" using commit_keeps_wr [of cap "c\<lparr>cn_staging := st\<rparr>" 4108] wf(2) u assms(4) m(2) by auto
  let ?c = "c\<lparr>cn_staging := st, cn_channel := ch, cn_events := cn_events c @ [MessageCb (Some m)]\<rparr>"
  let ?hb = "app_heartbeat (cn_id c) (clock (cn_events c)) m"
  have "app_conn cap ?c" "used (ch_wr (cn_channel ?c)) + length (wire_hb ?hb) \<le> cap"
    using assms(1,5) ch(2,4) by (simp_all add: app_conn_def conn_open_def)
  from app_send [OF this(1) app_obj_Heartbeat _ this(2), of lp] obtain c' where
    c': "SendCmd cap ?hb (?c, lp) = Some (True, c', lp)" "app_conn cap c'" "same_conn ?c c'" "cn_events c' = cn_events ?c"
      "contents (ch_wr (cn_channel c')) = contents (ch_wr ch) @ wire_hb ?hb" "ch_rd (cn_channel c') = ch_rd ch" by auto
  have "OnMessage cap (Some m) (c\<lparr>cn_staging := st, cn_channel := ch\<rparr>, lp) = Some (True, c', lp)"
    using assms(1,2) m(3) c'(1) by (simp add: echoing_def app_conn_def conn_open_def app_server_message_def del: SendCmd.simps)
  then have "DrainRing_body cap ?cd k (c, lp) = Some (Inr (k + 1, c', lp))"
    using b ch(1) u by (simp add: drain_decoded_def codec_codes del: OnMessage.simps)
  then show ?thesis using c' ch(3,4) assms(2) by (simp add: echoing_def same_conn_def)
qed

lemma echo_all:
  "app_conn cap c \<Longrightarrow> echoing clock c \<Longrightarrow> list_all is_ClientMsg ms \<Longrightarrow> contents (ch_rd (cn_channel c)) = concat (map wire_msg ms) \<Longrightarrow>
   used (ch_wr (cn_channel c)) + 20 * length ms \<le> cap \<Longrightarrow>
     \<exists>c'. DrainRing_loop cap (spc_codec app_registry) k (c, lp) = Some (Ret (k + int (length ms)), c', lp) \<and> app_conn cap c' \<and>
       used (ch_rd (cn_channel c')) = 0 \<and> cn_events c' = cn_events c @ map (\<lambda>m. MessageCb (Some m)) ms \<and>
       contents (ch_wr (cn_channel c')) = contents (ch_wr (cn_channel c)) @ concat (map wire_hb (answers clock (cn_id c) (cn_events c) ms))"
proof (induction ms arbitrary: c k)
  case Nil
  then have "used (ch_rd (cn_channel c)) = 0" by (metis concat.simps(1) length_contents list.size(3) list.map(1))
  then show ?case using DrainRing_body_empty [of c cap _ k lp] Nil by (simp add: DrainRing_loop.simps)
next
  case (Cons m ms)
  obtain c1 where c1: "DrainRing_body cap (spc_codec app_registry) k (c, lp) = Some (Inr (k + 1, c1, lp))" "app_conn cap c1" "echoing clock c1"
    "cn_id c1 = cn_id c" "contents (ch_rd (cn_channel c1)) = concat (map wire_msg ms)" "cn_events c1 = cn_events c @ [MessageCb (Some m)]"
    "contents (ch_wr (cn_channel c1)) = contents (ch_wr (cn_channel c)) @ wire_hb (app_heartbeat (cn_id c) (clock (cn_events c)) m)"
    using echo_one [OF Cons.prems(1,2), of m "concat (map wire_msg ms)" k lp] Cons.prems(3-5) by auto
  have "used (ch_wr (cn_channel c1)) + 20 * length ms \<le> cap" using arg_cong [OF c1(7), of length] Cons.prems(5) by simp
  from Cons.IH [OF c1(2,3) _ c1(5) this, of "k + 1"] Cons.prems(3) c1 show ?case
    by (auto simp: DrainRing_loop.simps [of cap _ k] add.assoc)
qed

section \<open>The client's timer\<close>

text \<open>The message of tick \<open>k + 1\<close>, and the client after some of them.\<close>

definition tick_msg :: "(int \<Rightarrow> int) \<Rightarrow> nat \<Rightarrow> any_val" where
  "tick_msg clock k = the (app_client_msg (int k + 1) (clock (int k)))"

lemma tick_msg_ok: "app_client_msg (int k + 1) (clock (int k)) = Some (tick_msg clock k)" "is_ClientMsg (tick_msg clock k)"
proof -
  obtain d where d: "ClientMsg_bytes (int k + 1) (int k + 1) (clock (int k)) 64 = Some d" by (simp add: ClientMsg_bytes_def)
  then show "app_client_msg (int k + 1) (clock (int k)) = Some (tick_msg clock k)" "is_ClientMsg (tick_msg clock k)"
    using length_ClientMsg_bytes [OF d] by (simp_all add: tick_msg_def app_client_msg_def is_ClientMsg_def)
qed

definition app_sent :: "nat \<Rightarrow> (int \<Rightarrow> int) \<Rightarrow> app_client \<Rightarrow> conn \<Rightarrow> nat \<Rightarrow> app_client \<Rightarrow> bool" where
  "app_sent cap clock ap c n ap1 \<longleftrightarrow> ap_tick ap1 = int n \<and> ac_state (ap_client ap1) = cl_established \<and>
     lp_running (ac_loop (ap_client ap1)) = lp_running (ac_loop (ap_client ap)) \<and> ac_closed (ap_client ap1) = ac_closed (ap_client ap) \<and>
     (\<exists>e1. ac_conn (ap_client ap1) = Some e1 \<and> app_conn cap (sc_conn e1) \<and> same_conn c (sc_conn e1) \<and>
       contents (ch_wr (cn_channel (sc_conn e1))) = contents (ch_wr (cn_channel c)) @ concat (map (wire_msg \<circ> tick_msg clock) [0..<n]))"

lemma length_tick_wires [simp]: "length (concat (map (wire_msg \<circ> tick_msg clock) [0..<n])) = 4108 * n"
  using tick_msg_ok(2) by (induction n) (simp_all add: is_ClientMsg_def)

lemma app_OnTimer_sends:
  assumes "app_sent cap clock ap c n ap1" "used (ch_wr (cn_channel c)) + 4108 * Suc n \<le> cap" "n < 50"
  shows "\<exists>ap2. app_OnTimer cap (clock (int n)) tfd ap1 = Some (True, ap2) \<and> app_sent cap clock ap c (Suc n) ap2"
proof -
  let ?ac = "(ap_client ap1)\<lparr>ac_loop := snd (DrainTimerfd tfd (ac_loop (ap_client ap1)))\<rparr>" and ?m = "tick_msg clock n"
  obtain e1 where e1: "ac_conn (ap_client ap1) = Some e1" "app_conn cap (sc_conn e1)" "same_conn c (sc_conn e1)"
    "contents (ch_wr (cn_channel (sc_conn e1))) = contents (ch_wr (cn_channel c)) @ concat (map (wire_msg \<circ> tick_msg clock) [0..<n])"
    using assms(1) by (auto simp: app_sent_def)
  have m: "app_obj (pt_tag ClientMsg_type) ?m" "length (any_data ?m) = 4104"
    using tick_msg_ok(2) app_obj_ClientMsg by (auto simp: is_ClientMsg_def)
  have "used (ch_wr (cn_channel (sc_conn e1))) + length (wire_msg ?m) \<le> cap" using arg_cong [OF e1(4), of length] m(2) assms(2) by simp
  from app_send [OF e1(2) m(1) _ this, of "ac_loop ?ac"] m(2) obtain c' where c': "SendCmd cap ?m (sc_conn e1, ac_loop ?ac) = Some (True, c', ac_loop ?ac)"
    "app_conn cap c'" "same_conn (sc_conn e1) c'" "contents (ch_wr (cn_channel c')) = contents (ch_wr (cn_channel (sc_conn e1))) @ wire_msg ?m" by auto
  have "AClient_SendCmd cap ?m ?ac = Some (True, aput e1 c' (ac_loop ?ac) ?ac)"
    using e1(1) c'(1) assms(1) by (simp add: AClient_SendCmd_def app_sent_def del: SendCmd.simps)
  then have "app_OnTimer cap (clock (int n)) tfd ap1 = Some (True, \<lparr>ap_client = aput e1 c' (ac_loop ?ac) ?ac, ap_tick = int n + 1\<rparr>)"
    using tick_msg_ok(1) [of n clock] assms(1,3) by (simp add: app_OnTimer_def app_sent_def kAppMaxTicks_def Let_def)
  then show ?thesis
    using c' e1(4) assms(1) same_conn_trans [OF e1(3) c'(3)] by (auto simp: app_sent_def aput_def DrainTimerfd_def)
qed

lemma app_ticks_sent:
  assumes "app_sent cap clock ap c 0 ap" "used (ch_wr (cn_channel c)) + 4108 * n \<le> cap" "n \<le> 50"
  shows "\<exists>ap1. app_ticks cap clock tfd n ap = Some ap1 \<and> app_sent cap clock ap c n ap1"
  using assms(2,3)
proof (induction n)
  case (Suc n)
  then obtain ap1 where "app_ticks cap clock tfd n ap = Some ap1" "app_sent cap clock ap c n ap1" by auto
  then show ?case using app_OnTimer_sends [of cap clock ap c n ap1 tfd] Suc.prems by auto
qed (use assms(1) in simp)

lemma OnClose_quiet:
  assumes "cn_closecb c = Some (\<lambda>_. [])"
  shows "\<exists>c' lp'. OnClose cap (c, lp) = Some (True, c', lp') \<and> cn_state c' = closeed \<and> cn_channel c' = cn_channel c"
  using assms by (auto simp: RemoveVerifyTimer.simps)

lemma app_Close:
  assumes "ac_state ac = cl_established" "ac_conn ac = Some e" "cn_closecb (sc_conn e) = Some (\<lambda>_. [])"
  shows "\<exists>ac' c. AClient_Close cap ac = Some (True, ac') \<and> ac_state ac' = cl_close \<and> ac_conn ac' = None \<and>
     ac_closed ac' = ac_closed ac @ [c] \<and> cn_state c = closeed \<and> cn_channel c = cn_channel (sc_conn e)"
proof -
  obtain c1 lp1 where c1: "Close (sc_conn e, ac_loop ac) = (c1, lp1)" by fastforce
  then have cc: "cn_closecb c1 = Some (\<lambda>_. [])" "cn_channel c1 = cn_channel (sc_conn e)" using assms(3) by (auto simp: Close.simps RemoveVerifyTimer.simps split: if_splits)
  show ?thesis
    using OnClose_quiet [OF cc(1), of cap "RemoveFd (cn_socket c1) (RemoveFd (sc_notify e) lp1)"] c1 cc(2) assms(1,2)
    by (auto simp: AClient_Close_def Teardown_def aput_def Let_def simp del: Close.simps OnClose.simps)
qed

section \<open>Properties\<close>

text \<open>Connections for the witnesses.\<close>

definition app_demo_conn :: "nat \<Rightarrow> u64 \<Rightarrow> (any_val option \<Rightarrow> conn_cb) \<Rightarrow> conn" where
  "app_demo_conn cap i cb = (ShmConnection_new i 5 \<lparr>ch_wr = RingBuf_Init cap, ch_rd = RingBuf_Init cap, ch_peer_evt = 0, ch_own_evt = 0\<rparr>)
     \<lparr>cn_state := established, cn_codec := Some (spc_codec app_registry), cn_messagecb := Some cb, cn_closecb := Some (\<lambda>_. [])\<rparr>"

lemma app_demo_conn_ok:
  "cap_ok cap \<Longrightarrow> app_conn cap (app_demo_conn cap i cb)" "used (ch_wr (cn_channel (app_demo_conn cap i cb))) = 0"
  "listening (app_demo_conn cap i (\<lambda>_ _. []))" "echoing clock (app_demo_conn cap i (app_server_message clock i))"
  "cn_events (app_demo_conn cap i cb) = []" "cn_id (app_demo_conn cap i cb) = i" "cn_closecb (app_demo_conn cap i cb) = Some (\<lambda>_. [])"
  using ring_wf_Init [of cap] by (simp_all add: app_conn_def app_demo_conn_def ShmConnection_new_def conn_open_def channel_wf_def
      listening_def echoing_def RingBuf_Init_def used_def)

lemma demo_cap_ok: "cap_ok 8192" "cap_ok 262144"
  by (simp_all add: cap_ok_def)

text \<open>
  The session of the client application. With a connected client whose ring has room for the
  fifty messages, fifty expirations of the timer send the messages with the numbers one to fifty,
  in order, one each, and the client stays connected; the next expiration closes the connection,
  once, with all messages in the ring for the server to read, and stops the event loop.
\<close>

theorem app_client_session:
  assumes "ap_tick ap = 0" "ac_state (ap_client ap) = cl_established" "ac_conn (ap_client ap) = Some e" "app_conn cap (sc_conn e)"
    and "cn_closecb (sc_conn e) = Some (\<lambda>_. [])" "used (ch_wr (cn_channel (sc_conn e))) + 4108 * 50 \<le> cap"
  shows "\<exists>ap1 ap2 c. app_ticks cap clock tfd 50 ap = Some ap1 \<and> ac_state (ap_client ap1) = cl_established \<and>
     lp_running (ac_loop (ap_client ap1)) = lp_running (ac_loop (ap_client ap)) \<and>
     app_ticks cap clock tfd 51 ap = Some ap2 \<and> ac_state (ap_client ap2) = cl_close \<and> ac_conn (ap_client ap2) = None \<and>
     \<not> lp_running (ac_loop (ap_client ap2)) \<and> ac_closed (ap_client ap2) = ac_closed (ap_client ap) @ [c] \<and> cn_state c = closeed \<and>
     contents (ch_wr (cn_channel c)) = contents (ch_wr (cn_channel (sc_conn e))) @
       concat (map (\<lambda>k. wire (pt_tag ClientMsg_type) (the (app_client_msg (int k + 1) (clock (int k))))) [0..<50])"
proof -
  have "app_sent cap clock ap (sc_conn e) 0 ap" using assms by (simp add: app_sent_def)
  from app_ticks_sent [OF this assms(6)] obtain ap1 where a: "app_ticks cap clock tfd 50 ap = Some ap1" "app_sent cap clock ap (sc_conn e) 50 ap1" by blast
  let ?ac = "(ap_client ap1)\<lparr>ac_loop := snd (DrainTimerfd tfd (ac_loop (ap_client ap1)))\<rparr>"
  obtain e1 where e1: "ac_conn ?ac = Some e1" "ac_state ?ac = cl_established" "same_conn (sc_conn e) (sc_conn e1)"
    "contents (ch_wr (cn_channel (sc_conn e1))) = contents (ch_wr (cn_channel (sc_conn e))) @ concat (map (wire_msg \<circ> tick_msg clock) [0..<50])"
    using a(2) by (auto simp: app_sent_def)
  obtain ac' c where c: "AClient_Close cap ?ac = Some (True, ac')" "ac_state ac' = cl_close" "ac_conn ac' = None"
    "ac_closed ac' = ac_closed ?ac @ [c]" "cn_state c = closeed" "cn_channel c = cn_channel (sc_conn e1)"
    using app_Close [OF e1(2,1), of cap] e1(3) assms(5) by (auto simp: same_conn_def)
  let ?ap2 = "\<lparr>ap_client = (app_closed ?ac ac')\<lparr>ac_loop := Stop (ac_loop (app_closed ?ac ac'))\<rparr>, ap_tick = 51\<rparr>"
  have "app_OnTimer cap (clock 50) tfd ap1 = Some (True, ?ap2)"
    using c(1) a(2) by (simp add: app_OnTimer_def app_sent_def kAppMaxTicks_def Let_def)
  then have "app_ticks cap clock tfd 51 ap = Some ?ap2" using app_ticks.simps(2) [of cap clock tfd 50 ap] a(1) by simp
  then show ?thesis
    using a c(2-6) e1(4) by (intro exI [of _ ap1] exI [of _ ?ap2] exI [of _ c])
      (simp add: app_sent_def app_closed_def Stop_def comp_def tick_msg_def)
qed

definition app_demo_client :: app_client where
  "app_demo_client = \<lparr>ap_client = (ShmAsyncClient_new EventLoop_new)\<lparr>ac_state := cl_established,
     ac_conn := Some \<lparr>sc_conn = app_demo_conn 262144 1 (\<lambda>_ _. []), sc_notify = 6\<rparr>\<rparr>, ap_tick = 0\<rparr>"

theorem app_client_session_witness:
  "\<exists>ap2 c. app_ticks 262144 (\<lambda>k. 1000 + k) 7 51 app_demo_client = Some ap2 \<and> ac_conn (ap_client ap2) = None \<and>
     \<not> lp_running (ac_loop (ap_client ap2)) \<and> ac_closed (ap_client ap2) = [c] \<and> cn_state c = closeed"
proof -
  let ?e = "\<lparr>sc_conn = app_demo_conn 262144 1 (\<lambda>_ _. []), sc_notify = 6\<rparr>"
  have "ap_tick app_demo_client = 0" "ac_state (ap_client app_demo_client) = cl_established"
    "ac_conn (ap_client app_demo_client) = Some ?e" "ac_closed (ap_client app_demo_client) = []"
    by (simp_all add: app_demo_client_def ShmAsyncClient_new_def)
  moreover have "app_conn 262144 (sc_conn ?e)" "cn_closecb (sc_conn ?e) = Some (\<lambda>_. [])" "used (ch_wr (cn_channel (sc_conn ?e))) + 4108 * 50 \<le> 262144"
    using app_demo_conn_ok demo_cap_ok by simp_all
  ultimately show ?thesis using app_client_session [of app_demo_client ?e 262144 "\<lambda>k. 1000 + k" 7] by fastforce
qed

text \<open>
  C24: the echo application from end to end. A client connection and the server's connection for it
  share their two rings, which are empty; both use the codec with the two registered types. The
  client sends any list of \<open>ClientMsg\<close> that fits the ring (fifty of them fit the default ring forty
  times), the server drains its ring with the application's callback, and the client drains
  its own. Every call of \<open>SendCmd\<close> returns true, the server sees exactly the messages sent, and
  the client's callback gets exactly one heartbeat per message, in order, with the identifier of
  the connection and the sequence number of that message; both rings are then empty.
\<close>

theorem echo_round_trip:
  assumes "app_conn cap a" "listening a" "app_conn cap b" "echoing clock b" "list_all is_ClientMsg ms"
    and "used (ch_wr (cn_channel a)) = 0" "used (ch_wr (cn_channel b)) = 0" "4108 * length ms \<le> cap"
  shows "\<exists>a1 b1 a2. SendCmds cap ms (a, lpa) = Some (replicate (length ms) True, a1, lpa) \<and>
     DrainRing cap (b\<lparr>cn_channel := (cn_channel b)\<lparr>ch_rd := ch_wr (cn_channel a1)\<rparr>\<rparr>, lpb) = Some (Ret (int (length ms)), b1, lpb) \<and>
     DrainRing cap (a1\<lparr>cn_channel := (cn_channel a1)\<lparr>ch_rd := ch_wr (cn_channel b1), ch_wr := ch_rd (cn_channel b1)\<rparr>\<rparr>, lpa)
       = Some (Ret (int (length ms)), a2, lpa) \<and>
     cn_events b1 = cn_events b @ map (\<lambda>m. MessageCb (Some m)) ms \<and>
     cn_events a2 = cn_events a @ map (\<lambda>h. MessageCb (Some h)) (answers clock (cn_id b) (cn_events b) ms) \<and>
     used (ch_rd (cn_channel b1)) = 0 \<and> used (ch_rd (cn_channel a2)) = 0"
proof -
  have "used (ch_wr (cn_channel a)) + 4108 * length ms \<le> cap" using assms(6,8) by simp
  from app_sends [OF assms(1,5) this, of lpa] obtain a1 where a1: "SendCmds cap ms (a, lpa) = Some (replicate (length ms) True, a1, lpa)"
    "app_conn cap a1" "same_conn a a1" "cn_events a1 = cn_events a"
    "contents (ch_wr (cn_channel a1)) = contents (ch_wr (cn_channel a)) @ concat (map wire_msg ms)" by blast
  let ?b = "b\<lparr>cn_channel := (cn_channel b)\<lparr>ch_rd := ch_wr (cn_channel a1)\<rparr>\<rparr>"
  have e: "contents (ch_wr (cn_channel a)) = []" "contents (ch_wr (cn_channel b)) = []" using assms(6,7) by simp_all
  have b: "app_conn cap ?b" "echoing clock ?b" "contents (ch_rd (cn_channel ?b)) = concat (map wire_msg ms)"
    "used (ch_wr (cn_channel ?b)) + 20 * length ms \<le> cap"
    using assms(3,4,7,8) a1(2,5) e(1) by (simp_all add: app_conn_def echoing_def conn_open_def channel_wf_def)
  from echo_all [OF b(1,2) assms(5) b(3,4), of 0 lpb] obtain b1 where b1: "DrainRing cap (?b, lpb) = Some (Ret (int (length ms)), b1, lpb)"
    "app_conn cap b1" "used (ch_rd (cn_channel b1)) = 0" "cn_events b1 = cn_events b @ map (\<lambda>m. MessageCb (Some m)) ms"
    "contents (ch_wr (cn_channel b1)) = concat (map wire_hb (answers clock (cn_id b) (cn_events b) ms))"
    using b(1) e(2) by (auto simp: DrainRing_def app_conn_def)
  let ?a = "a1\<lparr>cn_channel := (cn_channel a1)\<lparr>ch_rd := ch_wr (cn_channel b1), ch_wr := ch_rd (cn_channel b1)\<rparr>\<rparr>"
  have l: "listening ?a" "channel_wf cap (cn_channel ?a)" "cn_codec ?a = Some (spc_codec app_registry)"
    using assms(1,2) a1(2,3) b1(2) by (auto simp: listening_def same_conn_def conn_open_def app_conn_def channel_wf_def)
  from DrainRing_delivers [OF answers_carried l(1,2), of clock "cn_id b" "cn_events b" ms 0 lpa] obtain a2 where
    "DrainRing cap (?a, lpa) = Some (Ret (int (length ms)), a2, lpa)" "used (ch_rd (cn_channel a2)) = 0"
    "cn_events a2 = cn_events a @ map (\<lambda>h. MessageCb (Some h)) (answers clock (cn_id b) (cn_events b) ms)"
    using b1(5) l(3) a1(4) by (auto simp: DrainRing_def)
  then show ?thesis using a1(1) b1 by blast
qed

theorem echo_round_trip_witness:
  "\<exists>msg a1 b1 a2. ClientMsg_bytes 7 7 100 64 = Some msg \<and>
     SendCmds 8192 [\<lparr>any_type = ti_ClientMsg, any_data = msg\<rparr>] (app_demo_conn 8192 1 (\<lambda>_ _. []), EventLoop_new) = Some ([True], a1, EventLoop_new) \<and>
     DrainRing 8192 ((app_demo_conn 8192 3 (app_server_message (\<lambda>_. 200) 3))
       \<lparr>cn_channel := (cn_channel (app_demo_conn 8192 3 (app_server_message (\<lambda>_. 200) 3)))\<lparr>ch_rd := ch_wr (cn_channel a1)\<rparr>\<rparr>, EventLoop_new)
       = Some (Ret 1, b1, EventLoop_new) \<and>
     DrainRing 8192 (a1\<lparr>cn_channel := (cn_channel a1)\<lparr>ch_rd := ch_wr (cn_channel b1), ch_wr := ch_rd (cn_channel b1)\<rparr>\<rparr>, EventLoop_new)
       = Some (Ret 1, a2, EventLoop_new) \<and>
     cn_events b1 = [MessageCb (Some \<lparr>any_type = ti_ClientMsg, any_data = msg\<rparr>)] \<and>
     cn_events a2 = [MessageCb (Some \<lparr>any_type = ti_Heartbeat, any_data = Heartbeat_bytes 3 7 200\<rparr>)]"
proof -
  obtain msg where m: "ClientMsg_bytes 7 7 100 64 = Some msg" by (simp add: ClientMsg_bytes_def)
  have l: "length msg = 4104" "take 4 msg = u32_bytes 7" using length_ClientMsg_bytes [OF m] m by (simp, auto simp: ClientMsg_bytes_def)
  let ?ms = "[\<lparr>any_type = ti_ClientMsg, any_data = msg\<rparr>]"
  have ms: "list_all is_ClientMsg ?ms" "4108 * length ?ms \<le> 8192" using l by (simp_all add: is_ClientMsg_def)
  have hb: "answers (\<lambda>_. 200) 3 [] ?ms = [\<lparr>any_type = ti_Heartbeat, any_data = Heartbeat_bytes 3 7 200\<rparr>]"
    using l by (simp add: app_heartbeat_def)
  let ?a = "app_demo_conn 8192 1 (\<lambda>_ _. [])" and ?b = "app_demo_conn 8192 3 (app_server_message (\<lambda>_. 200) 3)"
  from echo_round_trip [of 8192 ?a ?b "\<lambda>_. 200" ?ms EventLoop_new EventLoop_new,
      OF app_demo_conn_ok(1) [OF demo_cap_ok(1)] app_demo_conn_ok(3) app_demo_conn_ok(1) [OF demo_cap_ok(1)] app_demo_conn_ok(4) ms(1) app_demo_conn_ok(2,2) ms(2)] m
  show ?thesis unfolding app_demo_conn_ok(5,6) hb by (elim exE conjE, intro exI conjI) simp_all
qed

end
