(* ===== verification/Socket_Io.thy ===== *)
theory Socket_Io
  imports Shm_Prelude
begin

text \<open>
  Blocking transfers over a stream socket: \<open>ReadFull\<close> and \<open>WriteFull\<close> of
  \<open>include/shm_ipc/bench_common.hpp\<close>, \<open>ReadAll\<close> and \<open>WriteAll\<close> of the socket programs. A socket has
  the bytes its peer will have sent before it closes, the bytes written so far, and what the
  next calls of \<open>read\<close> and \<open>write\<close> do: transfer at most some number of bytes, be interrupted, or
  fail. When these are used up, calls transfer as much as they can. The locale \<open>exact_reader\<close>
  states what the protocols over a socket rely on; both ways to read provide it.
\<close>

section \<open>Sockets\<close>

datatype xfer = Xfer nat | Eintr | Fail

record sock =
  sk_in :: bytes
  sk_out :: bytes
  sk_rd :: "xfer list"
  sk_wr :: "xfer list"

text \<open>How a program goes on: normally, ended by \<open>_Exit(1)\<close>, or after an access out of bounds.\<close>

datatype 'a run = Done 'a | Exit1 | Oob

definition seqr :: "'a run \<Rightarrow> ('a \<Rightarrow> 'b run) \<Rightarrow> 'b run" where
  "seqr m f = (case m of Done x \<Rightarrow> f x | Exit1 \<Rightarrow> Exit1 | Oob \<Rightarrow> Oob)"

definition checked :: "'a option \<Rightarrow> 'a run" where
  "checked x = (case x of None \<Rightarrow> Oob | Some y \<Rightarrow> Done y)"

lemma seqr_simps [simp]: "seqr (Done x) f = f x" "seqr Exit1 f = Exit1" "seqr Oob f = Oob"
  by (simp_all add: seqr_def)

lemma checked_simps [simp]: "checked (Some x) = Done x" "checked None = Oob"
  by (simp_all add: checked_def)

lemma seqr_cong [fundef_cong]:
  "m = m' \<Longrightarrow> (\<And>x. m' = Done x \<Longrightarrow> f x = g x) \<Longrightarrow> seqr m f = seqr m' g"
  by (cases m') simp_all

lemma seqr_not_Oob: "m \<noteq> Oob \<Longrightarrow> (\<And>x. m = Done x \<Longrightarrow> f x \<noteq> Oob) \<Longrightarrow> seqr m f \<noteq> Oob"
  by (cases m) simp_all

lemma seqr_Done: "seqr m f = Done y \<Longrightarrow> \<exists>x. m = Done x \<and> f x = Done y"
  by (cases m) simp_all

text \<open>
  The system calls: the number of bytes transferred, which for \<open>read\<close> is 0 at the end of the
  stream, or an error, with \<open>errno\<close> set to \<open>EINTR\<close> or not.
\<close>

datatype call_result = Bytes nat | CallEintr | CallFail

fun next_call :: "nat \<Rightarrow> xfer list \<Rightarrow> call_result \<times> xfer list" where
  "next_call m [] = (Bytes m, [])"
| "next_call m (Xfer k # xs) = (Bytes (min k m), xs)"
| "next_call m (Eintr # xs) = (CallEintr, xs)"
| "next_call m (Fail # xs) = (CallFail, xs)"

definition sys_read :: "nat \<Rightarrow> sock \<Rightarrow> call_result \<times> sock" where
  "sys_read len s = (let (r, rd) = next_call (min len (length (sk_in s))) (sk_rd s) in (r, s\<lparr>sk_rd := rd\<rparr>))"

definition sys_write :: "nat \<Rightarrow> sock \<Rightarrow> call_result \<times> sock" where
  "sys_write len s = (let (r, wr) = next_call len (sk_wr s) in (r, s\<lparr>sk_wr := wr\<rparr>))"

lemma next_call_le: "next_call m xs = (Bytes n, ys) \<Longrightarrow> n \<le> m"
  by (cases "(m, xs)" rule: next_call.cases) auto

lemma next_call_length:
  "next_call m xs = (r, ys) \<Longrightarrow> length ys < length xs \<or> (xs = [] \<and> ys = [] \<and> r = Bytes m)"
  by (cases "(m, xs)" rule: next_call.cases) auto

section \<open>Reading\<close>

text \<open>Reading stores into the caller's buffer at the current offset.\<close>

function ReadFull_loop :: "bytes \<Rightarrow> nat \<Rightarrow> nat \<Rightarrow> sock \<Rightarrow> (bool \<times> bytes \<times> sock) run" where
  "ReadFull_loop buf got len s =
     (if got < len then
        (case sys_read (len - got) s of
           (CallEintr, s1) \<Rightarrow> ReadFull_loop buf got len s1
         | (CallFail, s1) \<Rightarrow> Done (False, buf, s1)
         | (Bytes n, s1) \<Rightarrow>
             if n = 0 then Done (False, buf, s1)
             else seqr (checked (mem_write buf got (take n (sk_in s1))))
               (\<lambda>buf1. ReadFull_loop buf1 (got + n) len (s1\<lparr>sk_in := drop n (sk_in s1)\<rparr>)))
      else Done (True, buf, s))"
  by pat_completeness auto

lemma sys_read_progress:
  "sys_read m s = (r, s1) \<Longrightarrow> length (sk_rd s1) < length (sk_rd s) \<or> (sk_rd s1 = [] \<and> sk_rd s = [] \<and> r = Bytes (min m (length (sk_in s))))"
  using next_call_length [of "min m (length (sk_in s))" "sk_rd s"] by (auto simp: sys_read_def split: prod.splits)

termination ReadFull_loop
  by (relation "measure (\<lambda>(buf, got, len, s). length (sk_rd s) + (len - got))")
    (auto dest!: sys_read_progress [OF sym] simp: min_def split: if_splits)

definition ReadFull :: "bytes \<Rightarrow> nat \<Rightarrow> sock \<Rightarrow> (bool \<times> bytes \<times> sock) run" where
  "ReadFull buf len s = ReadFull_loop buf 0 len s"

text \<open>\<open>ReadAll\<close> of the socket programs ends the process on every \<open>read\<close> that returns 0 or less.\<close>

function ReadAll_loop :: "bytes \<Rightarrow> nat \<Rightarrow> nat \<Rightarrow> sock \<Rightarrow> (bytes \<times> sock) run" where
  "ReadAll_loop buf p len s =
     (if len > 0 then
        (case sys_read len s of
           (Bytes n, s1) \<Rightarrow>
             if n = 0 then Exit1
             else seqr (checked (mem_write buf p (take n (sk_in s1))))
               (\<lambda>buf1. ReadAll_loop buf1 (p + n) (len - n) (s1\<lparr>sk_in := drop n (sk_in s1)\<rparr>))
         | _ \<Rightarrow> Exit1)
      else Done (buf, s))"
  by pat_completeness auto

termination ReadAll_loop
  by (relation "measure (\<lambda>(buf, p, len, s). len)") auto

definition ReadAll :: "bytes \<Rightarrow> nat \<Rightarrow> sock \<Rightarrow> (bytes \<times> sock) run" where
  "ReadAll buf len s = ReadAll_loop buf 0 len s"

section \<open>Writing\<close>

function WriteFull_loop :: "bytes \<Rightarrow> nat \<Rightarrow> nat \<Rightarrow> sock \<Rightarrow> (bool \<times> sock) run" where
  "WriteFull_loop buf sent len s =
     (if sent < len then
        (case sys_write (len - sent) s of
           (CallEintr, s1) \<Rightarrow> WriteFull_loop buf sent len s1
         | (CallFail, s1) \<Rightarrow> Done (False, s1)
         | (Bytes n, s1) \<Rightarrow> seqr (checked (mem_read buf sent n))
             (\<lambda>d. WriteFull_loop buf (sent + n) len (s1\<lparr>sk_out := sk_out s1 @ d\<rparr>)))
      else Done (True, s))"
  by pat_completeness auto

lemma sys_write_progress:
  "sys_write m s = (r, s1) \<Longrightarrow> length (sk_wr s1) < length (sk_wr s) \<or> (sk_wr s1 = [] \<and> sk_wr s = [] \<and> r = Bytes m)"
  using next_call_length [of m "sk_wr s"] by (auto simp: sys_write_def split: prod.splits)

termination WriteFull_loop
  by (relation "measure (\<lambda>(buf, sent, len, s). length (sk_wr s) + (len - sent))")
    (auto dest!: sys_write_progress [OF sym])

definition WriteFull :: "bytes \<Rightarrow> nat \<Rightarrow> sock \<Rightarrow> (bool \<times> sock) run" where
  "WriteFull buf len s = WriteFull_loop buf 0 len s"

function WriteAll_loop :: "bytes \<Rightarrow> nat \<Rightarrow> nat \<Rightarrow> sock \<Rightarrow> sock run" where
  "WriteAll_loop buf p len s =
     (if len > 0 then
        (case sys_write len s of
           (Bytes n, s1) \<Rightarrow>
             if n = 0 then Exit1
             else seqr (checked (mem_read buf p n)) (\<lambda>d. WriteAll_loop buf (p + n) (len - n) (s1\<lparr>sk_out := sk_out s1 @ d\<rparr>))
         | _ \<Rightarrow> Exit1)
      else Done s)"
  by pat_completeness auto

termination WriteAll_loop
  by (relation "measure (\<lambda>(buf, p, len, s). len)") auto

definition WriteAll :: "bytes \<Rightarrow> nat \<Rightarrow> sock \<Rightarrow> sock run" where
  "WriteAll buf len s = WriteAll_loop buf 0 len s"

declare ReadFull_loop.simps [simp del] ReadAll_loop.simps [simp del] WriteFull_loop.simps [simp del] WriteAll_loop.simps [simp del]

section \<open>What reading does\<close>

text \<open>The next \<open>k\<close> bytes of the stream have been stored at offset \<open>p\<close>, and nothing else has changed.\<close>

definition read_into :: "bytes \<Rightarrow> nat \<Rightarrow> sock \<Rightarrow> nat \<Rightarrow> bytes \<Rightarrow> sock \<Rightarrow> bool" where
  "read_into buf p s k buf' s' \<longleftrightarrow> k \<le> length (sk_in s) \<and> buf' = take p buf @ take k (sk_in s) @ drop (p + k) buf \<and>
     s' = s\<lparr>sk_in := drop k (sk_in s), sk_rd := sk_rd s'\<rparr> \<and> set (sk_rd s') \<subseteq> set (sk_rd s)"

lemma read_into_refl: "read_into buf p s 0 buf s"
  by (simp add: read_into_def)

lemma next_call_set: "next_call m xs = (r, ys) \<Longrightarrow> set ys \<subseteq> set xs"
  by (cases "(m, xs)" rule: next_call.cases) auto

lemma sys_read_into: "sys_read m s = (r, s1) \<Longrightarrow> read_into buf p s 0 buf s1 \<and> sk_in s1 = sk_in s"
  using next_call_set [of "min m (length (sk_in s))" "sk_rd s"] by (auto simp: sys_read_def read_into_def split: prod.splits)

lemma sys_read_Bytes: "sys_read m s = (Bytes n, s1) \<Longrightarrow> n \<le> m \<and> n \<le> length (sk_in s)"
  by (auto simp: sys_read_def dest!: next_call_le split: prod.splits)

lemma read_into_sel:
  assumes "read_into buf p s k buf' s'"
  shows "sk_in s' = drop k (sk_in s)" "sk_out s' = sk_out s" "sk_wr s' = sk_wr s" "set (sk_rd s') \<subseteq> set (sk_rd s)" "k \<le> length (sk_in s)"
  using assms by (cases s; cases s'; simp add: read_into_def)+

lemma read_into_trans:
  assumes "read_into buf p s k buf1 s1" "read_into buf1 (p + k) s1 m buf2 s2" "p + k \<le> length buf"
  shows "read_into buf p s (k + m) buf2 s2"
proof -
  have "take (p + k) buf1 = take p buf @ take k (sk_in s)" "drop (p + k + m) buf1 = drop (p + k + m) buf"
    using assms(1,3) by (auto simp: read_into_def min_def add.commute)
  moreover have "s2 = s\<lparr>sk_in := drop (k + m) (sk_in s), sk_rd := sk_rd s2\<rparr>"
    using read_into_sel [OF assms(1)] read_into_sel [OF assms(2)] by (cases s; cases s2) (simp add: add.commute)
  moreover have "buf2 = take (p + k) buf1 @ take m (sk_in s1) @ drop (p + k + m) buf1" using assms(2) by (simp add: read_into_def)
  ultimately show ?thesis
    using read_into_sel [OF assms(1)] read_into_sel [OF assms(2)] by (auto simp: read_into_def take_add add.assoc)
qed

lemma read_step:
  assumes "sys_read m s = (Bytes n, s1)" "p + n \<le> length buf"
  shows "\<exists>buf1. checked (mem_write buf p (take n (sk_in s1))) = Done buf1 \<and> length buf1 = length buf \<and>
     read_into buf p s n buf1 (s1\<lparr>sk_in := drop n (sk_in s1)\<rparr>)"
proof -
  have n: "n \<le> length (sk_in s)" "sk_in s1 = sk_in s" using sys_read_Bytes [OF assms(1)] sys_read_into [OF assms(1), of buf p] by simp_all
  then have "mem_write buf p (take n (sk_in s1)) = Some (take p buf @ take n (sk_in s) @ drop (p + n) buf)"
    using assms(2) by (simp add: mem_write_def)
  moreover have "read_into buf p s n (take p buf @ take n (sk_in s) @ drop (p + n) buf) (s1\<lparr>sk_in := drop n (sk_in s1)\<rparr>)"
    using read_into_sel [OF conjunct1 [OF sys_read_into [OF assms(1), of buf p]]] n by (cases s; cases s1) (simp add: read_into_def)
  ultimately show ?thesis using assms(2) n by simp
qed

text \<open>Calls that make progress, with and without interruptions.\<close>

fun moves :: "xfer \<Rightarrow> bool" where
  "moves (Xfer k) = (0 < k)"
| "moves Eintr = False"
| "moves Fail = False"

definition tolerable :: "xfer \<Rightarrow> bool" where
  "tolerable x \<longleftrightarrow> x = Eintr \<or> moves x"

lemma next_call_moves: "list_all moves xs \<Longrightarrow> 0 < m \<Longrightarrow> \<exists>n ys. next_call m xs = (Bytes n, ys) \<and> 0 < n \<and> list_all moves ys"
  by (cases "(m, xs)" rule: next_call.cases) auto

lemma next_call_tolerable:
  "list_all tolerable xs \<Longrightarrow> 0 < m \<Longrightarrow> next_call m xs = (r, ys) \<Longrightarrow> list_all tolerable ys \<and> (r = CallEintr \<or> (\<exists>n. r = Bytes n \<and> 0 < n))"
  by (cases "(m, xs)" rule: next_call.cases) (auto simp: tolerable_def)

lemma ReadFull_loop_reads:
  "got \<le> len \<Longrightarrow> len \<le> length buf \<Longrightarrow> \<exists>ok buf' s' k. ReadFull_loop buf got len s = Done (ok, buf', s') \<and>
     read_into buf got s k buf' s' \<and> length buf' = length buf \<and> (ok \<longrightarrow> got + k = len) \<and>
     (list_all tolerable (sk_rd s) \<longrightarrow> len - got \<le> length (sk_in s) \<longrightarrow> ok)"
proof (induction buf got len s rule: ReadFull_loop.induct)
  case (1 buf got len s)
  show ?case
  proof (cases "got < len")
    case False
    then show ?thesis using "1.prems" by (auto simp: ReadFull_loop.simps intro!: exI [of _ 0] read_into_refl)
  next
    case lt: True
    obtain r s1 where r: "sys_read (len - got) s = (r, s1)" by fastforce
    note in0 = sys_read_into [OF r, of buf got]
    have tol: "list_all tolerable (sk_rd s1) \<and> (r = CallEintr \<or> (\<exists>n. r = Bytes n \<and> 0 < n))"
      if "list_all tolerable (sk_rd s)" "len - got \<le> length (sk_in s)"
      using that lt r next_call_tolerable [of "sk_rd s" "min (len - got) (length (sk_in s))"]
      by (fastforce simp: sys_read_def split: prod.splits)
    show ?thesis
    proof (cases r)
      case (Bytes n)
      show ?thesis
      proof (cases "n = 0")
        case True
        then show ?thesis using lt r Bytes in0 tol by (fastforce simp: ReadFull_loop.simps [of buf])
      next
        case False
        have n: "n \<le> len - got" "n \<le> length (sk_in s)" using sys_read_Bytes r Bytes by blast+
        then have le: "got + n \<le> length buf" using lt "1.prems" by linarith
        obtain buf1 where b: "checked (mem_write buf got (take n (sk_in s1))) = Done buf1" "length buf1 = length buf"
          "read_into buf got s n buf1 (s1\<lparr>sk_in := drop n (sk_in s1)\<rparr>)" using read_step [OF r [unfolded Bytes] le] by blast
        have "got + n \<le> len" "len \<le> length buf1" using n lt b(2) "1.prems" by linarith+
        from "1.IH"(1) [OF lt r [symmetric] Bytes False b(1) this] obtain ok buf' s' k where
          h: "ReadFull_loop buf1 (got + n) len (s1\<lparr>sk_in := drop n (sk_in s1)\<rparr>) = Done (ok, buf', s')"
            "read_into buf1 (got + n) (s1\<lparr>sk_in := drop n (sk_in s1)\<rparr>) k buf' s'" "length buf' = length buf1" "ok \<longrightarrow> got + n + k = len"
            "list_all tolerable (sk_rd s1) \<longrightarrow> len - (got + n) \<le> length (drop n (sk_in s1)) \<longrightarrow> ok" by auto
        have "ReadFull_loop buf got len s = Done (ok, buf', s')" using lt r Bytes False b(1) h(1) by (simp add: ReadFull_loop.simps [of buf])
        then show ?thesis
          using read_into_trans [OF b(3) h(2) le] h(3-5) b(2) tol in0 n by (intro exI [of _ ok] exI [of _ buf'] exI [of _ s'] exI [of _ "n + k"]) auto
      qed
    next
      case CallEintr
      from "1.IH"(2) [OF lt r [symmetric] CallEintr "1.prems"] obtain ok buf' s' k where
        h: "ReadFull_loop buf got len s1 = Done (ok, buf', s')" "read_into buf got s1 k buf' s'" "length buf' = length buf"
          "ok \<longrightarrow> got + k = len" "list_all tolerable (sk_rd s1) \<longrightarrow> len - got \<le> length (sk_in s1) \<longrightarrow> ok" by auto
      have "ReadFull_loop buf got len s = Done (ok, buf', s')" using lt r CallEintr h(1) by (simp add: ReadFull_loop.simps [of buf])
      moreover have "read_into buf got s k buf' s'" using read_into_trans [of buf got s 0 buf s1 k buf' s'] h(2) in0 lt "1.prems" by simp
      ultimately show ?thesis using h(3-5) in0 tol by (intro exI [of _ ok] exI [of _ buf'] exI [of _ s'] exI [of _ k]) auto
    next
      case CallFail
      then show ?thesis using lt r in0 tol by (fastforce simp: ReadFull_loop.simps [of buf])
    qed
  qed
qed

lemma ReadAll_loop_reads:
  "p + len \<le> length buf \<Longrightarrow>
     (ReadAll_loop buf p len s = Exit1 \<and> \<not> (list_all moves (sk_rd s) \<and> len \<le> length (sk_in s))) \<or>
     (\<exists>buf' s'. ReadAll_loop buf p len s = Done (buf', s') \<and> read_into buf p s len buf' s' \<and> length buf' = length buf)"
proof (induction buf p len s rule: ReadAll_loop.induct)
  case (1 buf p len s)
  show ?case
  proof (cases "0 < len")
    case False
    then show ?thesis by (simp add: ReadAll_loop.simps read_into_refl)
  next
    case pos: True
    obtain r s1 where r: "sys_read len s = (r, s1)" by fastforce
    note in0 = sys_read_into [OF r, of buf p]
    have mv: "list_all moves (sk_rd s1) \<and> (\<exists>n. r = Bytes n \<and> 0 < n)"
      if "list_all moves (sk_rd s)" "len \<le> length (sk_in s)"
      using that pos r next_call_moves [of "sk_rd s" "min len (length (sk_in s))"] by (auto simp: sys_read_def split: prod.splits)
    show ?thesis
    proof (cases "\<exists>n. r = Bytes n \<and> 0 < n")
      case False
      then show ?thesis using pos r mv by (auto simp: ReadAll_loop.simps [of buf] split: call_result.splits)
    next
      case True
      then obtain n where n: "r = Bytes n" "0 < n" by blast
      have le: "n \<le> len" "n \<le> length (sk_in s)" using sys_read_Bytes r n by blast+
      then have lb: "p + n \<le> length buf" using "1.prems" by linarith
      obtain buf1 where b: "checked (mem_write buf p (take n (sk_in s1))) = Done buf1" "length buf1 = length buf"
        "read_into buf p s n buf1 (s1\<lparr>sk_in := drop n (sk_in s1)\<rparr>)" using read_step [OF r [unfolded n(1)] lb] by blast
      have "n \<noteq> 0" "p + n + (len - n) \<le> length buf1" using n le b(2) "1.prems" by linarith+
      note ih = "1.IH" [OF pos r [symmetric] n(1) this(1) b(1) this(2)]
      have eq: "ReadAll_loop buf p len s = ReadAll_loop buf1 (p + n) (len - n) (s1\<lparr>sk_in := drop n (sk_in s1)\<rparr>)"
        using pos r n b(1) by (simp add: ReadAll_loop.simps [of buf])
      from ih show ?thesis
      proof (elim disjE exE conjE)
        assume "ReadAll_loop buf1 (p + n) (len - n) (s1\<lparr>sk_in := drop n (sk_in s1)\<rparr>) = Exit1"
          "\<not> (list_all moves (sk_rd (s1\<lparr>sk_in := drop n (sk_in s1)\<rparr>)) \<and> len - n \<le> length (sk_in (s1\<lparr>sk_in := drop n (sk_in s1)\<rparr>)))"
        then show ?thesis using eq mv in0 le by auto
      next
        fix buf' s'
        assume h: "ReadAll_loop buf1 (p + n) (len - n) (s1\<lparr>sk_in := drop n (sk_in s1)\<rparr>) = Done (buf', s')"
          "read_into buf1 (p + n) (s1\<lparr>sk_in := drop n (sk_in s1)\<rparr>) (len - n) buf' s'" "length buf' = length buf1"
        then show ?thesis using eq read_into_trans [OF b(3) h(2) lb] le b(2) by simp
      qed
    qed
  qed
qed

text \<open>
  What a protocol needs to know of the way it reads: it stays inside the buffer, stores bytes of
  the stream in order, all of them when it reports success, and succeeds when the bytes are
  there and all calls make progress.
\<close>

locale exact_reader =
  fixes rd :: "bytes \<Rightarrow> nat \<Rightarrow> sock \<Rightarrow> (bool \<times> bytes \<times> sock) run" and steady :: "xfer \<Rightarrow> bool"
  assumes rd_safe: "len \<le> length buf \<Longrightarrow> rd buf len s \<noteq> Oob"
    and rd_reads: "len \<le> length buf \<Longrightarrow> rd buf len s = Done (ok, buf', s') \<Longrightarrow>
      \<exists>k. read_into buf 0 s k buf' s' \<and> length buf' = length buf \<and> (ok \<longrightarrow> k = len)"
    and rd_steady: "len \<le> length buf \<Longrightarrow> len \<le> length (sk_in s) \<Longrightarrow> list_all steady (sk_rd s) \<Longrightarrow>
      \<exists>buf' s'. rd buf len s = Done (True, buf', s')"
begin

lemma rd_consumes:
  assumes "len \<le> length buf" "rd buf len s = Done (True, buf', s')"
  shows "length (sk_in s') + len = length (sk_in s)" "length buf' = length buf" "take len buf' = take len (sk_in s)"
proof -
  have r: "read_into buf 0 s len buf' s'" "length buf' = length buf" using rd_reads [OF assms] by auto
  then show "length (sk_in s') + len = length (sk_in s)" using read_into_sel [OF r(1)] by simp
  show "length buf' = length buf" "take len buf' = take len (sk_in s)" using r by (simp_all add: read_into_def)
qed

lemma rd_shrinks:
  assumes "len \<le> length buf" "rd buf len s = Done (ok, buf', s')"
  shows "length (sk_in s') \<le> length (sk_in s)"
  using rd_reads [OF assms] by (auto dest!: read_into_sel(1))

lemma rd_prefix:
  assumes "sk_in s = xs @ rest" "length xs = len" "len \<le> length buf" "list_all steady (sk_rd s)"
  shows "\<exists>s'. rd buf len s = Done (True, xs @ drop len buf, s') \<and> sk_in s' = rest \<and> sk_out s' = sk_out s \<and>
     sk_wr s' = sk_wr s \<and> list_all steady (sk_rd s')"
proof -
  obtain buf' s' where r: "rd buf len s = Done (True, buf', s')" using rd_steady [OF assms(3) _ assms(4)] assms(1,2) by auto
  then obtain k where k: "read_into buf 0 s k buf' s'" "k = len" using rd_reads [OF assms(3)] by blast
  then have "buf' = xs @ drop len buf" using assms(1,2) by (simp add: read_into_def)
  then show ?thesis using r read_into_sel [OF k(1)] k(2) assms by (auto simp: list_all_iff)
qed

end

definition ReadAll_flag :: "bytes \<Rightarrow> nat \<Rightarrow> sock \<Rightarrow> (bool \<times> bytes \<times> sock) run" where
  "ReadAll_flag buf len s = seqr (ReadAll buf len s) (\<lambda>(b, s1). Done (True, b, s1))"

interpretation rfull: exact_reader ReadFull tolerable
proof
  fix len :: nat and buf :: bytes and s
  assume le: "len \<le> length buf"
  obtain ok buf' s' k where r: "ReadFull buf len s = Done (ok, buf', s')" "read_into buf 0 s k buf' s'" "length buf' = length buf"
    "ok \<longrightarrow> k = len" "list_all tolerable (sk_rd s) \<longrightarrow> len \<le> length (sk_in s) \<longrightarrow> ok"
    using ReadFull_loop_reads [of 0 len buf s] le unfolding ReadFull_def by auto
  show "ReadFull buf len s \<noteq> Oob" using r(1) by simp
  show "\<exists>k. read_into buf 0 s k b t \<and> length b = length buf \<and> (okk \<longrightarrow> k = len)" if "ReadFull buf len s = Done (okk, b, t)" for okk b t
    using r that by auto
  show "\<exists>buf' s'. ReadFull buf len s = Done (True, buf', s')" if "len \<le> length (sk_in s)" "list_all tolerable (sk_rd s)"
    using r that by auto
qed

interpretation rall: exact_reader ReadAll_flag moves
proof
  fix len :: nat and buf :: bytes and s
  assume le: "len \<le> length buf"
  note r = ReadAll_loop_reads [of 0 len buf s, folded ReadAll_def]
  show "ReadAll_flag buf len s \<noteq> Oob" using r le by (auto simp: ReadAll_flag_def)
  show "\<exists>k. read_into buf 0 s k b t \<and> length b = length buf \<and> (ok \<longrightarrow> k = len)" if "ReadAll_flag buf len s = Done (ok, b, t)" for ok b t
    using r le that by (auto simp: ReadAll_flag_def)
  show "\<exists>buf' s'. ReadAll_flag buf len s = Done (True, buf', s')" if "len \<le> length (sk_in s)" "list_all moves (sk_rd s)"
    using r le that by (auto simp: ReadAll_flag_def)
qed

section \<open>What writing does\<close>

lemma sys_write_sel:
  "sys_write m s = (r, s1) \<Longrightarrow> sk_in s1 = sk_in s \<and> sk_out s1 = sk_out s \<and> sk_rd s1 = sk_rd s \<and> set (sk_wr s1) \<subseteq> set (sk_wr s)"
  using next_call_set [of m "sk_wr s"] by (auto simp: sys_write_def split: prod.splits)

lemma sys_write_Bytes: "sys_write m s = (Bytes n, s1) \<Longrightarrow> n \<le> m"
  by (auto simp: sys_write_def dest!: next_call_le split: prod.splits)

lemma take_drop_add: "take m (drop p xs) @ take n (drop (p + m) xs) = take (m + n) (drop p xs)"
  by (simp add: take_add add.commute)

lemma WriteAll_loop_writes:
  "p + len \<le> length buf \<Longrightarrow>
     (WriteAll_loop buf p len s = Exit1 \<and> \<not> list_all moves (sk_wr s)) \<or>
     (\<exists>s'. WriteAll_loop buf p len s = Done s' \<and> sk_out s' = sk_out s @ take len (drop p buf) \<and>
        sk_in s' = sk_in s \<and> sk_rd s' = sk_rd s \<and> set (sk_wr s') \<subseteq> set (sk_wr s))"
proof (induction buf p len s rule: WriteAll_loop.induct)
  case (1 buf p len s)
  show ?case
  proof (cases "0 < len")
    case False
    then show ?thesis by (simp add: WriteAll_loop.simps)
  next
    case pos: True
    obtain r s1 where r: "sys_write len s = (r, s1)" by fastforce
    have mv: "\<exists>n. r = Bytes n \<and> 0 < n" if "list_all moves (sk_wr s)"
      using that pos r next_call_moves [of "sk_wr s" len] by (auto simp: sys_write_def split: prod.splits)
    show ?thesis
    proof (cases "\<exists>n. r = Bytes n \<and> 0 < n")
      case False
      then show ?thesis using pos r mv by (auto simp: WriteAll_loop.simps [of buf] split: call_result.splits)
    next
      case True
      then obtain n where n: "r = Bytes n" "0 < n" by blast
      have le: "n \<le> len" using sys_write_Bytes r n by blast
      have b: "checked (mem_read buf p n) = Done (take n (drop p buf))" using le "1.prems" by (simp add: mem_read_def)
      have "n \<noteq> 0" "p + n + (len - n) \<le> length buf" using n le "1.prems" by linarith+
      note ih = "1.IH" [OF pos r [symmetric] n(1) this(1) b this(2)]
      have eq: "WriteAll_loop buf p len s = WriteAll_loop buf (p + n) (len - n) (s1\<lparr>sk_out := sk_out s1 @ take n (drop p buf)\<rparr>)"
        using pos r n b by (simp add: WriteAll_loop.simps [of buf p len s])
      show ?thesis
        using ih sys_write_sel [OF r] take_drop_add [of n p buf "len - n"] le unfolding eq by (auto simp: list_all_iff)
    qed
  qed
qed

lemma WriteAll_steady:
  assumes "len \<le> length buf" "list_all moves (sk_wr s)"
  shows "\<exists>s'. WriteAll buf len s = Done s' \<and> sk_out s' = sk_out s @ take len buf \<and> sk_in s' = sk_in s \<and>
     sk_rd s' = sk_rd s \<and> list_all moves (sk_wr s')"
  using WriteAll_loop_writes [of 0 len buf s] assms unfolding WriteAll_def by (auto simp: list_all_iff)

lemma WriteFull_loop_writes:
  "sent \<le> len \<Longrightarrow> len \<le> length buf \<Longrightarrow> \<exists>ok s' k. WriteFull_loop buf sent len s = Done (ok, s') \<and> sent + k \<le> len \<and>
     sk_out s' = sk_out s @ take k (drop sent buf) \<and> sk_in s' = sk_in s \<and> sk_rd s' = sk_rd s \<and> set (sk_wr s') \<subseteq> set (sk_wr s) \<and>
     (ok \<longrightarrow> sent + k = len) \<and> (Fail \<notin> set (sk_wr s) \<longrightarrow> ok)"
proof (induction buf sent len s rule: WriteFull_loop.induct)
  case (1 buf sent len s)
  show ?case
  proof (cases "sent < len")
    case False
    then show ?thesis using "1.prems" by (auto simp: WriteFull_loop.simps intro!: exI [of _ 0])
  next
    case lt: True
    obtain r s1 where r: "sys_write (len - sent) s = (r, s1)" by fastforce
    note sel = sys_write_sel [OF r]
    show ?thesis
    proof (cases r)
      case (Bytes n)
      have le: "sent + n \<le> len" using sys_write_Bytes [OF r [unfolded Bytes]] lt by linarith
      then have b: "checked (mem_read buf sent n) = Done (take n (drop sent buf))" using "1.prems" by (simp add: mem_read_def)
      let ?s = "s1\<lparr>sk_out := sk_out s1 @ take n (drop sent buf)\<rparr>"
      obtain ok s' k where h: "WriteFull_loop buf (sent + n) len ?s = Done (ok, s')" "sent + n + k \<le> len"
        "sk_out s' = sk_out ?s @ take k (drop (sent + n) buf)" "sk_in s' = sk_in ?s" "sk_rd s' = sk_rd ?s" "set (sk_wr s') \<subseteq> set (sk_wr ?s)"
        "ok \<longrightarrow> sent + n + k = len" "Fail \<notin> set (sk_wr ?s) \<longrightarrow> ok" using "1.IH"(1) [OF lt r [symmetric] Bytes b le "1.prems"(2)] by blast
      have "WriteFull_loop buf sent len s = Done (ok, s')" using lt r Bytes b h(1) by (simp add: WriteFull_loop.simps [of buf sent])
      then show ?thesis
        using h(2-8) sel take_drop_add [of n sent buf k] by (intro exI [of _ ok] exI [of _ s'] exI [of _ "n + k"]) auto
    next
      case CallEintr
      then have eq: "WriteFull_loop buf sent len s = WriteFull_loop buf sent len s1" using lt r by (simp add: WriteFull_loop.simps [of buf sent len s])
      obtain ok s' k where h: "WriteFull_loop buf sent len s1 = Done (ok, s')" "sent + k \<le> len"
        "sk_out s' = sk_out s1 @ take k (drop sent buf)" "sk_in s' = sk_in s1" "sk_rd s' = sk_rd s1" "set (sk_wr s') \<subseteq> set (sk_wr s1)"
        "ok \<longrightarrow> sent + k = len" "Fail \<notin> set (sk_wr s1) \<longrightarrow> ok" using "1.IH"(2) [OF lt r [symmetric] CallEintr "1.prems"] by blast
      then show ?thesis using sel eq by (intro exI [of _ ok] exI [of _ s'] exI [of _ k]) auto
    next
      case CallFail
      have "Fail \<in> set (sk_wr s)"
        using r CallFail by (cases "(len - sent, sk_wr s)" rule: next_call.cases) (auto simp: sys_write_def)
      then show ?thesis using lt r sel CallFail by (auto simp: WriteFull_loop.simps [of buf sent] intro!: exI [of _ 0])
    qed
  qed
qed

lemma WriteFull_writes:
  assumes "len \<le> length buf"
  shows "\<exists>ok s' k. WriteFull buf len s = Done (ok, s') \<and> k \<le> len \<and> sk_out s' = sk_out s @ take k buf \<and> sk_in s' = sk_in s \<and>
     sk_rd s' = sk_rd s \<and> set (sk_wr s') \<subseteq> set (sk_wr s) \<and> (ok \<longrightarrow> k = len) \<and> (Fail \<notin> set (sk_wr s) \<longrightarrow> ok)"
  using WriteFull_loop_writes [of 0 len buf s] assms by (simp add: WriteFull_def)

section \<open>Properties\<close>

text \<open>
  A transfer with \<open>WriteFull\<close> on one end and \<open>ReadFull\<close> on the other, however the kernel splits it
  and wherever signals interrupt it: as long as no call fails, both report success and the
  receiver's buffer holds exactly the bytes sent, with the rest of the buffer and of the
  stream untouched.
\<close>

theorem WriteFull_ReadFull_roundtrip:
  assumes "Fail \<notin> set (sk_wr a)" "list_all tolerable (sk_rd b)" "len \<le> length src" "len \<le> length buf"
    and "sk_in b = drop (length (sk_out a)) (sk_out a') @ rest" "WriteFull src len a = Done (ok, a')"
  shows "ok \<and> (\<exists>b'. ReadFull buf len b = Done (True, take len src @ drop len buf, b') \<and> sk_in b' = rest \<and> sk_out b' = sk_out b)"
proof -
  have w: "ok" "sk_out a' = sk_out a @ take len src" using WriteFull_writes [OF assms(3), of a] assms(1,6) by auto
  have "sk_in b = take len src @ rest" using assms(5) w(2) by simp
  from rfull.rd_prefix [OF this _ assms(4,2)] show ?thesis using w(1) assms(3) by auto
qed

theorem WriteFull_ReadFull_roundtrip_witness:
  "\<exists>b'. ReadFull [0, 0, 0, 9] 3 \<lparr>sk_in = [1, 2, 3, 4], sk_out = [], sk_rd = [Xfer 1, Eintr, Xfer 5], sk_wr = []\<rparr> = Done (True, [1, 2, 3, 9], b') \<and>
     sk_in b' = [4]"
proof -
  let ?a = "\<lparr>sk_in = [], sk_out = [], sk_rd = [], sk_wr = [Eintr, Xfer 2]\<rparr>"
  have "WriteFull [1, 2, 3] 3 ?a = Done (True, \<lparr>sk_in = [], sk_out = [1, 2, 3], sk_rd = [], sk_wr = []\<rparr>)"
    by (simp add: WriteFull_def WriteFull_loop.simps sys_write_def mem_read_def)
  from WriteFull_ReadFull_roundtrip [OF _ _ _ _ _ this, where buf = "[0, 0, 0, 9]" and rest = "[4]"
      and b = "\<lparr>sk_in = [1, 2, 3, 4], sk_out = [], sk_rd = [Xfer 1, Eintr, Xfer 5], sk_wr = []\<rparr>"]
  show ?thesis by (auto simp: tolerable_def)
qed

end
