(* ===== verification/Socket_Bench.thy ===== *)
theory Socket_Bench
  imports Socket_Io Pod_Codec
begin

text \<open>
  The throughput test over a plain Unix socket: the definitions of
  \<open>include/shm_ipc/bench_common.hpp\<close>, the client \<open>src/socket_client.cpp\<close> and the server
  \<open>src/socket_server.cpp\<close>. The list of test cases is an argument; the programs run \<open>kBenchCases\<close>.
  Time is not modelled: a row of output is the payload size and the number of messages.
\<close>

section \<open>Definitions of bench_common.hpp\<close>

definition kBenchTag :: u32 where "kBenchTag = 0x42454E43"

type_synonym s32 = "32 word"

text \<open>\<open>BenchCmd\<close> and \<open>BenchCase\<close>: payload size and rounds, the latter signed.\<close>

record BenchCmd =
  bc_payload_size :: u32
  bc_rounds :: s32

definition BenchCmd_bytes :: "BenchCmd \<Rightarrow> bytes" where
  "BenchCmd_bytes c = u32_bytes (bc_payload_size c) @ u32_bytes (bc_rounds c)"

definition BenchCmd_read :: "bytes \<Rightarrow> BenchCmd" where
  "BenchCmd_read bs = \<lparr>bc_payload_size = bytes_u32 (take 4 bs), bc_rounds = bytes_u32 (take 4 (drop 4 bs))\<rparr>"

definition kBenchCases :: "BenchCmd list" where
  "kBenchCases = map (\<lambda>(p, r). \<lparr>bc_payload_size = p, bc_rounds = r\<rparr>)
     [(64, 500000), (256, 500000), (1024, 200000), (4096, 200000), (16384, 100000), (65536, 50000),
      (262144, 20000), (524288, 10000), (1048576, 5000), (2097152, 2000)]"

definition sizeof_BenchPayloadHeader :: u32 where "sizeof_BenchPayloadHeader = 4"

definition BenchFrameSize :: "u32 \<Rightarrow> u32" where
  "BenchFrameSize payload_size = kMsgHeaderSize + kTagSize + sizeof_BenchPayloadHeader + payload_size"

text \<open>\<open>NowNs\<close> from the two fields of \<open>timespec\<close>.\<close>

definition NowNs :: "int \<Rightarrow> int \<Rightarrow> u64" where
  "NowNs tv_sec tv_nsec = word_of_int tv_sec * 1000000000 + word_of_int tv_nsec"

section \<open>The client\<close>

text \<open>The message body: tag, sequence number, fill bytes.\<close>

definition bench_body :: "u32 \<Rightarrow> bytes option" where
  "bench_body payload_size = (let body_len = unat (kTagSize + sizeof_BenchPayloadHeader + payload_size) in do {
     b1 \<leftarrow> mem_write (replicate body_len 0) 0 (u32_bytes kBenchTag);
     mem_write b1 8 (replicate (unat payload_size) 66)
   })"

definition end_body :: bytes where
  "end_body = u32_bytes kBenchTag @ u32_bytes (-1)"

text \<open>One case's messages, from round \<open>i\<close> on; the buffers are reused.\<close>

fun client_rounds :: "nat \<Rightarrow> u32 \<Rightarrow> BenchCmd \<Rightarrow> bytes \<Rightarrow> bytes \<Rightarrow> sock \<Rightarrow> sock run" where
  "client_rounds 0 i tc body frame_buf s = Done s"
| "client_rounds (Suc k) i tc body frame_buf s =
     seqr (checked (mem_write body 4 (u32_bytes i))) (\<lambda>body1.
     seqr (checked (Encode body1 (kTagSize + sizeof_BenchPayloadHeader + bc_payload_size tc) frame_buf (BenchFrameSize (bc_payload_size tc)) i)) (\<lambda>(n, fb).
     seqr (WriteAll fb (unat n) s) (\<lambda>s1.
     client_rounds k (i + 1) tc body1 fb s1)))"

text \<open>Waiting for the acknowledgement: one call, its result is ignored.\<close>

definition read_ack :: "sock \<Rightarrow> sock" where
  "read_ack s = (case sys_read 1 s of (Bytes k, s1) \<Rightarrow> s1\<lparr>sk_in := drop k (sk_in s1)\<rparr> | (_, s1) \<Rightarrow> s1)"

lemma read_ack_sel [simp]: "sk_out (read_ack s) = sk_out s" "sk_wr (read_ack s) = sk_wr s"
proof -
  obtain r s1 where r: "sys_read 1 s = (r, s1)" by fastforce
  then show "sk_out (read_ack s) = sk_out s" "sk_wr (read_ack s) = sk_wr s"
    using read_into_sel [OF conjunct1 [OF sys_read_into [OF r, of "[]" 0]]] by (simp_all add: read_ack_def split: call_result.splits)
qed

definition client_case :: "BenchCmd \<Rightarrow> sock \<Rightarrow> sock run" where
  "client_case tc s =
     seqr (WriteAll (BenchCmd_bytes tc) 8 s) (\<lambda>s1.
     seqr (checked (bench_body (bc_payload_size tc))) (\<lambda>body.
     seqr (client_rounds (nat (sint (bc_rounds tc))) 0 tc body (replicate (unat (BenchFrameSize (bc_payload_size tc))) 0) s1) (\<lambda>s2.
     seqr (checked (Encode end_body 8 (replicate 64 0) 64 0)) (\<lambda>(n, end_frame).
     seqr (WriteAll end_frame (unat n) s2) (\<lambda>s3.
     Done (read_ack s3))))))"

fun client_cases :: "BenchCmd list \<Rightarrow> sock \<Rightarrow> sock run" where
  "client_cases [] s = WriteAll (BenchCmd_bytes \<lparr>bc_payload_size = 0, bc_rounds = 0\<rparr>) 8 s"
| "client_cases (tc # tcs) s = seqr (client_case tc s) (client_cases tcs)"

definition SockClient_RunBench :: "sock \<Rightarrow> sock run" where
  "SockClient_RunBench s = client_cases kBenchCases s"

section \<open>The server\<close>

text \<open>
  The frames of one case: \<open>None\<close> when the server disconnects because of a frame that does not
  fit its buffer, else the number of messages before the end marker. \<open>received\<close> is an \<open>int32_t\<close>
  that wraps here (it is undefined in C++ beyond 2147483647 messages). What the peer sends is the
  finite list \<open>sk_in\<close> followed by the end of the stream, so the recursion says nothing of a peer
  that stays silent or never stops; setting up the sockets is not modelled.
\<close>

function server_frames :: "bytes \<Rightarrow> s32 \<Rightarrow> sock \<Rightarrow> (s32 option \<times> sock) run" where
  "server_frames body_buf received s =
     seqr (ReadAll (replicate 8 0) 8 s) (\<lambda>(hb, s1).
       let hdr = MsgHeader_read hb in
       if unat (mh_len hdr) > length body_buf then Done (None, s1)
       else seqr (ReadAll body_buf (unat (mh_len hdr)) s1) (\<lambda>(body, s2).
         seqr (checked (mem_read body 0 4)) (\<lambda>tag.
         if mh_len hdr \<ge> kTagSize + sizeof_BenchPayloadHeader
         then seqr (checked (mem_read body 4 4)) (\<lambda>ph.
           if sint (bytes_u32 ph) = -1 then Done (Some received, s2) else server_frames body (received + 1) s2)
         else server_frames body (received + 1) s2)))"
  by pat_completeness auto

lemma ReadAll_flag_Done: "ReadAll buf len s = Done (b, s') \<longleftrightarrow> ReadAll_flag buf len s = Done (True, b, s')"
  by (cases "ReadAll buf len s") (auto simp: ReadAll_flag_def)

lemmas ReadAll_consumes = rall.rd_consumes [folded ReadAll_flag_Done]
lemmas ReadAll_prefix = rall.rd_prefix [folded ReadAll_flag_Done]

termination server_frames
  by (relation "measure (\<lambda>(b, r, s). length (sk_in s))")
    (auto dest!: ReadAll_consumes(1) [rotated])

text \<open>One round of the loop, for a buffer that holds at least the tag and the payload header.\<close>

lemma ReadAll_Exit1_or_Done: "len \<le> length buf \<Longrightarrow> ReadAll buf len s = Exit1 \<or> (\<exists>b s'. ReadAll buf len s = Done (b, s'))"
  using rall.rd_safe [of len buf s] by (cases "ReadAll buf len s") (auto simp: ReadAll_flag_def)

lemma server_frames_round:
  assumes "8 \<le> length body_buf"
  obtains (exit) "server_frames body_buf received s = Exit1"
  | (disconnect) s1 where "server_frames body_buf received s = Done (None, s1)" "length (sk_in s1) < length (sk_in s)"
  | (last) s1 where "server_frames body_buf received s = Done (Some received, s1)" "length (sk_in s1) < length (sk_in s)"
  | (more) body s1 where "server_frames body_buf received s = server_frames body (received + 1) s1"
      "length body = length body_buf" "length (sk_in s1) < length (sk_in s)"
proof (cases "ReadAll (replicate 8 0) 8 s")
  case Exit1
  then show thesis using exit by (simp add: server_frames.simps [of body_buf])
next
  case Oob
  then show thesis using ReadAll_Exit1_or_Done [of 8 "replicate 8 0" s] by simp
next
  case (Done x)
  then obtain hb s1 where r1: "ReadAll (replicate 8 0) 8 s = Done (hb, s1)" by (cases x) simp
  have l1: "length (sk_in s1) < length (sk_in s)" using ReadAll_consumes(1) [OF _ r1] by simp
  let ?n = "mh_len (MsgHeader_read hb)"
  consider "unat ?n > length body_buf" | "unat ?n \<le> length body_buf" "ReadAll body_buf (unat ?n) s1 = Exit1"
    | body s2 where "unat ?n \<le> length body_buf" "ReadAll body_buf (unat ?n) s1 = Done (body, s2)"
    using ReadAll_Exit1_or_Done [of "unat ?n" body_buf s1] by (meson linorder_not_less)
  then show thesis
  proof cases
    case 1
    then show thesis using disconnect [OF _ l1] r1 by (simp add: server_frames.simps [of body_buf])
  next
    case 2
    then show thesis using exit r1 by (simp add: server_frames.simps [of body_buf])
  next
    case (3 body s2)
    have b: "length (sk_in s2) < length (sk_in s)" "length body = length body_buf"
      using ReadAll_consumes(1,2) [OF 3] l1 by simp_all
    then have "mem_read body 0 4 = Some (take 4 body)" "mem_read body 4 4 = Some (take 4 (drop 4 body))" using assms by (simp_all add: mem_read_def)
    then have "server_frames body_buf received s = (if kTagSize + sizeof_BenchPayloadHeader \<le> ?n \<and> sint (bytes_u32 (take 4 (drop 4 body))) = -1
        then Done (Some received, s2) else server_frames body (received + 1) s2)"
      using r1 3 by (simp add: server_frames.simps [of body_buf])
    then show thesis using last [of s2] more [OF _ b(2,1)] b(1) by (auto split: if_splits)
  qed
qed

lemma server_frames_ends:
  "8 \<le> length body_buf \<Longrightarrow> server_frames body_buf received s = Exit1 \<or>
     (\<exists>res s'. server_frames body_buf received s = Done (res, s') \<and> length (sk_in s') < length (sk_in s))"
proof (induction "length (sk_in s)" arbitrary: body_buf received s rule: less_induct)
  case less
  from less.prems show ?case
  proof (cases rule: server_frames_round [where received = received and s = s])
    case (more body s1)
    then show ?thesis using less.hyps [OF more(3), of body "received + 1"] less.prems by force
  qed auto
qed

definition write_ack :: "sock \<Rightarrow> sock" where
  "write_ack s = (case sys_write 1 s of (Bytes k, s1) \<Rightarrow> s1\<lparr>sk_out := sk_out s1 @ take k [1]\<rparr> | (_, s1) \<Rightarrow> s1)"

lemma write_ack_sel [simp]: "sk_in (write_ack s) = sk_in s" "sk_rd (write_ack s) = sk_rd s"
proof -
  obtain r s1 where r: "sys_write 1 s = (r, s1)" by fastforce
  then show "sk_in (write_ack s) = sk_in s" "sk_rd (write_ack s) = sk_rd s"
    using sys_write_sel [OF r] by (simp_all add: write_ack_def split: call_result.splits)
qed

lemma write_ack_moves:
  assumes "list_all moves (sk_wr s)"
  shows "sk_out (write_ack s) = sk_out s @ [1]" "list_all moves (sk_wr (write_ack s))"
proof -
  obtain n ys where n: "next_call 1 (sk_wr s) = (Bytes n, ys)" "0 < n" "list_all moves ys" using next_call_moves [OF assms, of 1] by auto
  then have "n = 1" using next_call_le [OF n(1)] by simp
  then show "sk_out (write_ack s) = sk_out s @ [1]" "list_all moves (sk_wr (write_ack s))"
    using n by (simp_all add: write_ack_def sys_write_def)
qed

function server_cmds :: "(u32 \<times> s32) list \<Rightarrow> sock \<Rightarrow> (bool \<times> (u32 \<times> s32) list \<times> sock) run" where
  "server_cmds rows s =
     seqr (ReadAll (replicate 8 0) 8 s) (\<lambda>(cb, s1).
       let cmd = BenchCmd_read cb in
       if bc_rounds cmd = 0 then Done (True, rows, s1)
       else if bc_payload_size cmd > push_bit 20 16 \<or> sint (bc_rounds cmd) < 0 then Done (False, rows, s1)
       else let max_body = kTagSize + sizeof_BenchPayloadHeader + bc_payload_size cmd in
         seqr (server_frames (replicate (unat max_body) 0) 0 s1) (\<lambda>(res, s2).
           case res of
             None \<Rightarrow> Done (False, rows, s2)
           | Some received \<Rightarrow> server_cmds (rows @ [(bc_payload_size cmd, received)]) (write_ack s2)))"
  by pat_completeness auto

lemma max_body_bounds:
  assumes "\<not> (p :: u32) > push_bit 20 16"
  shows "unat (kTagSize + sizeof_BenchPayloadHeader + p) = 8 + unat p" "unat p \<le> 16777216"
proof -
  have "(push_bit 20 16 :: u32) = 16777216" by (simp add: push_bit_eq_mult)
  then show p: "unat p \<le> 16777216" using assms by (simp add: word_less_nat_alt not_less)
  show "unat (kTagSize + sizeof_BenchPayloadHeader + p) = 8 + unat p"
    using p by (simp add: kTagSize_def sizeof_BenchPayloadHeader_def unat_word_ariths)
qed

termination server_cmds
proof (relation "measure (\<lambda>(rows, s). length (sk_in s))")
  fix rows :: "(u32 \<times> s32) list" and s s1 s2 :: sock and cb :: bytes and cmd max_body res received x xa
  assume r: "ReadAll (replicate 8 0) 8 s = Done x" "(cb, s1) = x" "cmd = BenchCmd_read cb"
    "\<not> (bc_payload_size cmd > push_bit 20 16 \<or> sint (bc_rounds cmd) < 0)" "max_body = kTagSize + sizeof_BenchPayloadHeader + bc_payload_size cmd"
    "server_frames (replicate (unat max_body) 0) 0 s1 = Done xa" "(res, s2) = xa" "res = Some received"
  have "8 \<le> unat max_body" using max_body_bounds r(4,5) by auto
  then have "length (sk_in s2) < length (sk_in s1)" using server_frames_ends [of "replicate (unat max_body) 0" 0 s1] r(6,7) by auto
  moreover have "length (sk_in s1) < length (sk_in s)" using ReadAll_consumes(1) [of 8 "replicate 8 0" s cb s1] r(1,2) by simp
  ultimately show "((rows @ [(bc_payload_size cmd, received)], write_ack s2), rows, s) \<in> measure (\<lambda>(rows, s). length (sk_in s))" by simp
qed simp

declare server_frames.simps [simp del] server_cmds.simps [simp del]

definition SockServer_RunBench :: "sock \<Rightarrow> (bool \<times> (u32 \<times> s32) list \<times> sock) run" where
  "SockServer_RunBench s = server_cmds [] s"

section \<open>The byte stream of a test\<close>

definition bench_payload :: "u32 \<Rightarrow> nat \<Rightarrow> bytes" where
  "bench_payload payload_size i = u32_bytes kBenchTag @ u32_bytes (word_of_nat i) @ replicate (unat payload_size) 66"

definition bench_frames :: "u32 \<Rightarrow> nat \<Rightarrow> nat \<Rightarrow> bytes" where
  "bench_frames payload_size i k = concat (map (\<lambda>j. frame (bench_payload payload_size j) (word_of_nat j)) [i..<i + k])"

definition case_bytes :: "BenchCmd \<Rightarrow> bytes" where
  "case_bytes tc = BenchCmd_bytes tc @ bench_frames (bc_payload_size tc) 0 (nat (sint (bc_rounds tc))) @ frame end_body 0"

definition test_bytes :: "BenchCmd list \<Rightarrow> bytes" where
  "test_bytes tcs = concat (map case_bytes tcs) @ BenchCmd_bytes \<lparr>bc_payload_size = 0, bc_rounds = 0\<rparr>"

text \<open>The cases the server accepts.\<close>

definition case_ok :: "BenchCmd \<Rightarrow> bool" where
  "case_ok tc \<longleftrightarrow> unat (bc_payload_size tc) \<le> 16777216 \<and> 0 < sint (bc_rounds tc)"

lemma bench_frames_Suc:
  "bench_frames p i (Suc k) = frame (bench_payload p i) (word_of_nat i) @ bench_frames p (Suc i) k"
  by (simp add: bench_frames_def upt_rec del: upt_Suc)

lemma length_bench_payload [simp]: "length (bench_payload p i) = 8 + unat p"
  by (simp add: bench_payload_def)

lemma length_end_body [simp]: "length end_body = 8"
  by (simp add: end_body_def)

lemma length_BenchCmd_bytes [simp]: "length (BenchCmd_bytes c) = 8"
  by (simp add: BenchCmd_bytes_def)

lemma BenchCmd_read_bytes: "BenchCmd_read (BenchCmd_bytes c) = c"
  by (simp add: BenchCmd_read_def BenchCmd_bytes_def)

subsection \<open>What the client writes\<close>

lemma unat_BenchFrameSize:
  assumes "unat p \<le> 16777216"
  shows "unat (BenchFrameSize p) = 16 + unat p" "unat (kTagSize + sizeof_BenchPayloadHeader + p) = 8 + unat p"
  using assms by (simp_all add: BenchFrameSize_def kMsgHeaderSize_def kTagSize_def sizeof_BenchPayloadHeader_def unat_word_ariths)

lemma bench_body_eq:
  assumes "unat p \<le> 16777216"
  shows "bench_body p = Some (u32_bytes kBenchTag @ replicate 4 0 @ replicate (unat p) 66)"
  using unat_BenchFrameSize(2) [OF assms] by (simp add: bench_body_def mem_write_def replicate_add)

lemma client_rounds_writes:
  assumes "unat (bc_payload_size tc) \<le> 16777216" "list_all moves (sk_wr s)" "length fb = unat (BenchFrameSize (bc_payload_size tc))"
    "length q = 4"
  shows "\<exists>s'. client_rounds k (word_of_nat i) tc (u32_bytes kBenchTag @ q @ replicate (unat (bc_payload_size tc)) 66) fb s = Done s' \<and>
     sk_out s' = sk_out s @ bench_frames (bc_payload_size tc) i k \<and> sk_in s' = sk_in s \<and> sk_rd s' = sk_rd s \<and> list_all moves (sk_wr s')"
  using assms
proof (induction k arbitrary: i s fb q)
  case 0
  then show ?case by (simp add: bench_frames_def)
next
  case (Suc k)
  let ?p = "bc_payload_size tc"
  note sz = unat_BenchFrameSize [OF Suc.prems(1)]
  have b: "mem_write (u32_bytes kBenchTag @ q @ replicate (unat ?p) 66) 4 (u32_bytes (word_of_nat i)) = Some (bench_payload ?p i)"
    using Suc.prems(4) by (simp add: mem_write_def bench_payload_def)
  have e: "Encode (bench_payload ?p i) (kTagSize + sizeof_BenchPayloadHeader + ?p) fb (BenchFrameSize ?p) (word_of_nat i)
      = Some (kMsgHeaderSize + (kTagSize + sizeof_BenchPayloadHeader + ?p), frame (bench_payload ?p i) (word_of_nat i))"
    using Encode_frame [of "kTagSize + sizeof_BenchPayloadHeader + ?p" "BenchFrameSize ?p" fb "bench_payload ?p i" "word_of_nat i"] sz Suc.prems(3) by simp
  have n: "unat (kMsgHeaderSize + (kTagSize + sizeof_BenchPayloadHeader + ?p)) = 16 + unat ?p"
    using unat_frame_size [of "kTagSize + sizeof_BenchPayloadHeader + ?p"] sz Suc.prems(1) by simp
  obtain s1 where w: "WriteAll (frame (bench_payload ?p i) (word_of_nat i)) (16 + unat ?p) s = Done s1"
    "sk_out s1 = sk_out s @ frame (bench_payload ?p i) (word_of_nat i)" "sk_in s1 = sk_in s" "sk_rd s1 = sk_rd s" "list_all moves (sk_wr s1)"
    using WriteAll_steady [of "16 + unat ?p" "frame (bench_payload ?p i) (word_of_nat i)" s] Suc.prems(2) by auto
  have "length (frame (bench_payload ?p i) (word_of_nat i)) = unat (BenchFrameSize ?p)" using sz by simp
  from Suc.IH [OF Suc.prems(1) w(5) this, of "u32_bytes (word_of_nat i)" "Suc i"] obtain s' where
    "client_rounds k (word_of_nat (Suc i)) tc (bench_payload ?p i) (frame (bench_payload ?p i) (word_of_nat i)) s1 = Done s'"
    "sk_out s' = sk_out s1 @ bench_frames ?p (Suc i) k" "sk_in s' = sk_in s1" "sk_rd s' = sk_rd s1" "list_all moves (sk_wr s')"
    by (auto simp: bench_payload_def)
  then show ?case using b e n w by (simp add: bench_frames_Suc add.commute)
qed

lemma client_case_writes:
  assumes "case_ok tc" "list_all moves (sk_wr s)"
  shows "\<exists>s'. client_case tc s = Done s' \<and> sk_out s' = sk_out s @ case_bytes tc \<and> list_all moves (sk_wr s')"
proof -
  let ?p = "bc_payload_size tc"
  have p: "unat ?p \<le> 16777216" using assms(1) by (simp add: case_ok_def)
  obtain s1 where s1: "WriteAll (BenchCmd_bytes tc) 8 s = Done s1" "sk_out s1 = sk_out s @ BenchCmd_bytes tc" "list_all moves (sk_wr s1)"
    using WriteAll_steady [of 8 "BenchCmd_bytes tc" s] assms(2) by auto
  obtain s2 where s2: "client_rounds (nat (sint (bc_rounds tc))) 0 tc (u32_bytes kBenchTag @ replicate 4 0 @ replicate (unat ?p) 66)
      (replicate (unat (BenchFrameSize ?p)) 0) s1 = Done s2"
    "sk_out s2 = sk_out s1 @ bench_frames ?p 0 (nat (sint (bc_rounds tc)))" "list_all moves (sk_wr s2)"
    using client_rounds_writes [OF p s1(3), of "replicate (unat (BenchFrameSize ?p)) 0" "replicate 4 0" _ 0] by force
  have e: "Encode end_body 8 (replicate 64 0) 64 0 = Some (16, frame end_body 0 @ replicate 48 0)"
    using Encode_frame [of 8 64 "replicate 64 0" end_body 0] by (simp add: kMsgHeaderSize_def)
  obtain s3 where s3: "WriteAll (frame end_body 0 @ replicate 48 0) 16 s2 = Done s3" "sk_out s3 = sk_out s2 @ frame end_body 0" "list_all moves (sk_wr s3)"
    using WriteAll_steady [of 16 "frame end_body 0 @ replicate 48 0" s2] s2(3) by auto
  show ?thesis using s1 s2 s3 e bench_body_eq [OF p] by (auto simp: client_case_def case_bytes_def)
qed

lemma client_cases_writes:
  "list_all case_ok tcs \<Longrightarrow> list_all moves (sk_wr s) \<Longrightarrow>
     \<exists>s'. client_cases tcs s = Done s' \<and> sk_out s' = sk_out s @ test_bytes tcs"
proof (induction tcs arbitrary: s)
  case Nil
  then show ?case using WriteAll_steady [of 8 "BenchCmd_bytes \<lparr>bc_payload_size = 0, bc_rounds = 0\<rparr>" s] by (auto simp: test_bytes_def)
next
  case (Cons tc tcs)
  then obtain s1 where s1: "client_case tc s = Done s1" "sk_out s1 = sk_out s @ case_bytes tc" "list_all moves (sk_wr s1)"
    using client_case_writes [of tc s] by auto
  then show ?case using Cons.IH [of s1] Cons.prems by (auto simp: test_bytes_def)
qed

subsection \<open>What the server reads\<close>

text \<open>A frame whose payload fits the buffer.\<close>

lemma server_frames_step:
  assumes "sk_in s = frame payload q @ rest" "8 \<le> length payload" "length payload \<le> length buf" "length payload < 4294967296"
    "list_all moves (sk_rd s)"
  shows "\<exists>body s'. length body = length buf \<and> sk_in s' = rest \<and> sk_out s' = sk_out s \<and> sk_wr s' = sk_wr s \<and> list_all moves (sk_rd s') \<and>
     server_frames buf received s = (if sint (bytes_u32 (take 4 (drop 4 payload))) = -1 then Done (Some received, s') else server_frames body (received + 1) s')"
proof -
  let ?n = "word_of_nat (length payload) :: u32"
  let ?h = "MsgHeader_bytes \<lparr>mh_len = ?n, mh_seq = q\<rparr>"
  have n: "unat ?n = length payload" using unat_of_nat_u32 assms(4) by simp
  have "sk_in s = ?h @ payload @ rest" using assms(1) by (simp add: frame_def)
  from ReadAll_prefix [OF this, of 8 "replicate 8 0"] assms(5) obtain s1 where
    s1: "ReadAll (replicate 8 0) 8 s = Done (?h, s1)" "sk_in s1 = payload @ rest" "sk_out s1 = sk_out s" "sk_wr s1 = sk_wr s" "list_all moves (sk_rd s1)" by auto
  from ReadAll_prefix [OF s1(2) _ assms(3) s1(5)] n obtain s2 where
    s2: "ReadAll buf (length payload) s1 = Done (payload @ drop (length payload) buf, s2)" "sk_in s2 = rest" "sk_out s2 = sk_out s"
      "sk_wr s2 = sk_wr s" "list_all moves (sk_rd s2)" using s1 by auto
  let ?b = "payload @ drop (length payload) buf"
  have m: "mem_read ?b 0 4 = Some (take 4 payload)" "mem_read ?b 4 4 = Some (take 4 (drop 4 payload))"
    using assms(2) by (simp_all add: mem_read_def)
  have h: "MsgHeader_read ?h = \<lparr>mh_len = ?n, mh_seq = q\<rparr>" using MsgHeader_read_bytes [of _ "[]"] by simp
  have "kTagSize + sizeof_BenchPayloadHeader \<le> ?n"
    using n assms(2) by (simp add: word_le_nat_alt kTagSize_def sizeof_BenchPayloadHeader_def)
  then have "server_frames buf received s = (if sint (bytes_u32 (take 4 (drop 4 payload))) = -1 then Done (Some received, s2)
      else server_frames ?b (received + 1) s2)"
    using s1(1) s2(1) m h n assms(3) by (simp add: server_frames.simps [of buf])
  then show ?thesis using s2 assms(3) by (intro exI [of _ ?b] exI [of _ s2]) simp
qed

lemma sint_small_nat: "i < 2147483648 \<Longrightarrow> sint (word_of_nat i :: s32) = int i"
  by (simp add: sint_uint signed_take_bit_int_eq_self take_bit_int_eq_self uint_nat unat_of_nat_u32)

lemma server_frames_counts:
  "sk_in s = bench_frames p i k @ frame end_body 0 @ rest \<Longrightarrow> i + k < 2147483648 \<Longrightarrow> unat p \<le> 16777216 \<Longrightarrow> length buf = 8 + unat p \<Longrightarrow>
     list_all moves (sk_rd s) \<Longrightarrow>
     \<exists>s'. server_frames buf received s = Done (Some (received + word_of_nat k), s') \<and> sk_in s' = rest \<and> sk_out s' = sk_out s \<and>
       sk_wr s' = sk_wr s \<and> list_all moves (sk_rd s')"
proof (induction k arbitrary: s i buf received)
  case 0
  have "take 4 (drop 4 end_body) = u32_bytes (-1)" by (simp add: end_body_def)
  then show ?case
    using server_frames_step [of s end_body 0 rest buf received] "0.prems" by (auto simp: bench_frames_def)
next
  case (Suc k)
  let ?p = "bench_payload p i"
  have "take 4 (drop 4 ?p) = u32_bytes (word_of_nat i)" by (simp add: bench_payload_def)
  moreover have "sint (word_of_nat i :: u32) \<noteq> -1" using Suc.prems(2) sint_small_nat [of i] by simp
  ultimately obtain body s1 where s1: "length body = length buf" "sk_in s1 = bench_frames p (Suc i) k @ frame end_body 0 @ rest" "sk_out s1 = sk_out s"
    "sk_wr s1 = sk_wr s" "list_all moves (sk_rd s1)" "server_frames buf received s = server_frames body (received + 1) s1"
    using server_frames_step [of s ?p "word_of_nat i" _ buf received] Suc.prems by (auto simp: bench_frames_Suc)
  from Suc.IH [OF s1(2) _ Suc.prems(3) _ s1(5), of body "received + 1"] show ?case
    using Suc.prems s1 by (simp add: add.assoc)
qed

text \<open>What the server does with a command.\<close>

lemma server_cmds_end:
  assumes "ReadAll (replicate 8 0) 8 s = Done (cb, s1)"
    "bc_rounds (BenchCmd_read cb) = 0 \<or> bc_payload_size (BenchCmd_read cb) > push_bit 20 16 \<or> sint (bc_rounds (BenchCmd_read cb)) < 0"
  shows "server_cmds rows s = Done (bc_rounds (BenchCmd_read cb) = 0, rows, s1)"
  using assms(2) by (subst server_cmds.simps) (auto simp: assms(1) Let_def simp del: push_bit_numeral)

lemma server_cmds_case:
  assumes "ReadAll (replicate 8 0) 8 s = Done (cb, s1)" "bc_rounds (BenchCmd_read cb) \<noteq> 0"
    "\<not> bc_payload_size (BenchCmd_read cb) > push_bit 20 16" "\<not> sint (bc_rounds (BenchCmd_read cb)) < 0"
  shows "server_cmds rows s = seqr (server_frames (replicate (8 + unat (bc_payload_size (BenchCmd_read cb))) 0) 0 s1) (\<lambda>(res, s2).
     case res of
       None \<Rightarrow> Done (False, rows, s2)
     | Some received \<Rightarrow> server_cmds (rows @ [(bc_payload_size (BenchCmd_read cb), received)]) (write_ack s2))"
  using assms max_body_bounds(1) [OF assms(3)] by (subst server_cmds.simps) (simp add: Let_def)

lemma server_cmds_rows:
  "list_all case_ok tcs \<Longrightarrow> sk_in s = test_bytes tcs @ rest \<Longrightarrow> list_all moves (sk_rd s) \<Longrightarrow> list_all moves (sk_wr s) \<Longrightarrow>
     \<exists>s'. server_cmds rows s = Done (True, rows @ map (\<lambda>tc. (bc_payload_size tc, bc_rounds tc)) tcs, s') \<and> sk_in s' = rest \<and>
       sk_out s' = sk_out s @ replicate (length tcs) 1"
proof (induction tcs arbitrary: s rows)
  case Nil
  then have "sk_in s = BenchCmd_bytes \<lparr>bc_payload_size = 0, bc_rounds = 0\<rparr> @ rest" by (simp add: test_bytes_def)
  from ReadAll_prefix [OF this, of 8 "replicate 8 0"] Nil.prems(3) obtain s1 where
    "ReadAll (replicate 8 0) 8 s = Done (BenchCmd_bytes \<lparr>bc_payload_size = 0, bc_rounds = 0\<rparr>, s1)" "sk_in s1 = rest" "sk_out s1 = sk_out s" by auto
  then show ?case using server_cmds_end [of s _ s1 rows] by (simp add: BenchCmd_read_bytes)
next
  case (Cons tc tcs)
  let ?p = "bc_payload_size tc" and ?r = "bc_rounds tc"
  have ok: "unat ?p \<le> 16777216" "0 < sint ?r" using Cons.prems(1) by (simp_all add: case_ok_def)
  have "sk_in s = BenchCmd_bytes tc @ bench_frames ?p 0 (nat (sint ?r)) @ frame end_body 0 @ test_bytes tcs @ rest"
    using Cons.prems(2) by (simp add: test_bytes_def case_bytes_def)
  from ReadAll_prefix [OF this, of 8 "replicate 8 0"] Cons.prems(3) obtain s1 where
    s1: "ReadAll (replicate 8 0) 8 s = Done (BenchCmd_bytes tc, s1)" "sk_in s1 = bench_frames ?p 0 (nat (sint ?r)) @ frame end_body 0 @ test_bytes tcs @ rest"
      "sk_out s1 = sk_out s" "sk_wr s1 = sk_wr s" "list_all moves (sk_rd s1)" by auto
  have big: "\<not> ?p > push_bit 20 16" using ok(1) by (simp add: push_bit_eq_mult word_less_nat_alt not_less)
  have lt: "0 + nat (sint ?r) < 2147483648" using sint_lt [of ?r] by simp
  have w: "(word_of_nat (nat (sint ?r)) :: u32) = ?r"
  proof -
    have "(word_of_nat (nat (sint ?r)) :: u32) = word_of_int (int (nat (sint ?r)))" by simp
    then show ?thesis using ok(2) by simp
  qed
  obtain s2 where s2: "server_frames (replicate (8 + unat ?p) 0) 0 s1 = Done (Some ?r, s2)" "sk_in s2 = test_bytes tcs @ rest" "sk_out s2 = sk_out s"
    "sk_wr s2 = sk_wr s" "list_all moves (sk_rd s2)"
    using server_frames_counts [OF s1(2) lt ok(1) _ s1(5), of "replicate (8 + unat ?p) 0" 0] s1 w by auto
  have sel: "sk_in (write_ack s2) = test_bytes tcs @ rest" "list_all moves (sk_rd (write_ack s2))" "list_all moves (sk_wr (write_ack s2))"
    "sk_out (write_ack s2) = sk_out s @ [1]"
    using s2 write_ack_moves [of s2] Cons.prems(4) by simp_all
  have "?r \<noteq> 0" "\<not> sint ?r < 0" using ok(2) by auto
  then have "server_cmds rows s = server_cmds (rows @ [(?p, ?r)]) (write_ack s2)"
    using server_cmds_case [OF s1(1), of rows] s2(1) big by (simp add: BenchCmd_read_bytes)
  then show ?case using Cons.IH [OF _ sel(1,2,3), of "rows @ [(?p, ?r)]"] Cons.prems(1) sel(4) by auto
qed

section \<open>Properties\<close>

text \<open>
  The socket throughput test from end to end, for any list of cases the server accepts and any
  splitting of the transfers: the client runs to its end, the server reports for each case, in
  order, exactly the number of messages the client was told to send, acknowledges each case
  once and has then read everything.
\<close>

theorem socket_bench_counts:
  assumes "list_all case_ok tcs" "list_all moves (sk_wr c)" "sk_out c = []" "list_all moves (sk_rd s)" "list_all moves (sk_wr s)" "sk_out s = []"
  shows "\<exists>c' s'. client_cases tcs c = Done c' \<and>
     server_cmds [] (s\<lparr>sk_in := sk_out c'\<rparr>) = Done (True, map (\<lambda>tc. (bc_payload_size tc, bc_rounds tc)) tcs, s') \<and>
     sk_in s' = [] \<and> sk_out s' = replicate (length tcs) 1"
proof -
  obtain c' where c: "client_cases tcs c = Done c'" "sk_out c' = test_bytes tcs" using client_cases_writes [OF assms(1,2)] assms(3) by auto
  from server_cmds_rows [OF assms(1), of "s\<lparr>sk_in := sk_out c'\<rparr>" "[]" "[]"] show ?thesis using c assms(4-6) by auto
qed

lemma kBenchCases_ok: "list_all case_ok kBenchCases"
  by (simp add: kBenchCases_def case_ok_def)

theorem socket_bench_counts_witness:
  "\<exists>c' s'. SockClient_RunBench \<lparr>sk_in = [1], sk_out = [], sk_rd = [], sk_wr = [Xfer 3]\<rparr> = Done c' \<and>
     SockServer_RunBench (\<lparr>sk_in = sk_out c', sk_out = [], sk_rd = [Xfer 1, Xfer 2], sk_wr = []\<rparr>)
       = Done (True, map (\<lambda>tc. (bc_payload_size tc, bc_rounds tc)) kBenchCases, s') \<and> sk_out s' = replicate 10 1"
  using socket_bench_counts [OF kBenchCases_ok, of "\<lparr>sk_in = [1], sk_out = [], sk_rd = [], sk_wr = [Xfer 3]\<rparr>"
      "\<lparr>sk_in = [], sk_out = [], sk_rd = [Xfer 1, Xfer 2], sk_wr = []\<rparr>"]
  by (auto simp: SockClient_RunBench_def SockServer_RunBench_def) (simp add: kBenchCases_def)

text \<open>
  C39: the loop of the server after it accepted a client, against an arbitrary peer: whatever
  finitely many bytes have arrived in whatever pieces, and whatever calls fail, it has made no
  access outside its buffers. In particular the announced frame length never makes it write
  beyond the buffer that it allocated for the announced payload size. (That the loop ends is not
  claimed: a peer that stays silent or sends forever keeps it running. The counter of received
  frames wraps around in the model; in C++ its overflow, after \<open>2^31\<close> frames, is undefined.)
\<close>

theorem socket_server_in_bounds: "server_cmds rows s \<noteq> Oob"
proof (induction "length (sk_in s)" arbitrary: rows s rule: less_induct)
  case less
  show ?case
  proof (cases "ReadAll (replicate 8 0) 8 s")
    case (Done x)
    then obtain cb s1 where r1: "ReadAll (replicate 8 0) 8 s = Done (cb, s1)" by (cases x) simp
    let ?cmd = "BenchCmd_read cb"
    let ?stop = "bc_rounds ?cmd = 0 \<or> bc_payload_size ?cmd > push_bit 20 16 \<or> sint (bc_rounds ?cmd) < 0"
    let ?buf = "replicate (8 + unat (bc_payload_size ?cmd)) (0 :: u8)"
    show ?thesis
    proof (cases ?stop)
      case True
      then show ?thesis using server_cmds_end [OF r1, of rows] by simp
    next
      case False
      then have eq: "server_cmds rows s = seqr (server_frames ?buf 0 s1) (\<lambda>(res, s2). case res of
           None \<Rightarrow> Done (False, rows, s2)
         | Some received \<Rightarrow> server_cmds (rows @ [(bc_payload_size ?cmd, received)]) (write_ack s2))"
        using server_cmds_case [OF r1, of rows] by simp
      show ?thesis
        unfolding eq
      proof (rule seqr_not_Oob)
        show "server_frames ?buf 0 s1 \<noteq> Oob" using server_frames_ends [of ?buf 0 s1] by auto
      next
        fix x assume x: "server_frames ?buf 0 s1 = Done x"
        obtain res s2 where x2: "x = (res, s2)" by (cases x)
        have "length (sk_in s2) < length (sk_in s1)" using server_frames_ends [of ?buf 0 s1] x x2 by auto
        then have "length (sk_in (write_ack s2)) < length (sk_in s)" using ReadAll_consumes(1) [OF _ r1] by simp
        then show "(case x of (res, s2) \<Rightarrow> case res of
             None \<Rightarrow> Done (False, rows, s2)
           | Some received \<Rightarrow> server_cmds (rows @ [(bc_payload_size ?cmd, received)]) (write_ack s2)) \<noteq> Oob"
          using x2 less.hyps [of "write_ack s2"] by (cases res) simp_all
      qed
    qed
  qed (use ReadAll_Exit1_or_Done [of 8 "replicate 8 0" s] in \<open>auto simp: server_cmds.simps [of rows s]\<close>)
qed

end
