(* ===== verification/Shm_Bench.thy ===== *)
theory Shm_Bench
  imports Socket_Bench
begin

text \<open>
  The throughput test over shared memory, \<open>RunBench\<close> of \<open>src/client.cpp\<close> and \<open>src/server.cpp\<close>: the
  client fills the ring with batches of frames as long as there is room and then sends an end
  marker, the server polls the ring and counts. Both spin while they have to wait. The two
  programs run in any order, one pass of a loop at a time; that passes are atomic is what
  \<open>Spsc\<close> shows for the ring operations they consist of. Commands and acknowledgements go over the
  socket with \<open>WriteFull\<close> and \<open>ReadFull\<close> (\<open>Socket_Io\<close>).
\<close>

section \<open>The programs\<close>

definition bench_body_len :: "BenchCmd \<Rightarrow> u32" where
  "bench_body_len tc = kTagSize + sizeof_BenchPayloadHeader + bc_payload_size tc"

text \<open>The inner loop of the client, \<open>k\<close> rounds before its end; it stops when a message does not fit.\<close>

fun fill_batch :: "nat \<Rightarrow> BenchCmd \<Rightarrow> nat \<Rightarrow> s32 \<Rightarrow> bytes \<Rightarrow> chan_batch \<Rightarrow> (nat \<times> s32 \<times> bytes \<times> chan_batch) option" where
  "fill_batch cap tc 0 i body s = Some (0, i, body, s)"
| "fill_batch cap tc (Suc k) i body s = do {
     body1 \<leftarrow> mem_write body 4 (u32_bytes i);
     (r, s1) \<leftarrow> Send_batch cap s (Some body1) (bench_body_len tc) i;
     if r \<noteq> Ret 0 then Some (Suc k, i, body1, s1) else fill_batch cap tc k (i + 1) body1 s1
   }"

text \<open>A pass of the outer loop: a batch, its explicit \<open>Flush\<close> and the one of its destructor.\<close>

definition bench_fill :: "nat \<Rightarrow> BenchCmd \<Rightarrow> nat \<Rightarrow> s32 \<Rightarrow> bytes \<Rightarrow> channel \<Rightarrow> (nat \<times> s32 \<times> bytes \<times> channel) option" where
  "bench_fill cap tc k i body ch = do {
     (k1, i1, body1, s1) \<leftarrow> fill_batch cap tc k i body (ch, StartBatch ch);
     let (_, s2) = ChannelBatchWriter_Flush s1;
     let (_, ch3, _) = ChannelBatchWriter_Flush s2;
     Some (k1, i1, body1, ch3)
   }"

text \<open>A pass of the server's loop: whether the end was seen, and the count.\<close>

definition bench_poll :: "nat \<Rightarrow> s32 \<Rightarrow> channel \<times> frame_reader \<Rightarrow> (bool \<times> s32 \<times> channel \<times> frame_reader) option" where
  "bench_poll cap received s = do {
     (res, ch, fr) \<leftarrow> FrameReader_TryRecv cap s;
     (case res of
        RecvErr _ \<Rightarrow> Some (False, received, ch, fr)
      | RecvOk payload payload_len \<Rightarrow>
          if payload_len \<ge> kTagSize + sizeof_BenchPayloadHeader then do {
            p \<leftarrow> payload_at ch fr payload payload_len;
            ph \<leftarrow> mem_read p 4 4;
            if sint (bytes_u32 ph) = -1 then Some (True, received, ch, fr) else Some (False, received + 1, ch, fr)
          } else Some (False, received + 1, ch, fr))
   }"

text \<open>
  A case in progress. The client's write ring is the server's read ring.
\<close>

record bench =
  be_left :: nat
  be_i :: s32
  be_body :: bytes
  be_ended :: bool
  be_client :: channel
  be_server :: channel
  be_reader :: frame_reader
  be_received :: s32
  be_got_end :: bool

definition client_turn :: "nat \<Rightarrow> BenchCmd \<Rightarrow> bench \<Rightarrow> bench option" where
  "client_turn cap tc b =
     (if be_left b > 0 then do {
        (k, i, body, ch) \<leftarrow> bench_fill cap tc (be_left b) (be_i b) (be_body b) (be_client b);
        Some (b\<lparr>be_left := k, be_i := i, be_body := body, be_client := ch, be_server := (be_server b)\<lparr>ch_rd := ch_wr ch\<rparr>\<rparr>)
      }
      else if be_ended b then Some b
      else do {
        (r, ch) \<leftarrow> Send cap (be_client b) (Some end_body) 8 0;
        Some (b\<lparr>be_ended := (r = Ret 0), be_client := ch, be_server := (be_server b)\<lparr>ch_rd := ch_wr ch\<rparr>\<rparr>)
      })"

definition server_turn :: "nat \<Rightarrow> bench \<Rightarrow> bench option" where
  "server_turn cap b =
     (if be_got_end b then Some b
      else do {
        (e, n, ch, fr) \<leftarrow> bench_poll cap (be_received b) (be_server b, be_reader b);
        Some (b\<lparr>be_got_end := e, be_received := n, be_server := ch, be_reader := fr, be_client := (be_client b)\<lparr>ch_wr := ch_rd ch\<rparr>\<rparr>)
      })"

text \<open>Runs: the client moves where the schedule has \<open>True\<close>, else the server.\<close>

fun bench_run :: "nat \<Rightarrow> BenchCmd \<Rightarrow> bool list \<Rightarrow> bench \<Rightarrow> bench option" where
  "bench_run cap tc [] b = Some b"
| "bench_run cap tc (t # ts) b = do {
     b1 \<leftarrow> (if t then client_turn cap tc b else server_turn cap b);
     bench_run cap tc ts b1
   }"

definition bench_start :: "BenchCmd \<Rightarrow> bytes \<Rightarrow> channel \<Rightarrow> channel \<Rightarrow> frame_reader \<Rightarrow> bench" where
  "bench_start tc body c s fr = \<lparr>be_left = nat (sint (bc_rounds tc)), be_i = 0, be_body = body, be_ended = False,
     be_client = c, be_server = s, be_reader = fr, be_received = 0, be_got_end = False\<rparr>"

text \<open>
  Around a case, over the socket: the client announces it and waits for the acknowledgement, the
  server reads the announcement (\<open>None\<close> when the peer is gone or announces the end) and
  acknowledges. The flag is whether the program goes on.
\<close>

definition announce_case :: "BenchCmd \<Rightarrow> sock \<Rightarrow> (bool \<times> sock) run" where
  "announce_case tc s = WriteFull (BenchCmd_bytes tc) 8 s"

definition await_ack :: "sock \<Rightarrow> (bool \<times> sock) run" where
  "await_ack s = seqr (ReadFull [0] 1 s) (\<lambda>(ok, _, s1). Done (ok, s1))"

definition announce_end :: "sock \<Rightarrow> (bool \<times> sock) run" where
  "announce_end s = WriteFull (BenchCmd_bytes \<lparr>bc_payload_size = 0, bc_rounds = 0\<rparr>) 8 s"

definition next_case :: "sock \<Rightarrow> (BenchCmd option \<times> sock) run" where
  "next_case s = seqr (ReadFull (replicate 8 0) 8 s) (\<lambda>(ok, cb, s1).
     Done (if \<not> ok \<or> bc_rounds (BenchCmd_read cb) = 0 then None else Some (BenchCmd_read cb), s1))"

definition acknowledge :: "sock \<Rightarrow> (bool \<times> sock) run" where
  "acknowledge s = WriteFull [1] 1 s"

lemma announced:
  assumes "Fail \<notin> set (sk_wr a)" "sk_out a = []" "list_all tolerable (sk_rd b)" "bc_rounds tc \<noteq> 0"
  shows "\<exists>a' b'. announce_case tc a = Done (True, a') \<and> next_case (b\<lparr>sk_in := sk_out a' @ rest\<rparr>) = Done (Some tc, b') \<and> sk_in b' = rest"
    and "\<exists>a' b'. announce_end a = Done (True, a') \<and> next_case (b\<lparr>sk_in := sk_out a' @ rest\<rparr>) = Done (None, b') \<and> sk_in b' = rest"
proof -
  have "\<exists>a' b'. WriteFull (BenchCmd_bytes c) 8 a = Done (True, a') \<and> sk_in b' = rest \<and>
      next_case (b\<lparr>sk_in := sk_out a' @ rest\<rparr>) = Done (if bc_rounds c = 0 then None else Some c, b')" for c
  proof -
    obtain a' where a: "WriteFull (BenchCmd_bytes c) 8 a = Done (True, a')" "sk_out a' = BenchCmd_bytes c"
      using WriteFull_writes [of 8 "BenchCmd_bytes c" a] assms(1,2) by auto
    obtain b' where "ReadFull (replicate 8 0) 8 (b\<lparr>sk_in := sk_out a' @ rest\<rparr>) = Done (True, BenchCmd_bytes c, b')" "sk_in b' = rest"
      using rfull.rd_prefix [of "b\<lparr>sk_in := sk_out a' @ rest\<rparr>" "BenchCmd_bytes c" rest 8 "replicate 8 0"] a(2) assms(3) by auto
    then show ?thesis using a by (auto simp: next_case_def BenchCmd_read_bytes)
  qed
  from this [of tc] this [of "\<lparr>bc_payload_size = 0, bc_rounds = 0\<rparr>"] assms(4)
  show "\<exists>a' b'. announce_case tc a = Done (True, a') \<and> next_case (b\<lparr>sk_in := sk_out a' @ rest\<rparr>) = Done (Some tc, b') \<and> sk_in b' = rest"
    "\<exists>a' b'. announce_end a = Done (True, a') \<and> next_case (b\<lparr>sk_in := sk_out a' @ rest\<rparr>) = Done (None, b') \<and> sk_in b' = rest"
    by (auto simp: announce_case_def announce_end_def)
qed

section \<open>The client's side\<close>

definition case_fits :: "nat \<Rightarrow> BenchCmd \<Rightarrow> bool" where
  "case_fits cap tc \<longleftrightarrow> 8 + unat (bc_payload_size tc) \<le> max_write_size cap \<and> 2 * (16 + unat (bc_payload_size tc)) \<le> cap \<and>
     unat (bc_payload_size tc) \<le> 16777216"

definition body_ok :: "BenchCmd \<Rightarrow> bytes \<Rightarrow> bool" where
  "body_ok tc body \<longleftrightarrow> (\<exists>q. length q = 4 \<and> body = u32_bytes kBenchTag @ q @ replicate (unat (bc_payload_size tc)) 66)"

lemma body_ok_write:
  "body_ok tc body \<Longrightarrow> mem_write body 4 (u32_bytes (word_of_nat i)) = Some (bench_payload (bc_payload_size tc) i) \<and>
     body_ok tc (bench_payload (bc_payload_size tc) i)"
  by (auto simp: body_ok_def mem_write_def bench_payload_def)

lemma Send_batch_bench:
  assumes "case_fits cap tc" "cbw_wf cap (ch, w)"
  shows "\<exists>ch' w'. Send_batch cap (ch, w) (Some (bench_payload (bc_payload_size tc) i)) (bench_body_len tc) seq
       = Some (if cb_used w + 16 + unat (bc_payload_size tc) \<le> cap then Ret 0 else Ret (-1), ch', w') \<and>
     (if cb_used w + 16 + unat (bc_payload_size tc) \<le> cap
      then cbw_appends cap (ch, w) (frame (bench_payload (bc_payload_size tc) i) seq) (ch', w') else ch' = ch \<and> w' = w)"
proof -
  let ?p = "bc_payload_size tc"
  have n: "bench_body_len tc = word_of_nat (length (bench_payload ?p i))"
    by (simp add: bench_body_len_def kTagSize_def sizeof_BenchPayloadHeader_def)
  have l: "unat (bench_body_len tc) = 8 + unat ?p"
    using unat_BenchFrameSize(2) [of ?p] assms(1) by (simp add: bench_body_len_def case_fits_def)
  have "length (bench_payload ?p i) \<le> max_write_size cap" "length (bench_payload ?p i) + 8 < 4294967296"
    using assms(1) by (simp_all add: case_fits_def)
  from sendp.SendFrameBatch_exact [OF assms(2) this, of seq] show ?thesis
    using l assms(1) unfolding n by (simp add: Send_batch_def case_fits_def add.assoc)
qed

lemma fill_batch_frames:
  assumes "case_fits cap tc" "body_ok tc body" "cbw_wf cap (ch, w)"
  shows "\<exists>k' m body' s'. fill_batch cap tc k (word_of_nat i) body (ch, w) = Some (k', word_of_nat (i + m), body', s') \<and>
     k = k' + m \<and> body_ok tc body' \<and> cbw_appends cap (ch, w) (bench_frames (bc_payload_size tc) i m) s' \<and>
     (0 < k \<longrightarrow> cb_used w + 16 + unat (bc_payload_size tc) \<le> cap \<longrightarrow> 0 < m)"
  using assms
proof (induction k arbitrary: i body ch w)
  case 0
  then show ?case by (auto simp: bench_frames_def intro!: exI [of _ "0::nat"] cbw_appends_refl)
next
  case (Suc k)
  let ?p = "bc_payload_size tc"
  note b = body_ok_write [OF Suc.prems(2), of i]
  obtain ch1 w1 where r: "Send_batch cap (ch, w) (Some (bench_payload ?p i)) (bench_body_len tc) (word_of_nat i)
      = Some (if cb_used w + 16 + unat ?p \<le> cap then Ret 0 else Ret (-1), ch1, w1)"
    "if cb_used w + 16 + unat ?p \<le> cap then cbw_appends cap (ch, w) (frame (bench_payload ?p i) (word_of_nat i)) (ch1, w1) else ch1 = ch \<and> w1 = w"
    using Send_batch_bench [OF Suc.prems(1,3), of i "word_of_nat i"] by blast
  show ?case
  proof (cases "cb_used w + 16 + unat ?p \<le> cap")
    case False
    then have "fill_batch cap tc (Suc k) (word_of_nat i) body (ch, w) = Some (Suc k, word_of_nat (i + 0), bench_payload ?p i, ch, w)"
      using b r by simp
    then show ?thesis
      using False b cbw_appends_refl [OF Suc.prems(3)] by (intro exI [of _ "Suc k"] exI [of _ 0]) (auto simp: bench_frames_def)
  next
    case True
    then have ap: "cbw_appends cap (ch, w) (frame (bench_payload ?p i) (word_of_nat i)) (ch1, w1)" using r(2) by simp
    from Suc.IH [OF Suc.prems(1) conjunct2 [OF b] cbw_appends_wf [OF ap], of "Suc i"] obtain k' m body' s' where
      h: "fill_batch cap tc k (word_of_nat (Suc i)) (bench_payload ?p i) (ch1, w1) = Some (k', word_of_nat (Suc i + m), body', s')" "k = k' + m"
        "body_ok tc body'" "cbw_appends cap (ch1, w1) (bench_frames ?p (Suc i) m) s'" by blast
    have "fill_batch cap tc (Suc k) (word_of_nat i) body (ch, w) = Some (k', word_of_nat (i + Suc m), body', s')"
      using b r(1) True h(1) by (simp add: add.commute)
    then show ?thesis
      using h(2,3) cbw_appends_trans [OF ap h(4)] by (intro exI [of _ k'] exI [of _ "Suc m"]) (simp add: bench_frames_Suc)
  qed
qed

lemma bench_fill_frames:
  assumes "case_fits cap tc" "body_ok tc body" "ring_wf cap (ch_wr ch)"
  shows "\<exists>k' m body' ch'. bench_fill cap tc k (word_of_nat i) body ch = Some (k', word_of_nat (i + m), body', ch') \<and>
     k = k' + m \<and> body_ok tc body' \<and> ring_wf cap (ch_wr ch') \<and> read_pos (ch_wr ch') = read_pos (ch_wr ch) \<and>
     contents (ch_wr ch') = contents (ch_wr ch) @ bench_frames (bc_payload_size tc) i m \<and>
     (0 < k \<longrightarrow> used (ch_wr ch) + 16 + unat (bc_payload_size tc) \<le> cap \<longrightarrow> 0 < m)"
proof -
  note sb = StartBatch_wf [OF assms(3)]
  have u: "cb_used (StartBatch ch) = used (ch_wr ch)" by (simp add: cb_used_def sb(3) used_def BatchWriter_new_def)
  obtain k' m body' ch1 w1 where h: "fill_batch cap tc k (word_of_nat i) body (ch, StartBatch ch) = Some (k', word_of_nat (i + m), body', ch1, w1)"
    "k = k' + m" "body_ok tc body'" "cbw_appends cap (ch, StartBatch ch) (bench_frames (bc_payload_size tc) i m) (ch1, w1)"
    "0 < k \<longrightarrow> used (ch_wr ch) + 16 + unat (bc_payload_size tc) \<le> cap \<longrightarrow> 0 < m"
    using fill_batch_frames [OF assms(1,2) sb(1), of k i] u by (metis surj_pair)
  obtain n2 ch2 w2 where f2: "ChannelBatchWriter_Flush (ch1, w1) = (n2, ch2, w2)" by (metis prod_cases3)
  obtain n3 ch3 w3 where f3: "ChannelBatchWriter_Flush (ch2, w2) = (n3, ch3, w3)" by (metis prod_cases3)
  note F2 = cbw_Flush [OF cbw_appends_wf [OF h(4)] f2]
  note F3 = cbw_Flush [OF F2(2) f3]
  have "bench_fill cap tc k (word_of_nat i) body ch = Some (k', word_of_nat (i + m), body', ch3)"
    using h(1) f2 f3 by (simp add: bench_fill_def Let_def)
  moreover have "contents (ch_wr ch3) = contents (ch_wr ch) @ bench_frames (bc_payload_size tc) i m" "read_pos (ch_wr ch3) = read_pos (ch_wr ch)"
    using F2 F3 h(4) sb(2) by (auto simp: cbw_appends_def)
  ultimately show ?thesis using h(2,3,5) cbw_wf_ring [OF F3(2)] by (intro exI [of _ k'] exI [of _ m] exI [of _ body'] exI [of _ ch3]) simp
qed

section \<open>The server's side\<close>

lemma TryRecv_takes_frame:
  assumes "reader_wf cap (ch, fr)" "unread (ch, fr) = frame payload q @ rest" "length payload + 8 \<le> cap" "length payload \<le> length (fr_buf fr)"
  shows "\<exists>ptr ch' fr'. FrameReader_TryRecv cap (ch, fr) = Some (RecvOk ptr (word_of_nat (length payload)), ch', fr') \<and>
     payload_at ch' fr' ptr (word_of_nat (length payload)) = Some payload \<and> reader_wf cap (ch', fr') \<and> unread (ch', fr') = rest \<and>
     unat (fr_pending_commit fr') = 8 + length payload \<and> length (fr_buf fr') = length (fr_buf fr) \<and> contents (ch_rd ch') = unread (ch, fr)"
proof -
  let ?h = "\<lparr>mh_len = word_of_nat (length payload) :: u32, mh_seq = q\<rparr>"
  have cap: "cap < 4294967296" using assms(1) ring_wfD [of cap "ch_rd ch"] by (simp add: reader_wf_def)
  have pf: "parse_frame cap (unread (ch, fr)) = Frame ?h payload" unfolding assms(2) using assms(3) cap by (rule parse_frame_frame)
  obtain res ch' fr' where r: "FrameReader_TryRecv cap (ch, fr) = Some (res, ch', fr')" "reader_wf cap (ch', fr')" "contents (ch_rd ch') = unread (ch, fr)"
    "recv_outcome cap (unread (ch, fr)) ch' (fr\<lparr>fr_pending_commit := 0\<rparr>) res fr'" using TryRecv_outcome [OF assms(1)] by blast
  have o: "length (fr_buf fr') = length (fr_buf fr)" "unat (fr_pending_commit fr') = 8 + length payload"
    using r(4) pf by (simp_all add: recv_outcome_def)
  obtain ptr where "res = RecvOk ptr (mh_len ?h)" "payload_at ch' fr' ptr (mh_len ?h) = Some payload"
    using r(4) pf receivable_small [OF assms(4)] by (auto simp: recv_outcome_def split: if_splits)
  moreover have "unread (ch', fr') = rest" using r(3) o(2) assms(2) by (simp add: unread_def)
  ultimately show ?thesis using r(1-3) o by auto
qed

lemma TryRecv_empty:
  assumes "reader_wf cap (ch, fr)" "unread (ch, fr) = []"
  shows "\<exists>ch' fr'. FrameReader_TryRecv cap (ch, fr) = Some (RecvErr (-1), ch', fr') \<and> reader_wf cap (ch', fr') \<and> unread (ch', fr') = [] \<and>
     fr_pending_commit fr' = 0 \<and> length (fr_buf fr') = length (fr_buf fr)"
proof -
  have pf: "parse_frame cap (unread (ch, fr)) = Incomplete" using assms(2) by (simp add: parse_frame_def)
  obtain res ch' fr' where r: "FrameReader_TryRecv cap (ch, fr) = Some (res, ch', fr')" "reader_wf cap (ch', fr')" "contents (ch_rd ch') = unread (ch, fr)"
    "recv_outcome cap (unread (ch, fr)) ch' (fr\<lparr>fr_pending_commit := 0\<rparr>) res fr'" using TryRecv_outcome [OF assms(1)] by blast
  then have "res = RecvErr (-1)" "fr' = fr\<lparr>fr_pending_commit := 0\<rparr>" using pf by (simp_all add: recv_outcome_def)
  then show ?thesis using r assms(2) by (simp add: unread_def)
qed

lemma bench_poll_frame:
  assumes "reader_wf cap (ch, fr)" "unread (ch, fr) = frame payload q @ rest" "8 \<le> length payload" "length payload + 8 \<le> cap"
    "length payload \<le> length (fr_buf fr)"
  shows "\<exists>ch' fr'. bench_poll cap n (ch, fr) = Some (sint (bytes_u32 (take 4 (drop 4 payload))) = -1,
       if sint (bytes_u32 (take 4 (drop 4 payload))) = -1 then n else n + 1, ch', fr') \<and> reader_wf cap (ch', fr') \<and> unread (ch', fr') = rest \<and>
     unat (fr_pending_commit fr') = 8 + length payload \<and> length (fr_buf fr') = length (fr_buf fr)"
proof -
  have "cap < 4294967296" using assms(1) ring_wfD [of cap "ch_rd ch"] by (simp add: reader_wf_def)
  then have "unat (word_of_nat (length payload) :: u32) = length payload" using assms(4) by (intro unat_of_nat_u32) linarith
  then have "kTagSize + sizeof_BenchPayloadHeader \<le> (word_of_nat (length payload) :: u32)"
    using assms(3) by (simp add: word_le_nat_alt kTagSize_def sizeof_BenchPayloadHeader_def)
  moreover have "mem_read payload 4 4 = Some (take 4 (drop 4 payload))" using assms(3) by (simp add: mem_read_def)
  ultimately show ?thesis using TryRecv_takes_frame [OF assms(1,2,4,5)] by (auto simp: bench_poll_def)
qed

lemma bench_poll_empty:
  assumes "reader_wf cap (ch, fr)" "unread (ch, fr) = []"
  shows "\<exists>ch' fr'. bench_poll cap n (ch, fr) = Some (False, n, ch', fr') \<and> reader_wf cap (ch', fr') \<and> unread (ch', fr') = [] \<and>
     fr_pending_commit fr' = 0 \<and> length (fr_buf fr') = length (fr_buf fr)"
  using TryRecv_empty [OF assms] by (auto simp: bench_poll_def)

text \<open>The server does not look at the error code: after an impossible frame length it polls forever.\<close>

lemma bench_poll_bad_length:
  assumes "reader_wf cap (ch, fr)" "parse_frame cap (unread (ch, fr)) = BadLength"
  shows "\<exists>ch' fr'. bench_poll cap n (ch, fr) = Some (False, n, ch', fr') \<and> reader_wf cap (ch', fr') \<and>
     parse_frame cap (unread (ch', fr')) = BadLength"
proof -
  obtain res ch' fr' where r: "FrameReader_TryRecv cap (ch, fr) = Some (res, ch', fr')" "reader_wf cap (ch', fr')" "contents (ch_rd ch') = unread (ch, fr)"
    "recv_outcome cap (unread (ch, fr)) ch' (fr\<lparr>fr_pending_commit := 0\<rparr>) res fr'" using TryRecv_outcome [OF assms(1)] by blast
  then have "res = RecvErr (-3)" "fr' = fr\<lparr>fr_pending_commit := 0\<rparr>" using assms(2) by (simp_all add: recv_outcome_def)
  moreover have "unread (ch', fr') = unread (ch, fr)" using r(3) calculation(2) by (simp add: unread_def)
  ultimately show ?thesis using r(1,2) assms(2) by (simp add: bench_poll_def)
qed

section \<open>Both together\<close>

text \<open>The state of a run in which \<open>sent\<close> messages were sent and \<open>recvd\<close> counted.\<close>

definition bench_at :: "nat \<Rightarrow> BenchCmd \<Rightarrow> nat \<Rightarrow> nat \<Rightarrow> bench \<Rightarrow> bool" where
  "bench_at cap tc sent recvd b \<longleftrightarrow> sent + be_left b = nat (sint (bc_rounds tc)) \<and> recvd \<le> sent \<and>
     be_i b = word_of_nat sent \<and> be_received b = word_of_nat recvd \<and> body_ok tc (be_body b) \<and> ch_rd (be_server b) = ch_wr (be_client b) \<and>
     reader_wf cap (be_server b, be_reader b) \<and> unat (fr_pending_commit (be_reader b)) \<le> 16 + unat (bc_payload_size tc) \<and>
     8 + unat (bc_payload_size tc) \<le> length (fr_buf (be_reader b)) \<and> (be_ended b \<longrightarrow> be_left b = 0) \<and>
     (be_got_end b \<longrightarrow> be_ended b \<and> recvd = sent) \<and>
     unread (be_server b, be_reader b) = bench_frames (bc_payload_size tc) recvd (sent - recvd) @
       (if be_ended b \<and> \<not> be_got_end b then frame end_body 0 else [])"

lemma reader_append:
  assumes "reader_wf cap (ch, fr)" "ring_wf cap rg" "contents rg = contents (ch_rd ch) @ xs"
  shows "reader_wf cap (ch\<lparr>ch_rd := rg\<rparr>, fr)" "unread (ch\<lparr>ch_rd := rg\<rparr>, fr) = unread (ch, fr) @ xs"
proof -
  have "used rg = used (ch_rd ch) + length xs" using arg_cong [OF assms(3), of length] by simp
  then show "reader_wf cap (ch\<lparr>ch_rd := rg\<rparr>, fr)" "unread (ch\<lparr>ch_rd := rg\<rparr>, fr) = unread (ch, fr) @ xs"
    using assms by (simp_all add: reader_wf_def unread_def)
qed

lemma bench_frames_append: "bench_frames p i (m + n) = bench_frames p i m @ bench_frames p (i + m) n"
proof -
  have "[i..<i + (m + n)] = [i..<i + m] @ [i + m..<i + m + n]" using upt_add_eq_append [of i "i + m" n] by (simp add: add.assoc)
  then show ?thesis by (simp add: bench_frames_def)
qed

lemma bench_frames_0 [simp]: "bench_frames p i 0 = []"
  by (simp add: bench_frames_def)

lemma room_for_one: "(u :: nat) \<le> q \<Longrightarrow> q \<le> 16 + p \<Longrightarrow> 2 * (16 + p) \<le> cap \<Longrightarrow> u + 16 + p \<le> cap"
  by simp

lemma client_turn_at:
  assumes "case_fits cap tc" "bench_at cap tc sent recvd b"
  shows "\<exists>b' sent'. client_turn cap tc b = Some b' \<and> bench_at cap tc sent' recvd b' \<and> be_got_end b' = be_got_end b \<and>
     (be_got_end b \<or> unread (be_server b', be_reader b') \<noteq> [])"
proof -
  let ?p = "bc_payload_size tc" and ?u = "unread (be_server b, be_reader b)"
  note at = assms(2) [unfolded bench_at_def]
  have wf: "ring_wf cap (ch_wr (be_client b))" using at by (auto simp: reader_wf_def)
  have fit: "used (ch_wr (be_client b)) + 16 + unat ?p \<le> cap" if "?u = []"
  proof -
    have "used (ch_wr (be_client b)) \<le> unat (fr_pending_commit (be_reader b))" using that at by (auto simp: unread_def)
    moreover have "unat (fr_pending_commit (be_reader b)) \<le> 16 + unat ?p" "2 * (16 + unat ?p) \<le> cap" using at assms(1) by (simp_all add: case_fits_def)
    ultimately show ?thesis by (rule room_for_one)
  qed
  show ?thesis
  proof (cases "be_left b > 0")
    case True
    obtain k m body ch where f: "bench_fill cap tc (be_left b) (word_of_nat sent) (be_body b) (be_client b) = Some (k, word_of_nat (sent + m), body, ch)"
      "be_left b = k + m" "body_ok tc body" "ring_wf cap (ch_wr ch)" "contents (ch_wr ch) = contents (ch_wr (be_client b)) @ bench_frames ?p sent m"
      "used (ch_wr (be_client b)) + 16 + unat ?p \<le> cap \<longrightarrow> 0 < m"
      using bench_fill_frames [OF assms(1) _ wf, of "be_body b" "be_left b" sent] at True by blast
    let ?b = "b\<lparr>be_left := k, be_i := word_of_nat (sent + m), be_body := body, be_client := ch, be_server := (be_server b)\<lparr>ch_rd := ch_wr ch\<rparr>\<rparr>"
    have ne: "\<not> be_ended b" "\<not> be_got_end b" using at True by auto
    have ra: "reader_wf cap (be_server ?b, be_reader b)" "unread (be_server ?b, be_reader b) = ?u @ bench_frames ?p sent m"
      using reader_append [of cap "be_server b" "be_reader b" "ch_wr ch"] f(4,5) at by auto
    have "bench_at cap tc (sent + m) recvd ?b"
      using at f(2,3) ra ne bench_frames_append [of ?p recvd "sent - recvd" m] by (simp add: bench_at_def)
    moreover have "unread (be_server ?b, be_reader ?b) \<noteq> []"
      using ra(2) f(6) fit by (cases "?u = []"; cases m) (auto simp: bench_frames_Suc frame_def)
    ultimately show ?thesis using f(1) True at ne by (auto simp: client_turn_def)
  next
    case left: False
    show ?thesis
    proof (cases "be_ended b")
      case True
      then have "be_got_end b \<or> ?u \<noteq> []" using at by (auto simp: frame_def)
      then show ?thesis using left True assms(2) by (auto simp: client_turn_def)
    next
      case False
      then have ne: "\<not> be_got_end b" using at by simp
      have mw: "8 \<le> max_write_size cap" using assms(1) by (simp add: case_fits_def)
      obtain ch where sd: "Send cap (be_client b) (Some end_body) 8 0 = Some (if used (ch_wr (be_client b)) + 16 \<le> cap then Ret 0 else Ret (-1), ch)"
        "ring_wf cap (ch_wr ch)"
        "if used (ch_wr (be_client b)) + 16 \<le> cap then contents (ch_wr ch) = contents (ch_wr (be_client b)) @ frame end_body 0 else ch = be_client b"
        using Send_cases [OF wf, of end_body 0] mw by (auto split: if_splits)
      let ?ok = "used (ch_wr (be_client b)) + 16 \<le> cap"
      let ?b = "b\<lparr>be_ended := ?ok, be_client := ch, be_server := (be_server b)\<lparr>ch_rd := ch_wr ch\<rparr>\<rparr>"
      have ct: "client_turn cap tc b = Some ?b" using sd(1) left False by (simp add: client_turn_def)
      have ra: "reader_wf cap (be_server ?b, be_reader b)" "unread (be_server ?b, be_reader b) = ?u @ (if ?ok then frame end_body 0 else [])"
        using reader_append [of cap "be_server b" "be_reader b" "ch_wr ch" "if ?ok then frame end_body 0 else []"] sd(2,3) at by auto
      have "bench_at cap tc sent recvd ?b" using at ra ne left False by (simp add: bench_at_def)
      moreover have "unread (be_server ?b, be_reader ?b) \<noteq> []" using ra(2) fit by (auto simp: frame_def)
      ultimately show ?thesis using ct ne by auto
    qed
  qed
qed

lemma server_turn_polled:
  assumes "bench_at cap tc sent recvd b" "\<not> be_got_end b"
    "bench_poll cap (be_received b) (be_server b, be_reader b) = Some (e, word_of_nat recvd', ch, fr)"
    "reader_wf cap (ch, fr)" "unat (fr_pending_commit fr) \<le> 16 + unat (bc_payload_size tc)" "length (fr_buf fr) = length (fr_buf (be_reader b))"
    "recvd' \<le> sent" "e \<longrightarrow> be_ended b \<and> recvd' = sent"
    "unread (ch, fr) = bench_frames (bc_payload_size tc) recvd' (sent - recvd') @ (if be_ended b \<and> \<not> e then frame end_body 0 else [])"
  shows "\<exists>b'. server_turn cap b = Some b' \<and> bench_at cap tc sent recvd' b' \<and> be_got_end b' = e"
proof -
  let ?b = "b\<lparr>be_got_end := e, be_received := word_of_nat recvd', be_server := ch, be_reader := fr, be_client := (be_client b)\<lparr>ch_wr := ch_rd ch\<rparr>\<rparr>"
  have "server_turn cap b = Some ?b" using assms(2,3) by (simp add: server_turn_def)
  moreover have "bench_at cap tc sent recvd' ?b" using assms by (simp add: bench_at_def)
  ultimately show ?thesis by auto
qed

lemma server_turn_at:
  assumes "case_fits cap tc" "bench_at cap tc sent recvd b"
  shows "\<exists>b' recvd'. server_turn cap b = Some b' \<and> bench_at cap tc sent recvd' b' \<and> recvd \<le> recvd' \<and>
     (be_got_end b' \<or> (unread (be_server b, be_reader b) \<noteq> [] \<longrightarrow> recvd' = Suc recvd))"
proof -
  let ?p = "bc_payload_size tc" and ?u = "unread (be_server b, be_reader b)"
  let ?fin = "be_ended b \<and> \<not> be_got_end b"
  note at = assms(2) [unfolded bench_at_def]
  have wf: "reader_wf cap (be_server b, be_reader b)" and buf: "8 + unat ?p \<le> length (fr_buf (be_reader b))"
    and u: "?u = bench_frames ?p recvd (sent - recvd) @ (if ?fin then frame end_body 0 else [])" using at by simp_all
  have cap: "16 + unat ?p \<le> cap" using assms(1) by (simp add: case_fits_def)
  consider "be_got_end b" | "\<not> be_got_end b" "?u = []" | "\<not> be_got_end b" "recvd < sent" | "\<not> be_got_end b" "recvd = sent" "be_ended b"
    using at by (cases "recvd = sent") force+
  then show ?thesis
  proof cases
    case 1
    then show ?thesis using assms(2) by (auto simp: server_turn_def)
  next
    case 2
    have "bench_frames ?p recvd (sent - recvd) = []" "\<not> be_ended b" using 2 u by (auto simp: frame_def split: if_splits)
    moreover have "sent - recvd = 0" using calculation(1) by (cases "sent - recvd") (simp_all add: bench_frames_Suc frame_def)
    ultimately have same: "recvd = sent" "\<not> be_ended b" using at by simp_all
    obtain ch fr where "bench_poll cap (be_received b) (be_server b, be_reader b) = Some (False, word_of_nat recvd, ch, fr)" "reader_wf cap (ch, fr)"
      "unread (ch, fr) = []" "fr_pending_commit fr = 0" "length (fr_buf fr) = length (fr_buf (be_reader b))"
      using bench_poll_empty [OF wf 2(2), of "be_received b"] at by auto
    from server_turn_polled [OF assms(2) 2(1) this(1,2)] this(3-5) same 2(2) show ?thesis by auto
  next
    case 3
    let ?q = "bench_payload ?p recvd"
    have k: "sent - recvd = Suc (sent - Suc recvd)" using 3 by simp
    have uf: "?u = frame ?q (word_of_nat recvd) @ (bench_frames ?p (Suc recvd) (sent - Suc recvd) @ (if ?fin then frame end_body 0 else []))"
      unfolding u k bench_frames_Suc by simp
    have "sent \<le> nat (sint (bc_rounds tc))" "sint (bc_rounds tc) < 2147483648" using at sint_lt [of "bc_rounds tc"] by auto
    then have "recvd < 2147483648" using 3(2) by linarith
    then have "sint (bytes_u32 (take 4 (drop 4 ?q))) \<noteq> -1" using sint_small_nat [of recvd] by (simp add: bench_payload_def)
    then obtain ch fr where pl: "bench_poll cap (be_received b) (be_server b, be_reader b) = Some (False, be_received b + 1, ch, fr)"
      "reader_wf cap (ch, fr)" "unread (ch, fr) = bench_frames ?p (Suc recvd) (sent - Suc recvd) @ (if ?fin then frame end_body 0 else [])"
      "unat (fr_pending_commit fr) = 16 + unat ?p" "length (fr_buf fr) = length (fr_buf (be_reader b))"
      using bench_poll_frame [OF wf uf, of "be_received b"] buf cap by auto
    have n: "be_received b + 1 = word_of_nat (Suc recvd)" using at by (simp add: add.commute)
    from server_turn_polled [OF assms(2) 3(1) pl(1) [unfolded n] pl(2)] pl(3-5) 3 obtain b' where
      "server_turn cap b = Some b'" "bench_at cap tc sent (Suc recvd) b'" by auto
    then show ?thesis by (intro exI [of _ b'] exI [of _ "Suc recvd"]) simp
  next
    case 4
    then have uf: "?u = frame end_body 0 @ []" using u by simp
    have "sint (bytes_u32 (take 4 (drop 4 end_body))) = -1" by (simp add: end_body_def)
    then obtain ch fr where pl: "bench_poll cap (be_received b) (be_server b, be_reader b) = Some (True, be_received b, ch, fr)"
      "reader_wf cap (ch, fr)" "unread (ch, fr) = []" "unat (fr_pending_commit fr) = 16" "length (fr_buf fr) = length (fr_buf (be_reader b))"
      using bench_poll_frame [OF wf uf, of "be_received b"] buf cap by auto
    have "bench_poll cap (be_received b) (be_server b, be_reader b) = Some (True, word_of_nat recvd, ch, fr)" using pl(1) at by simp
    from server_turn_polled [OF assms(2) 4(1) this pl(2)] pl(3-5) 4 at show ?thesis by auto
  qed
qed

lemma bench_run_at:
  assumes "case_fits cap tc"
  shows "bench_at cap tc sent recvd b \<Longrightarrow>
     \<exists>b' sent' recvd'. bench_run cap tc ts b = Some b' \<and> bench_at cap tc sent' recvd' b'"
proof (induction ts arbitrary: b sent recvd)
  case (Cons t ts)
  obtain b1 sent1 recvd1 where "(if t then client_turn cap tc b else server_turn cap b) = Some b1" "bench_at cap tc sent1 recvd1 b1"
    using client_turn_at [OF assms Cons.prems] server_turn_at [OF assms Cons.prems] by (cases t) auto
  then show ?case using Cons.IH by auto
qed auto

lemma bench_run_got_end: "bench_run cap tc ts b = Some b' \<Longrightarrow> be_got_end b \<Longrightarrow> be_got_end b'"
proof (induction ts arbitrary: b)
  case (Cons t ts)
  then obtain b1 where b1: "(if t then client_turn cap tc b else server_turn cap b) = Some b1" "bench_run cap tc ts b1 = Some b'"
    by (auto split: Option.bind_splits)
  then have "be_got_end b1" using Cons.prems(2)
    by (auto simp: client_turn_def server_turn_def split: if_splits Option.bind_splits)
  then show ?case using Cons.IH b1(2) by blast
qed simp

lemma bench_run_append: "bench_run cap tc (ts @ us) b = Option.bind (bench_run cap tc ts b) (bench_run cap tc us)"
  by (induction ts arbitrary: b) (simp_all split: Option.bind_split)

text \<open>Each time both have moved, one more message is counted, until the end marker is.\<close>

lemma bench_alternate:
  assumes "case_fits cap tc" "bench_at cap tc sent recvd b"
  shows "\<exists>b' sent' recvd'. bench_run cap tc (concat (replicate n [True, False])) b = Some b' \<and> bench_at cap tc sent' recvd' b' \<and>
     (be_got_end b' \<or> recvd + n \<le> recvd')"
  using assms(2)
proof (induction n arbitrary: b sent recvd)
  case (Suc n)
  obtain b1 s1 where c: "client_turn cap tc b = Some b1" "bench_at cap tc s1 recvd b1"
    "be_got_end b1 = be_got_end b" "be_got_end b \<or> unread (be_server b1, be_reader b1) \<noteq> []" using client_turn_at [OF assms(1) Suc.prems] by blast
  obtain b2 r2 where s: "server_turn cap b1 = Some b2" "bench_at cap tc s1 r2 b2" "recvd \<le> r2"
    "be_got_end b2 \<or> (unread (be_server b1, be_reader b1) \<noteq> [] \<longrightarrow> r2 = Suc recvd)" using server_turn_at [OF assms(1) c(2)] by blast
  have e: "be_got_end b2" if "be_got_end b" using that s(1) c(3) by (simp add: server_turn_def)
  obtain b' sent' recvd' where h: "bench_run cap tc (concat (replicate n [True, False])) b2 = Some b'" "bench_at cap tc sent' recvd' b'"
    "be_got_end b' \<or> r2 + n \<le> recvd'" using Suc.IH [OF s(2)] by blast
  have "be_got_end b'" if "be_got_end b2" using bench_run_got_end [OF h(1) that] .
  then have "be_got_end b' \<or> recvd + Suc n \<le> recvd'" using c(4) s(4) h(3) e by auto
  moreover have "bench_run cap tc (concat (replicate (Suc n) [True, False])) b = Some b'" using c(1) s(1) h(1) by simp
  ultimately show ?case using h(2) by blast
qed auto

lemma bench_at_start:
  assumes "case_fits cap tc" "body_ok tc body" "ring_wf cap (ch_wr c)" "used (ch_wr c) = 0" "ch_rd s = ch_wr c"
    "fr_pending_commit fr = 0" "8 + unat (bc_payload_size tc) \<le> length (fr_buf fr)"
  shows "bench_at cap tc 0 0 (bench_start tc body c s fr)"
proof -
  have "contents (ch_wr c) = []" using assms(4) by simp
  then show ?thesis using assms by (simp add: bench_at_def bench_start_def reader_wf_def unread_def)
qed

section \<open>Properties\<close>

text \<open>
  The shared-memory throughput test under every schedule of the two programs: each pass runs
  to its end; when the server sees the end marker, it has counted exactly the number of
  messages the client was told to send, the client has sent all of them, and the \<open>Commit\<close> that
  follows leaves an empty ring and a reader as they were before the case.
\<close>

theorem shm_bench_counts:
  assumes "case_fits cap tc" "0 \<le> sint (bc_rounds tc)" "bench_body (bc_payload_size tc) = Some body"
    and "ring_wf cap (ch_wr c)" "used (ch_wr c) = 0" "ch_rd s = ch_wr c" "fr_pending_commit fr = 0" "8 + unat (bc_payload_size tc) \<le> length (fr_buf fr)"
  shows "\<exists>b. bench_run cap tc ts (bench_start tc body c s fr) = Some b \<and>
     (\<not> be_got_end b \<or> be_received b = bc_rounds tc \<and> be_left b = 0 \<and> be_ended b \<and>
       (\<exists>s' fr'. FrameReader_Commit (be_server b, be_reader b) = Some (s', fr') \<and> ring_wf cap (ch_rd s') \<and> used (ch_rd s') = 0 \<and> fr_pending_commit fr' = 0))"
proof -
  have p: "unat (bc_payload_size tc) \<le> 16777216" using assms(1) by (simp add: case_fits_def)
  have "body_ok tc body" using assms(3) bench_body_eq [OF p] by (auto simp: body_ok_def intro!: exI [of _ "replicate 4 0"])
  from bench_run_at [OF assms(1) bench_at_start [OF assms(1) this assms(4-8)], of ts] obtain b sent recvd where
    b: "bench_run cap tc ts (bench_start tc body c s fr) = Some b" "bench_at cap tc sent recvd b" by blast
  have "be_received b = bc_rounds tc \<and> be_left b = 0 \<and> be_ended b \<and>
       (\<exists>s' fr'. FrameReader_Commit (be_server b, be_reader b) = Some (s', fr') \<and> ring_wf cap (ch_rd s') \<and> used (ch_rd s') = 0 \<and> fr_pending_commit fr' = 0)"
    if "be_got_end b"
  proof -
    have d: "be_ended b" "be_left b = 0" "recvd = nat (sint (bc_rounds tc))" "be_received b = word_of_nat recvd" "reader_wf cap (be_server b, be_reader b)"
      "unread (be_server b, be_reader b) = []" using b(2) that by (auto simp: bench_at_def)
    have "(word_of_nat (nat (sint (bc_rounds tc))) :: s32) = word_of_int (int (nat (sint (bc_rounds tc))))" by simp
    then have "be_received b = bc_rounds tc" using d(3,4) assms(2) by simp
    moreover obtain s' where "FrameReader_Commit (be_server b, be_reader b) = Some (s', (be_reader b)\<lparr>fr_pending_commit := 0\<rparr>)"
      "ring_wf cap (ch_rd s')" "contents (ch_rd s') = []" using FrameReader_Commit_unread [OF d(5)] d(6) by auto
    ultimately show ?thesis using d(1,2) length_contents [of "ch_rd s'"] by auto
  qed
  then show ?thesis using b(1) by blast
qed

text \<open>The cases of \<open>kBenchCases\<close> fit the default ring and the server's reader of 3 MB.\<close>

lemma kBenchCases_fit: "list_all (\<lambda>tc. case_fits (8 * 1024 * 1024) tc \<and> 0 < sint (bc_rounds tc) \<and>
    8 + unat (bc_payload_size tc) \<le> 3 * 1024 * 1024) kBenchCases"
  by (simp add: kBenchCases_def case_fits_def max_write_size_def)

definition bench_channel :: channel where
  "bench_channel = \<lparr>ch_wr = RingBuf_Init (8 * 1024 * 1024), ch_rd = RingBuf_Init (8 * 1024 * 1024), ch_peer_evt = 0, ch_own_evt = 0\<rparr>"

lemma bench_channel_ok:
  "ring_wf (8 * 1024 * 1024) (ch_wr bench_channel)" "used (ch_wr bench_channel) = 0" "ch_rd bench_channel = ch_wr bench_channel"
proof -
  have "cap_ok 8388608" by (simp add: cap_ok_def)
  then show "ring_wf (8 * 1024 * 1024) (ch_wr bench_channel)" by (simp add: bench_channel_def ring_wf_Init)
qed (simp_all add: bench_channel_def RingBuf_Init_def used_def)

definition big_case :: BenchCmd where
  "big_case = \<lparr>bc_payload_size = 2097152, bc_rounds = 2000\<rparr>"

lemma big_case_ok: "case_fits (8 * 1024 * 1024) big_case" "0 \<le> sint (bc_rounds big_case)"
    "8 + unat (bc_payload_size big_case) \<le> length (fr_buf (FrameReader_new (3 * 1024 * 1024)))" "fr_pending_commit (FrameReader_new n) = 0"
  by (simp_all add: big_case_def case_fits_def max_write_size_def FrameReader_new_def)

theorem shm_bench_counts_witness:
  "\<exists>body b. bench_body 2097152 = Some body \<and>
     bench_run (8 * 1024 * 1024) big_case [True, True, False]
       (bench_start big_case body bench_channel bench_channel (FrameReader_new (3 * 1024 * 1024))) = Some b"
proof -
  obtain body where "bench_body (bc_payload_size big_case) = Some body" using bench_body_eq [of 2097152] by (simp add: big_case_def)
  with shm_bench_counts [OF big_case_ok(1,2) this bench_channel_ok big_case_ok(4,3), of "[True, True, False]"] show ?thesis
    by (metis big_case_def BenchCmd.select_convs(1))
qed

text \<open>
  C40: the test ends: from the state after any schedule, once the two programs have taken turns as
  often as there are messages, plus once for the end marker, the server has seen it. Neither
  of them waits forever, although the reader keeps the last frame in the ring and the largest
  frames take a quarter of it.
\<close>

theorem shm_bench_finishes:
  assumes "case_fits cap tc" "0 \<le> sint (bc_rounds tc)" "bench_body (bc_payload_size tc) = Some body"
    and "ring_wf cap (ch_wr c)" "used (ch_wr c) = 0" "ch_rd s = ch_wr c" "fr_pending_commit fr = 0" "8 + unat (bc_payload_size tc) \<le> length (fr_buf fr)"
  shows "\<exists>b. bench_run cap tc (ts @ concat (replicate (nat (sint (bc_rounds tc)) + 1) [True, False])) (bench_start tc body c s fr) = Some b \<and> be_got_end b"
proof -
  have p: "unat (bc_payload_size tc) \<le> 16777216" using assms(1) by (simp add: case_fits_def)
  have "body_ok tc body" using assms(3) bench_body_eq [OF p] by (auto simp: body_ok_def intro!: exI [of _ "replicate 4 0"])
  from bench_run_at [OF assms(1) bench_at_start [OF assms(1) this assms(4-8)], of ts] obtain b1 sent recvd where
    b1: "bench_run cap tc ts (bench_start tc body c s fr) = Some b1" "bench_at cap tc sent recvd b1" by blast
  from bench_alternate [OF assms(1) b1(2), of "nat (sint (bc_rounds tc)) + 1"] obtain b sent' recvd' where
    b: "bench_run cap tc (concat (replicate (nat (sint (bc_rounds tc)) + 1) [True, False])) b1 = Some b" "bench_at cap tc sent' recvd' b"
      "be_got_end b \<or> recvd + (nat (sint (bc_rounds tc)) + 1) \<le> recvd'" by blast
  have "recvd' \<le> nat (sint (bc_rounds tc))" using b(2) by (simp add: bench_at_def)
  then have "be_got_end b" using b(3) by linarith
  then show ?thesis using b1(1) b(1) by (simp add: bench_run_append)
qed

theorem shm_bench_finishes_witness:
  "\<exists>body b. bench_body 2097152 = Some body \<and>
     bench_run (8 * 1024 * 1024) big_case ([False] @ concat (replicate 2001 [True, False]))
       (bench_start big_case body bench_channel bench_channel (FrameReader_new (3 * 1024 * 1024))) = Some b \<and> be_got_end b"
proof -
  obtain body where body: "bench_body (bc_payload_size big_case) = Some body" using bench_body_eq [of 2097152] by (simp add: big_case_def)
  have "nat (sint (bc_rounds big_case)) + 1 = 2001" by (simp add: big_case_def)
  with shm_bench_finishes [OF big_case_ok(1,2) body bench_channel_ok big_case_ok(4,3), of "[False]"] body show ?thesis
    by (metis big_case_def BenchCmd.select_convs(1))
qed

end
