(* ===== verification/Bulk_Transfer.thy ===== *)
theory Bulk_Transfer
  imports Shm_Bench Realtime
begin

text \<open>
  The writer and reader loops of the ring benchmarks \<open>bench/bench_batch.cpp\<close> and
  \<open>bench/bench_codec.cpp\<close>: a writer that puts messages into the ring one by one, in batches, as
  frames or as POD frames, spinning while there is no room, against a reader that takes raw
  messages or frames, spinning while there is none. Time measurement and reports are left out.
  The locale \<open>bulk\<close> has what such a pair of loops needs of its two ends; that every message arrives,
  once and in order, and that the loops end, is proved there for all four pairs.
\<close>

section \<open>The programs\<close>

text \<open>
  One pass of each loop. A writer has sent \<open>i\<close> messages and has \<open>k\<close> to go; it returns how many it sent
  in this pass.
\<close>

definition WriteSingle_turn :: "nat \<Rightarrow> bytes \<times> u32 \<Rightarrow> nat \<Rightarrow> nat \<Rightarrow> channel \<Rightarrow> (nat \<times> channel) option" where
  "WriteSingle_turn cap p i k ch =
     (if k = 0 then Some (0, ch)
      else do {
        (rc, ch1) \<leftarrow> RingChannel_TryWrite cap ch (Some (fst p)) (snd p);
        Some (if rc \<noteq> 0 then 0 else 1, ch1)
      })"

fun batch_fill :: "nat \<Rightarrow> bytes \<Rightarrow> u32 \<Rightarrow> nat \<Rightarrow> chan_batch \<Rightarrow> (nat \<times> chan_batch) option" where
  "batch_fill cap buf msg_len 0 s = Some (0, s)"
| "batch_fill cap buf msg_len (Suc n) s = do {
     (rc, s1) \<leftarrow> ChannelBatchWriter_TryWrite cap s (Some buf) msg_len;
     if rc \<noteq> 0 then Some (0, s1)
     else do {
       (m, s2) \<leftarrow> batch_fill cap buf msg_len n s1;
       Some (Suc m, s2)
     }
   }"

text \<open>The destructor of the batch flushes it.\<close>

definition WriteBatch_turn :: "nat \<Rightarrow> (bytes \<times> u32) \<times> int \<Rightarrow> nat \<Rightarrow> nat \<Rightarrow> channel \<Rightarrow> (nat \<times> channel) option" where
  "WriteBatch_turn cap p i k ch =
     (if k = 0 then Some (0, ch)
      else do {
        (m, s1) \<leftarrow> batch_fill cap (fst (fst p)) (snd (fst p)) (min (nat (snd p)) k) (ch, StartBatch ch);
        Some (m, fst (snd (ChannelBatchWriter_Flush s1)))
      })"

definition Send_turn :: "nat \<Rightarrow> bytes \<Rightarrow> nat \<Rightarrow> nat \<Rightarrow> channel \<Rightarrow> (nat \<times> channel) option" where
  "Send_turn cap payload i k ch =
     (if k = 0 then Some (0, ch)
      else do {
        (r, ch1) \<leftarrow> Send cap ch (Some payload) (word_of_nat (length payload)) (word_of_nat i);
        Some (if r \<noteq> Ret 0 then 0 else 1, ch1)
      })"

text \<open>\<open>msg\<close> with \<open>msg.seq = i\<close>, other fields zero but for the payload.\<close>

definition SendPod_turn :: "nat \<Rightarrow> u32 \<Rightarrow> nat \<Rightarrow> nat \<Rightarrow> channel \<Rightarrow> (nat \<times> channel) option" where
  "SendPod_turn cap payload_size i k ch =
     (if k = 0 then Some (0, ch)
      else do {
        msg \<leftarrow> ClientMsg_bytes (int i) 0 0 payload_size;
        (r, ch1) \<leftarrow> PodCodec_Send cap ClientMsg_type ch msg (word_of_nat i);
        Some (if r \<noteq> Ret 0 then 0 else 1, ch1)
      })"

text \<open>
  A pass of the reader's loop: the message it got, if any. The raw reader has a buffer, the
  other one a \<open>FrameReader\<close>, whose result points to the payload.
\<close>

definition raw_poll :: "nat \<Rightarrow> u32 \<Rightarrow> bytes \<Rightarrow> channel \<Rightarrow> (bytes option \<times> bytes \<times> channel) option" where
  "raw_poll cap msg_len buf ch = do {
     (rc, d, ch1) \<leftarrow> RingChannel_ReadExact cap ch msg_len;
     if rc \<noteq> 0 then Some (None, buf, ch1)
     else do {
       buf1 \<leftarrow> mem_write buf 0 d;
       Some (Some d, buf1, ch1)
     }
   }"

definition frame_poll :: "nat \<Rightarrow> frame_reader \<Rightarrow> channel \<Rightarrow> (bytes option \<times> frame_reader \<times> channel) option" where
  "frame_poll cap fr ch = do {
     (res, ch1, fr1) \<leftarrow> FrameReader_TryRecv cap (ch, fr);
     (case res of
        RecvErr _ \<Rightarrow> Some (None, fr1, ch1)
      | RecvOk payload payload_len \<Rightarrow> do {
          d \<leftarrow> payload_at ch1 fr1 payload payload_len;
          Some (Some d, fr1, ch1)
        })
   }"

text \<open>The two loops, in any order of their passes. The log has what the reader got.\<close>

record 'r transfer =
  tr_sent :: nat
  tr_writer :: channel
  tr_reader :: channel
  tr_state :: 'r
  tr_log :: "bytes list"

definition write_pass :: "(nat \<Rightarrow> nat \<Rightarrow> channel \<Rightarrow> (nat \<times> channel) option) \<Rightarrow> nat \<Rightarrow> 'r transfer \<Rightarrow> 'r transfer option" where
  "write_pass turn num t = do {
     (m, ch) \<leftarrow> turn (tr_sent t) (num - tr_sent t) (tr_writer t);
     Some (t\<lparr>tr_sent := tr_sent t + m, tr_writer := ch, tr_reader := (tr_reader t)\<lparr>ch_rd := ch_wr ch\<rparr>\<rparr>)
   }"

definition read_pass :: "('r \<Rightarrow> channel \<Rightarrow> (bytes option \<times> 'r \<times> channel) option) \<Rightarrow> nat \<Rightarrow> 'r transfer \<Rightarrow> 'r transfer option" where
  "read_pass poll num t =
     (if length (tr_log t) < num then do {
        (d, r, ch) \<leftarrow> poll (tr_state t) (tr_reader t);
        Some (t\<lparr>tr_log := tr_log t @ (case d of Some x \<Rightarrow> [x] | None \<Rightarrow> []), tr_state := r, tr_reader := ch,
                tr_writer := (tr_writer t)\<lparr>ch_wr := ch_rd ch\<rparr>\<rparr>)
      }
      else Some t)"

fun transfer_run :: "(nat \<Rightarrow> nat \<Rightarrow> channel \<Rightarrow> (nat \<times> channel) option) \<Rightarrow> ('r \<Rightarrow> channel \<Rightarrow> (bytes option \<times> 'r \<times> channel) option) \<Rightarrow>
    nat \<Rightarrow> bool list \<Rightarrow> 'r transfer \<Rightarrow> 'r transfer option" where
  "transfer_run turn poll num [] t = Some t"
| "transfer_run turn poll num (w # ws) t = do {
     t1 \<leftarrow> (if w then write_pass turn num t else read_pass poll num t);
     transfer_run turn poll num ws t1
   }"

definition transfer_start :: "channel \<Rightarrow> channel \<Rightarrow> 'r \<Rightarrow> 'r transfer" where
  "transfer_start c s r = \<lparr>tr_sent = 0, tr_writer = c, tr_reader = s, tr_state = r, tr_log = []\<rparr>"

definition in_turns :: "nat \<Rightarrow> bool list" where
  "in_turns n = concat (replicate n [True, False])"

text \<open>
  The reader serves one command after the other, sent over a control socket: how many messages to
  read, and their length, where in \<open>bench_codec\<close> 0 stands for frames. Each call of \<open>read\<close> and \<open>write\<close> is
  made once, and the writer ignores the results.
\<close>

definition ReadCmd_bytes :: "s32 \<Rightarrow> u32 \<Rightarrow> bytes" where
  "ReadCmd_bytes n msg_len = u32_bytes n @ u32_bytes msg_len"

definition sock_put :: "bytes \<Rightarrow> sock \<Rightarrow> sock" where
  "sock_put d s = (case sys_write (length d) s of (Bytes n, s1) \<Rightarrow> s1\<lparr>sk_out := sk_out s1 @ take n d\<rparr> | (_, s1) \<Rightarrow> s1)"

definition RequestRead :: "s32 \<Rightarrow> u32 \<Rightarrow> sock \<Rightarrow> sock" where
  "RequestRead n msg_len s = sock_put (ReadCmd_bytes n msg_len) s"

definition WaitReadDone :: "sock \<Rightarrow> sock" where
  "WaitReadDone s = (case sys_read 1 s of (Bytes n, s1) \<Rightarrow> s1\<lparr>sk_in := drop n (sk_in s1)\<rparr> | (_, s1) \<Rightarrow> s1)"

text \<open>The reader ends when it gets no complete command or one with no messages.\<close>

definition next_ReadCmd :: "sock \<Rightarrow> (s32 \<times> u32) option \<times> sock" where
  "next_ReadCmd s = (case sys_read 8 s of
     (Bytes n, s1) \<Rightarrow>
       let cmd = take n (sk_in s1); s2 = s1\<lparr>sk_in := drop n (sk_in s1)\<rparr> in
       if n \<noteq> 8 \<or> sint (bytes_u32 (take 4 cmd)) \<le> 0 then (None, s2)
       else (Some (bytes_u32 (take 4 cmd), bytes_u32 (drop 4 cmd)), s2)
   | (_, s1) \<Rightarrow> (None, s1))"

definition reader_ack :: "sock \<Rightarrow> sock" where
  "reader_ack s = sock_put [1] s"

text \<open>
  \<open>BenchOne\<close>: for each way of writing, warm-up and measurement, three times over. A phase starts when
  the reader has its command and ends with the acknowledgement; within it the two programs run
  in some order.
\<close>

datatype way = Single | Batch int

fun phase_turn :: "way \<Rightarrow> nat \<Rightarrow> bytes \<times> u32 \<Rightarrow> nat \<Rightarrow> nat \<Rightarrow> channel \<Rightarrow> (nat \<times> channel) option" where
  "phase_turn Single cap p = WriteSingle_turn cap p"
| "phase_turn (Batch b) cap p = WriteBatch_turn cap (p, b)"

definition BenchOne_phases :: "nat \<Rightarrow> int \<Rightarrow> (way \<times> nat) list" where
  "BenchOne_phases total_msgs batch_size =
     concat (replicate 3 [(Single, 5000), (Single, total_msgs)]) @
     concat (replicate 3 [(Batch batch_size, 5000), (Batch batch_size, total_msgs)])"

fun run_phases :: "nat \<Rightarrow> bytes \<times> u32 \<Rightarrow> ((way \<times> nat) \<times> bool list) list \<Rightarrow> channel \<Rightarrow> channel \<Rightarrow> bytes \<Rightarrow> (bytes list list \<times> channel \<times> channel) option" where
  "run_phases cap p [] c s buf = Some ([], c, s)"
| "run_phases cap p (((w, n), ts) # ps) c s buf = do {
     t \<leftarrow> transfer_run (phase_turn w cap p) (raw_poll cap (snd p)) n (ts @ in_turns n) (transfer_start c s buf);
     (logs, c', s') \<leftarrow> run_phases cap p ps (tr_writer t) (tr_reader t) (tr_state t);
     Some (tr_log t # logs, c', s')
   }"

definition kParams :: "((nat \<times> int) \<times> nat) list" where
  "kParams = concat (map (\<lambda>(msg_size, total_msgs). map (\<lambda>batch_size. ((msg_size, batch_size), total_msgs)) [10, 50, 100, 200])
     [(64, 500000), (256, 500000), (1024, 200000)])"

text \<open>
  The rounds in memory of \<open>bench_codec\<close>: encoding a tagged payload as a frame and finding it again,
  and the same for a \<open>ClientMsg\<close>.
\<close>

definition mem_payload :: "u32 \<Rightarrow> bytes" where
  "mem_payload payload_size = u32_bytes 0xBEEF @ replicate (unat payload_size) 80"

definition mem_frame_size :: "u32 \<Rightarrow> u32" where
  "mem_frame_size payload_size = kMsgHeaderSize + kTagSize + payload_size"

definition mem_encode :: "u32 \<Rightarrow> nat \<Rightarrow> bytes \<Rightarrow> (u32 \<times> bytes) option" where
  "mem_encode payload_size i buf =
     Encode (mem_payload payload_size) (kTagSize + payload_size) buf (mem_frame_size payload_size) (word_of_nat i)"

definition mem_decode :: "u32 \<Rightarrow> bytes \<Rightarrow> (nat \<times> u32 \<times> u32) option option" where
  "mem_decode payload_size buf = Decode buf (mem_frame_size payload_size)"

definition mem_pod :: "u32 \<Rightarrow> nat \<Rightarrow> bytes \<Rightarrow> bytes option option" where
  "mem_pod payload_size i pod_buf = do {
     msg \<leftarrow> ClientMsg_bytes (int i) 0 0 payload_size;
     (_, buf) \<leftarrow> PodCodec_EncodeTo ClientMsg_type msg pod_buf 4116 0;
     r \<leftarrow> Decode buf 4116;
     (off, out_len, _) \<leftarrow> r;
     PodCodec_DecodeFrom ClientMsg_type (drop (off + unat kTagSize) buf) (out_len - kTagSize)
   }"

section \<open>The interface of the two ends\<close>

text \<open>
  \<open>packet p i\<close> is what message \<open>i\<close> looks like in the ring, \<open>body p i\<close> what the reader hands on;
  \<open>unread\<close> is what the reader has still to see of the ring.
\<close>

locale bulk =
  fixes fit :: "nat \<Rightarrow> 'p \<Rightarrow> bool"
    and turn :: "nat \<Rightarrow> 'p \<Rightarrow> nat \<Rightarrow> nat \<Rightarrow> channel \<Rightarrow> (nat \<times> channel) option"
    and poll :: "nat \<Rightarrow> 'p \<Rightarrow> 'r \<Rightarrow> channel \<Rightarrow> (bytes option \<times> 'r \<times> channel) option"
    and packet :: "'p \<Rightarrow> nat \<Rightarrow> bytes"
    and body :: "'p \<Rightarrow> nat \<Rightarrow> bytes"
    and ready :: "nat \<Rightarrow> 'p \<Rightarrow> 'r \<Rightarrow> channel \<Rightarrow> bool"
    and left :: "'r \<Rightarrow> channel \<Rightarrow> bytes"
  assumes packet_ne: "fit cap p \<Longrightarrow> packet p i \<noteq> []"
    and turn_sends: "fit cap p \<Longrightarrow> ring_wf cap (ch_wr ch) \<Longrightarrow> \<exists>m ch'. turn cap p i k ch = Some (m, ch') \<and> m \<le> k \<and> ring_wf cap (ch_wr ch') \<and>
      contents (ch_wr ch') = contents (ch_wr ch) @ concat (map (packet p) [i..<i + m]) \<and>
      (m = 0 \<longrightarrow> k = 0 \<or> cap < used (ch_wr ch) + length (packet p i))"
    and ready_wf: "ready cap p r ch \<Longrightarrow> ring_wf cap (ch_rd ch)"
    and ready_more: "ready cap p r ch \<Longrightarrow> ring_wf cap rg \<Longrightarrow> contents rg = contents (ch_rd ch) @ xs \<Longrightarrow>
      ready cap p r (ch\<lparr>ch_rd := rg\<rparr>) \<and> left r (ch\<lparr>ch_rd := rg\<rparr>) = left r ch @ xs"
    and ready_room: "fit cap p \<Longrightarrow> ready cap p r ch \<Longrightarrow> left r ch = [] \<Longrightarrow> used (ch_rd ch) + length (packet p i) \<le> cap"
    and poll_next: "fit cap p \<Longrightarrow> ready cap p r ch \<Longrightarrow> left r ch = packet p i @ xs \<Longrightarrow>
      \<exists>r' ch'. poll cap p r ch = Some (Some (body p i), r', ch') \<and> ready cap p r' ch' \<and> left r' ch' = xs"
    and poll_none: "fit cap p \<Longrightarrow> ready cap p r ch \<Longrightarrow> left r ch = [] \<Longrightarrow>
      \<exists>r' ch'. poll cap p r ch = Some (None, r', ch') \<and> ready cap p r' ch' \<and> left r' ch' = []"
begin

definition at :: "nat \<Rightarrow> 'p \<Rightarrow> nat \<Rightarrow> 'r transfer \<Rightarrow> bool" where
  "at cap p num t \<longleftrightarrow> length (tr_log t) \<le> tr_sent t \<and> tr_sent t \<le> num \<and> tr_log t = map (body p) [0..<length (tr_log t)] \<and>
     ch_rd (tr_reader t) = ch_wr (tr_writer t) \<and> ready cap p (tr_state t) (tr_reader t) \<and>
     left (tr_state t) (tr_reader t) = concat (map (packet p) [length (tr_log t)..<tr_sent t])"

lemma write_pass_at:
  assumes "fit cap p" "at cap p num t"
  shows "\<exists>t'. write_pass (turn cap p) num t = Some t' \<and> at cap p num t' \<and> tr_log t' = tr_log t \<and>
     (length (tr_log t) < num \<longrightarrow> length (tr_log t) < tr_sent t')"
proof -
  note a = assms(2) [unfolded at_def]
  let ?i = "tr_sent t" and ?n = "length (tr_log t)"
  have wf: "ring_wf cap (ch_wr (tr_writer t))" using a ready_wf by metis
  obtain m ch where m: "turn cap p ?i (num - ?i) (tr_writer t) = Some (m, ch)" "m \<le> num - ?i" "ring_wf cap (ch_wr ch)"
    "contents (ch_wr ch) = contents (ch_rd (tr_reader t)) @ concat (map (packet p) [?i..<?i + m])"
    "m = 0 \<longrightarrow> num - ?i = 0 \<or> cap < used (ch_rd (tr_reader t)) + length (packet p ?i)"
    using turn_sends [OF assms(1) wf, of ?i "num - ?i"] a by auto
  let ?t = "t\<lparr>tr_sent := ?i + m, tr_writer := ch, tr_reader := (tr_reader t)\<lparr>ch_rd := ch_wr ch\<rparr>\<rparr>"
  have "[?n..<?i + m] = [?n..<?i] @ [?i..<?i + m]" using a upt_add_eq_append [of ?n ?i m] by simp
  moreover have "ready cap p (tr_state t) (tr_reader ?t) \<and> left (tr_state t) (tr_reader ?t) = left (tr_state t) (tr_reader t) @ concat (map (packet p) [?i..<?i + m])"
    using ready_more [of cap p "tr_state t" "tr_reader t", OF _ m(3,4)] a by simp
  moreover have "?i + m \<le> num" using m(2) a by auto
  ultimately have "at cap p num ?t" using a by (simp add: at_def)
  moreover have "?n < ?i + m" if "?n < num"
  proof (cases "?n < ?i")
    case False
    then have "left (tr_state t) (tr_reader t) = []" "?i = ?n" using a by auto
    then show ?thesis using ready_room [OF assms(1), of "tr_state t" "tr_reader t" ?i] a m(5) that by (cases m) auto
  qed simp
  ultimately show ?thesis using m(1) by (auto simp: write_pass_def)
qed

lemma read_pass_at:
  assumes "fit cap p" "at cap p num t"
  shows "\<exists>t'. read_pass (poll cap p) num t = Some t' \<and> at cap p num t' \<and> tr_sent t' = tr_sent t \<and>
     length (tr_log t') = (if length (tr_log t) < tr_sent t then Suc (length (tr_log t)) else length (tr_log t))"
proof -
  note a = assms(2) [unfolded at_def]
  let ?n = "length (tr_log t)"
  have rd: "ready cap p (tr_state t) (tr_reader t)" using a by simp
  show ?thesis
  proof (cases "?n < tr_sent t")
    case True
    then have "left (tr_state t) (tr_reader t) = packet p ?n @ concat (map (packet p) [Suc ?n..<tr_sent t])" using a by (simp add: upt_rec [of ?n])
    from poll_next [OF assms(1) rd this] obtain r ch where r: "poll cap p (tr_state t) (tr_reader t) = Some (Some (body p ?n), r, ch)"
      "ready cap p r ch" "left r ch = concat (map (packet p) [Suc ?n..<tr_sent t])" by blast
    let ?t = "t\<lparr>tr_log := tr_log t @ [body p ?n], tr_state := r, tr_reader := ch, tr_writer := (tr_writer t)\<lparr>ch_wr := ch_rd ch\<rparr>\<rparr>"
    have "read_pass (poll cap p) num t = Some ?t" using r(1) True a by (simp add: read_pass_def)
    moreover have "tr_log ?t = map (body p) [0..<length (tr_log ?t)]" using a by simp
    then have "at cap p num ?t" using r(2,3) True a by (simp add: at_def)
    ultimately show ?thesis using True by auto
  next
    case False
    then have "left (tr_state t) (tr_reader t) = []" using a by simp
    from poll_none [OF assms(1) rd this] obtain r ch where r: "poll cap p (tr_state t) (tr_reader t) = Some (None, r, ch)" "ready cap p r ch" "left r ch = []"
      by blast
    let ?t = "t\<lparr>tr_log := tr_log t @ [], tr_state := r, tr_reader := ch, tr_writer := (tr_writer t)\<lparr>ch_wr := ch_rd ch\<rparr>\<rparr>"
    have "read_pass (poll cap p) num t = Some (if ?n < num then ?t else t)" using r(1) by (simp add: read_pass_def)
    moreover have e: "tr_sent t = ?n" using False a by simp
    have "at cap p num ?t" using r(2,3) a by (simp add: at_def e)
    ultimately show ?thesis using False assms(2) by auto
  qed
qed

lemma run_at:
  "fit cap p \<Longrightarrow> at cap p num t \<Longrightarrow> \<exists>t'. transfer_run (turn cap p) (poll cap p) num ws t = Some t' \<and> at cap p num t'"
proof (induction ws arbitrary: t)
  case (Cons w ws)
  obtain t1 where "(if w then write_pass (turn cap p) num t else read_pass (poll cap p) num t) = Some t1" "at cap p num t1"
    using write_pass_at [OF Cons.prems] read_pass_at [OF Cons.prems] by (cases w) auto
  then show ?case using Cons.IH Cons.prems(1) by auto
qed auto

lemma run_in_turns:
  "fit cap p \<Longrightarrow> at cap p num t \<Longrightarrow> \<exists>t'. transfer_run (turn cap p) (poll cap p) num (in_turns n) t = Some t' \<and>
     at cap p num t' \<and> min num (length (tr_log t) + n) \<le> length (tr_log t')"
proof (induction n arbitrary: t)
  case (Suc n)
  obtain t1 where t1: "write_pass (turn cap p) num t = Some t1" "at cap p num t1" "tr_log t1 = tr_log t"
    "length (tr_log t) < num \<longrightarrow> length (tr_log t) < tr_sent t1" using write_pass_at [OF Suc.prems] by blast
  obtain t2 where t2: "read_pass (poll cap p) num t1 = Some t2" "at cap p num t2"
    "length (tr_log t2) = (if length (tr_log t1) < tr_sent t1 then Suc (length (tr_log t1)) else length (tr_log t1))"
    using read_pass_at [OF Suc.prems(1) t1(2)] by blast
  obtain t' where "transfer_run (turn cap p) (poll cap p) num (in_turns n) t2 = Some t'" "at cap p num t'"
    "min num (length (tr_log t2) + n) \<le> length (tr_log t')" using Suc.IH [OF Suc.prems(1) t2(2)] by blast
  then show ?case using t1 t2 by (auto simp: in_turns_def split: if_splits)
qed (auto simp: in_turns_def)

theorem transfer:
  assumes "fit cap p" "ready cap p r s" "left r s = []" "ch_rd s = ch_wr c"
  shows "\<exists>t t'. transfer_run (turn cap p) (poll cap p) num ws (transfer_start c s r) = Some t \<and>
     length (tr_log t) \<le> tr_sent t \<and> tr_sent t \<le> num \<and> tr_log t = map (body p) [0..<length (tr_log t)] \<and>
     transfer_run (turn cap p) (poll cap p) num (in_turns num) t = Some t' \<and>
     tr_sent t' = num \<and> tr_log t' = map (body p) [0..<num] \<and> ready cap p (tr_state t') (tr_reader t') \<and> left (tr_state t') (tr_reader t') = [] \<and>
     ch_rd (tr_reader t') = ch_wr (tr_writer t')"
proof -
  have "at cap p num (transfer_start c s r)" using assms(2-4) by (simp add: at_def transfer_start_def)
  from run_at [OF assms(1) this, of ws] obtain t where t: "transfer_run (turn cap p) (poll cap p) num ws (transfer_start c s r) = Some t" "at cap p num t"
    by blast
  obtain t' where t': "transfer_run (turn cap p) (poll cap p) num (in_turns num) t = Some t'" "at cap p num t'"
    "min num (length (tr_log t) + num) \<le> length (tr_log t')" using run_in_turns [OF assms(1) t(2)] by blast
  note a = t(2) [unfolded at_def] and a' = t'(2) [unfolded at_def]
  have l: "length (tr_log t') = num" "tr_sent t' = num" using t'(3) a' by auto
  moreover have "tr_log t' = map (body p) [0..<num]" using a' l(1) by auto
  ultimately show ?thesis using t(1) a t'(1) a' by (intro exI [of _ t] exI [of _ t']) simp
qed

end

section \<open>Raw messages\<close>

definition raw_fit :: "nat \<Rightarrow> bytes \<times> u32 \<Rightarrow> bool" where
  "raw_fit cap p \<longleftrightarrow> snd p \<noteq> 0 \<and> unat (snd p) \<le> max_write_size cap \<and> unat (snd p) \<le> length (fst p)"

definition raw_packet :: "bytes \<times> u32 \<Rightarrow> nat \<Rightarrow> bytes" where
  "raw_packet p i = take (unat (snd p)) (fst p)"

definition raw_ready :: "nat \<Rightarrow> bytes \<times> u32 \<Rightarrow> bytes \<Rightarrow> channel \<Rightarrow> bool" where
  "raw_ready cap p buf ch \<longleftrightarrow> ring_wf cap (ch_rd ch) \<and> unat (snd p) \<le> length buf"

definition raw_left :: "bytes \<Rightarrow> channel \<Rightarrow> bytes" where
  "raw_left buf ch = contents (ch_rd ch)"

lemma raw_packet_length: "raw_fit cap p \<Longrightarrow> length (raw_packet p i) = unat (snd p)" "raw_fit cap p \<Longrightarrow> raw_packet p i \<noteq> []"
  by (auto simp: raw_packet_def raw_fit_def unat_eq_zero)

lemma raw_room: "raw_fit cap p \<Longrightarrow> raw_ready cap p buf ch \<Longrightarrow> raw_left buf ch = [] \<Longrightarrow> used (ch_rd ch) + length (raw_packet p i) \<le> cap"
  using raw_packet_length(1) [of cap p i] by (auto simp: raw_fit_def raw_left_def max_write_size_def)

lemma raw_more:
  "raw_ready cap p buf ch \<Longrightarrow> ring_wf cap rg \<Longrightarrow> contents rg = contents (ch_rd ch) @ xs \<Longrightarrow>
     raw_ready cap p buf (ch\<lparr>ch_rd := rg\<rparr>) \<and> raw_left buf (ch\<lparr>ch_rd := rg\<rparr>) = raw_left buf ch @ xs"
  by (simp add: raw_ready_def raw_left_def)

lemma raw_poll_next:
  assumes "raw_fit cap p" "raw_ready cap p buf ch" "raw_left buf ch = raw_packet p i @ xs"
  shows "\<exists>buf' ch'. raw_poll cap (snd p) buf ch = Some (Some (raw_packet p i), buf', ch') \<and> raw_ready cap p buf' ch' \<and> raw_left buf' ch' = xs"
proof -
  note l = raw_packet_length(1) [OF assms(1), of i]
  have wf: "ring_wf cap (ch_rd ch)" "unat (snd p) \<le> length buf" using assms(2) by (simp_all add: raw_ready_def)
  have c: "contents (ch_rd ch) = raw_packet p i @ xs" using assms(3) by (simp add: raw_left_def)
  then have "used (ch_rd ch) = length (raw_packet p i @ xs)" by (metis length_contents)
  then have "unat (snd p) \<le> used (ch_rd ch)" using l by simp
  from RingBuf_ReadExact_contents [OF wf(1) this] obtain rg where
    "RingBuf_ReadExact cap (ch_rd ch) (snd p) = Some (0, raw_packet p i, rg)" "ring_wf cap rg" "contents rg = xs" using c l by auto
  then show ?thesis using wf(2) l by (simp add: raw_poll_def RingChannel_ReadExact_def mem_write_def raw_ready_def raw_left_def)
qed

lemma raw_poll_none:
  assumes "raw_fit cap p" "raw_ready cap p buf ch" "raw_left buf ch = []"
  shows "\<exists>buf' ch'. raw_poll cap (snd p) buf ch = Some (None, buf', ch') \<and> raw_ready cap p buf' ch' \<and> raw_left buf' ch' = []"
proof -
  have "used (ch_rd ch) < unat (snd p)"
    using assms(1) arg_cong [OF assms(3), of length] by (simp add: raw_left_def raw_fit_def unat_gt_0)
  then show ?thesis using assms(2,3) RingBuf_ReadExact_short [of "ch_rd ch" "snd p" cap] by (simp add: raw_poll_def RingChannel_ReadExact_def raw_ready_def raw_left_def)
qed

lemma upt_Suc_shift: "concat (map f [i..<i + Suc m]) = f i @ concat (map f [Suc i..<Suc i + m])"
  by (simp add: upt_conv_Cons del: upt_Suc)

lemma WriteSingle_sends:
  assumes "raw_fit cap p" "ring_wf cap (ch_wr ch)"
  shows "\<exists>m ch'. WriteSingle_turn cap p i k ch = Some (m, ch') \<and> m \<le> k \<and> ring_wf cap (ch_wr ch') \<and>
     contents (ch_wr ch') = contents (ch_wr ch) @ concat (map (raw_packet p) [i..<i + m]) \<and>
     (m = 0 \<longrightarrow> k = 0 \<or> cap < used (ch_wr ch) + length (raw_packet p i))"
proof (cases "k = 0 \<or> used (ch_wr ch) + unat (snd p) > cap")
  case True
  have "k \<noteq> 0 \<Longrightarrow> RingBuf_TryWrite cap (ch_wr ch) (Some (fst p)) (snd p) = Some (-1, ch_wr ch)"
    using True RingBuf_TryWrite_reject [OF assms(2)] by blast
  then show ?thesis using True assms(2) raw_packet_length(1) [OF assms(1), of i] by (auto simp: WriteSingle_turn_def RingChannel_TryWrite_def)
next
  case False
  then obtain rg where "RingBuf_TryWrite cap (ch_wr ch) (Some (fst p)) (snd p) = Some (0, rg)" "ring_wf cap rg"
    "contents rg = contents (ch_wr ch) @ take (unat (snd p)) (fst p)"
    using RingBuf_TryWrite_accept [OF assms(2), of "snd p" "fst p"] assms(1) by (auto simp: raw_fit_def)
  then show ?thesis
    using False by (intro exI [of _ 1] exI [of _ "ch\<lparr>ch_wr := rg\<rparr>"]) (simp add: WriteSingle_turn_def RingChannel_TryWrite_def raw_packet_def upt_rec)
qed

interpretation single: bulk raw_fit WriteSingle_turn "\<lambda>cap p. raw_poll cap (snd p)" raw_packet raw_packet raw_ready raw_left
  by unfold_locales
    (use raw_packet_length WriteSingle_sends raw_more raw_room raw_poll_next raw_poll_none in \<open>auto simp: raw_ready_def\<close>)

section \<open>Batches of raw messages\<close>

lemma batch_fill_appends:
  assumes "raw_fit cap p" "cbw_wf cap (ch, w)"
  shows "\<exists>m s'. batch_fill cap (fst p) (snd p) n (ch, w) = Some (m, s') \<and> m \<le> n \<and>
     cbw_appends cap (ch, w) (concat (map (raw_packet p) [i..<i + m])) s' \<and> (m = 0 \<longrightarrow> n = 0 \<or> cap < cb_used w + length (raw_packet p i))"
  using assms(2)
proof (induction n arbitrary: ch w i)
  case 0
  then show ?case by (simp add: cbw_appends_refl)
next
  case (Suc n)
  let ?rej = "cb_used w + unat (snd p) > cap"
  have c: "if ?rej then ChannelBatchWriter_TryWrite cap (ch, w) (Some (fst p)) (snd p) = Some (-1, ch, w)
    else \<exists>s'. ChannelBatchWriter_TryWrite cap (ch, w) (Some (fst p)) (snd p) = Some (0, s') \<and> cbw_appends cap (ch, w) (raw_packet p i) s'"
    using cbw_TryWrite_cases [OF Suc.prems, of "Some (fst p)" "snd p"] assms(1) by (auto simp: raw_fit_def raw_packet_def split: if_splits)
  show ?case
  proof (cases ?rej)
    case True
    then show ?thesis
      using c Suc.prems raw_packet_length(1) [OF assms(1), of i] by (auto simp: cbw_appends_refl)
  next
    case False
    then obtain ch1 w1 where s1: "ChannelBatchWriter_TryWrite cap (ch, w) (Some (fst p)) (snd p) = Some (0, ch1, w1)"
      "cbw_appends cap (ch, w) (raw_packet p i) (ch1, w1)" using c by auto
    obtain m s' where f: "batch_fill cap (fst p) (snd p) n (ch1, w1) = Some (m, s')" "m \<le> n"
      "cbw_appends cap (ch1, w1) (concat (map (raw_packet p) [Suc i..<Suc i + m])) s'" using Suc.IH [OF cbw_appends_wf [OF s1(2)], of "Suc i"] by blast
    have "cbw_appends cap (ch, w) (concat (map (raw_packet p) [i..<i + Suc m])) s'"
      unfolding upt_Suc_shift by (rule cbw_appends_trans [OF s1(2) f(3)])
    then show ?thesis using s1(1) f(1,2) by (intro exI [of _ "Suc m"] exI [of _ s']) simp
  qed
qed

lemma WriteBatch_sends:
  assumes "raw_fit cap (fst p)" "0 < snd p" "ring_wf cap (ch_wr ch)"
  shows "\<exists>m ch'. WriteBatch_turn cap p i k ch = Some (m, ch') \<and> m \<le> k \<and> ring_wf cap (ch_wr ch') \<and>
     contents (ch_wr ch') = contents (ch_wr ch) @ concat (map (raw_packet (fst p)) [i..<i + m]) \<and>
     (m = 0 \<longrightarrow> k = 0 \<or> cap < used (ch_wr ch) + length (raw_packet (fst p) i))"
proof (cases "k = 0")
  case False
  note sb = StartBatch_wf [OF assms(3)]
  have u: "cb_used (StartBatch ch) = used (ch_wr ch)" by (simp add: cb_used_def sb(3) used_def BatchWriter_new_def)
  obtain m ch1 w1 where f: "batch_fill cap (fst (fst p)) (snd (fst p)) (min (nat (snd p)) k) (ch, StartBatch ch) = Some (m, ch1, w1)"
    "m \<le> min (nat (snd p)) k" "cbw_appends cap (ch, StartBatch ch) (concat (map (raw_packet (fst p)) [i..<i + m])) (ch1, w1)"
    "m = 0 \<longrightarrow> min (nat (snd p)) k = 0 \<or> cap < used (ch_wr ch) + length (raw_packet (fst p) i)"
    using batch_fill_appends [OF assms(1) sb(1), of "min (nat (snd p)) k" i] u by (metis surj_pair)
  obtain n ch2 w2 where fl: "ChannelBatchWriter_Flush (ch1, w1) = (n, ch2, w2)" by (metis prod_cases3)
  note F = cbw_Flush [OF cbw_appends_wf [OF f(3)] fl]
  have "contents (ch_wr ch2) = contents (ch_wr ch) @ concat (map (raw_packet (fst p)) [i..<i + m])" using F(4) f(3) sb(2) by (simp add: cbw_appends_def)
  then show ?thesis
    using False f fl assms(2) cbw_wf_ring [OF F(2)] by (intro exI [of _ m] exI [of _ ch2]) (auto simp: WriteBatch_turn_def)
qed (use assms(3) in \<open>simp add: WriteBatch_turn_def\<close>)

interpretation batched: bulk "\<lambda>cap p. raw_fit cap (fst p) \<and> 0 < snd p" WriteBatch_turn "\<lambda>cap p. raw_poll cap (snd (fst p))"
  "\<lambda>p. raw_packet (fst p)" "\<lambda>p. raw_packet (fst p)" "\<lambda>cap p. raw_ready cap (fst p)" raw_left
  by unfold_locales
    (use raw_packet_length WriteBatch_sends raw_more raw_room raw_poll_next raw_poll_none in \<open>auto simp: raw_ready_def\<close>)

section \<open>Frames\<close>

definition frame_ready :: "nat \<Rightarrow> nat \<Rightarrow> frame_reader \<Rightarrow> channel \<Rightarrow> bool" where
  "frame_ready cap n fr ch \<longleftrightarrow> reader_wf cap (ch, fr) \<and> unat (fr_pending_commit fr) \<le> 8 + n \<and> n \<le> length (fr_buf fr)"

definition frame_left :: "frame_reader \<Rightarrow> channel \<Rightarrow> bytes" where
  "frame_left fr ch = unread (ch, fr)"

definition frame_fit :: "nat \<Rightarrow> nat \<Rightarrow> bool" where
  "frame_fit cap n \<longleftrightarrow> n \<le> max_write_size cap \<and> 2 * (8 + n) \<le> cap"

lemma frame_ready_wf: "frame_ready cap n fr ch \<Longrightarrow> ring_wf cap (ch_rd ch)"
  by (simp add: frame_ready_def reader_wf_def)

lemma frame_more:
  "frame_ready cap n fr ch \<Longrightarrow> ring_wf cap rg \<Longrightarrow> contents rg = contents (ch_rd ch) @ xs \<Longrightarrow>
     frame_ready cap n fr (ch\<lparr>ch_rd := rg\<rparr>) \<and> frame_left fr (ch\<lparr>ch_rd := rg\<rparr>) = frame_left fr ch @ xs"
  using reader_append [of cap ch fr rg xs] by (simp add: frame_ready_def frame_left_def)

lemma frame_room: "frame_fit cap n \<Longrightarrow> frame_ready cap n fr ch \<Longrightarrow> frame_left fr ch = [] \<Longrightarrow> used (ch_rd ch) + (8 + n) \<le> cap"
  by (auto simp: frame_fit_def frame_ready_def frame_left_def unread_def)

lemma frame_poll_next:
  assumes "frame_fit cap (length payload)" "frame_ready cap (length payload) fr ch" "frame_left fr ch = frame payload q @ xs"
  shows "\<exists>fr' ch'. frame_poll cap fr ch = Some (Some payload, fr', ch') \<and> frame_ready cap (length payload) fr' ch' \<and> frame_left fr' ch' = xs"
  using TryRecv_takes_frame [of cap ch fr payload q xs] assms by (auto simp: frame_poll_def frame_ready_def frame_left_def frame_fit_def)

lemma frame_poll_none:
  assumes "frame_ready cap n fr ch" "frame_left fr ch = []"
  shows "\<exists>fr' ch'. frame_poll cap fr ch = Some (None, fr', ch') \<and> frame_ready cap n fr' ch' \<and> frame_left fr' ch' = []"
  using TryRecv_empty [of cap ch fr] assms by (auto simp: frame_poll_def frame_ready_def frame_left_def)

text \<open>
  \<open>bench_codec\<close> does not commit the last frame when it goes back to raw messages, so that the next
  raw read returns bytes of that frame.
\<close>

lemma raw_read_of_kept_frame:
  assumes "frame_fit cap (length payload)" "frame_ready cap (length payload) fr ch" "frame_left fr ch = frame payload q"
    "unat msg_len \<le> 8 + length payload" "unat msg_len \<le> length buf"
  shows "\<exists>fr' ch' buf' ch''. frame_poll cap fr ch = Some (Some payload, fr', ch') \<and> frame_left fr' ch' = [] \<and>
     raw_poll cap msg_len buf ch' = Some (Some (take (unat msg_len) (frame payload q)), buf', ch'')"
proof -
  obtain ptr ch' fr' where t: "FrameReader_TryRecv cap (ch, fr) = Some (RecvOk ptr (word_of_nat (length payload)), ch', fr')"
    "payload_at ch' fr' ptr (word_of_nat (length payload)) = Some payload" "reader_wf cap (ch', fr')" "unread (ch', fr') = []" "contents (ch_rd ch') = frame payload q"
    using TryRecv_takes_frame [of cap ch fr payload q "[]"] assms(1-3) by (auto simp: frame_ready_def frame_left_def frame_fit_def)
  have "used (ch_rd ch') = length (frame payload q)" using t(5) by (metis length_contents)
  then have "unat msg_len \<le> used (ch_rd ch')" using assms(4) by simp
  then obtain rg where "RingBuf_ReadExact cap (ch_rd ch') msg_len = Some (0, take (unat msg_len) (frame payload q), rg)"
    using RingBuf_ReadExact_contents [of cap "ch_rd ch'" msg_len] t(3,5) by (auto simp: reader_wf_def)
  then show ?thesis using t assms(5) by (simp add: frame_poll_def frame_left_def raw_poll_def RingChannel_ReadExact_def mem_write_def)
qed

lemma length_frame_plus: "length (frame payload q) = 8 + length payload" "frame payload q \<noteq> []"
  by (auto simp: frame_def)

lemma Send_turn_sends:
  assumes "frame_fit cap (length payload)" "ring_wf cap (ch_wr ch)"
  shows "\<exists>m ch'. Send_turn cap payload i k ch = Some (m, ch') \<and> m \<le> k \<and> ring_wf cap (ch_wr ch') \<and>
     contents (ch_wr ch') = contents (ch_wr ch) @ concat (map (\<lambda>j. frame payload (word_of_nat j)) [i..<i + m]) \<and>
     (m = 0 \<longrightarrow> k = 0 \<or> cap < used (ch_wr ch) + length (frame payload (word_of_nat i)))"
proof (cases "k = 0")
  case False
  have "length payload + 8 < 4294967296" using assms ring_wfD [OF assms(2)] by (simp add: frame_fit_def)
  from Send_cases [OF assms(2) this, of "word_of_nat i"] obtain ch' where
    "Send cap ch (Some payload) (word_of_nat (length payload)) (word_of_nat i) = Some (if used (ch_wr ch) + 8 + length payload \<le> cap then Ret 0 else Ret (-1), ch')"
    "ring_wf cap (ch_wr ch')"
    "if used (ch_wr ch) + 8 + length payload \<le> cap then contents (ch_wr ch') = contents (ch_wr ch) @ frame payload (word_of_nat i) else ch' = ch"
    using assms(1) by (auto simp: frame_fit_def split: if_splits)
  then show ?thesis
    using False by (intro exI [of _ "if used (ch_wr ch) + 8 + length payload \<le> cap then 1 else 0"] exI [of _ ch'])
      (auto simp: Send_turn_def length_frame_plus split: if_splits)
qed (use assms(2) in \<open>simp add: Send_turn_def\<close>)

interpretation framed: bulk "\<lambda>cap payload. frame_fit cap (length payload)" Send_turn "\<lambda>cap payload. frame_poll cap"
  "\<lambda>payload i. frame payload (word_of_nat i)" "\<lambda>payload i. payload" "\<lambda>cap payload. frame_ready cap (length payload)" frame_left
  by unfold_locales
    (use length_frame_plus Send_turn_sends frame_more frame_room frame_poll_next frame_poll_none frame_ready_wf in \<open>auto simp: add.assoc\<close>)

text \<open>The object that the POD benchmark sends.\<close>

definition bench_msg :: "u32 \<Rightarrow> nat \<Rightarrow> bytes" where
  "bench_msg payload_size i = the (ClientMsg_bytes (int i) 0 0 payload_size)"

abbreviation "pod_body payload_size i \<equiv> Pod_enc ClientMsg_type (bench_msg payload_size i)"

lemma bench_msg_ok:
  assumes "unat payload_size \<le> 4080"
  shows "ClientMsg_bytes (int i) 0 0 payload_size = Some (bench_msg payload_size i)" "Pod_valid ClientMsg_type (bench_msg payload_size i)"
    "length (pod_body payload_size i) = 4108"
proof -
  obtain d where d: "ClientMsg_bytes (int i) 0 0 payload_size = Some d" using assms by (simp add: ClientMsg_bytes_def)
  then show "ClientMsg_bytes (int i) 0 0 payload_size = Some (bench_msg payload_size i)" by (simp add: bench_msg_def)
  show "Pod_valid ClientMsg_type (bench_msg payload_size i)" "length (pod_body payload_size i) = 4108"
    using length_ClientMsg_bytes [OF d] d by (simp_all add: bench_msg_def Pod_valid_def ClientMsg_type_def Pod_enc_def)
qed

definition pod_fit :: "nat \<Rightarrow> u32 \<Rightarrow> bool" where
  "pod_fit cap payload_size \<longleftrightarrow> unat payload_size \<le> 4080 \<and> frame_fit cap 4108"

lemma SendPod_turn_sends:
  assumes "pod_fit cap n" "ring_wf cap (ch_wr ch)"
  shows "\<exists>m ch'. SendPod_turn cap n i k ch = Some (m, ch') \<and> m \<le> k \<and> ring_wf cap (ch_wr ch') \<and>
     contents (ch_wr ch') = contents (ch_wr ch) @ concat (map (\<lambda>j. frame (pod_body n j) (word_of_nat j)) [i..<i + m]) \<and>
     (m = 0 \<longrightarrow> k = 0 \<or> cap < used (ch_wr ch) + length (frame (pod_body n i) (word_of_nat i)))"
proof (cases "k = 0")
  case False
  have u: "unat n \<le> 4080" and mx: "pt_size ClientMsg_type \<le> max_write_size cap" and sz: "pt_size ClientMsg_type = 4104"
    using assms(1) by (simp_all add: pod_fit_def frame_fit_def ClientMsg_type_def)
  note b = bench_msg_ok [OF u, of i]
  from PodCodec_Send_cases [OF assms(2) b(2) mx, of "word_of_nat i"] obtain ch' where
    "PodCodec_Send cap ClientMsg_type ch (bench_msg n i) (word_of_nat i) = Some (if used (ch_wr ch) + 4116 \<le> cap then Ret 0 else Ret (-1), ch')"
    "ring_wf cap (ch_wr ch')"
    "if used (ch_wr ch) + 4116 \<le> cap then contents (ch_wr ch') = contents (ch_wr ch) @ frame (pod_body n i) (word_of_nat i) else ch' = ch"
    by (auto simp: sz split: if_splits)
  then show ?thesis
    using False b(1,3) by (intro exI [of _ "if used (ch_wr ch) + 4116 \<le> cap then 1 else 0"] exI [of _ ch'])
      (auto simp: SendPod_turn_def length_frame_plus split: if_splits)
qed (use assms(2) in \<open>simp add: SendPod_turn_def\<close>)

interpretation pods: bulk pod_fit SendPod_turn "\<lambda>cap n. frame_poll cap"
  "\<lambda>n i. frame (pod_body n i) (word_of_nat i)" pod_body "\<lambda>cap n. frame_ready cap 4108" frame_left
proof unfold_locales
  fix cap n i fr ch xs
  assume a: "pod_fit cap n" "frame_ready cap 4108 fr ch"
  have l: "length (pod_body n i) = 4108" "frame_fit cap 4108" using a(1) bench_msg_ok(3) by (simp_all add: pod_fit_def)
  show "\<exists>r' ch'. frame_poll cap fr ch = Some (Some (pod_body n i), r', ch') \<and> frame_ready cap 4108 r' ch' \<and> frame_left r' ch' = xs"
    if "frame_left fr ch = frame (pod_body n i) (word_of_nat i) @ xs"
    using frame_poll_next [of cap "pod_body n i" fr ch "word_of_nat i" xs] a(2) l that by simp
  show "used (ch_rd ch) + length (frame (pod_body n i) (word_of_nat i)) \<le> cap" if "frame_left fr ch = []"
    using frame_room [OF l(2) a(2) that] l(1) by (simp add: length_frame_plus)
qed (use length_frame_plus SendPod_turn_sends frame_more frame_poll_none frame_ready_wf in auto)

section \<open>The phases of a benchmark\<close>

lemma transfer_run_append: "transfer_run turn poll num (ws @ vs) t = Option.bind (transfer_run turn poll num ws t) (transfer_run turn poll num vs)"
  by (induction ws arbitrary: t) (simp_all split: Option.bind_split)

lemma raw_log: "map (raw_packet p) [0..<n] = replicate n (take (unat (snd p)) (fst p))"
  by (intro replicate_eqI) (auto simp: raw_packet_def)

fun way_ok :: "way \<Rightarrow> bool" where
  "way_ok Single = True"
| "way_ok (Batch b) = (0 < b)"

lemma phase_transfer:
  assumes "raw_fit cap p" "way_ok w" "raw_ready cap p buf s" "raw_left buf s = []" "ch_rd s = ch_wr c"
  shows "\<exists>t. transfer_run (phase_turn w cap p) (raw_poll cap (snd p)) n (ts @ in_turns n) (transfer_start c s buf) = Some t \<and>
     tr_log t = replicate n (take (unat (snd p)) (fst p)) \<and> raw_ready cap p (tr_state t) (tr_reader t) \<and>
     raw_left (tr_state t) (tr_reader t) = [] \<and> ch_rd (tr_reader t) = ch_wr (tr_writer t)"
proof (cases w)
  case Single
  then show ?thesis using single.transfer [OF assms(1,3-5), of n ts] by (auto simp: transfer_run_append raw_log)
next
  case (Batch b)
  then show ?thesis using batched.transfer [of cap "(p, b)" buf s c n ts] assms by (auto simp: transfer_run_append raw_log)
qed

lemma run_phases_logs:
  "\<lbrakk>raw_fit cap p; \<forall>x \<in> set ps. way_ok (fst (fst x)); raw_ready cap p buf s; raw_left buf s = []; ch_rd s = ch_wr c\<rbrakk> \<Longrightarrow>
     \<exists>c' s'. run_phases cap p ps c s buf = Some (map (\<lambda>x. replicate (snd (fst x)) (take (unat (snd p)) (fst p))) ps, c', s') \<and> used (ch_rd s') = 0"
proof (induction ps arbitrary: c s buf)
  case Nil
  then have "used (ch_rd s) = 0" using length_contents [of "ch_rd s"] by (simp add: raw_left_def)
  then show ?case by simp
next
  case (Cons x ps)
  obtain w n ts where x: "x = ((w, n), ts)" by (metis surj_pair)
  obtain t where "transfer_run (phase_turn w cap p) (raw_poll cap (snd p)) n (ts @ in_turns n) (transfer_start c s buf) = Some t"
    "tr_log t = replicate n (take (unat (snd p)) (fst p))" "raw_ready cap p (tr_state t) (tr_reader t)"
    "raw_left (tr_state t) (tr_reader t) = []" "ch_rd (tr_reader t) = ch_wr (tr_writer t)"
    using phase_transfer [OF Cons.prems(1) _ Cons.prems(3-5), of w n ts] Cons.prems(2) x by auto
  then show ?case using Cons.IH [of "tr_state t" "tr_reader t" "tr_writer t"] Cons.prems(1,2) x by auto
qed

lemma kParams_fit:
  "list_all (\<lambda>((msg_size, batch_size), total_msgs). raw_fit (8 * 1024 * 1024) (replicate (max_write_size (8 * 1024 * 1024)) 66, word_of_nat msg_size) \<and>
     list_all (\<lambda>x. way_ok (fst x)) (BenchOne_phases total_msgs batch_size)) kParams"
  by (simp add: kParams_def raw_fit_def max_write_size_def BenchOne_phases_def numeral_3_eq_3)

lemma sock_put_all: "sk_wr s = [] \<Longrightarrow> sock_put d s = s\<lparr>sk_out := sk_out s @ d\<rparr>"
  by (cases s) (simp add: sock_put_def sys_write_def)

lemma RequestRead_next:
  assumes "sk_wr a = []" "sk_rd b = []" "sk_in b = drop (length (sk_out a)) (sk_out (RequestRead n msg_len a)) @ rest" "0 < sint n"
  shows "next_ReadCmd b = (Some (n, msg_len), b\<lparr>sk_in := rest\<rparr>)"
proof -
  have "sk_in b = u32_bytes n @ u32_bytes msg_len @ rest" using assms(1,3) by (simp add: RequestRead_def sock_put_all ReadCmd_bytes_def)
  then show ?thesis using assms(2,4) by (cases b) (simp add: next_ReadCmd_def sys_read_def)
qed

lemma quit_ends_reader: "sk_rd b = [] \<Longrightarrow> sk_in b = ReadCmd_bytes 0 0 @ rest \<Longrightarrow> fst (next_ReadCmd b) = None"
  by (simp add: next_ReadCmd_def sys_read_def ReadCmd_bytes_def)

lemma ack_awaited:
  "sk_wr b = [] \<Longrightarrow> sk_rd a = [] \<Longrightarrow> sk_in a = drop (length (sk_out b)) (sk_out (reader_ack b)) @ rest \<Longrightarrow> WaitReadDone a = a\<lparr>sk_in := rest\<rparr>"
  by (cases a) (simp add: WaitReadDone_def sys_read_def reader_ack_def sock_put_all)

text \<open>An interrupted wait is not repeated: the writer goes on before the reader is done.\<close>

lemma WaitReadDone_interrupted: "sk_rd a = Eintr # xs \<Longrightarrow> WaitReadDone a = a\<lparr>sk_rd := xs\<rparr>"
  by (simp add: WaitReadDone_def sys_read_def)

section \<open>The rounds in memory\<close>

lemma mem_roundtrip:
  assumes "unat n \<le> 65536" "12 + unat n \<le> length buf"
  shows "\<exists>buf'. mem_encode n i buf = Some (mem_frame_size n, buf') \<and> mem_decode n buf' = Some (Some (8, kTagSize + n, word_of_nat i)) \<and>
     take (4 + unat n) (drop 8 buf') = mem_payload n \<and> length buf' = length buf"
proof -
  have u: "unat (kTagSize + n) = 4 + unat n" "unat (mem_frame_size n) = 12 + unat n"
    using assms(1) by (simp_all add: kTagSize_def mem_frame_size_def kMsgHeaderSize_def unat_word_ariths)
  have l: "length (mem_payload n) = 4 + unat n" by (simp add: mem_payload_def)
  have w: "word_of_nat (length (mem_payload n)) = kTagSize + n" unfolding l by (simp add: kTagSize_def)
  let ?b = "frame (mem_payload n) (word_of_nat i) @ drop (12 + unat n) buf"
  have "mem_encode n i buf = Some (kMsgHeaderSize + (kTagSize + n), ?b)"
    using Encode_frame [of "kTagSize + n" "mem_frame_size n" buf "mem_payload n" "word_of_nat i"] u l assms(2) by (simp add: mem_encode_def)
  moreover have "mem_decode n ?b = Some (Some (8, kTagSize + n, word_of_nat i))"
    using Decode_frame [of "mem_payload n" "mem_frame_size n" "word_of_nat i"] u l w assms(2) by (simp add: mem_decode_def)
  moreover have "take (4 + unat n) (drop 8 ?b) = mem_payload n" using l by (simp add: frame_def)
  ultimately show ?thesis using l assms(2) by (intro exI [of _ ?b]) (simp add: mem_frame_size_def)
qed

lemma mem_pod_roundtrip:
  assumes "unat n \<le> 4080" "length pod_buf = 4116"
  shows "mem_pod n i pod_buf = Some (Some (bench_msg n i))"
proof -
  note b = bench_msg_ok [OF assms(1), of i]
  have sz: "pt_size ClientMsg_type = 4104" by (simp add: ClientMsg_type_def)
  have l: "length (bench_msg n i) = 4104" using b(2) by (simp add: Pod_valid_def sz)
  have e: "PodCodec_EncodeTo ClientMsg_type (bench_msg n i) pod_buf 4116 0 = Some (kMsgHeaderSize + (4 + word_of_nat 4104), frame (pod_body n i) 0)"
    using PodCodec_EncodeTo_frame [OF b(2), of 4116 pod_buf 0] assms(2) by (simp add: sz)
  have "Decode (frame (pod_body n i) 0) 4116 = Some (Some (8, 4108, 0))" using Decode_frame [of "pod_body n i" 4116 0 "[]"] b(3) by simp
  moreover have "drop 12 (frame (pod_body n i) 0) = bench_msg n i" by (simp add: frame_def Pod_enc_def)
  ultimately show ?thesis using b(1) e l by (simp add: mem_pod_def kTagSize_def PodCodec_DecodeFrom_def sz mem_read_def)
qed

section \<open>Properties\<close>

text \<open>
  The two ways of writing that \<open>bench_batch\<close> compares do the same. Whatever the order in which
  writer and reader get to run, once they have run in turns as often as there are messages,
  the reader has got the same messages from \<open>WriteBatch\<close>, with any positive batch size, as from
  \<open>WriteSingle\<close>: as many copies of the buffer as the benchmark asks for. The ring is empty again.
\<close>

theorem WriteBatch_eq_WriteSingle:
  assumes "raw_fit cap (buf, msg_len)" "0 < batch_size" "ring_wf cap (ch_wr c)" "used (ch_wr c) = 0" "ch_rd s = ch_wr c" "unat msg_len \<le> length rbuf"
  shows "\<exists>t u. transfer_run (WriteSingle_turn cap (buf, msg_len)) (raw_poll cap msg_len) num (ws @ in_turns num) (transfer_start c s rbuf) = Some t \<and>
     transfer_run (WriteBatch_turn cap ((buf, msg_len), batch_size)) (raw_poll cap msg_len) num (vs @ in_turns num) (transfer_start c s rbuf) = Some u \<and>
     tr_log t = replicate num (take (unat msg_len) buf) \<and> tr_log u = tr_log t \<and>
     used (ch_rd (tr_reader t)) = 0 \<and> used (ch_rd (tr_reader u)) = 0"
proof -
  have r: "raw_ready cap (buf, msg_len) rbuf s" "raw_left rbuf s = []" using assms(3-6) by (simp_all add: raw_ready_def raw_left_def)
  have b: "map (raw_packet (buf, msg_len)) [0..<num] = replicate num (take (unat msg_len) buf)"
    by (simp add: raw_log)
  obtain t where "transfer_run (WriteSingle_turn cap (buf, msg_len)) (raw_poll cap msg_len) num (ws @ in_turns num) (transfer_start c s rbuf) = Some t"
    "tr_log t = replicate num (take (unat msg_len) buf)" "raw_left (tr_state t) (tr_reader t) = []"
    using single.transfer [OF assms(1) r assms(5), of num ws] b by (auto simp: transfer_run_append)
  moreover obtain u where
    "transfer_run (WriteBatch_turn cap ((buf, msg_len), batch_size)) (raw_poll cap msg_len) num (vs @ in_turns num) (transfer_start c s rbuf) = Some u"
    "tr_log u = replicate num (take (unat msg_len) buf)" "raw_left (tr_state u) (tr_reader u) = []"
    using batched.transfer [of cap "((buf, msg_len), batch_size)" rbuf s c num vs] assms(1,2,5) r b by (auto simp: transfer_run_append)
  ultimately show ?thesis using length_contents [of "ch_rd (tr_reader t)"] length_contents [of "ch_rd (tr_reader u)"]
    by (intro exI [of _ t] exI [of _ u]) (simp add: raw_left_def)
qed

theorem WriteBatch_eq_WriteSingle_witness:
  "\<exists>t u. transfer_run (WriteSingle_turn (8 * 1024 * 1024) (replicate 64 66, 64)) (raw_poll (8 * 1024 * 1024) 64) 500 ([True, True] @ in_turns 500)
       (transfer_start bench_channel bench_channel (replicate 64 0)) = Some t \<and>
     transfer_run (WriteBatch_turn (8 * 1024 * 1024) ((replicate 64 66, 64), 10)) (raw_poll (8 * 1024 * 1024) 64) 500 ([False, True] @ in_turns 500)
       (transfer_start bench_channel bench_channel (replicate 64 0)) = Some u \<and> tr_log u = tr_log t"
proof -
  have "raw_fit (8 * 1024 * 1024) (replicate 64 66, 64)" by (simp add: raw_fit_def max_write_size_def)
  from WriteBatch_eq_WriteSingle [OF this _ bench_channel_ok, of 10 "replicate 64 0" 500 "[True, True]" "[False, True]"]
  show ?thesis by auto
qed

text \<open>
  The frame benchmark with POD messages: whatever the order in which writer and reader get to
  run, the reader has at every moment got the messages with the numbers 0, 1, 2 and so on, each
  once and complete; and once the two have run in turns as often as there are messages, it has
  got all of them. The reader keeps the last frame in the ring, so that two frames have to fit.
\<close>

theorem SendPod_transfer:
  assumes "unat n \<le> 4080" "frame_fit cap 4108" "ring_wf cap (ch_wr c)" "used (ch_wr c) = 0" "ch_rd s = ch_wr c"
    and "fr_pending_commit fr = 0" "4108 \<le> length (fr_buf fr)"
  shows "\<exists>t u. transfer_run (SendPod_turn cap n) (frame_poll cap) num ws (transfer_start c s fr) = Some t \<and> length (tr_log t) \<le> num \<and>
     tr_log t = map (\<lambda>i. Pod_enc ClientMsg_type (the (ClientMsg_bytes (int i) 0 0 n))) [0..<length (tr_log t)] \<and>
     transfer_run (SendPod_turn cap n) (frame_poll cap) num (in_turns num) t = Some u \<and> tr_sent u = num \<and>
     tr_log u = map (\<lambda>i. Pod_enc ClientMsg_type (the (ClientMsg_bytes (int i) 0 0 n))) [0..<num]"
proof -
  have "contents (ch_rd s) = []" using assms(4,5) by simp
  then have "pod_fit cap n" "frame_ready cap 4108 fr s" "frame_left fr s = []"
    using assms by (simp_all add: pod_fit_def frame_ready_def frame_left_def reader_wf_def unread_def)
  from pods.transfer [OF this assms(5), of num ws] show ?thesis unfolding bench_msg_def by fastforce
qed

theorem SendPod_transfer_witness:
  "\<exists>t. transfer_run (SendPod_turn (8 * 1024 * 1024) 64) (frame_poll (8 * 1024 * 1024)) 500 [True, False, False]
     (transfer_start bench_channel bench_channel (FrameReader_new 65536)) = Some t \<and> length (tr_log t) \<le> 500"
proof -
  have "frame_fit (8 * 1024 * 1024) 4108" "unat (64 :: u32) \<le> 4080" by (simp_all add: frame_fit_def max_write_size_def)
  moreover have "fr_pending_commit (FrameReader_new 65536) = 0" "4108 \<le> length (fr_buf (FrameReader_new 65536))"
    by (simp_all add: FrameReader_new_def)
  ultimately show ?thesis using SendPod_transfer [OF _ _ bench_channel_ok, of 64 "FrameReader_new 65536" 500 "[True, False, False]"] by auto
qed

end
