(* ===== verification/Echo_Bench.thy ===== *)
theory Echo_Bench
  imports Bulk_Transfer
begin

text \<open>
  The ping-pong benchmarks: \<open>bench/bench_shm.cpp\<close> over two rings, \<open>bench/bench_socket.cpp\<close> over a socket
  pair. The client sends a message and waits for its echo, again and again; the server
  sends back what it reads. Over the rings both spin, and the client does not look at the result
  of its \<open>TryWrite\<close>: that it cannot fail there is what has to be shown. Time measurement is left out.
\<close>

section \<open>The programs over rings\<close>

text \<open>Message sizes with their rounds, and the lengths that the nested loops go through.\<close>

definition kTests :: "(nat \<times> nat) list" where
  "kTests = [(64, 100000), (256, 100000), (1024, 50000), (4096, 50000), (65536, 10000), (524288, 5000)]"

definition kWarmup :: nat where "kWarmup = 1000"

definition echo_lengths :: "(nat \<times> nat) list \<Rightarrow> u32 list" where
  "echo_lengths tests = concat (map (\<lambda>(msg_size, rounds). replicate (kWarmup + rounds) (word_of_nat msg_size)) tests)"

text \<open>
  A program is the rounds it has to go and where it is in the first of them. The client's log has
  the results of its calls of \<open>TryWrite\<close>, which the program ignores, and the echoes it received.
\<close>

record echo =
  ec_client :: channel
  ec_todo :: "u32 list"
  ec_waiting :: bool
  ec_send_buf :: bytes
  ec_recv_buf :: bytes
  ec_results :: "int list"
  ec_echoes :: "bytes list"
  es_server :: channel
  es_todo :: "u32 list"
  es_replying :: bool
  es_buf :: bytes

definition echo_client_turn :: "nat \<Rightarrow> echo \<Rightarrow> echo option" where
  "echo_client_turn cap e = (case ec_todo e of
     [] \<Rightarrow> Some e
   | msg_len # rest \<Rightarrow>
       if \<not> ec_waiting e then do {
         (rc, ch) \<leftarrow> RingChannel_TryWrite cap (ec_client e) (Some (ec_send_buf e)) msg_len;
         Some (e\<lparr>ec_waiting := True, ec_results := ec_results e @ [rc], ec_client := ch, es_server := (es_server e)\<lparr>ch_rd := ch_wr ch\<rparr>\<rparr>)
       }
       else do {
         (rc, d, ch) \<leftarrow> RingChannel_ReadExact cap (ec_client e) msg_len;
         if rc \<noteq> 0 then Some e
         else do {
           buf \<leftarrow> mem_write (ec_recv_buf e) 0 d;
           Some (e\<lparr>ec_todo := rest, ec_waiting := False, ec_recv_buf := buf, ec_echoes := ec_echoes e @ [d], ec_client := ch,
                   es_server := (es_server e)\<lparr>ch_wr := ch_rd ch\<rparr>\<rparr>)
         }
       })"

definition echo_server_turn :: "nat \<Rightarrow> echo \<Rightarrow> echo option" where
  "echo_server_turn cap e = (case es_todo e of
     [] \<Rightarrow> Some e
   | msg_len # rest \<Rightarrow>
       if \<not> es_replying e then do {
         (rc, d, ch) \<leftarrow> RingChannel_ReadExact cap (es_server e) msg_len;
         if rc \<noteq> 0 then Some e
         else do {
           buf \<leftarrow> mem_write (es_buf e) 0 d;
           Some (e\<lparr>es_replying := True, es_buf := buf, es_server := ch, ec_client := (ec_client e)\<lparr>ch_wr := ch_rd ch\<rparr>\<rparr>)
         }
       }
       else do {
         (rc, ch) \<leftarrow> RingChannel_TryWrite cap (es_server e) (Some (es_buf e)) msg_len;
         if rc \<noteq> 0 then Some e
         else Some (e\<lparr>es_todo := rest, es_replying := False, es_server := ch, ec_client := (ec_client e)\<lparr>ch_rd := ch_wr ch\<rparr>\<rparr>)
       })"

fun echo_run :: "nat \<Rightarrow> bool list \<Rightarrow> echo \<Rightarrow> echo option" where
  "echo_run cap [] e = Some e"
| "echo_run cap (t # ts) e = do {
     e1 \<leftarrow> (if t then echo_client_turn cap e else echo_server_turn cap e);
     echo_run cap ts e1
   }"

text \<open>Buffers of \<open>max_write_size\<close> bytes, the client's filled with the letter B.\<close>

definition echo_start :: "nat \<Rightarrow> u32 list \<Rightarrow> channel \<Rightarrow> channel \<Rightarrow> echo" where
  "echo_start cap lens c s = \<lparr>ec_client = c, ec_todo = lens, ec_waiting = False, ec_send_buf = replicate (max_write_size cap) 66,
     ec_recv_buf = replicate (max_write_size cap) 0, ec_results = [], ec_echoes = [],
     es_server = s, es_todo = lens, es_replying = False, es_buf = replicate (max_write_size cap) 0\<rparr>"

section \<open>The rounds\<close>

definition lengths_ok :: "nat \<Rightarrow> u32 list \<Rightarrow> bool" where
  "lengths_ok cap lens \<longleftrightarrow> (\<forall>n \<in> set lens. n \<noteq> 0 \<and> unat n \<le> max_write_size cap)"

lemma kTests_ok: "lengths_ok (8 * 1024 * 1024) (echo_lengths kTests)"
  by (auto simp: lengths_ok_def echo_lengths_def kTests_def max_write_size_def)

abbreviation "echo_msg n \<equiv> replicate (unat n) (66 :: u8)"

text \<open>Where the current round is.\<close>

datatype phase = Idle | Sent | Got | Replied

fun phase_no :: "phase \<Rightarrow> nat" where
  "phase_no Idle = 0"
| "phase_no Sent = 1"
| "phase_no Got = 2"
| "phase_no Replied = 3"

fun in_phase :: "phase \<Rightarrow> echo \<Rightarrow> bool" where
  "in_phase Idle e \<longleftrightarrow> \<not> ec_waiting e \<and> \<not> es_replying e \<and> es_todo e = ec_todo e \<and>
     contents (ch_wr (ec_client e)) = [] \<and> contents (ch_wr (es_server e)) = []"
| "in_phase Sent e \<longleftrightarrow> ec_waiting e \<and> \<not> es_replying e \<and> es_todo e = ec_todo e \<and> ec_todo e \<noteq> [] \<and>
     contents (ch_wr (ec_client e)) = echo_msg (hd (ec_todo e)) \<and> contents (ch_wr (es_server e)) = []"
| "in_phase Got e \<longleftrightarrow> ec_waiting e \<and> es_replying e \<and> es_todo e = ec_todo e \<and> ec_todo e \<noteq> [] \<and>
     contents (ch_wr (ec_client e)) = [] \<and> contents (ch_wr (es_server e)) = [] \<and> take (unat (hd (ec_todo e))) (es_buf e) = echo_msg (hd (ec_todo e))"
| "in_phase Replied e \<longleftrightarrow> ec_waiting e \<and> \<not> es_replying e \<and> ec_todo e \<noteq> [] \<and> es_todo e = tl (ec_todo e) \<and>
     contents (ch_wr (ec_client e)) = [] \<and> contents (ch_wr (es_server e)) = echo_msg (hd (ec_todo e))"

definition echo_at :: "nat \<Rightarrow> u32 list \<Rightarrow> phase \<Rightarrow> echo \<Rightarrow> bool" where
  "echo_at cap lens ph e \<longleftrightarrow> in_phase ph e \<and> ring_wf cap (ch_wr (ec_client e)) \<and> ring_wf cap (ch_wr (es_server e)) \<and>
     ch_rd (es_server e) = ch_wr (ec_client e) \<and> ch_rd (ec_client e) = ch_wr (es_server e) \<and> ec_send_buf e = replicate (max_write_size cap) 66 \<and>
     length (ec_recv_buf e) = max_write_size cap \<and> length (es_buf e) = max_write_size cap \<and> set (ec_results e) \<subseteq> {0} \<and>
     (\<exists>fin. lens = fin @ ec_todo e \<and> ec_echoes e = map echo_msg fin)"

definition steps_left :: "phase \<Rightarrow> echo \<Rightarrow> nat" where
  "steps_left ph e = 4 * length (ec_todo e) - phase_no ph"

lemma put_empty:
  assumes "ring_wf cap (ch_wr ch)" "contents (ch_wr ch) = []" "n \<noteq> 0" "unat n \<le> max_write_size cap" "take (unat n) src = echo_msg n"
  shows "\<exists>rg. RingChannel_TryWrite cap ch (Some src) n = Some (0, ch\<lparr>ch_wr := rg\<rparr>) \<and> ring_wf cap rg \<and> contents rg = echo_msg n"
proof -
  have "used (ch_wr ch) = 0" using assms(2) by (metis length_contents list.size(3))
  moreover have "unat n \<le> length src" using arg_cong [OF assms(5), of length] by simp
  moreover have "unat n \<le> cap" using assms(4) div_le_dividend [of cap 2] unfolding max_write_size_def by linarith
  ultimately show ?thesis
    using RingBuf_TryWrite_accept [OF assms(1,3,4), of src] assms(2,5) by (auto simp: RingChannel_TryWrite_def)
qed

lemma get_all:
  assumes "ring_wf cap (ch_rd ch)" "contents (ch_rd ch) = echo_msg n"
  shows "\<exists>rg. RingChannel_ReadExact cap ch n = Some (0, echo_msg n, ch\<lparr>ch_rd := rg\<rparr>) \<and> ring_wf cap rg \<and> contents rg = []"
proof -
  have "unat n \<le> used (ch_rd ch)" using assms(2) by (metis length_contents length_replicate order_refl)
  then show ?thesis using RingBuf_ReadExact_contents [OF assms(1), of n] assms(2) by (auto simp: RingChannel_ReadExact_def)
qed

lemma get_nothing:
  assumes "contents (ch_rd ch) = []" "n \<noteq> 0"
  shows "RingChannel_ReadExact cap ch n = Some (-1, [], ch)"
proof -
  have "used (ch_rd ch) = 0" using assms(1) by (metis length_contents list.size(3))
  then show ?thesis using RingBuf_ReadExact_short [of "ch_rd ch" n cap] assms(2) by (simp add: RingChannel_ReadExact_def unat_gt_0)
qed

lemma buf_put: "length buf = max_write_size cap \<Longrightarrow> unat n \<le> max_write_size cap \<Longrightarrow>
    \<exists>b. mem_write buf 0 (echo_msg n) = Some b \<and> length b = max_write_size cap \<and> take (unat n) b = echo_msg n"
  by (simp add: mem_write_def)

lemma echo_len: "lengths_ok cap lens \<Longrightarrow> echo_at cap lens ph e \<Longrightarrow> ec_todo e = n # r \<Longrightarrow> n \<noteq> 0 \<and> unat n \<le> max_write_size cap"
  by (auto simp: echo_at_def lengths_ok_def)

lemma client_turn_echo:
  assumes "lengths_ok cap lens" "echo_at cap lens ph e"
  shows "\<exists>e' ph'. echo_client_turn cap e = Some e' \<and> echo_at cap lens ph' e' \<and> steps_left ph' e' \<le> steps_left ph e \<and>
     (ec_todo e \<noteq> [] \<and> (ph = Idle \<or> ph = Replied) \<longrightarrow> steps_left ph' e' < steps_left ph e) \<and> (ph = Sent \<or> ph = Got \<longrightarrow> e' = e \<and> ph' = ph)"
proof (cases "ec_todo e")
  case Nil
  then show ?thesis using assms(2) by (intro exI [of _ e] exI [of _ ph]) (simp add: echo_client_turn_def)
next
  case (Cons n r)
  note n = echo_len [OF assms Cons] and a = assms(2) [unfolded echo_at_def]
  show ?thesis
  proof (cases ph)
    case Idle
    have "contents (ch_wr (ec_client e)) = []" "take (unat n) (ec_send_buf e) = echo_msg n" using a Idle n by simp_all
    with put_empty [of cap "ec_client e" n "ec_send_buf e"] a n obtain rg where
      "RingChannel_TryWrite cap (ec_client e) (Some (ec_send_buf e)) n = Some (0, (ec_client e)\<lparr>ch_wr := rg\<rparr>)" "ring_wf cap rg" "contents rg = echo_msg n" by auto
    then show ?thesis
      using a Cons Idle by (auto simp: echo_client_turn_def echo_at_def steps_left_def intro!: exI [of _ Sent])
  next
    case Replied
    with get_all [of cap "ec_client e" n] a Cons obtain rg where
      "RingChannel_ReadExact cap (ec_client e) n = Some (0, echo_msg n, (ec_client e)\<lparr>ch_rd := rg\<rparr>)" "ring_wf cap rg" "contents rg = []" by auto
    moreover obtain b where "mem_write (ec_recv_buf e) 0 (echo_msg n) = Some b" "length b = max_write_size cap" using buf_put [of "ec_recv_buf e" cap n] a n by auto
    moreover obtain fin where "lens = (fin @ [n]) @ r" "ec_echoes e @ [echo_msg n] = map echo_msg (fin @ [n])" using a Cons by auto
    ultimately show ?thesis
      using a Cons Replied by (auto simp: echo_client_turn_def echo_at_def steps_left_def intro!: exI [of _ Idle])
  next
    case Sent
    then show ?thesis using get_nothing [of "ec_client e" n cap] a Cons n assms(2) by (auto simp: echo_client_turn_def)
  next
    case Got
    then show ?thesis using get_nothing [of "ec_client e" n cap] a Cons n assms(2) by (auto simp: echo_client_turn_def)
  qed
qed

lemma server_turn_echo:
  assumes "lengths_ok cap lens" "echo_at cap lens ph e"
  shows "\<exists>e' ph'. echo_server_turn cap e = Some e' \<and> echo_at cap lens ph' e' \<and> steps_left ph' e' \<le> steps_left ph e \<and>
     (ph = Sent \<or> ph = Got \<longrightarrow> steps_left ph' e' < steps_left ph e)"
proof (cases "ec_todo e")
  case Nil
  then show ?thesis
    using assms(2) by (intro exI [of _ e] exI [of _ ph]; cases ph) (auto simp: echo_server_turn_def echo_at_def)
next
  case (Cons n r)
  note n = echo_len [OF assms Cons] and a = assms(2) [unfolded echo_at_def]
  show ?thesis
  proof (cases ph)
    case Sent
    with get_all [of cap "es_server e" n] a Cons obtain rg where
      "RingChannel_ReadExact cap (es_server e) n = Some (0, echo_msg n, (es_server e)\<lparr>ch_rd := rg\<rparr>)" "ring_wf cap rg" "contents rg = []" by auto
    moreover obtain b where "mem_write (es_buf e) 0 (echo_msg n) = Some b" "length b = max_write_size cap" "take (unat n) b = echo_msg n"
      using buf_put [of "es_buf e" cap n] a n by auto
    ultimately show ?thesis
      using a Cons Sent by (auto simp: echo_server_turn_def echo_at_def steps_left_def intro!: exI [of _ Got])
  next
    case Got
    with put_empty [of cap "es_server e" n "es_buf e"] a n Cons obtain rg where
      "RingChannel_TryWrite cap (es_server e) (Some (es_buf e)) n = Some (0, (es_server e)\<lparr>ch_wr := rg\<rparr>)" "ring_wf cap rg" "contents rg = echo_msg n" by auto
    then show ?thesis
      using a Cons Got by (auto simp: echo_server_turn_def echo_at_def steps_left_def intro!: exI [of _ Replied])
  next
    case Idle
    then show ?thesis
      using get_nothing [of "es_server e" n cap] a Cons n assms(2) by (intro exI [of _ e] exI [of _ ph]) (auto simp: echo_server_turn_def)
  next
    case Replied
    have "m \<noteq> 0" if "r = m # r'" for m r' using a Cons that assms(1) by (auto simp: lengths_ok_def)
    then show ?thesis
      using get_nothing [of "es_server e" _ cap] a Cons Replied assms(2)
      by (intro exI [of _ e] exI [of _ ph]) (auto simp: echo_server_turn_def split: list.splits)
  qed
qed

lemma echo_run_at:
  "lengths_ok cap lens \<Longrightarrow> echo_at cap lens ph e \<Longrightarrow> \<exists>e' ph'. echo_run cap ts e = Some e' \<and> echo_at cap lens ph' e'"
proof (induction ts arbitrary: e ph)
  case (Cons t ts)
  obtain e1 ph1 where "(if t then echo_client_turn cap e else echo_server_turn cap e) = Some e1" "echo_at cap lens ph1 e1"
    using client_turn_echo [OF Cons.prems] server_turn_echo [OF Cons.prems] by (cases t) auto
  then show ?case using Cons.IH Cons.prems(1) by auto
qed auto

lemma echo_both:
  assumes "lengths_ok cap lens" "echo_at cap lens ph e"
  shows "\<exists>e' ph'. echo_run cap [True, False] e = Some e' \<and> echo_at cap lens ph' e' \<and> steps_left ph' e' \<le> steps_left ph e - 1"
proof -
  obtain e1 ph1 where c: "echo_client_turn cap e = Some e1" "echo_at cap lens ph1 e1" "steps_left ph1 e1 \<le> steps_left ph e"
    "ec_todo e \<noteq> [] \<and> (ph = Idle \<or> ph = Replied) \<longrightarrow> steps_left ph1 e1 < steps_left ph e" "ph = Sent \<or> ph = Got \<longrightarrow> e1 = e \<and> ph1 = ph"
    using client_turn_echo [OF assms] by blast
  obtain e2 ph2 where s: "echo_server_turn cap e1 = Some e2" "echo_at cap lens ph2 e2" "steps_left ph2 e2 \<le> steps_left ph1 e1"
    "ph1 = Sent \<or> ph1 = Got \<longrightarrow> steps_left ph2 e2 < steps_left ph1 e1"
    using server_turn_echo [OF assms(1) c(2)] by blast
  have "steps_left ph e = 0 \<or> steps_left ph2 e2 < steps_left ph e"
    using c(3-5) s(3,4) by (cases ph; cases "ec_todo e = []") (auto simp: steps_left_def)
  then have "steps_left ph2 e2 \<le> steps_left ph e - 1" using c(3) s(3) by auto
  then show ?thesis using c(1) s(1,2) by auto
qed

lemma echo_run_append: "echo_run cap (ts @ us) e = Option.bind (echo_run cap ts e) (echo_run cap us)"
  by (induction ts arbitrary: e) (simp_all split: Option.bind_split)

lemma echo_in_turns:
  "lengths_ok cap lens \<Longrightarrow> echo_at cap lens ph e \<Longrightarrow>
     \<exists>e' ph'. echo_run cap (in_turns n) e = Some e' \<and> echo_at cap lens ph' e' \<and> steps_left ph' e' \<le> steps_left ph e - n"
proof (induction n arbitrary: e ph)
  case (Suc n)
  obtain e1 ph1 where e1: "echo_run cap [True, False] e = Some e1" "echo_at cap lens ph1 e1" "steps_left ph1 e1 \<le> steps_left ph e - 1"
    using echo_both [OF Suc.prems] by blast
  obtain e' ph' where e': "echo_run cap (in_turns n) e1 = Some e'" "echo_at cap lens ph' e'" "steps_left ph' e' \<le> steps_left ph1 e1 - n"
    using Suc.IH [OF Suc.prems(1) e1(2)] by blast
  have "echo_run cap ([True, False] @ in_turns n) e = Some e'" using e1(1) e'(1) unfolding echo_run_append by simp
  then show ?case using e'(2,3) e1(3) by (intro exI [of _ e'] exI [of _ ph']) (simp add: in_turns_def)
qed (auto simp: in_turns_def)

section \<open>The programs over a socket pair\<close>

text \<open>\<open>RunServer\<close> and \<open>RunClient\<close> of \<open>bench_socket.cpp\<close>, over the message sizes of their rounds.\<close>

fun sock_echo_server :: "nat list \<Rightarrow> bytes \<Rightarrow> sock \<Rightarrow> (bytes \<times> sock) run" where
  "sock_echo_server [] buf s = Done (buf, s)"
| "sock_echo_server (n # ns) buf s = seqr (ReadAll buf n s) (\<lambda>(buf1, s1).
     seqr (WriteAll buf1 n s1) (\<lambda>s2. sock_echo_server ns buf1 s2))"

fun sock_echo_client :: "nat list \<Rightarrow> bytes \<Rightarrow> bytes \<Rightarrow> sock \<Rightarrow> (bytes \<times> sock) run" where
  "sock_echo_client [] send_buf recv_buf s = Done (recv_buf, s)"
| "sock_echo_client (n # ns) send_buf recv_buf s = seqr (WriteAll send_buf n s) (\<lambda>s1.
     seqr (ReadAll recv_buf n s1) (\<lambda>(recv_buf1, s2). sock_echo_client ns send_buf recv_buf1 s2))"

lemma ReadAll_prefix:
  assumes "sk_in s = xs @ rest" "length xs \<le> length buf" "list_all moves (sk_rd s)"
  shows "\<exists>s'. ReadAll buf (length xs) s = Done (xs @ drop (length xs) buf, s') \<and> sk_in s' = rest \<and> sk_out s' = sk_out s \<and>
     sk_wr s' = sk_wr s \<and> list_all moves (sk_rd s')"
  using rall.rd_prefix [OF assms(1) refl assms(2,3)] by (auto simp: ReadAll_flag_def dest!: seqr_Done)

lemma sock_echo_server_echoes:
  "\<lbrakk>list_all moves (sk_rd s); list_all moves (sk_wr s); \<forall>x \<in> set xss. length x \<le> length buf; sk_in s = concat xss @ rest\<rbrakk> \<Longrightarrow>
     \<exists>buf' s'. sock_echo_server (map length xss) buf s = Done (buf', s') \<and> sk_out s' = sk_out s @ concat xss \<and> sk_in s' = rest"
proof (induction xss arbitrary: buf s)
  case (Cons x xss)
  obtain s1 where s1: "ReadAll buf (length x) s = Done (x @ drop (length x) buf, s1)" "sk_in s1 = concat xss @ rest" "sk_out s1 = sk_out s"
    "sk_wr s1 = sk_wr s" "list_all moves (sk_rd s1)" using ReadAll_prefix [of s x "concat xss @ rest" buf] Cons.prems by auto
  obtain s2 where s2: "WriteAll (x @ drop (length x) buf) (length x) s1 = Done s2" "sk_out s2 = sk_out s @ x" "sk_in s2 = sk_in s1" "sk_rd s2 = sk_rd s1"
    "list_all moves (sk_wr s2)" using WriteAll_steady [of "length x" "x @ drop (length x) buf" s1] s1(3,4) Cons.prems(2) by auto
  have "\<forall>y \<in> set xss. length y \<le> length (x @ drop (length x) buf)" using Cons.prems(3) by auto
  from Cons.IH [OF _ s2(5) this] s1 s2 show ?case by auto
qed auto

lemma sock_echo_client_gets:
  "\<lbrakk>list_all moves (sk_rd s); list_all moves (sk_wr s); \<forall>n \<in> set ns. n \<le> length send_buf \<and> n \<le> length recv_buf;
    sk_in s = concat (map (\<lambda>n. take n send_buf) ns) @ rest\<rbrakk> \<Longrightarrow>
     \<exists>recv' s'. sock_echo_client ns send_buf recv_buf s = Done (recv', s') \<and> sk_out s' = sk_out s @ concat (map (\<lambda>n. take n send_buf) ns) \<and> sk_in s' = rest"
proof (induction ns arbitrary: recv_buf s)
  case (Cons n ns)
  let ?x = "take n send_buf"
  have l: "length ?x = n" using Cons.prems(3) by simp
  obtain s1 where s1: "WriteAll send_buf n s = Done s1" "sk_out s1 = sk_out s @ ?x" "sk_in s1 = sk_in s" "sk_rd s1 = sk_rd s" "list_all moves (sk_wr s1)"
    using WriteAll_steady [of n send_buf s] Cons.prems(2,3) by auto
  have "sk_in s1 = ?x @ (concat (map (\<lambda>n. take n send_buf) ns) @ rest)" using s1(3) Cons.prems(4) by simp
  from ReadAll_prefix [OF this, of recv_buf] obtain s2 where s2: "ReadAll recv_buf n s1 = Done (?x @ drop n recv_buf, s2)"
    "sk_in s2 = concat (map (\<lambda>n. take n send_buf) ns) @ rest" "sk_out s2 = sk_out s @ ?x" "sk_wr s2 = sk_wr s1" "list_all moves (sk_rd s2)"
    using s1 Cons.prems(1,3) l by auto
  have "\<forall>m \<in> set ns. m \<le> length send_buf \<and> m \<le> length (?x @ drop n recv_buf)" using Cons.prems(3) by auto
  from Cons.IH [OF s2(5) _ this s2(2)] s1 s2 show ?case by auto
qed auto

text \<open>Both ends together: what the client writes makes the server write what the client has to read.\<close>

lemma sock_echo_pair:
  assumes "list_all moves (sk_rd a)" "list_all moves (sk_wr a)" "list_all moves (sk_rd b)" "list_all moves (sk_wr b)"
    and "\<forall>n \<in> set ns. n \<le> length send_buf \<and> n \<le> length recv_buf \<and> n \<le> length buf" "sk_out a = []" "sk_out b = []"
    and "sk_in a = concat (map (\<lambda>n. take n send_buf) ns)" "sk_in b = sk_in a"
  shows "\<exists>recv' a' buf' b'. sock_echo_client ns send_buf recv_buf a = Done (recv', a') \<and> sock_echo_server ns buf b = Done (buf', b') \<and>
     sk_out a' = sk_in b \<and> sk_out b' = sk_in a"
proof -
  have m: "map length (map (\<lambda>n. take n send_buf) ns) = ns" using assms(5) by (induction ns) auto
  obtain recv' a' where "sock_echo_client ns send_buf recv_buf a = Done (recv', a')" "sk_out a' = sk_in a"
    using sock_echo_client_gets [of a ns send_buf recv_buf "[]"] assms by auto
  moreover obtain buf' b' where "sock_echo_server ns buf b = Done (buf', b')" "sk_out b' = sk_in a"
    using sock_echo_server_echoes [of b "map (\<lambda>n. take n send_buf) ns" buf "[]"] assms m by auto
  ultimately show ?thesis using assms(9) by auto
qed

section \<open>Properties\<close>

text \<open>
  The ping-pong over two rings, in every order of the two programs: the calls of \<open>TryWrite\<close> whose
  result the client ignores have all succeeded, no access is out of bounds, and the client
  has received for each round it has finished exactly the message it sent. After four turns
  of both for each round to go, all rounds are finished on both sides and the rings are empty.
\<close>

theorem echo_bench:
  assumes "lengths_ok cap lens" "ring_wf cap (ch_wr c)" "ring_wf cap (ch_wr s)" "used (ch_wr c) = 0" "used (ch_wr s) = 0"
    and "ch_rd s = ch_wr c" "ch_rd c = ch_wr s"
  shows "\<exists>e e' k. echo_run cap ts (echo_start cap lens c s) = Some e \<and> set (ec_results e) \<subseteq> {0} \<and>
     ec_todo e = drop k lens \<and> ec_echoes e = map (\<lambda>n. replicate (unat n) 66) (take k lens) \<and>
     echo_run cap (in_turns (4 * length lens)) e = Some e' \<and> ec_todo e' = [] \<and> es_todo e' = [] \<and> set (ec_results e') \<subseteq> {0} \<and>
     ec_echoes e' = map (\<lambda>n. replicate (unat n) 66) lens \<and> used (ch_wr (ec_client e')) = 0 \<and> used (ch_wr (es_server e')) = 0"
proof -
  have "echo_at cap lens Idle (echo_start cap lens c s)" using assms(2-7) by (simp add: echo_at_def echo_start_def)
  from echo_run_at [OF assms(1) this, of ts] obtain e ph where e: "echo_run cap ts (echo_start cap lens c s) = Some e" "echo_at cap lens ph e" by blast
  from echo_in_turns [OF assms(1) e(2), of "4 * length lens"] obtain e' ph' where
    e': "echo_run cap (in_turns (4 * length lens)) e = Some e'" "echo_at cap lens ph' e'" "steps_left ph' e' \<le> steps_left ph e - 4 * length lens" by blast
  obtain fin where fin: "lens = fin @ ec_todo e" "ec_echoes e = map echo_msg fin" using e(2) by (auto simp: echo_at_def)
  have "steps_left ph e \<le> 4 * length lens" using fin(1) by (simp add: steps_left_def)
  then have "steps_left ph' e' = 0" using e'(3) by simp
  then have td: "ec_todo e' = []" by (cases "ec_todo e'"; cases ph') (auto simp: steps_left_def)
  then have p: "es_todo e' = [] \<and> contents (ch_wr (ec_client e')) = [] \<and> contents (ch_wr (es_server e')) = []"
    using e'(2) by (cases ph') (auto simp: echo_at_def)
  then have "used (ch_wr (ec_client e')) = 0" "used (ch_wr (es_server e')) = 0" by simp_all
  then show ?thesis using e e' td p fin by (intro exI [of _ e] exI [of _ e'] exI [of _ "length fin"]) (auto simp: echo_at_def)
qed

theorem echo_bench_witness:
  "\<exists>e e' k. echo_run (8 * 1024 * 1024) [False, True, True] (echo_start (8 * 1024 * 1024) (echo_lengths kTests) bench_channel bench_channel) = Some e \<and>
     ec_todo e = drop k (echo_lengths kTests) \<and>
     echo_run (8 * 1024 * 1024) (in_turns (4 * length (echo_lengths kTests))) e = Some e' \<and> ec_todo e' = [] \<and> es_todo e' = []"
  using echo_bench [OF kTests_ok bench_channel_ok(1,1,2,2,3,3), of "[False, True, True]"] by blast

end
