(* ===== verification/Spec2Isabelle.thy ===== *)
theory Spec2Isabelle
  imports Spsc Message_Codec Async_Client Sync_Client Startup Echo_App Echo_Bench
begin

text \<open>
  \<^bold>\<open>shm-cpp\<close> is a header-only C++ library for inter-process communication over shared memory.
  This development models the library (\<open>src/include/shm_ipc/\<close> and the interfaces of
  \<open>src/include/comm/\<close>) and the programs that use it (\<open>src/src/\<close>, \<open>src/bench/\<close>) as HOL functions and relations
  and proves what makes them correct.

  \<^bold>\<open>The program.\<close> Two processes exchange file descriptors over a Unix socket (handshake) and then
  share two single-producer single-consumer byte rings, one per direction, with an eventfd each
  to wake the reader. A channel bundles the two rings. On top of a channel there are two
  stacks: frames with typed codecs (\<open>PodCodec\<close>, \<open>ProtoCodec\<close>) for direct use, and connections
  with a pluggable codec, driven by a poll loop, for servers and clients. The socket stays open
  only to detect that the peer is gone.

  \<^bold>\<open>The theories\<close>, each over the ones it uses:

  \<^item> \<open>Shm_Prelude\<close>: types of machine integers and bytes, checked memory access (\<open>mem_read\<close>,
    \<open>mem_write\<close>: \<open>None\<close> is an access out of bounds), little-endian fields, the three-valued
    outcome of code that may throw, and the lemmas on words, lists and rings they all share.
  \<^item> \<open>Byte_Fifo\<close>: the abstract bounded byte queue as a locale, with the stream theorem proved once;
    interpreted by the ring and by the batch writer.
  \<^item> \<open>Ringbuf\<close>, \<open>Batch_Writer\<close> (\<open>ringbuf.hpp\<close>): the ring with its two 64-bit positions, its data
    area and every operation; the batch writer with rewind and in-place reservation.
  \<^item> \<open>Spsc\<close> (\<open>ringbuf.hpp\<close>): producer and consumer as interleaved steps of single loads, stores
    and byte copies; no race, no lost or torn byte, and refinement to the ring's operations.
  \<^item> \<open>Ring_Channel\<close> (\<open>ring_channel.hpp\<close>): the channel's data operations, notification and batches.
  \<^item> \<open>Common\<close> (\<open>common.hpp\<close>): descriptor table, kernel objects, \<open>UniqueFd\<close>, \<open>MmapRegion\<close>, memfds,
    descriptor passing, URIs and socket set-up. System calls take their results from a script
    in the state, so that every failure is a case of the model.
  \<^item> \<open>Handshake\<close> (\<open>ring_channel.hpp\<close>): \<open>CreateRingChannel\<close> for both roles with its exceptions and
    destructors, a small program logic for it, and its two theorems: both ends share the two
    rings and eventfds crosswise, and a failed handshake leaves no descriptor or mapping behind.
  \<^item> \<open>Frame_Codec\<close> (\<open>codec.hpp\<close>), \<open>Frame_Reader\<close> (\<open>frame_reader.hpp\<close>): frames in memory and in a
    channel, the zero-copy reader, its safety against corrupted shared memory. \<open>producer_step\<close> is
    whatever the producing end may do (writes, frames, batches); a payload read in place stays
    as it is under any sequence of such steps.
  \<^item> \<open>Recv_Loop\<close>, \<open>Pod_Codec\<close>, \<open>Proto_Codec\<close> (\<open>pod_codec.hpp\<close>, \<open>proto_codec.hpp\<close>): typed messages; the
    loop that skips frames of other types is a locale that both codecs interpret. A decoder has
    three outcomes: an access out of bounds, a frame that is dropped, a message; the locale
    demands that the first does not happen, and the interpretations prove it. A frame that wraps
    around and is larger than the reader's buffer is skipped, and its message is lost: the round
    trips state that case.
  \<^item> \<open>Wire_Format\<close>, \<open>Parse_Context\<close> (\<open>io/coded_stream.h\<close>, \<open>stubs/port.h\<close>, \<open>wire_format_lite.h\<close>, \<open>parse_context.h\<close> in
    \<open>src/3rd/protobuf/include/google/protobuf/\<close>): the inline code that the generated messages run: base-128
    integers, tags, sizes, the output stream over an array, the input stream and the parse loop; a
    message's code for its fields is the locale \<open>message_parser\<close>. \<open>Flat_Stream\<close>: a library for which the
    hypotheses about compiled functions hold.
  \<^item> \<open>Proto_Messages\<close>, \<open>Proto_Parse\<close> (\<open>src/proto/shm_messages.pb.h\<close>, \<open>src/proto/shm_messages.pb.cc\<close>): the two generated
    messages, writing and parsing; both interpret \<open>message_parser\<close>. \<open>Message_Codec\<close>: \<open>ProtoCodec\<close> on
    these messages, and the protobuf branches of \<open>server.cpp\<close> and \<open>client.cpp\<close>.
  \<^item> \<open>Comm_Types\<close> (\<open>comm/types.h\<close>, \<open>comm/codec.h\<close>), \<open>Simple_Pod_Codec\<close> (\<open>simple_pod_codec.hpp\<close>): the
    dynamically typed codec interface and its implementation.
  \<^item> \<open>Event_Loop\<close> (\<open>event_loop.hpp\<close>): registration, timers, tombstones and the poll loop.
  \<^item> \<open>Connection\<close>, \<open>Conn_Stream\<close> (\<open>shm_connection.hpp\<close>): the connection's state machine, sending
    with growing buffers, draining the ring through the codec, verification timer; the stream
    between two connections for any codec that meets the locale \<open>stream_codec\<close>.
  \<^item> \<open>Server\<close> (\<open>shm_server.hpp\<close>): connection table, accepting, the handshake thread with its queues,
    shutdown; all interleavings of the two threads as \<open>server_step\<close>. A step is a critical section
    or a notification; the thread sleeps on its condition variable until it is notified, and a
    handshake ends by itself only on a socket that \<open>Stop\<close> has shut down, so that the theorem that
    \<open>join\<close> returns rests on both. \<open>Stop\<close> has three parts around \<open>notify_all\<close> and \<open>join\<close>.
  \<^item> \<open>Async_Client\<close> (\<open>shm_async_client.hpp\<close>), \<open>Sync_Client\<close> (\<open>shm_client.hpp\<close>): the two clients.
  \<^item> \<open>Realtime\<close> (\<open>src/server.cpp\<close>, \<open>src/client.cpp\<close>, \<open>client_state.hpp\<close>, \<open>messages.hpp\<close>): the handlers of the
    stand-alone server and client, which use frames, codecs and the loop without connections; how a
    heartbeat is sent is the locale \<open>heartbeat_sender\<close>, and how messages are decoded as well the
    locale \<open>realtime_io\<close>, interpreted by \<open>PodCodec\<close> here; \<open>Message_Codec\<close> shows that \<open>ProtoCodec\<close> meets it.
  \<^item> \<open>Startup\<close> (\<open>shm_client.hpp\<close>, \<open>src/server.cpp\<close>, \<open>src/client.cpp\<close>, \<open>src/socket_server.cpp\<close>, \<open>src/socket_client.cpp\<close>): opening
    sockets, connecting with handshake and giving everything back, over \<open>Common\<close> and \<open>Handshake\<close>; what
    \<open>main\<close> does around the loop.
  \<^item> \<open>Socket_Io\<close>, \<open>Socket_Bench\<close> (\<open>bench_common.hpp\<close>, \<open>src/socket_server.cpp\<close>, \<open>src/socket_client.cpp\<close>): blocking transfers
    over a socket that may be short, interrupted or fail, and the throughput test over a socket.
  \<^item> \<open>Shm_Bench\<close> (\<open>RunBench\<close> of \<open>src/server.cpp\<close> and \<open>src/client.cpp\<close>): the throughput test over a ring, in all orders of
    the passes of its two programs.
  \<^item> \<open>Echo_App\<close> (\<open>src/app_server.cpp\<close>, \<open>src/app_client.cpp\<close>): the applications on top of server and asynchronous client,
    with the round trip of a message through codec, connections and rings.
  \<^item> \<open>Bulk_Transfer\<close>, \<open>Echo_Bench\<close> (\<open>src/bench/\<close>): the benchmarks' writers and readers, as instances of the locale
    \<open>bulk\<close>, and the ping-pong over two rings and over a socket.

  \<^bold>\<open>State and operations.\<close> A class is a record with its fields; an operation is a function from the
  arguments and the state to the result and the new state, with the name of the C++ function
  (prefixed by the class where names clash). \<open>None\<close> means that the C++ code would access memory
  out of bounds or fail an assertion; theorems that an operation is defined show that this does
  not happen. Exceptions are values (\<open>Throw\<close>, or a flag that is false). The capacity, a template
  parameter, is the argument \<open>cap\<close>, with the static assertions as \<open>cap_ok\<close>. Positions and lengths
  are words of their C++ width, so that wrap-around is the one of the code. Application callbacks
  are functions from what happened before to a list of operations on the connection or the loop,
  one of which is to throw.

  \<^bold>\<open>What is shown.\<close> For the data path: bytes are neither lost, duplicated, reordered nor torn at
  each level (ring, batch, interleaved threads, frame, typed message, connection, blocking
  client), writes are all or nothing, reads stay in bounds also for corrupted input where the
  code promises it, and loops end. For the messages: the generated serializer fills exactly the computed
  size, the generated parser returns on every input and restores what was serialized. For the control path: the loop calls only live entries; a
  removed descriptor is never called again; closed connections are quiet and their callbacks are
  called once; the handshake connects the right objects and releases everything on failure; the
  server keeps its limit, forgets no completed handshake, leaks no socket, and its shutdown ends;
  clients close completely, and a blocking read returns when it has to. For the programs: the
  echo application answers every message in order; the throughput tests count what was sent and
  end under every fair order of their programs; the socket server stays in bounds whatever its
  peer sends; a client object leaks no descriptor over any sequence of failing and succeeding attempts.

  \<^bold>\<open>Loops and fuel.\<close> There is no fuel. Loops that end by construction are \<open>fun\<close> or \<open>function\<close> with a
  measure (bytes left to send, buffer growth up to its maximum). Loops that end because of what
  the shared ring or the input contains (\<open>DrainRing\<close>, \<open>Recv\<close>, \<open>parse_loop\<close>) are \<open>partial_function (option)\<close>, and that they
  return is proved. Loops that wait for their environment (\<open>Run\<close>, \<open>ReadMessage\<close>, the handshake
  thread) are modelled one pass at a time.

  \<^bold>\<open>Assumptions.\<close> Loads and stores of the positions are atomic with acquire and release order, so
  that interleaving of steps is the right notion of concurrency (\<open>Spsc\<close>); \<open>hs_mtx_\<close> makes critical
  sections atomic (\<open>Server\<close>). The compiled part of the protobuf runtime is a parameter (\<open>pb_lib\<close>, and the
  wrappers \<open>SerializeToArray\<close> and \<open>ParseFromArray\<close> in \<open>proto\<close>), with the part of its documented
  behaviour that is used as hypotheses of the theorems (\<open>pb_lib_law\<close>, \<open>ClientMsgProto_lite\<close>); it consists
  of total functions, so what it reads inside is outside the claims. Codecs supplied by
  an application are parameters, with what they must respect as hypotheses.

  \<^bold>\<open>Not modelled.\<close> Signal handlers, which only call \<open>Stop\<close>, and the bodies of \<open>main\<close> that only print or fork;
  time measurement and the reports the benchmarks compute from it; the tests, which use the
  library and contain none of it; vendored protobuf under \<open>src/3rd/\<close> except the inline code named above;
  descriptors, reflection and arenas of the generated messages;
  log output, names and \<open>RemoteAddr\<close>; calls of server or client operations from inside application
  callbacks (callbacks act on their connection or on the loop); \<open>unlink\<close>, and \<open>shutdown\<close> except for
  its record in the state of server, connection and client; the fields \<open>keepalive\<close> and \<open>conn_id\<close> of a codec,
  which the library writes and never reads. The socket programs of the throughput test read a finite
  input followed by the end of the stream, so nothing is said of a peer that never stops; the
  32-bit counters \<open>count_\<close> of a batch (unbounded here) and \<open>received\<close> of that server (wrapping
  here) are not followed beyond their range.

  \<^bold>\<open>Plan.\<close> Next are callbacks that call back into server and client, the verification timer in runs
  of server and client, and streams over the shared objects that the handshake has set up.
\<close>

end
